(* ===== verification/Prelude.thy ===== *)
theory Prelude
  imports Main "HOL-Library.Word"
begin

unbundle bit_operations_syntax

text \<open>
  Shared ground of the development: the types the Go code is written over (bytes, byte strings,
  fixed-width integers), the lemma collections the component proofs use, and the generic facts
  about lists, words and iteration that more than one component needs.

  A Go \<open>byte\<close> is an \<open>8 word\<close>, a \<open>[]byte\<close> or \<open>string\<close> is a list of bytes, \<open>uint64\<close> is a
  \<open>64 word\<close>; \<open>int\<close> values that are lengths or indices are natural numbers. A string literal
  of the source is written \<open>bs ''abc''\<close>.
\<close>

named_theorems stream_simps \<open>equations of the byte-stream components\<close>
named_theorems srv_simps \<open>equations of the NNTP command handlers\<close>

type_synonym byte = "8 word"
type_synonym bytes = "8 word list"
type_synonym u16 = "16 word"
type_synonym u32 = "32 word"
type_synonym u64 = "64 word"

abbreviation (input) TAB :: byte where "TAB \<equiv> 9"
abbreviation (input) LF :: byte where "LF \<equiv> 10"
abbreviation (input) CR :: byte where "CR \<equiv> 13"
abbreviation (input) SP :: byte where "SP \<equiv> 32"

definition bs :: "string \<Rightarrow> bytes" where
  "bs s = map of_char s"

lemma length_bs [simp]: "length (bs s) = length s"
  by (simp add: bs_def)

lemma bs_Nil [simp]: "bs [] = []" and bs_Cons [simp]: "bs (c # s) = of_char c # bs s"
  by (simp_all add: bs_def)

lemma of_char_byte: "(of_char c :: byte) = of_char d \<longleftrightarrow> c = d"
proof
  assume "(of_char c :: byte) = of_char d"
  then have "(of_nat (of_char c) :: byte) = of_nat (of_char d)" by (simp only: of_nat_of_char)
  then have "(of_char c :: nat) mod 256 = of_char d mod 256"
    by (simp add: word_of_nat_eq_iff take_bit_eq_mod del: of_char_eq_iff)
  then show "c = d" by simp
qed simp

lemma bs_eq [simp]: "bs s = bs t \<longleftrightarrow> s = t"
  unfolding bs_def by (rule inj_map_eq_map) (rule injI, simp only: of_char_byte)

lemma bs_Nil_iff [simp]: "bs s = [] \<longleftrightarrow> s = []" by (simp add: bs_def)

subsection \<open>Lists\<close>

lemma takeWhile_eq_self: "(\<forall>x\<in>set xs. P x) \<Longrightarrow> takeWhile P xs = xs"
  by (induction xs) auto

lemma dropWhile_eq_Nil: "(\<forall>x\<in>set xs. P x) \<Longrightarrow> dropWhile P xs = []"
  by (induction xs) auto

lemma take_drop_split: "i \<le> j \<Longrightarrow> take i xs @ take (j - i) (drop i xs) = take j xs"
  by (metis le_add_diff_inverse take_add)

lemma nth_drop_Cons: "i < length xs \<Longrightarrow> drop i xs = xs ! i # drop (Suc i) xs"
  by (simp add: Cons_nth_drop_Suc)

subsection \<open>Iteration\<close>

lemma funpow_swap: "(f ^^ m) ((f ^^ n) x) = (f ^^ n) ((f ^^ m) x)"
  by (metis add.commute comp_apply funpow_add)

lemma funpow_period_mod:
  assumes "\<And>x. (f ^^ N) x = x"
  shows "(f ^^ n) x = (f ^^ (n mod N)) x"
proof -
  have per: "(f ^^ (N * k)) y = y" for k y
    by (induction k arbitrary: y) (simp_all add: funpow_add assms)
  have "(f ^^ n) x = (f ^^ (n mod N + N * (n div N))) x" by simp
  also have "\<dots> = (f ^^ (n mod N)) ((f ^^ (N * (n div N))) x)"
    unfolding funpow_add by simp
  finally show ?thesis by (simp add: per)
qed

subsection \<open>Words\<close>

lemma unat_lt_2p [simp]: "unat (w :: 'a::len word) < 2 ^ LENGTH('a)"
  by (rule unsigned_less)

lemma of_nat_word_eq_iff:
  "(of_nat a :: 'a::len word) = of_nat b \<longleftrightarrow> a mod 2 ^ LENGTH('a) = b mod 2 ^ LENGTH('a)"
  by (simp add: word_of_nat_eq_iff take_bit_eq_mod)

lemma odd_uint: "odd (w :: 'a::len word) \<Longrightarrow> odd (uint w)"
  by (metis bit_0 bit_uint_iff len_gt_0)

lemma even_unat_iff [simp]: "even (unat (w :: 'a::len word)) \<longleftrightarrow> even w"
proof -
  have "bit (unat w) 0 \<longleftrightarrow> bit w 0" by (simp only: bit_unsigned_iff) (simp add: possible_bit_def)
  then show ?thesis by (simp add: bit_0)
qed

lemma and_1_neq_0: "w AND 1 \<noteq> 0 \<longleftrightarrow> odd (w :: 'a::len word)"
  by (simp add: and_one_eq odd_iff_mod_2_eq_one)

lemma u64_half: "unat (d div 2 :: u64) = unat d div 2"
  by (simp add: unat_div)

lemma odd_mult_eq_0:
  assumes "odd (w :: 'a::len word)" and "w * v = 0"
  shows "v = 0"
proof -
  have "(of_int (uint w * uint v) :: 'a word) = 0" using assms(2) by simp
  then have "2 ^ LENGTH('a) dvd uint w * uint v" by (simp only: word_of_int_eq_0_iff)
  then have "2 ^ LENGTH('a) dvd uint v"
    using odd_uint [OF assms(1)] by (simp add: coprime_dvd_mult_right_iff)
  then have "(of_int (uint v) :: 'a word) = 0" by (simp only: word_of_int_eq_0_iff)
  then show ?thesis by simp
qed

lemma unat_uminus_plus:
  "(unat (- w) + unat (w :: 'a::len word)) mod 2 ^ LENGTH('a) = 0"
  by (metis add.left_inverse unat_0 unat_word_ariths(1))

lemma unat_uminus: "w \<noteq> 0 \<Longrightarrow> unat (- w) = 2 ^ LENGTH('a) - unat (w :: 'a::len word)"
proof -
  assume w: "w \<noteq> 0"
  let ?s = "unat (- w) + unat w"
  obtain k where k: "?s = 2 ^ LENGTH('a) * k"
    using unat_uminus_plus [of w] by (meson mod_0_imp_dvd dvd_def)
  have "0 < ?s" using w by (simp add: unat_gt_0)
  then have "0 < k" unfolding k by simp
  moreover have "2 ^ LENGTH('a) * k < 2 ^ LENGTH('a) * 2"
    using unat_lt_2p [of w] unat_lt_2p [of "- w"] unfolding k [symmetric] by linarith
  then have "k < 2" by simp
  ultimately have "?s = 2 ^ LENGTH('a)" using k by simp
  then show ?thesis by linarith
qed

lemma word_mod_less: "t < b \<Longrightarrow> t mod b = (t :: 'a::len word)"
  by (simp add: word_unat_eq_iff unat_mod word_less_nat_alt)

lemma word_mod_geq: "b \<le> t \<Longrightarrow> t mod b = (t - b) mod (b :: 'a::len word)"
  by (simp add: word_unat_eq_iff unat_mod unat_sub le_mod_geq word_le_nat_alt)

lemma unat_ucast_mod: "unat (ucast w :: 'a::len word) = unat (w :: 'b::len word) mod 2 ^ LENGTH('a)"
  by (simp add: unsigned_ucast_eq take_bit_eq_mod)

lemma unat_le_max: "unat (w :: 'a::len word) \<le> 2 ^ LENGTH('a) - 1"
  using unat_lt_2p [of w] by linarith

end
