(* ===== verification/Pcg.thy ===== *)
theory Pcg
  imports Prelude
begin

unbundle bit_operations_syntax

text \<open>
  The PCG family of generators: \<open>src/nksrv/lib/utils/pcg\<close>.

  The state types \<open>xuint128\<close>, \<open>PCG32\<close>, \<open>PCG32s\<close>, \<open>PCG32x2\<close>, \<open>PCG64\<close>, \<open>PCG64s\<close> are records with
  the source's fields; a method with a pointer receiver returns the new state. The arithmetic of
  \<open>math/bits\<close> the code uses (\<open>Add64\<close>, \<open>Mul64\<close>, \<open>RotateLeft32\<close>, \<open>RotateLeft64\<close>) is written out.
  The rejection loops of \<open>Bounded\<close> and \<open>slowBounded\<close> may a priori run forever, so they are partial
  functions with \<open>None\<close> for "does not return"; that they return is proved.

  The locale \<open>lcg\<close> holds the number theory of the linear congruential step (period, jump ahead,
  full cycle) and is interpreted at the multipliers of the code; \<open>recurrent_gen\<close> is what the
  rejection loops need of a generator and is interpreted at all four single-stream generators.
\<close>

subsection \<open>math/bits\<close>

definition Add64 :: "u64 \<Rightarrow> u64 \<Rightarrow> u64 \<Rightarrow> u64 \<times> u64" where
  "Add64 x y carry =
     (x + y + carry, of_nat ((unat x + unat y + unat carry) div 2 ^ 64))"

definition Mul64 :: "u64 \<Rightarrow> u64 \<Rightarrow> u64 \<times> u64" where
  "Mul64 x y = (of_nat (unat x * unat y div 2 ^ 64), x * y)"

definition RotateLeft32 :: "u32 \<Rightarrow> int \<Rightarrow> u32" where
  "RotateLeft32 x k = (let s = nat (k mod 32) in push_bit s x OR drop_bit (32 - s) x)"

definition RotateLeft64 :: "u64 \<Rightarrow> int \<Rightarrow> u64" where
  "RotateLeft64 x k = (let s = nat (k mod 64) in push_bit s x OR drop_bit (64 - s) x)"

subsection \<open>xuint128.go\<close>

record xuint128 =
  xhi :: u64
  xlo :: u64

definition xadd :: "xuint128 \<Rightarrow> xuint128 \<Rightarrow> xuint128" where
  "xadd x y =
     (let (l, carry) = Add64 (xlo x) (xlo y) 0;
          (h, _) = Add64 (xhi x) (xhi y) carry
      in \<lparr>xhi = h, xlo = l\<rparr>)"

definition xmultiply :: "xuint128 \<Rightarrow> xuint128 \<Rightarrow> xuint128" where
  "xmultiply x y =
     (let (h, l) = Mul64 (xlo x) (xlo y);
          h = h + xhi x * xlo y;
          h = h + xlo x * xhi y
      in \<lparr>xhi = h, xlo = l\<rparr>)"

definition val128 :: "xuint128 \<Rightarrow> nat" where
  "val128 x = unat (xhi x) * 2 ^ 64 + unat (xlo x)"

definition to128 :: "xuint128 \<Rightarrow> 128 word" where
  "to128 x = of_nat (val128 x)"

lemma val128_lt: "val128 x < 2 ^ 128"
proof -
  have "unat (xhi x) \<le> 2 ^ 64 - 1" "unat (xlo x) < 2 ^ 64"
    using unat_lt_2p [of "xhi x"] unat_lt_2p [of "xlo x"] by simp_all
  then show ?thesis by (simp add: val128_def)
qed

lemma unat_to128 [simp]: "unat (to128 x) = val128 x"
  using val128_lt [of x] by (simp add: to128_def unat_of_nat)

lemma val128_inj: "val128 x = val128 y \<Longrightarrow> x = y"
proof -
  assume a: "val128 x = val128 y"
  have b: "val128 z div 2 ^ 64 = unat (xhi z)" "val128 z mod 2 ^ 64 = unat (xlo z)" for z
    using unat_lt_2p [of "xlo z"] by (simp_all add: val128_def)
  have "unat (xhi x) = unat (xhi y)" "unat (xlo x) = unat (xlo y)"
    using a b by metis+
  then show ?thesis by (cases x, cases y) (simp add: word_unat_eq_iff)
qed

lemma to128_inj: "to128 x = to128 y \<longleftrightarrow> x = y"
  by (metis unat_to128 val128_inj)

definition of128 :: "128 word \<Rightarrow> xuint128" where
  "of128 w = \<lparr>xhi = of_nat (unat w div 2 ^ 64), xlo = of_nat (unat w)\<rparr>"

lemma to128_of128 [simp]: "to128 (of128 w) = w"
proof -
  have "unat w div 2 ^ 64 < 2 ^ 64"
    using unat_lt_2p [of w] by (simp add: less_mult_imp_div_less)
  then have "val128 (of128 w) = unat w"
    by (simp add: val128_def of128_def unat_of_nat del: of_nat_unat)
  then show ?thesis by (simp add: to128_def)
qed

lemma split_64_128:
  "q mod 2 ^ 64 * 2 ^ 64 + r mod 2 ^ 64 = (q * 2 ^ 64 + r mod 2 ^ 64) mod (2 ^ 128 :: nat)"
proof -
  have "(q * 2 ^ 64 + r mod 2 ^ 64) mod (2 ^ 64 * 2 ^ 64)
      = 2 ^ 64 * (((q * 2 ^ 64 + r mod 2 ^ 64) div 2 ^ 64) mod 2 ^ 64)
        + (q * 2 ^ 64 + r mod 2 ^ 64) mod 2 ^ 64"
    by (rule mod_mult2_eq)
  then show ?thesis by simp
qed

lemma to128_eqI: "val128 z mod 2 ^ 128 = n mod 2 ^ 128 \<Longrightarrow> to128 z = of_nat n"
  unfolding to128_def of_nat_word_eq_iff by simp

lemma to128_xadd [simp]: "to128 (xadd x y) = to128 x + to128 y"
proof -
  let ?a = "unat (xlo x) + unat (xlo y)"
  let ?h = "unat (xhi x) + unat (xhi y) + ?a div 2 ^ 64"
  have "val128 (xadd x y) = ?h mod 2 ^ 64 * 2 ^ 64 + ?a mod 2 ^ 64"
    using unat_lt_2p [of "xlo x"] unat_lt_2p [of "xlo y"]
    by (simp add: val128_def xadd_def Add64_def unat_word_ariths unat_of_nat mod_simps)
  also have "\<dots> = (?h * 2 ^ 64 + ?a mod 2 ^ 64) mod 2 ^ 128"
    by (rule split_64_128)
  also have "?h * 2 ^ 64 + ?a mod 2 ^ 64 = val128 x + val128 y"
    using div_mult_mod_eq [of ?a "2 ^ 64"] by (simp add: val128_def algebra_simps)
  finally have "to128 (xadd x y) = of_nat (val128 x + val128 y)"
    by (intro to128_eqI) simp
  then show ?thesis by (simp add: to128_def)
qed

lemma to128_xmultiply [simp]: "to128 (xmultiply x y) = to128 x * to128 y"
proof -
  let ?l = "unat (xlo x) * unat (xlo y)"
  let ?m = "unat (xhi x) * unat (xlo y) + unat (xlo x) * unat (xhi y)"
  let ?h = "?l div 2 ^ 64 + ?m"
  have "val128 (xmultiply x y) = ?h mod 2 ^ 64 * 2 ^ 64 + ?l mod 2 ^ 64"
    by (simp add: val128_def xmultiply_def Mul64_def unat_word_ariths unat_of_nat mod_simps
          add.assoc)
  also have "\<dots> = (?h * 2 ^ 64 + ?l mod 2 ^ 64) mod 2 ^ 128"
    by (rule split_64_128)
  also have "?h * 2 ^ 64 + ?l mod 2 ^ 64 = ?l + ?m * 2 ^ 64"
    using div_mult_mod_eq [of ?l "2 ^ 64"] by (simp only: algebra_simps)
  finally have "val128 (xmultiply x y) mod 2 ^ 128 = (?l + ?m * 2 ^ 64) mod 2 ^ 128"
    by simp
  also have "\<dots> = (?l + ?m * 2 ^ 64 + unat (xhi x) * unat (xhi y) * 2 ^ 128) mod 2 ^ 128"
    by simp
  also have "?l + ?m * 2 ^ 64 + unat (xhi x) * unat (xhi y) * 2 ^ 128 = val128 x * val128 y"
    by (simp add: val128_def algebra_simps)
  finally have "to128 (xmultiply x y) = of_nat (val128 x * val128 y)"
    by (rule to128_eqI)
  then show ?thesis by (simp add: to128_def)
qed

subsection \<open>The linear congruential step\<close>

text \<open>Geometric sums: \<open>geo M n = 1 + M + \<dots> + M ^ (n - 1)\<close>.\<close>

primrec geo :: "'a::comm_semiring_1 \<Rightarrow> nat \<Rightarrow> 'a" where
  "geo M 0 = 0"
| "geo M (Suc n) = 1 + M * geo M n"

lemma geo_add: "geo M (a + b) = geo M a + M ^ a * geo M b"
  by (induction a) (simp_all add: algebra_simps)

lemma geo_power: "M ^ n = 1 + (M - 1) * geo (M :: 'a::comm_ring_1) n"
proof (induction n)
  case 0 show ?case by simp
next
  case (Suc n)
  have "M ^ Suc n = M * (1 + (M - 1) * geo M n)" using Suc by simp
  then show ?case by (simp add: algebra_simps)
qed

lemma geo_of_int: "geo (of_int M) n = (of_int (geo M n) :: 'a::comm_ring_1)"
  by (induction n) simp_all

lemma geo_parity: "odd (M :: int) \<Longrightarrow> even (geo M n) \<longleftrightarrow> even n"
  by (induction n) auto

lemma geo_pow2_dvd: "odd (M :: int) \<Longrightarrow> 2 ^ k dvd geo M (2 ^ k)"
proof (induction k)
  case 0 show ?case by simp
next
  case (Suc k)
  have "geo M (2 ^ Suc k) = geo M (2 ^ k) * (1 + M ^ 2 ^ k)"
    by (simp add: mult_2 geo_add algebra_simps)
  moreover have "2 dvd 1 + M ^ 2 ^ k" using Suc.prems by simp
  ultimately have "2 ^ k * 2 dvd geo M (2 ^ Suc k)" using Suc by (simp add: mult_dvd_mono)
  then show ?case by (simp add: mult.commute)
qed

lemma pow_mod4: "(M :: int) mod 4 = 1 \<Longrightarrow> M ^ n mod 4 = 1"
  by (metis mod_mod_trivial one_mod_numeral power_mod power_one semiring_norm(83,84))

text \<open>For \<open>M \<equiv> 1 (mod 4)\<close> the sum carries exactly the powers of two of its length.\<close>

lemma geo_dvd_iff:
  assumes "(M :: int) mod 4 = 1"
  shows "2 ^ k dvd geo M n \<longleftrightarrow> 2 ^ k dvd n"
proof (induction k arbitrary: n)
  case 0 show ?case by simp
next
  case (Suc k)
  have odd: "odd M" using assms by presburger
  show ?case
  proof (cases "even n")
    case False
    then have "odd (geo M n)" using geo_parity [OF odd] by blast
    with False show ?thesis by (metis dvd_mult_left power_Suc)
  next
    case True
    then obtain h where n: "n = h + h" by (metis evenE mult_2)
    define c where "c = (1 + M ^ h) div 2"
    have "(1 + M ^ h) mod 4 = 2" using pow_mod4 [OF assms, of h] by presburger
    then have c: "1 + M ^ h = 2 * c" "odd c" unfolding c_def by presburger+
    have "geo M n = geo M h * (1 + M ^ h)" unfolding n by (simp add: geo_add algebra_simps)
    then have "geo M n = 2 * (geo M h * c)" using c by simp
    then have "2 ^ Suc k dvd geo M n \<longleftrightarrow> 2 ^ k dvd geo M h * c" by simp
    also have "\<dots> \<longleftrightarrow> 2 ^ k dvd geo M h"
      using c(2) by (simp add: coprime_dvd_mult_left_iff)
    also have "\<dots> \<longleftrightarrow> 2 ^ k dvd h" by (rule Suc.IH)
    finally show ?thesis unfolding n by (simp flip: mult_2)
  qed
qed

definition lcg_step :: "'a::len word \<Rightarrow> 'a word \<Rightarrow> 'a word \<Rightarrow> 'a word" where
  "lcg_step m p x = x * m + p"

lemma lcg_steps: "(lcg_step m p ^^ n) x = m ^ n * x + p * geo m n"
  by (induction n) (simp_all add: lcg_step_def algebra_simps)

locale lcg =
  fixes m p :: "'a::len word"
  assumes odd_mult: "odd m"
begin

lemma geo_word: "geo m n = of_int (geo (uint m) n)"
  using geo_of_int [of "uint m" n, where 'a = "'a word"] by simp

lemma geo_zero_iff: "geo m n = 0 \<longleftrightarrow> 2 ^ LENGTH('a) dvd geo (uint m) n"
  unfolding geo_word by (simp add: word_of_int_eq_0_iff)

lemma geo_period: "geo m (2 ^ LENGTH('a)) = 0"
  using geo_pow2_dvd [OF odd_uint [OF odd_mult]] by (simp add: geo_zero_iff)

lemma period: "(lcg_step m p ^^ 2 ^ LENGTH('a)) x = x"
  using geo_period geo_power [of m "2 ^ LENGTH('a)"] by (simp add: lcg_steps)

lemma steps_mod: "(lcg_step m p ^^ n) x = (lcg_step m p ^^ (n mod 2 ^ LENGTH('a))) x"
  by (rule funpow_period_mod) (rule period)

lemma steps_inverse:
  "(lcg_step m p ^^ unat (- d)) ((lcg_step m p ^^ unat d) x) = x" for d :: "'a word"
proof -
  have "(lcg_step m p ^^ (unat (- d) + unat d)) x = x"
    by (subst steps_mod) (simp add: unat_uminus_plus)
  then show ?thesis by (simp add: funpow_add)
qed

lemma steps_back: "\<exists>k. \<forall>z. (lcg_step m p ^^ k) ((lcg_step m p ^^ n) z) = z"
proof -
  let ?N = "2 ^ LENGTH('a) :: nat"
  have "((?N - n mod ?N) + n) mod ?N = ((?N - n mod ?N) + n mod ?N) mod ?N"
    by (simp only: mod_add_right_eq)
  also have "\<dots> = 0" by (simp add: less_imp_le)
  finally have "(lcg_step m p ^^ (?N - n mod ?N)) ((lcg_step m p ^^ n) z) = z" for z
    by (metis comp_apply funpow_add funpow_0 steps_mod)
  then show ?thesis by blast
qed

lemma steps_inj: "(lcg_step m p ^^ n) x = (lcg_step m p ^^ n) y \<Longrightarrow> x = y"
  using steps_back by metis

end

text \<open>
  With \<open>m \<equiv> 1 (mod 4)\<close> and an odd increment the step is one cycle through all states.
\<close>

locale full_lcg = lcg +
  assumes mult_mod4: "uint m mod 4 = 1"
    and odd_inc: "odd p"
begin

lemma orbit_inj: "inj_on (\<lambda>n. (lcg_step m p ^^ n) 0) {0..<2 ^ LENGTH('a)}"
proof -
  have no_earlier: False
    if lt: "i < j" "j < 2 ^ LENGTH('a)" and eq: "(lcg_step m p ^^ i) 0 = (lcg_step m p ^^ j) 0" for i j
  proof -
    have "(lcg_step m p ^^ i) 0 = (lcg_step m p ^^ i) ((lcg_step m p ^^ (j - i)) 0)"
      using eq lt by (metis add_diff_inverse_nat comp_apply funpow_add less_imp_le not_less)
    then have "0 = (lcg_step m p ^^ (j - i)) 0" by (rule steps_inj)
    then have "p * geo m (j - i) = 0" by (simp add: lcg_steps)
    then have "geo m (j - i) = 0"
      using odd_mult_eq_0 [OF odd_inc] by blast
    then have "2 ^ LENGTH('a) dvd j - i"
      using geo_dvd_iff [OF mult_mod4] geo_zero_iff by blast
    with lt show False by (meson dvd_imp_le less_imp_diff_less not_less zero_less_diff)
  qed
  show ?thesis
    by (rule inj_onI) (metis atLeastLessThan_iff linorder_neqE_nat no_earlier)
qed

lemma orbit_surj: "\<exists>n. (lcg_step m p ^^ n) 0 = x"
proof -
  let ?S = "{0..<2 ^ LENGTH('a) :: nat}"
  have "card ((\<lambda>n. (lcg_step m p ^^ n) 0) ` ?S) = CARD('a word)"
    using orbit_inj by (simp add: card_image card_word)
  then have "(\<lambda>n. (lcg_step m p ^^ n) 0) ` ?S = UNIV"
    by (intro card_subset_eq) simp_all
  then have "x \<in> (\<lambda>n. (lcg_step m p ^^ n) 0) ` ?S" by (simp only: UNIV_I)
  then show ?thesis by blast
qed

theorem reaches_all: "\<exists>n. (lcg_step m p ^^ n) x = y"
proof -
  obtain i j where ij: "(lcg_step m p ^^ i) 0 = x" "(lcg_step m p ^^ j) 0 = y"
    using orbit_surj by metis
  obtain k where "\<forall>z. (lcg_step m p ^^ k) ((lcg_step m p ^^ i) z) = z"
    using steps_back by blast
  then have "(lcg_step m p ^^ (j + k)) x = y"
    using ij by (auto simp: funpow_add)
  then show ?thesis ..
qed

lemma returns_iff: "(lcg_step m p ^^ n) x = x \<longleftrightarrow> 2 ^ LENGTH('a) dvd n"
proof
  assume x: "(lcg_step m p ^^ n) x = x"
  obtain k where k: "(lcg_step m p ^^ k) 0 = x" using reaches_all by blast
  have "(lcg_step m p ^^ k) ((lcg_step m p ^^ n) 0) = (lcg_step m p ^^ k) 0"
    using x by (metis (no_types) add.commute comp_apply funpow_add k)
  then have "p * geo m n = 0" using steps_inj by (fastforce simp: lcg_steps)
  then have "geo m n = 0" using odd_mult_eq_0 [OF odd_inc] by blast
  then show "2 ^ LENGTH('a) dvd n" using geo_dvd_iff [OF mult_mod4] geo_zero_iff by blast
qed (use steps_mod [of n x] in \<open>simp add: dvd_eq_mod_eq_0\<close>)

end

subsection \<open>lcg.go: jumping ahead\<close>

function advance64_loop :: "u64 \<Rightarrow> u64 \<Rightarrow> u64 \<Rightarrow> u64 \<Rightarrow> u64 \<Rightarrow> u64 \<times> u64" where
  "advance64_loop delta curMult curPlus accMult accPlus =
     (if delta \<noteq> 0 then
        (let (accMult, accPlus) =
               (if delta AND 1 \<noteq> 0 then (accMult * curMult, accPlus * curMult + curPlus)
                else (accMult, accPlus))
         in advance64_loop (delta div 2) (curMult * curMult) (curPlus * (curMult + 1)) accMult accPlus)
      else (accMult, accPlus))"
  by (pat_completeness, simp)
termination
proof (relation "measure (\<lambda>(d, _). unat d)", goal_cases)
  case (2 d)
  then show ?case using u64_half [of d] unat_gt_0 [of d] by simp
qed simp

declare advance64_loop.simps [simp del]

definition advanceLCG64 :: "u64 \<Rightarrow> u64 \<Rightarrow> u64 \<Rightarrow> u64 \<Rightarrow> u64" where
  "advanceLCG64 state delta curMult curPlus =
     (let (accMult, accPlus) = advance64_loop delta curMult curPlus 1 0
      in accMult * state + accPlus)"

definition xhalf :: "xuint128 \<Rightarrow> xuint128" where
  "xhalf d = \<lparr>xhi = drop_bit 1 (xhi d), xlo = push_bit 63 (xhi d) OR drop_bit 1 (xlo d)\<rparr>"

lemma half_64: "(h :: nat) div 2 * 2 ^ 64 + (h mod 2 * 2 ^ 63 + l div 2) = (h * 2 ^ 64 + l) div 2"
  by (cases "even h") (auto elim!: evenE oddE)

lemma half_64_lt: "l < 2 ^ 64 \<Longrightarrow> (h :: nat) mod 2 * 2 ^ 63 + l div 2 < 2 ^ 64"
  by (cases "even h") (auto simp: even_iff_mod_2_eq_zero odd_iff_mod_2_eq_one)

lemma unat_push_63: "unat (push_bit 63 x :: u64) = unat x mod 2 * 2 ^ 63"
  using mult_mod_right [of "2 ^ 63" "unat x" 2]
  by (simp add: push_bit_eq_mult unat_word_ariths mult.commute)

lemma unat_half: "unat (drop_bit 1 x :: u64) = unat x div 2"
  by (simp only: drop_bit_eq_div power_one_right u64_half)

lemma val128_xhalf [simp]: "val128 (xhalf d) = val128 d div 2"
proof -
  have "push_bit 63 (xhi d) AND drop_bit 1 (xlo d) = 0"
    by (rule bit_word_eqI) (auto simp: bit_simps dest: bit_imp_le_length)
  then have "xlo (xhalf d) = push_bit 63 (xhi d) + drop_bit 1 (xlo d)"
    using word_plus_and_or [of "push_bit 63 (xhi d)" "drop_bit 1 (xlo d)"] by (simp add: xhalf_def)
  then have "unat (xlo (xhalf d))
      = (unat (xhi d) mod 2 * 2 ^ 63 + unat (xlo d) div 2) mod 2 ^ 64"
    by (simp only: unat_word_ariths unat_push_63 unat_half) simp
  also have "\<dots> = unat (xhi d) mod 2 * 2 ^ 63 + unat (xlo d) div 2"
    using half_64_lt [of "unat (xlo d)"] unat_lt_2p [of "xlo d"] by simp
  finally have "val128 (xhalf d) = unat (xhi d) div 2 * 2 ^ 64
      + (unat (xhi d) mod 2 * 2 ^ 63 + unat (xlo d) div 2)"
    by (simp only: val128_def) (simp only: xhalf_def xuint128.simps unat_half)
  also have "\<dots> = val128 d div 2"
    unfolding val128_def by (rule half_64)
  finally show ?thesis .
qed

lemma val128_zero_iff: "val128 d = 0 \<longleftrightarrow> d = \<lparr>xhi = 0, xlo = 0\<rparr>"
  by (cases d) (auto simp: val128_def unat_eq_0)

function advance128_loop ::
  "xuint128 \<Rightarrow> xuint128 \<Rightarrow> xuint128 \<Rightarrow> xuint128 \<Rightarrow> xuint128 \<Rightarrow> xuint128 \<times> xuint128" where
  "advance128_loop delta curMult curPlus accMult accPlus =
     (if delta \<noteq> \<lparr>xhi = 0, xlo = 0\<rparr> then
        (let (accMult, accPlus) =
               (if xlo delta AND 1 \<noteq> 0
                then (xmultiply accMult curMult, xadd (xmultiply accPlus curMult) curPlus)
                else (accMult, accPlus))
         in advance128_loop (xhalf delta) (xmultiply curMult curMult)
              (xmultiply curPlus (xadd curMult \<lparr>xhi = 0, xlo = 1\<rparr>)) accMult accPlus)
      else (accMult, accPlus))"
  by pat_completeness auto
termination
  by (relation "measure (\<lambda>(d, _). val128 d)")
     (auto simp: val128_zero_iff [symmetric] div_less_dividend simp del: neq0_conv)

declare advance128_loop.simps [simp del]

definition advanceLCG128 :: "xuint128 \<Rightarrow> xuint128 \<Rightarrow> xuint128 \<Rightarrow> xuint128 \<Rightarrow> xuint128" where
  "advanceLCG128 state delta curMult curPlus =
     (let (accMult, accPlus) =
            advance128_loop delta curMult curPlus \<lparr>xhi = 0, xlo = 1\<rparr> \<lparr>xhi = 0, xlo = 0\<rparr>
      in xadd (xmultiply accMult state) accPlus)"

text \<open>Squaring the affine map is what one round of either loop does.\<close>

lemma lcg_step_twice: "lcg_step (m * m) (p * (m + 1)) = lcg_step m p ^^ 2"
  by (simp add: fun_eq_iff lcg_step_def numeral_2_eq_2 algebra_simps)

lemma lcg_steps_halve:
  "(lcg_step (m * m) (p * (m + 1)) ^^ (n div 2)) (if odd n then lcg_step m p x else x)
   = (lcg_step m p ^^ n) x"
proof (cases "even n")
  case True
  then show ?thesis by (simp add: lcg_step_twice flip: funpow_mult) (simp add: funpow_mult)
next
  case False
  then obtain k where n: "n = Suc (2 * k)" by (metis oddE Suc_eq_plus1)
  show ?thesis by (simp add: n lcg_step_twice funpow_mult funpow_swap1)
qed

lemma advance64_loop_correct:
  "advance64_loop d m p am ap = (rm, rp) \<Longrightarrow>
   rm * x + rp = (lcg_step m p ^^ unat d) (am * x + ap)"
proof (induction d m p am ap rule: advance64_loop.induct)
  case (1 d m p am ap)
  show ?case
  proof (cases "d = 0")
    case True
    with "1.prems" show ?thesis by (simp add: advance64_loop.simps)
  next
    case False
    define ab where "ab = (if d AND 1 \<noteq> 0 then (am * m, ap * m + p) else (am, ap))"
    have "rm * x + rp = (lcg_step (m * m) (p * (m + 1)) ^^ unat (d div 2)) (fst ab * x + snd ab)"
      using False "1.IH" [OF False ab_def, of "fst ab" "snd ab"] "1.prems"
      by (simp add: advance64_loop.simps [of d] ab_def [symmetric] split_beta)
    also have "fst ab * x + snd ab
        = (if odd (unat d) then lcg_step m p (am * x + ap) else am * x + ap)"
      by (simp add: ab_def and_1_neq_0 lcg_step_def algebra_simps)
    also have "unat (d div 2) = unat d div 2" by (rule u64_half)
    finally show ?thesis by (simp only: lcg_steps_halve)
  qed
qed

theorem advanceLCG64_steps: "advanceLCG64 s d m p = (lcg_step m p ^^ unat d) s"
  using advance64_loop_correct [of d m p 1 0 _ _ s]
  by (simp add: advanceLCG64_def split: prod.splits)

lemma xone [simp]: "to128 \<lparr>xhi = 0, xlo = 1\<rparr> = 1"
  and xzero [simp]: "to128 \<lparr>xhi = 0, xlo = 0\<rparr> = 0"
  by (simp_all add: to128_def val128_def)

lemma even_val128: "even (val128 d) \<longleftrightarrow> even (xlo d)"
  by (simp add: val128_def)

lemma advance128_loop_correct:
  "advance128_loop d m p am ap = (rm, rp) \<Longrightarrow>
   to128 rm * x + to128 rp =
     (lcg_step (to128 m) (to128 p) ^^ val128 d) (to128 am * x + to128 ap)"
proof (induction d m p am ap rule: advance128_loop.induct)
  case (1 d m p am ap)
  show ?case
  proof (cases "d = \<lparr>xhi = 0, xlo = 0\<rparr>")
    case True
    with "1.prems" show ?thesis by (simp add: advance128_loop.simps val128_def)
  next
    case False
    define ab where "ab = (if xlo d AND 1 \<noteq> 0
      then (xmultiply am m, xadd (xmultiply ap m) p) else (am, ap))"
    have "to128 rm * x + to128 rp
        = (lcg_step (to128 m * to128 m) (to128 p * (to128 m + 1)) ^^ val128 (xhalf d))
            (to128 (fst ab) * x + to128 (snd ab))"
      using False "1.IH" [OF False ab_def, of "fst ab" "snd ab"] "1.prems"
      by (simp add: advance128_loop.simps [of d] ab_def [symmetric] split_beta)
    also have "to128 (fst ab) * x + to128 (snd ab)
        = (if odd (val128 d) then lcg_step (to128 m) (to128 p) (to128 am * x + to128 ap)
           else to128 am * x + to128 ap)"
      by (simp add: ab_def and_1_neq_0 even_val128 lcg_step_def algebra_simps)
    finally show ?thesis by (simp only: val128_xhalf lcg_steps_halve)
  qed
qed

theorem advanceLCG128_steps:
  "to128 (advanceLCG128 s d m p) = (lcg_step (to128 m) (to128 p) ^^ val128 d) (to128 s)"
  using advance128_loop_correct [of d m p "\<lparr>xhi = 0, xlo = 1\<rparr>" "\<lparr>xhi = 0, xlo = 0\<rparr>" _ _ "to128 s"]
  by (simp add: advanceLCG128_def split: prod.splits)

subsection \<open>pcg32.go, pcg32s.go\<close>

definition pcg32InitState :: u64 where "pcg32InitState = 0x853c49e6748fea9b"
definition pcg32InitIncrement :: u64 where "pcg32InitIncrement = 0xda3e39cb94b95bdb"
definition pcg32Multiplier :: u64 where "pcg32Multiplier = 0x5851f42d4c957f2d"

record PCG32 =
  state :: u64
  inc :: u64

definition NewPCG32 :: PCG32 where
  "NewPCG32 = \<lparr>state = pcg32InitState, inc = pcg32InitIncrement\<rparr>"

definition PCG32_Seed :: "u64 \<Rightarrow> u64 \<Rightarrow> PCG32 \<Rightarrow> PCG32" where
  "PCG32_Seed st seq p =
     (let p = p\<lparr>inc := push_bit 1 seq OR 1\<rparr>
      in p\<lparr>state := (st + inc p) * pcg32Multiplier + inc p\<rparr>)"

text \<open>The output permutation, the same in both 32-bit generators.\<close>

definition pcg32_out :: "u64 \<Rightarrow> u32" where
  "pcg32_out st =
     RotateLeft32 (ucast (drop_bit 27 (drop_bit 18 st XOR st))) (- int (unat (drop_bit 59 st)))"

definition PCG32_Random :: "PCG32 \<Rightarrow> u32 \<times> PCG32" where
  "PCG32_Random p = (pcg32_out (state p), p\<lparr>state := state p * pcg32Multiplier + inc p\<rparr>)"

definition PCG32_Advance :: "u64 \<Rightarrow> PCG32 \<Rightarrow> PCG32" where
  "PCG32_Advance delta p = p\<lparr>state := advanceLCG64 (state p) delta pcg32Multiplier (inc p)\<rparr>"

definition PCG32_Retreat :: "u64 \<Rightarrow> PCG32 \<Rightarrow> PCG32" where
  "PCG32_Retreat delta p = PCG32_Advance (- delta) p"

definition pcg32sInitState :: u64 where "pcg32sInitState = 0x4d595df4d0f33173"
definition pcg32sIncrement :: u64 where "pcg32sIncrement = 0x14057b7ef767814f"

record PCG32s =
  sstate :: u64

definition NewPCG32s :: PCG32s where
  "NewPCG32s = \<lparr>sstate = pcg32sInitState\<rparr>"

definition PCG32s_Seed :: "u64 \<Rightarrow> PCG32s \<Rightarrow> PCG32s" where
  "PCG32s_Seed st p = p\<lparr>sstate := (st + pcg32sIncrement) * pcg32Multiplier + pcg32sIncrement\<rparr>"

definition PCG32s_Random :: "PCG32s \<Rightarrow> u32 \<times> PCG32s" where
  "PCG32s_Random p =
     (pcg32_out (sstate p), p\<lparr>sstate := sstate p * pcg32Multiplier + pcg32sIncrement\<rparr>)"

definition PCG32s_Advance :: "u64 \<Rightarrow> PCG32s \<Rightarrow> PCG32s" where
  "PCG32s_Advance delta p =
     p\<lparr>sstate := advanceLCG64 (sstate p) delta pcg32Multiplier pcg32sIncrement\<rparr>"

definition PCG32s_Retreat :: "u64 \<Rightarrow> PCG32s \<Rightarrow> PCG32s" where
  "PCG32s_Retreat delta p = PCG32s_Advance (- delta) p"

subsection \<open>pcg64.go, pcg64s.go\<close>

definition pcg64Multiplier :: nat where "pcg64Multiplier = 47026247687942121848144207491837523525"
definition pcg64MulHi :: u64 where "pcg64MulHi = of_nat (pcg64Multiplier div 2 ^ 64)"
definition pcg64MulLo :: u64 where "pcg64MulLo = of_nat (pcg64Multiplier mod 2 ^ 64)"

record PCG64 =
  lstate :: xuint128
  linc :: xuint128

definition NewPCG64 :: PCG64 where
  "NewPCG64 = \<lparr>lstate = \<lparr>xhi = 0x979c9a98d8462005, xlo = 0x7d3e9cb6cfe0549b\<rparr>,
               linc = \<lparr>xhi = 1, xlo = 0xda3e39cb94b95bdb\<rparr>\<rparr>"

definition PCG64_add :: "PCG64 \<Rightarrow> PCG64" where
  "PCG64_add p = p\<lparr>lstate := xadd (lstate p) (linc p)\<rparr>"

definition PCG64_multiply :: "PCG64 \<Rightarrow> PCG64" where
  "PCG64_multiply p = p\<lparr>lstate := xmultiply (lstate p) \<lparr>xhi = pcg64MulHi, xlo = pcg64MulLo\<rparr>\<rparr>"

definition PCG64_Seed :: "u64 \<Rightarrow> u64 \<Rightarrow> u64 \<Rightarrow> u64 \<Rightarrow> PCG64 \<Rightarrow> PCG64" where
  "PCG64_Seed stateHi stateLo seqHi seqLo p =
     (let p = p\<lparr>lstate := \<lparr>xhi = stateHi, xlo = stateLo\<rparr>,
                linc := \<lparr>xhi = push_bit 1 seqHi OR drop_bit 63 seqLo, xlo = push_bit 1 seqLo OR 1\<rparr>\<rparr>
      in PCG64_add (PCG64_multiply (PCG64_add p)))"

definition pcg64_out :: "xuint128 \<Rightarrow> u64" where
  "pcg64_out st = RotateLeft64 (xhi st XOR xlo st) (- int (unat (drop_bit 58 (xhi st))))"

definition PCG64_Random :: "PCG64 \<Rightarrow> u64 \<times> PCG64" where
  "PCG64_Random p = (let p = PCG64_add (PCG64_multiply p) in (pcg64_out (lstate p), p))"

definition PCG64_Advance :: "u64 \<Rightarrow> u64 \<Rightarrow> PCG64 \<Rightarrow> PCG64" where
  "PCG64_Advance deltaHi deltaLo p =
     p\<lparr>lstate := advanceLCG128 (lstate p) \<lparr>xhi = deltaHi, xlo = deltaLo\<rparr>
                  \<lparr>xhi = pcg64MulHi, xlo = pcg64MulLo\<rparr> (linc p)\<rparr>"

definition PCG64_Retreat :: "u64 \<Rightarrow> u64 \<Rightarrow> PCG64 \<Rightarrow> PCG64" where
  "PCG64_Retreat deltaHi deltaLo p =
     (let t = xadd \<lparr>xhi = NOT deltaHi, xlo = NOT deltaLo\<rparr> \<lparr>xhi = 0, xlo = 1\<rparr>
      in PCG64_Advance (xhi t) (xlo t) p)"

definition pcg64sIncrement :: nat where "pcg64sIncrement = 117397592171526113268558934119004209487"
definition pcg64sIncHi :: u64 where "pcg64sIncHi = of_nat (pcg64sIncrement div 2 ^ 64)"
definition pcg64sIncLo :: u64 where "pcg64sIncLo = of_nat (pcg64sIncrement mod 2 ^ 64)"
definition pcg64sInitializer :: nat where
  "pcg64sInitializer = 245720598905631564143578724636268694099"
definition pcg64sInitHi :: u64 where "pcg64sInitHi = of_nat (pcg64sInitializer div 2 ^ 64)"
definition pcg64sInitLo :: u64 where "pcg64sInitLo = of_nat (pcg64sInitializer mod 2 ^ 64)"

record PCG64s =
  lsstate :: xuint128

definition NewPCG64s :: PCG64s where
  "NewPCG64s = \<lparr>lsstate = \<lparr>xhi = pcg64sInitHi, xlo = pcg64sInitLo\<rparr>\<rparr>"

definition PCG64s_add :: "PCG64s \<Rightarrow> PCG64s" where
  "PCG64s_add p = p\<lparr>lsstate := xadd (lsstate p) \<lparr>xhi = pcg64sIncHi, xlo = pcg64sIncLo\<rparr>\<rparr>"

definition PCG64s_multiply :: "PCG64s \<Rightarrow> PCG64s" where
  "PCG64s_multiply p =
     p\<lparr>lsstate := xmultiply (lsstate p) \<lparr>xhi = pcg64MulHi, xlo = pcg64MulLo\<rparr>\<rparr>"

definition PCG64s_Seed :: "u64 \<Rightarrow> u64 \<Rightarrow> PCG64s \<Rightarrow> PCG64s" where
  "PCG64s_Seed stateHi stateLo p =
     PCG64s_add (PCG64s_multiply (PCG64s_add (p\<lparr>lsstate := \<lparr>xhi = stateHi, xlo = stateLo\<rparr>\<rparr>)))"

definition PCG64s_Random :: "PCG64s \<Rightarrow> u64 \<times> PCG64s" where
  "PCG64s_Random p = (let p = PCG64s_add (PCG64s_multiply p) in (pcg64_out (lsstate p), p))"

definition PCG64s_Advance :: "u64 \<Rightarrow> u64 \<Rightarrow> PCG64s \<Rightarrow> PCG64s" where
  "PCG64s_Advance deltaHi deltaLo p =
     p\<lparr>lsstate := advanceLCG128 (lsstate p) \<lparr>xhi = deltaHi, xlo = deltaLo\<rparr>
                   \<lparr>xhi = pcg64MulHi, xlo = pcg64MulLo\<rparr> \<lparr>xhi = pcg64sIncHi, xlo = pcg64sIncLo\<rparr>\<rparr>"

definition PCG64s_Retreat :: "u64 \<Rightarrow> u64 \<Rightarrow> PCG64s \<Rightarrow> PCG64s" where
  "PCG64s_Retreat deltaHi deltaLo p =
     (let t = xadd \<lparr>xhi = NOT deltaHi, xlo = NOT deltaLo\<rparr> \<lparr>xhi = 0, xlo = 1\<rparr>
      in PCG64s_Advance (xhi t) (xlo t) p)"

text \<open>The other modules of the family: \<open>pcg32x2.go\<close>, two 32-bit generators side by side.\<close>

record PCG32x2 =
  ghi :: PCG32
  glo :: PCG32

definition NewPCG32x2 :: PCG32x2 where
  "NewPCG32x2 = \<lparr>ghi = NewPCG32, glo = NewPCG32\<rparr>"

definition PCG32x2_Seed :: "u64 \<Rightarrow> u64 \<Rightarrow> u64 \<Rightarrow> u64 \<Rightarrow> PCG32x2 \<Rightarrow> PCG32x2" where
  "PCG32x2_Seed stateHi stateLo sequenceHi sequenceLo p =
     (let mask = drop_bit 1 (NOT 0);
          sequenceLo = (if sequenceHi AND mask = sequenceLo AND mask then NOT sequenceHi else sequenceLo)
      in p\<lparr>ghi := PCG32_Seed stateHi sequenceHi (ghi p), glo := PCG32_Seed stateLo sequenceLo (glo p)\<rparr>)"

definition PCG32x2_Random :: "PCG32x2 \<Rightarrow> u64 \<times> PCG32x2" where
  "PCG32x2_Random p =
     (let (h, gh) = PCG32_Random (ghi p); (l, gl) = PCG32_Random (glo p)
      in (push_bit 32 (ucast h) OR ucast l, p\<lparr>ghi := gh, glo := gl\<rparr>))"

definition PCG32x2_Advance :: "u64 \<Rightarrow> PCG32x2 \<Rightarrow> PCG32x2" where
  "PCG32x2_Advance delta p = p\<lparr>glo := PCG32_Advance delta (glo p), ghi := PCG32_Advance delta (ghi p)\<rparr>"

definition PCG32x2_Retreat :: "u64 \<Rightarrow> PCG32x2 \<Rightarrow> PCG32x2" where
  "PCG32x2_Retreat delta p = PCG32x2_Advance (- delta) p"

subsection \<open>Bounded draws\<close>

text \<open>
  Every generator has the same two methods; their loops draw until the draw is accepted.
  The generator's \<open>Random\<close> is the argument \<open>rnd\<close>.
\<close>

partial_function (option) slow_loop ::
  "('s \<Rightarrow> 'o::len word \<times> 's) \<Rightarrow> 'o word \<Rightarrow> 'o word \<Rightarrow> 's \<Rightarrow> ('o word \<times> 's) option" where
  "slow_loop rnd bound threshold s =
     (let (r, s') = rnd s
      in if threshold \<le> r then Some (r mod bound, s') else slow_loop rnd bound threshold s')"

definition slowBounded ::
  "('s \<Rightarrow> 'o::len word \<times> 's) \<Rightarrow> 'o word \<Rightarrow> 's \<Rightarrow> ('o word \<times> 's) option" where
  "slowBounded rnd bound s =
     (if bound = 0 then Some (0, s) else slow_loop rnd bound ((- bound) mod bound) s)"

partial_function (option) bounded32_loop ::
  "('s \<Rightarrow> u32 \<times> 's) \<Rightarrow> u32 \<Rightarrow> u32 \<Rightarrow> u64 \<Rightarrow> 's \<Rightarrow> (u32 \<times> 's) option" where
  "bounded32_loop rnd bound thresh pr s =
     (if (ucast pr :: u32) < thresh then
        (let (v, s') = rnd s in bounded32_loop rnd bound thresh (ucast v * ucast bound) s')
      else Some (ucast (drop_bit 32 pr), s))"

definition Bounded32 :: "('s \<Rightarrow> u32 \<times> 's) \<Rightarrow> u32 \<Rightarrow> 's \<Rightarrow> (u32 \<times> 's) option" where
  "Bounded32 rnd bound s =
     (let (v, s') = rnd s; pr = ucast v * ucast bound
      in if (ucast pr :: u32) < bound
         then bounded32_loop rnd bound ((- bound) mod bound) pr s'
         else Some (ucast (drop_bit 32 pr), s'))"

partial_function (option) bounded64_loop ::
  "('s \<Rightarrow> u64 \<times> 's) \<Rightarrow> u64 \<Rightarrow> u64 \<Rightarrow> u64 \<Rightarrow> u64 \<Rightarrow> 's \<Rightarrow> (u64 \<times> 's) option" where
  "bounded64_loop rnd bound thresh high low s =
     (if low < thresh then
        (let (v, s') = rnd s; (high', low') = Mul64 v bound
         in bounded64_loop rnd bound thresh high' low' s')
      else Some (high, s))"

definition thresh64 :: "u64 \<Rightarrow> u64" where
  "thresh64 bound =
     (let thresh = - bound
      in if thresh \<ge> bound then
           (let thresh = thresh - bound
            in if thresh \<ge> bound then thresh mod bound else thresh)
         else thresh)"

definition Bounded64 :: "('s \<Rightarrow> u64 \<times> 's) \<Rightarrow> u64 \<Rightarrow> 's \<Rightarrow> (u64 \<times> 's) option" where
  "Bounded64 rnd bound s =
     (let (v, s') = rnd s; (high, low) = Mul64 v bound
      in if low < bound then bounded64_loop rnd bound (thresh64 bound) high low s'
         else Some (high, s'))"

definition PCG32_slowBounded :: "u32 \<Rightarrow> PCG32 \<Rightarrow> (u32 \<times> PCG32) option" where
  "PCG32_slowBounded = slowBounded PCG32_Random"
definition PCG32_Bounded :: "u32 \<Rightarrow> PCG32 \<Rightarrow> (u32 \<times> PCG32) option" where
  "PCG32_Bounded = Bounded32 PCG32_Random"
definition PCG32s_slowBounded :: "u32 \<Rightarrow> PCG32s \<Rightarrow> (u32 \<times> PCG32s) option" where
  "PCG32s_slowBounded = slowBounded PCG32s_Random"
definition PCG32s_Bounded :: "u32 \<Rightarrow> PCG32s \<Rightarrow> (u32 \<times> PCG32s) option" where
  "PCG32s_Bounded = Bounded32 PCG32s_Random"
definition PCG32x2_slowBounded :: "u64 \<Rightarrow> PCG32x2 \<Rightarrow> (u64 \<times> PCG32x2) option" where
  "PCG32x2_slowBounded = slowBounded PCG32x2_Random"
definition PCG32x2_Bounded :: "u64 \<Rightarrow> PCG32x2 \<Rightarrow> (u64 \<times> PCG32x2) option" where
  "PCG32x2_Bounded = Bounded64 PCG32x2_Random"
definition PCG64_slowBounded :: "u64 \<Rightarrow> PCG64 \<Rightarrow> (u64 \<times> PCG64) option" where
  "PCG64_slowBounded = slowBounded PCG64_Random"
definition PCG64_Bounded :: "u64 \<Rightarrow> PCG64 \<Rightarrow> (u64 \<times> PCG64) option" where
  "PCG64_Bounded = Bounded64 PCG64_Random"
definition PCG64s_slowBounded :: "u64 \<Rightarrow> PCG64s \<Rightarrow> (u64 \<times> PCG64s) option" where
  "PCG64s_slowBounded = slowBounded PCG64s_Random"
definition PCG64s_Bounded :: "u64 \<Rightarrow> PCG64s \<Rightarrow> (u64 \<times> PCG64s) option" where
  "PCG64s_Bounded = Bounded64 PCG64s_Random"

text \<open>What a draw \<open>v\<close> gives, the loops forgotten: accepted with its result, or rejected.\<close>

definition lemire :: "'o::len word \<Rightarrow> 'o word \<Rightarrow> nat option" where
  "lemire bound v =
     (if unat (v * bound) < 2 ^ LENGTH('o) mod unat bound then None
      else Some (unat v * unat bound div 2 ^ LENGTH('o)))"

lemma unat_neg_mod:
  "bound \<noteq> 0 \<Longrightarrow> unat ((- bound) mod bound) = 2 ^ LENGTH('o) mod unat (bound :: 'o::len word)"
  using le_mod_geq [of "unat bound" "2 ^ LENGTH('o)"] unat_lt_2p [of bound]
  by (simp add: unat_mod unat_uminus)

lemma sub_mod_word:
  "(if t \<ge> b then (let t' = t - b in if t' \<ge> b then t' mod b else t') else t) = t mod (b :: u64)"
  by (auto simp: Let_def not_le word_mod_less word_mod_geq [of b t])

lemma thresh64_eq: "thresh64 bound = (- bound) mod bound"
  unfolding thresh64_def Let_def using sub_mod_word [of bound "- bound"] by (simp only: Let_def)

text \<open>
  The 32-bit loops compute the product in 64 bits and the 64-bit loops with \<open>Mul64\<close>; both are
  \<open>lemire\<close>.
\<close>

lemma prod32:
  fixes v b :: u32
  defines "pr \<equiv> (ucast v * ucast b :: u64)"
  shows "(ucast pr :: u32) = v * b"
    and "unat (ucast (drop_bit 32 pr) :: u32) = unat v * unat b div 2 ^ 32"
proof -
  have "unat v * unat b \<le> (2 ^ 32 - 1) * (2 ^ 32 - 1)"
    using mult_le_mono [OF unat_le_max [of v] unat_le_max [of b]] by simp
  then have lt: "unat v * unat b < 2 ^ 64" by simp
  then have pr: "unat pr = unat v * unat b"
    by (simp add: pr_def unat_word_ariths unat_ucast_mod mod_mult_eq)
  show "(ucast pr :: u32) = v * b"
    by (simp add: word_unat_eq_iff unat_ucast_mod pr unat_word_ariths)
  have "unat v * unat b div 2 ^ 32 < 2 ^ 32" using lt by simp
  moreover have "unat (drop_bit 32 pr) = unat v * unat b div 2 ^ 32"
    by (simp only: unat_drop_bit_eq) (simp only: drop_bit_eq_div pr)
  ultimately show "unat (ucast (drop_bit 32 pr) :: u32) = unat v * unat b div 2 ^ 32"
    by (simp add: unat_ucast_mod)
qed

lemma mul64_high: "unat (fst (Mul64 v b)) = unat v * unat b div 2 ^ 64"
proof -
  have "unat v * unat b \<le> (2 ^ 64 - 1) * (2 ^ 64 - 1)"
    using mult_le_mono [OF unat_le_max [of v] unat_le_max [of b]] by simp
  then have "unat v * unat b div 2 ^ 64 < 2 ^ 64" by simp
  then show ?thesis by (simp add: Mul64_def unat_of_nat)
qed

lemma lemire_range: "lemire bound v = Some r \<Longrightarrow> bound \<noteq> 0 \<Longrightarrow> r < unat bound"
proof -
  assume a: "lemire bound v = Some r" "bound \<noteq> 0"
  have "unat v * unat bound < 2 ^ LENGTH('a) * unat bound"
    using a(2) unat_lt_2p [of v] by (simp add: unat_gt_0)
  then have "unat v * unat bound div 2 ^ LENGTH('a) < unat bound"
    by (simp add: less_mult_imp_div_less mult.commute)
  with a(1) show ?thesis by (simp add: lemire_def split: if_splits)
qed

lemma lemire_1: "bound \<noteq> 0 \<Longrightarrow> lemire bound 1 = Some (unat bound div 2 ^ LENGTH('a))"
  for bound :: "'a::len word"
  using mod_less_divisor [of "unat bound" "2 ^ LENGTH('a)"] by (simp add: lemire_def unat_gt_0 not_less less_imp_le)

lemma slow_loop_step:
  "slow_loop rnd bound t s =
     (if t \<le> fst (rnd s) then Some (fst (rnd s) mod bound, snd (rnd s))
      else slow_loop rnd bound t (snd (rnd s)))"
  by (subst slow_loop.simps) (simp add: split_beta Let_def)

lemma lemire_reject:
  "bound \<noteq> 0 \<Longrightarrow> lemire bound v = None \<longleftrightarrow> v * bound < (- bound) mod bound"
  by (simp add: lemire_def word_less_nat_alt unat_neg_mod)

lemma neg_mod_lt: "bound \<noteq> 0 \<Longrightarrow> (- bound) mod bound < (bound :: 'a::len word)"
  by (simp add: word_less_nat_alt unat_mod unat_gt_0)

text \<open>Both \<open>Bounded\<close> loops draw until \<open>lemire\<close> accepts and return its result.\<close>

lemma lemire_result:
  fixes bound :: "'o::len word"
  assumes "lemire bound v = Some r" and "unat w = unat v * unat bound div 2 ^ LENGTH('o)"
  shows "w = of_nat r" and "unat w = r"
proof -
  show "unat w = r" using assms by (simp add: lemire_def split: if_splits)
  then show "w = of_nat r" by auto
qed

lemma snd_Mul64 [simp]: "snd (Mul64 v b) = v * b"
  by (simp add: Mul64_def)

lemma bounded32_unfold:
  "bounded32_loop rnd bound t (ucast v * ucast bound) s =
     (if v * bound < t
      then bounded32_loop rnd bound t (ucast (fst (rnd s)) * ucast bound) (snd (rnd s))
      else Some (ucast (drop_bit 32 (ucast v * ucast bound :: u64)), s))"
  by (subst bounded32_loop.simps) (simp add: prod32 split_beta Let_def)

lemma bounded64_unfold:
  "bounded64_loop rnd bound t (fst (Mul64 v bound)) (v * bound) s =
     (if v * bound < t
      then bounded64_loop rnd bound t (fst (Mul64 (fst (rnd s)) bound)) (fst (rnd s) * bound) (snd (rnd s))
      else Some (fst (Mul64 v bound), s))"
  by (subst bounded64_loop.simps) (simp add: split_beta Let_def)

lemma Bounded32_loop:
  assumes "bound \<noteq> 0"
  shows "Bounded32 rnd bound s =
    bounded32_loop rnd bound ((- bound) mod bound) (ucast (fst (rnd s)) * ucast bound) (snd (rnd s))"
  using less_trans [OF _ neg_mod_lt [OF assms], of "fst (rnd s) * bound"]
  by (cases "fst (rnd s) * bound < bound")
     (auto simp: Bounded32_def split_beta Let_def prod32 bounded32_unfold [of _ _ _ "fst (rnd s)"])

lemma Bounded64_loop:
  assumes "bound \<noteq> 0"
  shows "Bounded64 rnd bound s =
    bounded64_loop rnd bound ((- bound) mod bound) (fst (Mul64 (fst (rnd s)) bound))
      (fst (rnd s) * bound) (snd (rnd s))"
  using less_trans [OF _ neg_mod_lt [OF assms], of "fst (rnd s) * bound"]
  by (cases "fst (rnd s) * bound < bound")
     (auto simp: Bounded64_def split_beta Let_def thresh64_eq bounded64_unfold [of _ _ _ "fst (rnd s)"]
      snd_Mul64)

lemma Bounded32_step:
  assumes b: "bound \<noteq> 0"
  shows "Bounded32 rnd bound s =
    (case lemire bound (fst (rnd s)) of None \<Rightarrow> Bounded32 rnd bound (snd (rnd s))
     | Some r \<Rightarrow> Some (of_nat r, snd (rnd s)))"
proof (cases "lemire bound (fst (rnd s))")
  case None
  then have "fst (rnd s) * bound < (- bound) mod bound" by (simp only: lemire_reject [OF b])
  then show ?thesis
    unfolding Bounded32_loop [OF b] by (subst bounded32_unfold) (simp add: None)
next
  case (Some r)
  then have "\<not> fst (rnd s) * bound < (- bound) mod bound" using lemire_reject [OF b, of "fst (rnd s)"] by simp
  moreover have "ucast (drop_bit 32 (ucast (fst (rnd s)) * ucast bound :: u64)) = (of_nat r :: u32)"
    by (rule lemire_result [OF Some]) (simp only: prod32(2) len_of_numeral_defs, simp)
  ultimately show ?thesis
    unfolding Bounded32_loop [OF b] by (subst bounded32_unfold) (simp add: Some)
qed

lemma Bounded64_step:
  assumes b: "bound \<noteq> 0"
  shows "Bounded64 rnd bound s =
    (case lemire bound (fst (rnd s)) of None \<Rightarrow> Bounded64 rnd bound (snd (rnd s))
     | Some r \<Rightarrow> Some (of_nat r, snd (rnd s)))"
proof (cases "lemire bound (fst (rnd s))")
  case None
  then have "fst (rnd s) * bound < (- bound) mod bound" by (simp only: lemire_reject [OF b])
  then show ?thesis
    unfolding Bounded64_loop [OF b] by (subst bounded64_unfold) (simp add: None)
next
  case (Some r)
  then have "\<not> fst (rnd s) * bound < (- bound) mod bound" using lemire_reject [OF b, of "fst (rnd s)"] by simp
  moreover have "fst (Mul64 (fst (rnd s)) bound) = of_nat r"
    by (rule lemire_result [OF Some]) (simp only: mul64_high len_of_numeral_defs, simp)
  ultimately show ?thesis
    unfolding Bounded64_loop [OF b] by (subst bounded64_unfold) (simp add: Some)
qed

text \<open>
  What a rejection loop needs of its generator: from every good state every output comes up, after
  finitely many steps. The loops then return, with the result of an accepted draw.
\<close>

locale recurrent_gen =
  fixes rnd :: "'s \<Rightarrow> 'o::len word \<times> 's"
    and good :: "'s \<Rightarrow> bool"
  assumes good_step: "good s \<Longrightarrow> good (snd (rnd s))"
    and all_outputs: "good s \<Longrightarrow> \<exists>n. fst (rnd (((\<lambda>s. snd (rnd s)) ^^ n) s)) = v"
begin

lemma until_output:
  assumes "good s" and stop: "\<And>s. good s \<Longrightarrow> fst (rnd s) = v \<Longrightarrow> P s"
    and later: "\<And>s. good s \<Longrightarrow> P (snd (rnd s)) \<Longrightarrow> P s"
  shows "P s"
proof -
  obtain n where "fst (rnd (((\<lambda>s. snd (rnd s)) ^^ n) s)) = v" using all_outputs [OF assms(1)] by blast
  then show ?thesis using assms(1)
  proof (induction n arbitrary: s)
    case 0
    then show ?case using stop by simp
  next
    case (Suc n)
    have "fst (rnd (((\<lambda>s. snd (rnd s)) ^^ n) (snd (rnd s)))) = v"
      using Suc.prems(1) by (simp add: funpow_swap1 [of "\<lambda>s. snd (rnd s)", symmetric])
    then have "P (snd (rnd s))" using Suc.prems(2) by (intro Suc.IH good_step)
    then show ?case using later Suc.prems by blast
  qed
qed

lemma slowBounded_returns:
  assumes "good s" and b: "bound \<noteq> 0"
  shows "\<exists>r s'. slowBounded rnd bound s = Some (r, s') \<and> r < bound \<and> good s'"
proof -
  let ?t = "(- bound) mod bound"
  have "\<exists>r s'. slow_loop rnd bound ?t s = Some (r mod bound, s') \<and> good s'"
    by (rule until_output [OF assms(1), where v = "- 1"])
       (use good_step in \<open>auto simp: slow_loop_step [of rnd bound ?t]\<close>)
  then show ?thesis using b by (auto simp: slowBounded_def word_less_nat_alt unat_mod unat_gt_0)
qed

lemma lemire_loop_returns:
  assumes "good s" and b: "bound \<noteq> 0"
    and step: "\<And>s. L s = (case lemire bound (fst (rnd s)) of None \<Rightarrow> L (snd (rnd s))
                            | Some r \<Rightarrow> Some (of_nat r, snd (rnd s)))"
  shows "\<exists>r s'. L s = Some (r, s') \<and> r < bound \<and> good s'"
proof (rule until_output [OF assms(1), where v = 1])
  have range: "lemire bound v = Some r \<Longrightarrow> (of_nat r :: 'o word) < bound" for v r
    using lemire_range [OF _ b, of v r] unat_lt_2p [of bound]
    by (simp add: word_less_nat_alt unat_of_nat le_less_trans [OF mod_less_eq_dividend])
  fix s assume g: "good s"
  show "\<exists>r s'. L s = Some (r, s') \<and> r < bound \<and> good s'" if "fst (rnd s) = 1"
    using lemire_1 [OF b] range g that good_step b by (subst step) (auto simp: word_gt_0)
  show "\<exists>r s'. L s = Some (r, s') \<and> r < bound \<and> good s'"
    if "\<exists>r s'. L (snd (rnd s)) = Some (r, s') \<and> r < bound \<and> good s'"
    using that range g good_step by (subst step) (auto split: option.split)
qed

end

subsection \<open>The generators are full cycles\<close>

lemma mult32_mod4: "uint pcg32Multiplier mod 4 = 1" and mult32_odd: "odd pcg32Multiplier"
  by (simp_all add: pcg32Multiplier_def)

abbreviation mult128 :: "128 word" where
  "mult128 \<equiv> to128 \<lparr>xhi = pcg64MulHi, xlo = pcg64MulLo\<rparr>"

abbreviation inc128s :: "128 word" where
  "inc128s \<equiv> to128 \<lparr>xhi = pcg64sIncHi, xlo = pcg64sIncLo\<rparr>"

lemma mult128_eq: "mult128 = of_nat pcg64Multiplier"
  by (simp add: to128_def val128_def pcg64MulHi_def pcg64MulLo_def pcg64Multiplier_def)

lemma inc128s_eq: "inc128s = of_nat pcg64sIncrement"
  by (simp add: to128_def val128_def pcg64sIncHi_def pcg64sIncLo_def pcg64sIncrement_def)

lemma mult128_mod4: "uint mult128 mod 4 = 1" and mult128_odd: "odd mult128"
  by (simp_all add: mult128_eq pcg64Multiplier_def)

lemma inc128s_odd: "odd inc128s"
  by (simp add: inc128s_eq pcg64sIncrement_def)

lemma inc32s_odd: "odd pcg32sIncrement"
  by (simp add: pcg32sIncrement_def)

interpretation lcg32: lcg pcg32Multiplier p for p :: u64
  by unfold_locales (rule mult32_odd)

interpretation lcg128: lcg mult128 p for p :: "128 word"
  by unfold_locales (rule mult128_odd)

lemma full32: "odd p \<Longrightarrow> full_lcg pcg32Multiplier p"
  by unfold_locales (simp_all add: mult32_mod4)

lemma full128: "odd p \<Longrightarrow> full_lcg mult128 p"
  by unfold_locales (simp_all add: mult128_mod4)

interpretation lcg32s: full_lcg pcg32Multiplier pcg32sIncrement
  by (rule full32) (rule inc32s_odd)

interpretation lcg128s: full_lcg mult128 inc128s
  by (rule full128) (rule inc128s_odd)

text \<open>\<open>Random\<close> moves every generator by one congruential step.\<close>

abbreviation "stepped rnd n s \<equiv> ((\<lambda>s. snd (rnd s)) ^^ n) s"

lemma PCG32_stepped:
  "stepped PCG32_Random n p = p\<lparr>state := (lcg_step pcg32Multiplier (inc p) ^^ n) (state p)\<rparr>"
  by (induction n) (simp_all add: PCG32_Random_def lcg_step_def)

lemma PCG32s_stepped:
  "stepped PCG32s_Random n p =
     p\<lparr>sstate := (lcg_step pcg32Multiplier pcg32sIncrement ^^ n) (sstate p)\<rparr>"
  by (induction n) (simp_all add: PCG32s_Random_def lcg_step_def)

lemma PCG64_stepped:
  "to128 (lstate (stepped PCG64_Random n p)) =
     (lcg_step mult128 (to128 (linc p)) ^^ n) (to128 (lstate p)) \<and>
   linc (stepped PCG64_Random n p) = linc p"
  by (induction n) (simp_all add: PCG64_Random_def PCG64_add_def PCG64_multiply_def lcg_step_def)

lemma PCG64s_stepped:
  "to128 (lsstate (stepped PCG64s_Random n p)) =
     (lcg_step mult128 inc128s ^^ n) (to128 (lsstate p))"
  by (induction n) (simp_all add: PCG64s_Random_def PCG64s_add_def PCG64s_multiply_def lcg_step_def)

subsection \<open>Every output occurs\<close>

lemma pcg32_out_surj: "pcg32_out (push_bit 27 (ucast (v XOR drop_bit 18 v))) = v"
proof -
  let ?x = "push_bit 27 (ucast (v XOR drop_bit 18 v)) :: u64"
  have "drop_bit 59 ?x = 0"
    by (rule bit_word_eqI) (auto simp: bit_simps dest: bit_imp_le_length)
  moreover have "(ucast (drop_bit 27 (drop_bit 18 ?x XOR ?x)) :: u32) = v"
    by (rule bit_word_eqI) (auto simp: bit_simps dest: bit_imp_le_length)
  ultimately show ?thesis
    by (simp add: pcg32_out_def RotateLeft32_def)
qed

lemma pcg64_out_surj: "pcg64_out \<lparr>xhi = 0, xlo = v\<rparr> = v"
  by (simp add: pcg64_out_def RotateLeft64_def)

lemma PCG32_outputs: "odd (inc p) \<Longrightarrow> \<exists>n. fst (PCG32_Random (stepped PCG32_Random n p)) = v"
  using full_lcg.reaches_all [OF full32] pcg32_out_surj
  by (simp add: PCG32_stepped) (metis PCG32_Random_def PCG32.select_convs(1) PCG32.surjective
      PCG32.update_convs(1) fst_conv)

lemma PCG32s_Random_out: "fst (PCG32s_Random p) = pcg32_out (sstate p)"
  by (simp add: PCG32s_Random_def)

lemma PCG32s_outputs: "\<exists>n. fst (PCG32s_Random (stepped PCG32s_Random n p)) = v"
proof -
  obtain n where "(lcg_step pcg32Multiplier pcg32sIncrement ^^ n) (sstate p)
      = push_bit 27 (ucast (v XOR drop_bit 18 v))"
    using lcg32s.reaches_all by blast
  then show ?thesis
    by (intro exI [of _ n]) (simp add: PCG32s_stepped PCG32s_Random_out pcg32_out_surj)
qed

text \<open>The 64-bit generators step first and then permute.\<close>

lemma PCG64_Random_out: "fst (PCG64_Random p) = pcg64_out (lstate (snd (PCG64_Random p)))"
  by (simp add: PCG64_Random_def Let_def)

lemma PCG64s_Random_out: "fst (PCG64s_Random p) = pcg64_out (lsstate (snd (PCG64s_Random p)))"
  by (simp add: PCG64s_Random_def Let_def)

lemma PCG64_outputs:
  assumes "odd (xlo (linc p))"
  shows "\<exists>n. fst (PCG64_Random (stepped PCG64_Random n p)) = v"
proof -
  have "odd (to128 (linc p))" using assms by (metis even_unat_iff even_val128 unat_to128)
  then obtain n where "(lcg_step mult128 (to128 (linc p)) ^^ n)
      (to128 (lstate (snd (PCG64_Random p)))) = to128 \<lparr>xhi = 0, xlo = v\<rparr>"
    using full_lcg.reaches_all [OF full128] by blast
  then have "lstate (stepped PCG64_Random n (snd (PCG64_Random p))) = \<lparr>xhi = 0, xlo = v\<rparr>"
    using PCG64_stepped [of n "snd (PCG64_Random p)"] PCG64_stepped [of 1 p]
    by (simp add: to128_inj)
  then have "fst (PCG64_Random (stepped PCG64_Random n p)) = v"
    by (simp add: PCG64_Random_out pcg64_out_surj funpow_swap1 [of "\<lambda>s. snd (PCG64_Random s)"])
  then show ?thesis ..
qed

lemma PCG64s_outputs: "\<exists>n. fst (PCG64s_Random (stepped PCG64s_Random n p)) = v"
proof -
  obtain n where "(lcg_step mult128 inc128s ^^ n) (to128 (lsstate (snd (PCG64s_Random p))))
      = to128 \<lparr>xhi = 0, xlo = v\<rparr>"
    using lcg128s.reaches_all by blast
  then have "lsstate (stepped PCG64s_Random n (snd (PCG64s_Random p))) = \<lparr>xhi = 0, xlo = v\<rparr>"
    using PCG64s_stepped [of n "snd (PCG64s_Random p)"] by (simp add: to128_inj)
  then have "fst (PCG64s_Random (stepped PCG64s_Random n p)) = v"
    by (simp add: PCG64s_Random_out pcg64_out_surj funpow_swap1 [of "\<lambda>s. snd (PCG64s_Random s)"])
  then show ?thesis ..
qed

interpretation gen32: recurrent_gen PCG32_Random "\<lambda>p. odd (inc p)"
  by unfold_locales (simp add: PCG32_Random_def, rule PCG32_outputs)

interpretation gen32s: recurrent_gen PCG32s_Random "\<lambda>_. True"
  by unfold_locales (rule TrueI, rule PCG32s_outputs)

interpretation gen64: recurrent_gen PCG64_Random "\<lambda>p. odd (xlo (linc p))"
  by unfold_locales (simp add: PCG64_Random_def PCG64_add_def PCG64_multiply_def, rule PCG64_outputs)

interpretation gen64s: recurrent_gen PCG64s_Random "\<lambda>_. True"
  by unfold_locales (rule TrueI, rule PCG64s_outputs)

subsection \<open>Counting the accepted draws\<close>

lemma ceil_le_iff: "0 < b \<Longrightarrow> (l + b - 1) div b \<le> v \<longleftrightarrow> l \<le> v * (b :: nat)"
  using less_Suc_eq_le [of "(l + b - 1) div b" v] div_less_iff_less_mult [of b "l + b - 1" "Suc v"]
  by (auto simp: algebra_simps)

lemma card_multiples_in:
  assumes "0 < (b :: nat)"
  shows "card {v. l \<le> v * b \<and> v * b < l + b * q} = q"
proof -
  let ?c = "(l + b - 1) div b"
  have lt: "v * b < l + b * q \<longleftrightarrow> v < ?c + q" for v
  proof (cases "q \<le> v")
    case True
    then have "v * b = (v - q) * b + b * q" by (simp add: algebra_simps)
    then have "v * b < l + b * q \<longleftrightarrow> \<not> l \<le> (v - q) * b" by linarith
    also have "\<dots> \<longleftrightarrow> \<not> ?c \<le> v - q" by (simp only: ceil_le_iff [OF assms])
    finally show ?thesis using True by linarith
  next
    case False
    then have "v * b < b * q" using assms by (simp add: mult.commute)
    with False show ?thesis by linarith
  qed
  have "{v. l \<le> v * b \<and> v * b < l + b * q} = {?c..<?c + q}"
    unfolding lt ceil_le_iff [OF assms, symmetric] by auto
  then show ?thesis by simp
qed

lemma div_eq_iff_range: "0 < N \<Longrightarrow> x div N = r \<longleftrightarrow> N * r \<le> x \<and> x < N * r + (N :: nat)"
  using dividend_less_times_div [of N x] times_div_less_eq_dividend [of N x] div_nat_eqI [of N r x]
  by (auto simp: add.commute)

lemma lemire_eq_iff:
  fixes bound v :: "'o::len word"
  defines "N \<equiv> 2 ^ LENGTH('o) :: nat"
  shows "lemire bound v = Some r \<longleftrightarrow>
    N * r + N mod unat bound \<le> unat v * unat bound \<and> unat v * unat bound < N * r + N"
proof -
  let ?x = "unat v * unat bound"
  have "lemire bound v = Some r \<longleftrightarrow> N mod unat bound \<le> ?x mod N \<and> ?x div N = r"
    by (auto simp: lemire_def unat_word_ariths N_def not_less)
  also have "\<dots> \<longleftrightarrow> N * r + N mod unat bound \<le> ?x \<and> ?x < N * r + N"
  proof (cases "?x div N = r")
    case True
    have "N * (?x div N) + ?x mod N = ?x" by (rule mult_div_mod_eq)
    then have "N * r + ?x mod N = ?x" unfolding True .
    moreover have "?x < N * r + N" using True div_eq_iff_range [of N ?x r] by (simp add: N_def)
    ultimately have "N mod unat bound \<le> ?x mod N \<longleftrightarrow> N * r + N mod unat bound \<le> ?x" by linarith
    with \<open>?x < N * r + N\<close> True show ?thesis by blast
  next
    case False
    then have "\<not> (N * r \<le> ?x \<and> ?x < N * r + N)" using div_eq_iff_range [of N ?x r] by (simp add: N_def)
    with False show ?thesis by linarith
  qed
  finally show ?thesis .
qed

lemma lemire_uniform:
  fixes bound :: "'o::len word"
  assumes r: "r < unat bound"
  shows "card {v. lemire bound v = Some r} = 2 ^ LENGTH('o) div unat bound"
proof -
  let ?N = "2 ^ LENGTH('o) :: nat" and ?b = "unat bound"
  let ?S = "{n. ?N * r + ?N mod ?b \<le> n * ?b \<and> n * ?b < ?N * r + ?N mod ?b + ?b * (?N div ?b)}"
  have "unat ` {v. lemire bound v = Some r} = ?S"
  proof -
    have "\<exists>v :: 'o word. n = unat v" if "n * ?b < ?N * r + ?N" for n
    proof -
      have "?N * r + ?N \<le> ?N * ?b" using r by (metis Suc_leI mult_Suc_right mult_le_mono2 add.commute)
      with that have "n < ?N" by (metis less_le_trans mult_less_cancel2)
      then show ?thesis by (intro exI [of _ "of_nat n"]) (simp add: unat_of_nat)
    qed
    then have surj: "n * ?b < ?N * r + ?N \<Longrightarrow> n \<in> range (unat :: 'o word \<Rightarrow> nat)" for n by blast
    have "?N mod ?b + ?b * (?N div ?b) = ?N" by (rule mod_mult_div_eq)
    then have e: "?N * r + ?N mod ?b + ?b * (?N div ?b) = ?N * r + ?N" by (simp only: add.assoc)
    show ?thesis unfolding lemire_eq_iff e
    proof (intro equalityI subsetI)
      fix n assume n: "n \<in> {n. ?N * r + ?N mod ?b \<le> n * ?b \<and> n * ?b < ?N * r + ?N}"
      then have "n \<in> range (unat :: 'o word \<Rightarrow> nat)" by (intro surj) (simp only: mem_Collect_eq)
      then obtain v :: "'o word" where v: "n = unat v" by (elim rangeE)
      show "n \<in> unat ` {v :: 'o word. ?N * r + ?N mod ?b \<le> unat v * ?b \<and> unat v * ?b < ?N * r + ?N}"
        unfolding v by (rule imageI) (use n v in \<open>simp only: mem_Collect_eq\<close>)
    qed (elim imageE, simp only: mem_Collect_eq)
  qed
  then have "card {v. lemire bound v = Some r} = card ?S"
    by (metis card_image inj_on_def word_unat_eq_iff)
  also have "\<dots> = ?N div ?b" using r by (intro card_multiples_in) simp
  finally show ?thesis .
qed

subsection \<open>Seeded generators\<close>

lemma PCG32_Seed_odd: "odd (inc (PCG32_Seed st sq p))"
  by (simp add: PCG32_Seed_def Let_def push_bit_eq_mult even_or_iff)

lemma PCG64_Seed_odd: "odd (xlo (linc (PCG64_Seed sth stl sqh sql p)))"
  by (simp add: PCG64_Seed_def PCG64_add_def PCG64_multiply_def Let_def push_bit_eq_mult even_or_iff)

lemma PCG32_stepped_odd: "odd (inc (stepped PCG32_Random n (PCG32_Seed st sq p)))"
  using PCG32_Seed_odd by (simp add: PCG32_stepped)

lemma PCG64_stepped_odd: "odd (xlo (linc (stepped PCG64_Random n (PCG64_Seed sth stl sqh sql p))))"
  using PCG64_Seed_odd PCG64_stepped by simp

lemma PCG32_reaches: "odd (inc p) \<Longrightarrow> \<exists>n. stepped PCG32_Random n p = p\<lparr>state := t\<rparr>"
  using full_lcg.reaches_all [OF full32 [of "inc p"], of "state p" t] by (auto simp: PCG32_stepped)

text \<open>The halves of \<open>PCG32x2\<close> step together.\<close>

lemma PCG32x2_stepped:
  "ghi (stepped PCG32x2_Random n p) = stepped PCG32_Random n (ghi p)"
  "glo (stepped PCG32x2_Random n p) = stepped PCG32_Random n (glo p)"
  by (induction n) (simp_all add: PCG32x2_Random_def split: prod.split)

lemma PCG32x2_Seed_odd:
  "odd (inc (ghi (PCG32x2_Seed sth stl sqh sql p)))" "odd (inc (glo (PCG32x2_Seed sth stl sqh sql p)))"
  by (simp_all add: PCG32x2_Seed_def Let_def PCG32_Seed_odd)

lemma PCG32_returns: "odd (inc p) \<Longrightarrow> stepped PCG32_Random n p = p \<longleftrightarrow> 2 ^ 64 dvd n"
  using full_lcg.returns_iff [OF full32 [of "inc p"], of n "state p"]
  unfolding PCG32_stepped by (auto intro!: PCG32.equality dest: arg_cong [where f = state])

lemma PCG32x2_returns:
  assumes "odd (inc (ghi p))" and "odd (inc (glo p))"
  shows "stepped PCG32x2_Random n p = p \<longleftrightarrow> 2 ^ 64 dvd n"
proof -
  have "stepped PCG32x2_Random n p = p \<longleftrightarrow>
      ghi (stepped PCG32x2_Random n p) = ghi p \<and> glo (stepped PCG32x2_Random n p) = glo p"
    by (auto intro: PCG32x2.equality)
  then show ?thesis by (simp add: PCG32x2_stepped PCG32_returns assms)
qed

lemma PCG32s_reaches: "\<exists>n. stepped PCG32s_Random n p = \<lparr>sstate = t\<rparr>"
proof -
  obtain n where "(lcg_step pcg32Multiplier pcg32sIncrement ^^ n) (sstate p) = t"
    using lcg32s.reaches_all by blast
  then show ?thesis by (intro exI [of _ n] PCG32s.equality) (simp_all add: PCG32s_stepped)
qed

lemma PCG64_reaches:
  assumes "odd (xlo (linc p))"
  shows "\<exists>n. stepped PCG64_Random n p = p\<lparr>lstate := t\<rparr>"
proof -
  have "odd (to128 (linc p))" using assms by (metis even_unat_iff even_val128 unat_to128)
  then obtain n where "(lcg_step mult128 (to128 (linc p)) ^^ n) (to128 (lstate p)) = to128 t"
    using full_lcg.reaches_all [OF full128] by blast
  then have "lstate (stepped PCG64_Random n p) = t" "linc (stepped PCG64_Random n p) = linc p"
    using PCG64_stepped [of n p] by (simp_all add: to128_inj)
  then show ?thesis by (intro exI [of _ n] PCG64.equality) simp_all
qed

lemma PCG64s_reaches: "\<exists>n. stepped PCG64s_Random n p = \<lparr>lsstate = t\<rparr>"
proof -
  obtain n where "(lcg_step mult128 inc128s ^^ n) (to128 (lsstate p)) = to128 t"
    using lcg128s.reaches_all by blast
  then have "lsstate (stepped PCG64s_Random n p) = t"
    using PCG64s_stepped [of n p] by (simp add: to128_inj)
  then show ?thesis by (intro exI [of _ n] PCG64s.equality) simp_all
qed

lemma unat_not_64: "unat (NOT w) = 2 ^ 64 - 1 - unat w" for w :: u64
proof -
  have "NOT w = - 1 - w" by (simp add: not_eq_complement)
  then show ?thesis using unat_sub [of w "- 1"] unat_uminus [of "1 :: u64"]
    by (simp only: word_order.extremum) simp
qed

lemma to128_not: "to128 \<lparr>xhi = NOT h, xlo = NOT l\<rparr> + 1 = - to128 \<lparr>xhi = h, xlo = l\<rparr>"
proof -
  have ar: "(H - 1 - h) * H + (H - 1 - l) + 1 + (h * H + l) = H * H"
    if "h < H" "l < H" for h l H :: int by (simp add: algebra_simps)
  have "int (val128 \<lparr>xhi = NOT h, xlo = NOT l\<rparr> + 1 + val128 \<lparr>xhi = h, xlo = l\<rparr>) = 2 ^ 64 * 2 ^ 64"
    using ar [of "int (unat h)" "2 ^ 64" "int (unat l)"] unat_lt_2p [of h] unat_lt_2p [of l]
    by (simp add: val128_def unat_not_64 of_nat_diff)
  then have "val128 \<lparr>xhi = NOT h, xlo = NOT l\<rparr> + 1 + val128 \<lparr>xhi = h, xlo = l\<rparr> = 2 ^ 128"
    by (simp add: nat_int_comparison(1))
  then have "(of_nat (val128 \<lparr>xhi = NOT h, xlo = NOT l\<rparr> + 1 + val128 \<lparr>xhi = h, xlo = l\<rparr>) :: 128 word)
      = of_nat (2 ^ 128)" by (simp only:)
  also have "\<dots> = 0" by simp
  finally have "to128 \<lparr>xhi = NOT h, xlo = NOT l\<rparr> + 1 + to128 \<lparr>xhi = h, xlo = l\<rparr> = 0"
    by (simp only: to128_def of_nat_add of_nat_1)
  then show ?thesis by (simp only: eq_neg_iff_add_eq_0)
qed

lemma xpair [simp]: "\<lparr>xhi = xhi x, xlo = xlo x\<rparr> = x"
  by simp

lemma advance128_back [simp]:
  "advanceLCG128 (advanceLCG128 s \<lparr>xhi = dhi, xlo = dlo\<rparr> \<lparr>xhi = pcg64MulHi, xlo = pcg64MulLo\<rparr> p)
     (xadd \<lparr>xhi = NOT dhi, xlo = NOT dlo\<rparr> \<lparr>xhi = 0, xlo = 1\<rparr>)
     \<lparr>xhi = pcg64MulHi, xlo = pcg64MulLo\<rparr> p = s"
  by (simp add: advanceLCG128_steps to128_not lcg128.steps_inverse flip: to128_inj unat_to128)

lemmas Bounded_defs = PCG32_Bounded_def PCG32_slowBounded_def PCG32s_Bounded_def PCG32s_slowBounded_def
  PCG64_Bounded_def PCG64_slowBounded_def PCG64s_Bounded_def PCG64s_slowBounded_def

lemma push_or_1_inj:
  assumes "push_bit 1 a OR 1 = push_bit 1 b OR (1 :: u64)"
  shows "a AND drop_bit 1 (NOT 0) = b AND drop_bit 1 (NOT 0)"
proof (rule bit_word_eqI)
  fix n assume n: "n < LENGTH(64)"
  have "bit (push_bit 1 a OR 1) (Suc n) = bit (push_bit 1 b OR (1 :: u64)) (Suc n)"
    by (simp only: assms)
  then show "bit (a AND drop_bit 1 (NOT 0)) n = bit (b AND drop_bit 1 (NOT 0)) n"
    using n unfolding bit_or_iff bit_push_bit_iff bit_1_iff by (auto simp: bit_simps)
qed

lemma not_and_mask: "NOT a AND drop_bit 1 (NOT 0) \<noteq> a AND drop_bit 1 (NOT (0 :: u64))"
proof
  assume "NOT a AND drop_bit 1 (NOT 0) = a AND drop_bit 1 (NOT (0 :: u64))"
  then have "bit (NOT a AND drop_bit 1 (NOT 0)) 0 = bit (a AND drop_bit 1 (NOT (0 :: u64))) 0"
    by (simp only:)
  then show False by (auto simp: bit_simps)
qed

subsection \<open>Properties\<close>

text \<open>
  The two-word arithmetic of \<open>xuint128\<close> is 128-bit arithmetic: \<open>add\<close> and \<open>multiply\<close> compute the
  sum and the product modulo \<open>2 ^ 128\<close>, on all inputs.
\<close>
theorem xuint128_arith:
  "to128 (xadd x y) = to128 x + to128 y \<and> to128 (xmultiply x y) = to128 x * to128 y"
  by simp

text \<open>
  C34: \<open>Advance\<close> with the logarithmic jump of \<open>lcg.go\<close> leaves each generator in the state that
  \<open>delta\<close> calls of \<open>Random\<close> would leave it in.
\<close>
theorem Advance_is_iterated_Random:
  "(PCG32_Advance d p = stepped PCG32_Random (unat d) p) \<and>
   (PCG32s_Advance d ps = stepped PCG32s_Random (unat d) ps) \<and>
   (PCG64_Advance dhi dlo q = stepped PCG64_Random (val128 \<lparr>xhi = dhi, xlo = dlo\<rparr>) q) \<and>
   (PCG64s_Advance dhi dlo qs = stepped PCG64s_Random (val128 \<lparr>xhi = dhi, xlo = dlo\<rparr>) qs) \<and>
   (PCG32x2_Advance d px = stepped PCG32x2_Random (unat d) px)"
proof (intro conjI)
  show p: "PCG32_Advance d p = stepped PCG32_Random (unat d) p" for p
    by (simp add: PCG32_Advance_def PCG32_stepped advanceLCG64_steps)
  show "PCG32x2_Advance d px = stepped PCG32x2_Random (unat d) px"
    by (intro PCG32x2.equality) (simp_all add: PCG32x2_Advance_def PCG32x2_stepped p)
  show "PCG32s_Advance d ps = stepped PCG32s_Random (unat d) ps"
    by (simp add: PCG32s_Advance_def PCG32s_stepped advanceLCG64_steps)
  have "lstate (PCG64_Advance dhi dlo q)
      = lstate (stepped PCG64_Random (val128 \<lparr>xhi = dhi, xlo = dlo\<rparr>) q)"
    using PCG64_stepped by (simp add: PCG64_Advance_def advanceLCG128_steps flip: to128_inj)
  then show "PCG64_Advance dhi dlo q = stepped PCG64_Random (val128 \<lparr>xhi = dhi, xlo = dlo\<rparr>) q"
    using PCG64_stepped by (intro PCG64.equality) (simp_all add: PCG64_Advance_def)
  have "lsstate (PCG64s_Advance dhi dlo qs)
      = lsstate (stepped PCG64s_Random (val128 \<lparr>xhi = dhi, xlo = dlo\<rparr>) qs)"
    using PCG64s_stepped by (simp add: PCG64s_Advance_def advanceLCG128_steps flip: to128_inj)
  then show "PCG64s_Advance dhi dlo qs = stepped PCG64s_Random (val128 \<lparr>xhi = dhi, xlo = dlo\<rparr>) qs"
    by (intro PCG64s.equality) simp_all
qed

text \<open>
  \<open>Retreat\<close> by \<open>delta\<close> undoes \<open>Advance\<close> by \<open>delta\<close>, in every generator and for every \<open>delta\<close>
  (its negation is taken modulo the period).
\<close>
theorem Retreat_undoes_Advance:
  "(PCG32_Retreat d (PCG32_Advance d p) = p) \<and>
   (PCG32s_Retreat d (PCG32s_Advance d ps) = ps) \<and>
   (PCG32x2_Retreat d (PCG32x2_Advance d px) = px) \<and>
   (PCG64_Retreat dhi dlo (PCG64_Advance dhi dlo q) = q) \<and>
   (PCG64s_Retreat dhi dlo (PCG64s_Advance dhi dlo qs) = qs)"
proof (intro conjI)
  show p: "PCG32_Retreat d (PCG32_Advance d p) = p" for p
    by (simp add: PCG32_Retreat_def PCG32_Advance_def advanceLCG64_steps lcg32.steps_inverse)
  show "PCG32s_Retreat d (PCG32s_Advance d ps) = ps"
    by (simp add: PCG32s_Retreat_def PCG32s_Advance_def advanceLCG64_steps lcg32.steps_inverse)
  show "PCG32x2_Retreat d (PCG32x2_Advance d px) = px"
    using p by (simp add: PCG32x2_Retreat_def PCG32x2_Advance_def PCG32_Retreat_def)
  show "PCG64_Retreat dhi dlo (PCG64_Advance dhi dlo q) = q"
    by (intro PCG64.equality) (simp_all add: PCG64_Retreat_def PCG64_Advance_def Let_def
        advance128_back)
  show "PCG64s_Retreat dhi dlo (PCG64s_Advance dhi dlo qs) = qs"
    by (intro PCG64s.equality) (simp_all add: PCG64s_Retreat_def PCG64s_Advance_def Let_def
        advance128_back)
qed

text \<open>
  C35: the period of a seeded generator. \<open>PCG32\<close>, \<open>PCG32s\<close>, \<open>PCG64\<close> and \<open>PCG64s\<close> run through their whole state space:
  from the state any \<open>Seed\<close> leaves, every state with the same increment is reached by some number of
  \<open>Random\<close> calls. The two halves of \<open>PCG32x2\<close> do so each, but together: the pair is back after exactly
  \<open>2 ^ 64\<close> calls, not \<open>2 ^ 128\<close>.
\<close>
theorem Seed_full_cycle:
  "(\<exists>n. stepped PCG32_Random n (PCG32_Seed st sq p) = (PCG32_Seed st sq p)\<lparr>state := t\<rparr>) \<and>
   (\<exists>n. stepped PCG32s_Random n (PCG32s_Seed st ps) = \<lparr>sstate = t\<rparr>) \<and>
   (\<exists>n. stepped PCG64_Random n (PCG64_Seed sth stl sqh sql q) = (PCG64_Seed sth stl sqh sql q)\<lparr>lstate := t2\<rparr>) \<and>
   (\<exists>n. stepped PCG64s_Random n (PCG64s_Seed sth stl qs) = \<lparr>lsstate = t2\<rparr>) \<and>
   (let x = PCG32x2_Seed sth stl sqh sql px in
      (\<exists>n. ghi (stepped PCG32x2_Random n x) = (ghi x)\<lparr>state := t\<rparr>) \<and>
      (\<exists>n. glo (stepped PCG32x2_Random n x) = (glo x)\<lparr>state := t\<rparr>) \<and>
      (stepped PCG32x2_Random k x = x \<longleftrightarrow> 2 ^ 64 dvd k))"
proof (intro conjI)
  show "\<exists>n. stepped PCG32_Random n (PCG32_Seed st sq p) = (PCG32_Seed st sq p)\<lparr>state := t\<rparr>"
    by (rule PCG32_reaches) (rule PCG32_Seed_odd)
  show "\<exists>n. stepped PCG32s_Random n (PCG32s_Seed st ps) = \<lparr>sstate = t\<rparr>"
    by (rule PCG32s_reaches)
  show "\<exists>n. stepped PCG64_Random n (PCG64_Seed sth stl sqh sql q) = (PCG64_Seed sth stl sqh sql q)\<lparr>lstate := t2\<rparr>"
    by (rule PCG64_reaches) (rule PCG64_Seed_odd)
  show "\<exists>n. stepped PCG64s_Random n (PCG64s_Seed sth stl qs) = \<lparr>lsstate = t2\<rparr>"
    by (rule PCG64s_reaches)
  show "let x = PCG32x2_Seed sth stl sqh sql px in
      (\<exists>n. ghi (stepped PCG32x2_Random n x) = (ghi x)\<lparr>state := t\<rparr>) \<and>
      (\<exists>n. glo (stepped PCG32x2_Random n x) = (glo x)\<lparr>state := t\<rparr>) \<and>
      (stepped PCG32x2_Random k x = x \<longleftrightarrow> 2 ^ 64 dvd k)"
    using PCG32_reaches [OF PCG32x2_Seed_odd(1)] PCG32_reaches [OF PCG32x2_Seed_odd(2)]
      PCG32x2_returns [OF PCG32x2_Seed_odd] unfolding Let_def PCG32x2_stepped by simp
qed

text \<open>
  On a seeded generator, after any number of draws, \<open>Bounded\<close> and \<open>slowBounded\<close> return: their
  rejection loops end, and the result is below the bound.
\<close>
theorem Bounded_returns:
  assumes "b32 \<noteq> 0" and "b64 \<noteq> 0"
  shows "(\<exists>r s. PCG32_Bounded b32 (stepped PCG32_Random n (PCG32_Seed st sq p)) = Some (r, s) \<and> r < b32) \<and>
   (\<exists>r s. PCG32_slowBounded b32 (stepped PCG32_Random n (PCG32_Seed st sq p)) = Some (r, s) \<and> r < b32) \<and>
   (\<exists>r s. PCG32s_Bounded b32 ps = Some (r, s) \<and> r < b32) \<and>
   (\<exists>r s. PCG32s_slowBounded b32 ps = Some (r, s) \<and> r < b32) \<and>
   (\<exists>r s. PCG64_Bounded b64 (stepped PCG64_Random n (PCG64_Seed sth stl sqh sql q)) = Some (r, s) \<and> r < b64) \<and>
   (\<exists>r s. PCG64_slowBounded b64 (stepped PCG64_Random n (PCG64_Seed sth stl sqh sql q)) = Some (r, s) \<and> r < b64) \<and>
   (\<exists>r s. PCG64s_Bounded b64 qs = Some (r, s) \<and> r < b64) \<and>
   (\<exists>r s. PCG64s_slowBounded b64 qs = Some (r, s) \<and> r < b64)"
proof (intro conjI)
  note b32 = Bounded32_step [OF assms(1)] and b64 = Bounded64_step [OF assms(2)]
  show "\<exists>r s. PCG32_Bounded b32 (stepped PCG32_Random n (PCG32_Seed st sq p)) = Some (r, s) \<and> r < b32"
    using gen32.lemire_loop_returns [OF PCG32_stepped_odd assms(1) b32] unfolding Bounded_defs by blast
  show "\<exists>r s. PCG32_slowBounded b32 (stepped PCG32_Random n (PCG32_Seed st sq p)) = Some (r, s) \<and> r < b32"
    using gen32.slowBounded_returns [OF PCG32_stepped_odd assms(1)] unfolding Bounded_defs by blast
  show "\<exists>r s. PCG32s_Bounded b32 ps = Some (r, s) \<and> r < b32"
    using gen32s.lemire_loop_returns [OF TrueI assms(1) b32] unfolding Bounded_defs by blast
  show "\<exists>r s. PCG32s_slowBounded b32 ps = Some (r, s) \<and> r < b32"
    using gen32s.slowBounded_returns [OF TrueI assms(1)] unfolding Bounded_defs by blast
  show "\<exists>r s. PCG64_Bounded b64 (stepped PCG64_Random n (PCG64_Seed sth stl sqh sql q)) = Some (r, s) \<and> r < b64"
    using gen64.lemire_loop_returns [OF PCG64_stepped_odd assms(2) b64] unfolding Bounded_defs by blast
  show "\<exists>r s. PCG64_slowBounded b64 (stepped PCG64_Random n (PCG64_Seed sth stl sqh sql q)) = Some (r, s) \<and> r < b64"
    using gen64.slowBounded_returns [OF PCG64_stepped_odd assms(2)] unfolding Bounded_defs by blast
  show "\<exists>r s. PCG64s_Bounded b64 qs = Some (r, s) \<and> r < b64"
    using gen64s.lemire_loop_returns [OF TrueI assms(2) b64] unfolding Bounded_defs by blast
  show "\<exists>r s. PCG64s_slowBounded b64 qs = Some (r, s) \<and> r < b64"
    using gen64s.slowBounded_returns [OF TrueI assms(2)] unfolding Bounded_defs by blast
qed

theorem Bounded_returns_witness:
  "\<exists>r s. PCG32_Bounded 6 (stepped PCG32_Random 2 (PCG32_Seed 42 54 NewPCG32)) = Some (r, s) \<and> r < 6"
  by (rule Bounded_returns [of 6 1, THEN conjunct1]) simp_all

text \<open>
  C33: \<open>Bounded\<close> is unbiased: it draws until \<open>lemire\<close> accepts, and every result below the bound is
  accepted for the same number of outputs of the generator, \<open>2 ^ 32 div bound\<close> (\<open>2 ^ 64 div bound\<close>).
\<close>
theorem Bounded_uniform:
  fixes b32 :: u32 and b64 :: u64
  assumes "b32 \<noteq> 0" and "b64 \<noteq> 0"
  shows "(Bounded32 rnd b32 s = (case lemire b32 (fst (rnd s)) of
            None \<Rightarrow> Bounded32 rnd b32 (snd (rnd s)) | Some r \<Rightarrow> Some (of_nat r, snd (rnd s)))) \<and>
   (Bounded64 rnd' b64 s' = (case lemire b64 (fst (rnd' s')) of
            None \<Rightarrow> Bounded64 rnd' b64 (snd (rnd' s')) | Some r \<Rightarrow> Some (of_nat r, snd (rnd' s')))) \<and>
   (r < unat b32 \<longrightarrow> card {v. lemire b32 v = Some r} = 2 ^ 32 div unat b32) \<and>
   (r < unat b64 \<longrightarrow> card {v. lemire b64 v = Some r} = 2 ^ 64 div unat b64)"
  using Bounded32_step [OF assms(1)] Bounded64_step [OF assms(2)]
    lemire_uniform [of r b32] lemire_uniform [of r b64] by (intro conjI) simp_all

theorem Bounded_uniform_witness: "card {v :: u32. lemire 6 v = Some 5} = 2 ^ 32 div 6"
  using Bounded_uniform [of 6 1 "Pair 0" "()" "Pair 0" "()" 5] by simp

text \<open>
  \<open>PCG32x2.Seed\<close> gives its two halves different increments (so different sequences), whatever
  sequence numbers are passed.
\<close>
theorem PCG32x2_Seed_distinct:
  "inc (ghi (PCG32x2_Seed sth stl sqh sql p)) \<noteq> inc (glo (PCG32x2_Seed sth stl sqh sql p))"
proof (cases "sqh AND drop_bit 1 (NOT 0) = sql AND drop_bit 1 (NOT 0)")
  case True
  then show ?thesis
    using push_or_1_inj [of sqh "NOT sqh"] not_and_mask [of sqh] by (auto simp: PCG32x2_Seed_def PCG32_Seed_def Let_def)
next
  case False
  then show ?thesis
    using push_or_1_inj [of sqh sql] by (auto simp: PCG32x2_Seed_def PCG32_Seed_def Let_def)
qed

end
