(* ===== verification/Streams.thy ===== *)
theory Streams
  imports Prelude "HOL-Library.Monad_Syntax"
begin

text \<open>
  Go's \<open>io.Reader\<close> and \<open>io.Writer\<close> as the repository's stream code sees them.

  A reader is the list of the results its \<open>Read\<close> calls will give: each entry is a chunk of bytes and
  the error returned with it. A call that asks for fewer bytes than the chunk has gets a prefix, and
  the rest stays for the next call; at the end of the list \<open>Read\<close> gives \<open>io.EOF\<close> for ever. So an
  entry \<open>([], None)\<close> is a read of no bytes and no error, an entry with bytes and an error is a final
  read that returns both, and every division of the data into reads is some list.

  \<open>uevs\<close> forgets the division: it is the sequence of bytes and errors the reader still holds. The
  stream components are specified over it, which makes their results independent of how the network
  cuts the data.

  A writer accepts bytes until its room is used up and then returns an error with the number of
  bytes it took.
\<close>

datatype io_err = EOF | ErrUnexpectedEOF | ErrDelimNotFound | errInvalidUnread | ErrUnterminatedEscape
  | ErrShort | errHeadLimitReached | ErrOther nat

type_synonym reader = "(bytes \<times> io_err option) list"

fun uread :: "nat \<Rightarrow> reader \<Rightarrow> bytes \<times> io_err option \<times> reader" where
  "uread n [] = ([], Some EOF, [])"
| "uread n ((b, e) # cs) =
     (if length b \<le> n then (b, e, cs) else (take n b, None, (drop n b, e) # cs))"

datatype ev = Byte byte | Err io_err

definition err_evs :: "io_err option \<Rightarrow> ev list" where
  "err_evs e = (case e of None \<Rightarrow> [] | Some x \<Rightarrow> [Err x])"

lemma err_evs_simps [simp]: "err_evs None = []" "err_evs (Some e) = [Err e]"
  by (simp_all add: err_evs_def)

definition uevs :: "reader \<Rightarrow> ev list" where
  "uevs u = concat (map (\<lambda>(b, e). map Byte b @ err_evs e) u)"

lemma uevs_simps [simp]: "uevs [] = []" "uevs ((b, e) # u) = map Byte b @ err_evs e @ uevs u"
  by (simp_all add: uevs_def)

text \<open>Reading one item of a sequence of bytes and errors; the end of the data is \<open>EOF\<close> for ever.\<close>

fun next_ev :: "ev list \<Rightarrow> (io_err + byte) \<times> ev list" where
  "next_ev [] = (Inl EOF, [])"
| "next_ev (Byte c # es) = (Inr c, es)"
| "next_ev (Err e # es) = (Inl e, es)"

text \<open>
  \<open>EOF\<close> at the end of the data is the same as the end of the data: \<open>canon\<close> strips it. \<open>eats p e es es'\<close>
  says that the bytes \<open>p\<close> and then the error \<open>e\<close>, if any, came off \<open>es\<close> and left \<open>es'\<close>.
\<close>

fun canon :: "ev list \<Rightarrow> ev list" where
  "canon [] = []"
| "canon (x # es) = (if canon es = [] \<and> x = Err EOF then [] else x # canon es)"

lemma canon_append: "canon b = canon b' \<Longrightarrow> canon (a @ b) = canon (a @ b')"
  by (induction a) auto

lemma canon_EOF [simp]: "canon (es @ [Err EOF]) = canon es"
  using canon_append [of "[Err EOF]" "[]" es] by simp

lemma canon_bytes [simp]: "canon (map Byte p @ es) = map Byte p @ canon es"
  by (induction p) auto

lemma canon_bytes_only [simp]: "canon (map Byte p) = map Byte p"
  using canon_bytes [of p "[]"] by simp

lemma next_ev_canon: "next_ev (canon es) = (fst (next_ev es), canon (snd (next_ev es)))"
  by (induction es rule: next_ev.induct) auto

definition eats :: "bytes \<Rightarrow> io_err option \<Rightarrow> ev list \<Rightarrow> ev list \<Rightarrow> bool" where
  "eats p e es es' \<longleftrightarrow>
     (case e of None \<Rightarrow> es = map Byte p @ es'
      | Some x \<Rightarrow> (\<exists>t. es = map Byte p @ t \<and> next_ev t = (Inl x, es')))"

text \<open>One \<open>Read\<close> takes a prefix off the sequence.\<close>

lemma uread_len: "uread n u = (x, e, u') \<Longrightarrow> length x \<le> n"
  by (cases u) (auto split: if_splits)

lemma uread_evs:
  assumes "uread n u = (x, e, u')" and "u \<noteq> []"
  shows "uevs u = map Byte x @ err_evs e @ uevs u'"
proof -
  obtain b e0 cs where u: "u = (b, e0) # cs" using assms(2) by (cases u) auto
  show ?thesis using assms(1) unfolding u
    by (auto split: if_splits simp flip: map_append append_assoc)
qed

lemma uread_eats:
  assumes "uread n u = (x, e, u')"
  shows "eats x e (canon (uevs u)) (canon (uevs u'))"
proof (cases "u = []")
  case True
  then show ?thesis using assms by (auto simp: eats_def)
next
  case False
  show ?thesis
    unfolding uread_evs [OF assms False]
    by (cases e) (auto simp: eats_def next_ev_canon [of "Err _ # _", simplified])
qed

lemma uread_canon:
  "uread n u = (x, e, u') \<Longrightarrow> canon (map Byte x @ err_evs e @ uevs u') = canon (uevs u)"
  using uread_evs [of n u x e u'] by (cases "u = []") auto

lemma uread_end: "uread n [] = (x, e, u') \<longleftrightarrow> x = [] \<and> e = Some EOF \<and> u' = []"
  by auto

text \<open>Every call with room takes something off the reader: a measure for the loops.\<close>

definition usize :: "reader \<Rightarrow> nat" where
  "usize u = sum_list (map (\<lambda>(b, e). Suc (length b)) u)"

lemma usize_simps [simp]: "usize [] = 0" "usize ((b, e) # u) = Suc (length b + usize u)"
  by (simp_all add: usize_def)

lemma uread_size: "uread n u = (x, e, u') \<Longrightarrow> 0 < n \<Longrightarrow> u \<noteq> [] \<Longrightarrow> usize u' < usize u"
  by (cases u) (auto split: if_splits)

subsection \<open>Writers\<close>

record writer =
  wout :: bytes
  wroom :: "nat option"

definition uwrite :: "bytes \<Rightarrow> writer \<Rightarrow> nat \<times> io_err option \<times> writer" where
  "uwrite p w =
     (case wroom w of
        None \<Rightarrow> (length p, None, w\<lparr>wout := wout w @ p\<rparr>)
      | Some k \<Rightarrow>
          if length p \<le> k then (length p, None, w\<lparr>wout := wout w @ p, wroom := Some (k - length p)\<rparr>)
          else (k, Some ErrShort, w\<lparr>wout := wout w @ take k p, wroom := Some 0\<rparr>))"

lemma uwrite_wout: "uwrite p w = (n, e, w') \<Longrightarrow> wout w' = wout w @ take n p \<and> n \<le> length p"
  by (auto simp: uwrite_def split: option.splits if_splits)

lemma uwrite_all: "uwrite p w = (n, None, w') \<Longrightarrow> n = length p"
  by (auto simp: uwrite_def split: option.splits if_splits)

subsection \<open>\<open>bytes.IndexByte\<close>\<close>

definition index_byte :: "bytes \<Rightarrow> byte \<Rightarrow> nat option" where
  "index_byte s q =
     (let i = length (takeWhile (\<lambda>c. c \<noteq> q) s) in if i < length s then Some i else None)"

lemma index_byte_Some:
  "index_byte s q = Some i \<Longrightarrow> i < length s \<and> take (i + 1) s = take i s @ [q] \<and> q \<notin> set (take i s)"
proof -
  assume a: "index_byte s q = Some i"
  then have i: "i = length (takeWhile (\<lambda>c. c \<noteq> q) s)" "i < length s"
    by (auto simp: index_byte_def Let_def split: if_splits)
  then have "take i s = takeWhile (\<lambda>c. c \<noteq> q) s" by (metis takeWhile_eq_take)
  moreover have "s ! i = q" using i nth_length_takeWhile [of "\<lambda>c. c \<noteq> q" s] by simp
  ultimately show ?thesis using i set_takeWhileD [of q "\<lambda>c. c \<noteq> q" s]
    by (auto simp: take_Suc_conv_app_nth)
qed

lemma index_byte_None: "index_byte s q = None \<longleftrightarrow> q \<notin> set s"
proof
  assume "index_byte s q = None"
  then have "length (takeWhile (\<lambda>c. c \<noteq> q) s) = length s"
    using length_takeWhile_le [of "\<lambda>c. c \<noteq> q" s] by (auto simp: index_byte_def Let_def split: if_splits)
  then have "takeWhile (\<lambda>c. c \<noteq> q) s = s" by (metis takeWhile_eq_take take_all order_refl)
  then show "q \<notin> set s" by (metis (mono_tags, lifting) set_takeWhileD)
next
  assume "q \<notin> set s"
  then have "takeWhile (\<lambda>c. c \<noteq> q) s = s" by (intro takeWhile_eq_self) auto
  then show "index_byte s q = None" by (simp only: index_byte_def Let_def) simp
qed

end
