(* ===== verification/BufReader.thy ===== *)
theory BufReader
  imports Streams
begin

text \<open>
  \<open>utils/text/bufreader/bufreader.go\<close>: the buffered reader under every NNTP connection.

  The state is the Go struct: the underlying reader, the whole buffer with its read and write
  positions, and the queued error. \<open>events\<close> is its abstraction: the buffered bytes, the queued
  error, and what the underlying reader still holds. Each operation is shown to do on \<open>events\<close> what
  its contract says, so no operation loses, repeats or reorders a byte or an error, and no result
  depends on how the data arrived.
\<close>

record BufReader =
  bu :: reader
  bb :: bytes
  bw :: nat
  br :: nat
  berr :: "io_err option"

definition defaultBufSize :: nat where "defaultBufSize = 4096"

definition NewBufReader :: "reader \<Rightarrow> BufReader" where
  "NewBufReader u = \<lparr>bu = u, bb = replicate defaultBufSize 0, bw = 0, br = 0, berr = None\<rparr>"

text \<open>A size that is not positive panics.\<close>

definition NewBufReaderSize :: "reader \<Rightarrow> int \<Rightarrow> BufReader option" where
  "NewBufReaderSize u s =
     (if s \<le> 0 then None
      else Some \<lparr>bu = u, bb = replicate (nat s) 0, bw = 0, br = 0, berr = None\<rparr>)"

definition SetReader :: "reader \<Rightarrow> BufReader \<Rightarrow> BufReader" where
  "SetReader u d = d\<lparr>bu := u\<rparr>"

definition ResetErr :: "BufReader \<Rightarrow> BufReader" where
  "ResetErr d = d\<lparr>berr := None\<rparr>"

definition QueuedErr :: "BufReader \<Rightarrow> io_err option" where
  "QueuedErr d = berr d"

definition readErr :: "BufReader \<Rightarrow> io_err option \<times> BufReader" where
  "readErr d = (berr d, d\<lparr>berr := None\<rparr>)"

definition Buffered :: "BufReader \<Rightarrow> bytes" where
  "Buffered d = take (bw d - br d) (drop (br d) (bb d))"

definition Drop :: "BufReader \<Rightarrow> BufReader" where
  "Drop d = d\<lparr>br := 0, bw := 0\<rparr>"

text \<open>\<open>n, r.err = r.u.Read(r.b); r.r = 0; r.w = n\<close>\<close>

definition refill :: "BufReader \<Rightarrow> BufReader" where
  "refill d =
     (let (x, e, u) = uread (length (bb d)) (bu d)
      in d\<lparr>bu := u, bb := x @ drop (length x) (bb d), berr := e, br := 0, bw := length x\<rparr>)"

text \<open>The loop that \<open>ReadByte\<close> and \<open>ReadUntil\<close> share: fill the buffer, or return the queued error.\<close>

partial_function (option) fill :: "BufReader \<Rightarrow> (io_err option \<times> BufReader) option" where
  "fill d =
     (if br d = bw d
      then if berr d \<noteq> None then Some (readErr d) else fill (refill d)
      else Some (None, d))"

partial_function (option) Read ::
  "nat \<Rightarrow> BufReader \<Rightarrow> ((bytes \<times> io_err option) \<times> BufReader) option" where
  "Read lp d =
     (if br d = bw d
      then if berr d \<noteq> None then (let (e, d) = readErr d in Some (([], e), d))
           else if lp \<ge> length (bb d)
           then (let (x, e, u) = uread lp (bu d) in Some ((x, e), d\<lparr>bu := u\<rparr>))
           else Read lp (refill d)
      else let p = take lp (Buffered d) in Some ((p, None), d\<lparr>br := br d + length p\<rparr>))"

definition ReadByte :: "BufReader \<Rightarrow> ((io_err + byte) \<times> BufReader) option" where
  "ReadByte d = do {
     (e, d) \<leftarrow> fill d;
     case e of
       Some e \<Rightarrow> Some (Inl e, d)
     | None \<Rightarrow> Some (Inr (bb d ! br d), d\<lparr>br := br d + 1\<rparr>)
   }"

definition UnreadByte :: "byte \<Rightarrow> BufReader \<Rightarrow> io_err option \<times> BufReader" where
  "UnreadByte c d =
     (if br d \<noteq> 0 then (None, d\<lparr>br := br d - 1, bb := (bb d)[br d - 1 := c]\<rparr>)
      else if bw d = 0 then (None, d\<lparr>bw := 1, bb := (bb d)[0 := c]\<rparr>)
      else (Some errInvalidUnread, d))"

text \<open>\<open>p\<close> is the part of the destination filled so far, \<open>lp\<close> its full length.\<close>

partial_function (option) until_loop ::
  "nat \<Rightarrow> byte \<Rightarrow> bytes \<Rightarrow> BufReader \<Rightarrow> ((bytes \<times> io_err option) \<times> BufReader) option" where
  "until_loop lp q p d = do {
     (e, d) \<leftarrow> fill d;
     if e \<noteq> None then Some ((p, e), d)
     else let avail = (if bw d - br d > lp - length p then take (lp - length p) (Buffered d)
                       else Buffered d)
          in case index_byte avail q of
               Some i \<Rightarrow> (let x = take (i + 1) avail
                          in Some ((p @ x, None), d\<lparr>br := br d + length x\<rparr>))
             | None \<Rightarrow> (let p = p @ avail; d = d\<lparr>br := br d + length avail\<rparr>
                         in if length p \<ge> lp then Some ((p, Some ErrDelimNotFound), d)
                            else until_loop lp q p d)
   }"

definition ReadUntil ::
  "nat \<Rightarrow> byte \<Rightarrow> BufReader \<Rightarrow> ((bytes \<times> io_err option) \<times> BufReader) option" where
  "ReadUntil lp q d = until_loop lp q [] d"

definition Size :: "BufReader \<Rightarrow> nat" where
  "Size d = length (bb d)"

definition Capacity :: "BufReader \<Rightarrow> nat \<times> BufReader" where
  "Capacity d =
     (let d = (if br d = bw d then d\<lparr>br := 0, bw := 0\<rparr> else d) in (length (bb d) - bw d, d))"

definition CompactBuffer :: "BufReader \<Rightarrow> BufReader" where
  "CompactBuffer d =
     (if br d \<noteq> 0
      then d\<lparr>bb := Buffered d @ drop (length (Buffered d)) (bb d), bw := bw d - br d, br := 0\<rparr>
      else d)"

text \<open>\<open>x, r.err = r.u.Read(r.b[r.w:]); r.w += x\<close>, with the number of bytes read\<close>

definition read_more :: "BufReader \<Rightarrow> nat \<times> BufReader" where
  "read_more d =
     (let (x, e, u) = uread (length (bb d) - bw d) (bu d)
      in (length x, d\<lparr>bu := u, bb := take (bw d) (bb d) @ x @ drop (bw d + length x) (bb d),
                      berr := e, bw := bw d + length x\<rparr>))"

definition fsize :: "BufReader \<Rightarrow> nat" where
  "fsize d = 2 * usize (bu d) + (if berr d = None then 1 else 0)"

lemma read_more_size:
  "bw d < length (bb d) \<Longrightarrow> berr d = None \<Longrightarrow> fsize (snd (read_more d)) < fsize d"
proof -
  assume a: "bw d < length (bb d)" "berr d = None"
  obtain x e u where r: "uread (length (bb d) - bw d) (bu d) = (x, e, u)" by (metis prod_cases3)
  have "2 * usize u + (if e = None then 1 else 0) < Suc (2 * usize (bu d))"
    using uread_size [OF r] r a by (cases "bu d = []") auto
  then show ?thesis using a r by (simp add: read_more_def fsize_def)
qed

function atleast_loop :: "int \<Rightarrow> nat \<Rightarrow> BufReader \<Rightarrow> (nat \<times> io_err option) \<times> BufReader" where
  "atleast_loop w n d =
     (if bw d < length (bb d) \<and> int n < w
      then if berr d \<noteq> None then (let (e, d) = readErr d in ((n, e), d))
           else (let (x, d) = read_more d in atleast_loop w (n + x) d)
      else ((n, None), d))"
  by pat_completeness auto
termination
proof (relation "measure (\<lambda>(w, n, d). fsize d)", goal_cases)
  case (2 w n d xd x d')
  then show ?case using read_more_size [of d] by (cases "read_more d") simp
qed simp

definition FillBufferAtleast :: "int \<Rightarrow> BufReader \<Rightarrow> (nat \<times> io_err option) \<times> BufReader" where
  "FillBufferAtleast w d =
     atleast_loop w 0 (if br d = bw d then d\<lparr>br := 0, bw := 0\<rparr> else d)"

function upto_loop :: "int \<Rightarrow> nat \<Rightarrow> BufReader \<Rightarrow> (nat \<times> io_err option) \<times> BufReader" where
  "upto_loop w n d =
     (if bw d < length (bb d) \<and> (w \<le> 0 \<or> int (bw d - br d) < w)
      then if berr d \<noteq> None
           then if n > 0 \<or> w \<le> 0 then ((n, None), d)
                else (let (e, d) = readErr d in ((n, e), d))
           else (let (x, d) = read_more d in upto_loop w (n + x) d)
      else ((n, None), d))"
  by pat_completeness auto
termination
proof (relation "measure (\<lambda>(w, n, d). fsize d)", goal_cases)
  case (2 w n d xd x d')
  then show ?case using read_more_size [of d] by (cases "read_more d") simp
qed simp

definition FillBufferUpto :: "int \<Rightarrow> BufReader \<Rightarrow> (nat \<times> io_err option) \<times> BufReader" where
  "FillBufferUpto w d =
     upto_loop w 0 (if br d = bw d then d\<lparr>br := 0, bw := 0\<rparr> else d)"

partial_function (option) discard_loop ::
  "int \<Rightarrow> nat \<Rightarrow> BufReader \<Rightarrow> ((nat \<times> io_err option) \<times> BufReader) option" where
  "discard_loop n s d =
     (if n \<ge> 0 \<and> int (bw d - br d) \<ge> n
      then Some ((s + nat n, None), d\<lparr>br := br d + nat n\<rparr>)
      else let n = (if n > 0 then n - int (bw d - br d) else n);
               s = s + (bw d - br d);
               d = Drop d
           in if berr d \<noteq> None then (let (e, d) = readErr d in Some ((s, e), d))
              else discard_loop n s (refill d))"

definition Discard :: "int \<Rightarrow> BufReader \<Rightarrow> ((nat \<times> io_err option) \<times> BufReader) option" where
  "Discard n d = discard_loop n 0 d"

declare atleast_loop.simps [simp del] upto_loop.simps [simp del]

subsection \<open>Representation invariant and abstraction\<close>

definition wf :: "BufReader \<Rightarrow> bool" where
  "wf d \<longleftrightarrow> br d \<le> bw d \<and> bw d \<le> length (bb d) \<and> bb d \<noteq> []"

definition events :: "BufReader \<Rightarrow> ev list" where
  "events d = canon (map Byte (Buffered d) @ err_evs (berr d) @ uevs (bu d))"

lemma NewBufReader_wf: "wf (NewBufReader u)" "events (NewBufReader u) = canon (uevs u)"
  by (simp_all add: wf_def NewBufReader_def defaultBufSize_def events_def Buffered_def)

lemma NewBufReaderSize_wf:
  "NewBufReaderSize u s = Some d \<Longrightarrow> wf d \<and> events d = canon (uevs u)"
  by (auto simp: wf_def NewBufReaderSize_def events_def Buffered_def split: if_splits)

lemma Buffered_empty: "wf d \<Longrightarrow> Buffered d = [] \<longleftrightarrow> br d = bw d"
  by (auto simp: wf_def Buffered_def)

lemma length_Buffered: "wf d \<Longrightarrow> length (Buffered d) = bw d - br d"
  by (auto simp: wf_def Buffered_def)

lemma Buffered_berr [simp]: "Buffered (d\<lparr>berr := e\<rparr>) = Buffered d"
  by (simp add: Buffered_def)

lemma refill_wf: "wf d \<Longrightarrow> wf (refill d)"
  by (auto simp: refill_def wf_def split: prod.splits dest!: uread_len)

lemma refill_events:
  assumes "wf d" and "Buffered d = []" and "berr d = None"
  shows "events (refill d) = events d"
  using assms(2,3) uread_canon [of "length (bb d)" "bu d"]
  by (auto simp: events_def refill_def Buffered_def split: prod.splits)

lemma refill_size: "wf d \<Longrightarrow> berr d = None \<Longrightarrow> fsize (refill d) < fsize d"
proof -
  assume a: "wf d" "berr d = None"
  obtain x e u where r: "uread (length (bb d)) (bu d) = (x, e, u)" by (metis prod_cases3)
  have "2 * usize u + (if e = None then 1 else 0) < Suc (2 * usize (bu d))"
    using uread_size [OF r] r a by (cases "bu d = []") (auto simp: wf_def)
  then show ?thesis using a r by (simp add: refill_def fsize_def)
qed

lemma readErr_events:
  assumes "Buffered d = []" and "berr d = Some e"
  shows "next_ev (events d) = (Inl e, events (d\<lparr>berr := None\<rparr>))"
  using assms next_ev_canon [of "Err e # uevs (bu d)"] by (simp add: events_def)

lemma advance_events:
  assumes "wf d" and "k \<le> bw d - br d"
  shows "events d = map Byte (take k (Buffered d)) @ events (d\<lparr>br := br d + k\<rparr>)"
    and "wf (d\<lparr>br := br d + k\<rparr>)"
proof -
  have "Buffered (d\<lparr>br := br d + k\<rparr>) = drop k (Buffered d)"
    using assms by (simp add: Buffered_def drop_take add.commute)
  then have "Buffered d = take k (Buffered d) @ Buffered (d\<lparr>br := br d + k\<rparr>)" by simp
  then show "events d = map Byte (take k (Buffered d)) @ events (d\<lparr>br := br d + k\<rparr>)"
    unfolding events_def by (metis (no_types, lifting) BufReader.select_convs(1,5) BufReader.surjective
        BufReader.update_convs(4) append_assoc canon_bytes map_append)
  show "wf (d\<lparr>br := br d + k\<rparr>)" using assms by (auto simp: wf_def)
qed

lemma fill_spec:
  "wf d \<Longrightarrow> \<exists>e d'. fill d = Some (e, d') \<and> wf d' \<and>
     (case e of None \<Rightarrow> br d' < bw d' \<and> events d' = events d
      | Some x \<Rightarrow> next_ev (events d) = (Inl x, events d'))"
proof (induction "fsize d" arbitrary: d rule: less_induct)
  case less
  consider "br d \<noteq> bw d" | e where "br d = bw d" "berr d = Some e" | "br d = bw d" "berr d = None"
    by fastforce
  then show ?case
  proof cases
    case 1
    then show ?thesis using less.prems by (subst fill.simps) (auto simp: wf_def)
  next
    case 2
    then show ?thesis using less.prems readErr_events [of d e]
      by (subst fill.simps) (auto simp: readErr_def Buffered_def wf_def)
  next
    case 3
    then have "Buffered d = []" by (simp add: Buffered_def)
    then have e: "events (refill d) = events d" using 3 less.prems by (intro refill_events)
    show ?thesis
      using 3 less.hyps [OF refill_size refill_wf, OF less.prems 3(2) less.prems]
      unfolding e by (subst fill.simps) simp
  qed
qed

lemma ReadByte_spec:
  assumes "wf d"
  shows "\<exists>r d'. ReadByte d = Some (r, d') \<and> wf d' \<and> next_ev (events d) = (r, events d') \<and>
    (\<forall>c. r = Inr c \<longrightarrow> 0 < br d')"
proof -
  obtain e d' where f: "fill d = Some (e, d')" "wf d'"
    "case e of None \<Rightarrow> br d' < bw d' \<and> events d' = events d | Some x \<Rightarrow> next_ev (events d) = (Inl x, events d')"
    using fill_spec [OF assms] by blast
  show ?thesis
  proof (cases e)
    case (Some x)
    then show ?thesis using f by (simp add: ReadByte_def)
  next
    case None
    then have "take 1 (Buffered d') = [bb d' ! br d']"
      using f by (auto simp: Buffered_def wf_def nth_drop_Cons min_def not_le)
    moreover have "Suc 0 \<le> bw d' - br d'" using None f by auto
    ultimately have "events d = Byte (bb d' ! br d') # events (d'\<lparr>br := br d' + 1\<rparr>)"
      "wf (d'\<lparr>br := br d' + 1\<rparr>)" using None f advance_events [of d' 1] by simp_all
    then show ?thesis using None f(1) by (simp add: ReadByte_def)
  qed
qed

lemma UnreadByte_spec:
  assumes "wf d" and "br d \<noteq> 0 \<or> bw d = 0"
  shows "fst (UnreadByte c d) = None" and "wf (snd (UnreadByte c d))"
    and "events (snd (UnreadByte c d)) = Byte c # events d"
proof -
  have "Buffered (snd (UnreadByte c d)) = c # Buffered d"
  proof (cases "br d")
    case 0
    then show ?thesis using assms by (cases "bb d") (auto simp: UnreadByte_def Buffered_def wf_def)
  next
    case (Suc k)
    then have "drop k ((bb d)[k := c]) = c # drop (Suc k) (bb d)"
      using assms by (simp add: wf_def nth_drop_Cons)
    moreover have "bw d - k = Suc (bw d - Suc k)" using Suc assms by (auto simp: wf_def)
    ultimately show ?thesis using Suc by (simp add: UnreadByte_def Buffered_def)
  qed
  then show "events (snd (UnreadByte c d)) = Byte c # events d"
    by (simp add: events_def UnreadByte_def split: if_splits)
  show "fst (UnreadByte c d) = None" "wf (snd (UnreadByte c d))"
    using assms by (auto simp: UnreadByte_def wf_def Suc_le_eq)
qed

subsection \<open>Bulk operations\<close>

text \<open>\<open>ReadUntil\<close> and \<open>Discard\<close> on the sequence of bytes and errors.\<close>

fun until_spec :: "nat \<Rightarrow> byte \<Rightarrow> ev list \<Rightarrow> (bytes \<times> io_err option) \<times> ev list" where
  "until_spec n q [] = (([], Some EOF), [])"
| "until_spec n q (Err e # es) = (([], Some e), es)"
| "until_spec n q (Byte c # es) =
     (if n = 0 then (([], Some ErrDelimNotFound), Byte c # es)
      else if c = q then (([c], None), es)
      else if n = 1 then (([c], Some ErrDelimNotFound), es)
      else (let ((p, e), es') = until_spec (n - 1) q es in ((c # p, e), es')))"

lemma until_spec_found:
  "q \<notin> set a \<Longrightarrow> length a < n \<Longrightarrow> until_spec n q (map Byte a @ Byte q # es) = ((a @ [q], None), es)"
  by (induction a arbitrary: n) (auto simp: Let_def split_beta)

lemma until_spec_full:
  "q \<notin> set a \<Longrightarrow> length a = n \<Longrightarrow> a \<noteq> [] \<or> (\<exists>c t. es = Byte c # t) \<Longrightarrow>
   until_spec n q (map Byte a @ es) = ((a, Some ErrDelimNotFound), es)"
  by (induction a arbitrary: n) (auto simp: Let_def split_beta)

lemma until_spec_more:
  "q \<notin> set a \<Longrightarrow> length a < n \<Longrightarrow> until_spec n q (map Byte a @ es) =
     (case until_spec (n - length a) q es of ((p, e), es') \<Rightarrow> ((a @ p, e), es'))"
  by (induction a arbitrary: n) (auto simp: Let_def split_beta)

lemma until_loop_spec:
  "wf d \<Longrightarrow> length p \<le> lp \<Longrightarrow> \<exists>x e d'. until_loop lp q p d = Some ((p @ x, e), d') \<and> wf d' \<and>
     until_spec (lp - length p) q (events d) = ((x, e), events d')"
proof (induction "length (events d)" arbitrary: p d rule: less_induct)
  case less
  obtain e d1 where f: "fill d = Some (e, d1)" "wf d1"
    "case e of None \<Rightarrow> br d1 < bw d1 \<and> events d1 = events d | Some x \<Rightarrow> next_ev (events d) = (Inl x, events d1)"
    using fill_spec [OF less.prems(1)] by blast
  show ?case
  proof (cases e)
    case (Some x)
    then have "until_spec (lp - length p) q (events d) = (([], Some x), events d1)"
      using f by (cases "events d" rule: next_ev.cases) auto
    then show ?thesis using Some f by (subst until_loop.simps) simp
  next
    case None
    let ?n = "lp - length p"
    define a where a: "a = take ?n (Buffered d1)"
    have nonempty: "Buffered d1 \<noteq> []" and ev: "events d1 = events d"
      using f None Buffered_empty [of d1] by auto
    have av: "(if bw d1 - br d1 > ?n then take ?n (Buffered d1) else Buffered d1) = a"
      using length_Buffered [OF f(2)] by (auto simp: a)
    have len_a: "length a \<le> ?n" by (simp add: a)
    have take_adv: "events d = map Byte (take k a) @ events (d1\<lparr>br := br d1 + k\<rparr>)"
      "wf (d1\<lparr>br := br d1 + k\<rparr>)" if "k \<le> length a" for k
    proof -
      have "k \<le> bw d1 - br d1" using that length_Buffered [OF f(2)] by (simp add: a split: if_splits)
      moreover have "take k a = take k (Buffered d1)" using that by (simp add: a min_def split: if_splits)
      ultimately show "events d = map Byte (take k a) @ events (d1\<lparr>br := br d1 + k\<rparr>)"
        and "wf (d1\<lparr>br := br d1 + k\<rparr>)" using advance_events [OF f(2), of k] ev by simp_all
    qed
    show ?thesis
    proof (cases "index_byte a q")
      case (Some i)
      note i = index_byte_Some [OF Some]
      have "until_spec ?n q (events d) = ((take i a @ [q], None), events (d1\<lparr>br := br d1 + (i + 1)\<rparr>))"
        using take_adv(1) [of "i + 1"] i until_spec_found [of q "take i a" ?n] len_a by simp
      moreover have "length (take (i + 1) a) = i + 1" using i by simp
      ultimately show ?thesis using f None Some i take_adv(2) [of "i + 1"]
        by (subst until_loop.simps) (simp add: av Let_def)
    next
      case n: None
      then have q: "q \<notin> set a" using index_byte_None by blast
      let ?d = "d1\<lparr>br := br d1 + length a\<rparr>"
      have e: "events d = map Byte a @ events ?d" "wf ?d" using take_adv [of "length a"] by auto
      show ?thesis
      proof (cases "length a = ?n")
        case True
        have "a \<noteq> [] \<or> (\<exists>c t. events ?d = Byte c # t)"
        proof (cases "?n")
          case 0
          then have "events ?d = events d1" by (simp add: a)
          then show ?thesis using nonempty by (cases "Buffered d1") (auto simp: events_def)
        qed (use nonempty a in simp)
        then have "until_spec ?n q (events d) = ((a, Some ErrDelimNotFound), events ?d)"
          unfolding e(1) using q True by (intro until_spec_full)
        moreover have "lp \<le> length (p @ a)" using True less.prems by simp
        ultimately show ?thesis using f None n e(2) less.prems
          by (subst until_loop.simps) (simp add: av Let_def)
      next
        case False
        then have lt: "length a < ?n" by (simp add: a)
        then have "a = Buffered d1" by (simp add: a)
        then have "length (events ?d) < length (events d)" using nonempty e(1) by simp
        moreover have "length (p @ a) \<le> lp" using lt by simp
        ultimately obtain x e2 d2 where r:
          "until_loop lp q (p @ a) ?d = Some (((p @ a) @ x, e2), d2)" "wf d2"
          "until_spec (lp - length (p @ a)) q (events ?d) = ((x, e2), events d2)"
          using less.hyps [of ?d "p @ a"] e(2) by blast
        have "until_spec ?n q (events d) = ((a @ x, e2), events d2)"
          unfolding e(1) using until_spec_more [OF q lt] r(3) by simp
        moreover have "\<not> lp \<le> length (p @ a)" using lt by simp
        ultimately show ?thesis using f None n r
          by (subst until_loop.simps) (simp add: av Let_def)
      qed
    qed
  qed
qed

lemma ReadUntil_spec:
  "wf d \<Longrightarrow> \<exists>p e d'. ReadUntil lp q d = Some ((p, e), d') \<and> wf d' \<and>
     until_spec lp q (events d) = ((p, e), events d')"
  using until_loop_spec [of d "[]" lp q] by (simp add: ReadUntil_def)

fun discard_spec :: "nat option \<Rightarrow> ev list \<Rightarrow> (nat \<times> io_err option) \<times> ev list" where
  "discard_spec (Some 0) es = ((0, None), es)"
| "discard_spec k [] = ((0, Some EOF), [])"
| "discard_spec k (Err e # es) = ((0, Some e), es)"
| "discard_spec k (Byte c # es) =
     (case discard_spec (map_option (\<lambda>x. x - 1) k) es of ((s, e), es') \<Rightarrow> ((Suc s, e), es'))"

definition limit :: "int \<Rightarrow> nat option" where
  "limit n = (if n < 0 then None else Some (nat n))"

lemma discard_spec_Byte:
  "k \<noteq> Some 0 \<Longrightarrow> discard_spec k (Byte c # es) =
     (case discard_spec (map_option (\<lambda>x. x - 1) k) es of ((s, e), es') \<Rightarrow> ((Suc s, e), es'))"
  by (cases "(k, Byte c # es)" rule: discard_spec.cases) auto

lemma discard_spec_bytes:
  "(\<forall>m. k = Some m \<longrightarrow> length p \<le> m) \<Longrightarrow> discard_spec k (map Byte p @ es) =
     (case discard_spec (map_option (\<lambda>x. x - length p) k) es of ((s, e), es') \<Rightarrow> ((length p + s, e), es'))"
proof (induction p arbitrary: k)
  case Nil
  then show ?case by (cases k) (simp_all add: split_beta)
next
  case (Cons c p)
  have "discard_spec k (Byte c # map Byte p @ es) =
     (case discard_spec (map_option (\<lambda>x. x - 1) k) (map Byte p @ es) of ((s, e), es') \<Rightarrow> ((Suc s, e), es'))"
    using Cons.prems by (intro discard_spec_Byte) auto
  moreover have "map_option (\<lambda>x. x - length p) (map_option (\<lambda>x. x - 1) k) = map_option (\<lambda>x. x - Suc (length p)) k"
    by (cases k) simp_all
  ultimately show ?case using Cons.IH [of "map_option (\<lambda>x. x - 1) k"] Cons.prems
    by (cases k) (auto simp: split_beta)
qed

lemma discard_spec_err:
  "k \<noteq> Some 0 \<Longrightarrow> next_ev es = (Inl e, es') \<Longrightarrow> discard_spec k es = ((0, Some e), es')"
  by (cases "(k, es)" rule: discard_spec.cases) auto

lemma discard_loop_spec:
  "wf d \<Longrightarrow> \<exists>s' e d'. discard_loop n s d = Some ((s + s', e), d') \<and> wf d' \<and>
     discard_spec (limit n) (events d) = ((s', e), events d')"
proof (induction "fsize d" arbitrary: n s d rule: less_induct)
  case less
  let ?k = "bw d - br d"
  have all: "events d = map Byte (Buffered d) @ events (Drop d)" and wfD: "wf (Drop d)"
    using less.prems by (auto simp: events_def Drop_def Buffered_def wf_def)
  have len: "length (Buffered d) = ?k" using length_Buffered less.prems by blast
  show ?case
  proof (cases "n \<ge> 0 \<and> int ?k \<ge> n")
    case True
    then have n: "nat n \<le> ?k" by (simp only: nat_le_iff)
    have "discard_spec (limit n) (events d) = ((nat n, None), events (d\<lparr>br := br d + nat n\<rparr>))"
      using advance_events(1) [OF less.prems n] discard_spec_bytes [of "Some (nat n)" "take (nat n) (Buffered d)"]
        True n len by (simp add: limit_def)
    then show ?thesis using True advance_events(2) [OF less.prems n] by (subst discard_loop.simps) auto
  next
    case False
    let ?n = "if n > 0 then n - int ?k else n"
    have lim: "limit ?n = map_option (\<lambda>x. x - ?k) (limit n)" "limit ?n \<noteq> Some 0"
      using False by (auto simp: limit_def nat_diff_distrib)
    have spec: "discard_spec (limit n) (events d) =
        (case discard_spec (limit ?n) (events (Drop d)) of ((s, e), es') \<Rightarrow> ((?k + s, e), es'))"
      unfolding all lim(1) using False discard_spec_bytes [of "limit n" "Buffered d"] len
      by (auto simp: limit_def)
    have B: "Buffered (Drop d) = []" by (simp add: Drop_def Buffered_def)
    show ?thesis
    proof (cases "berr d")
      case (Some e)
      then have "next_ev (events (Drop d)) = (Inl e, events ((Drop d)\<lparr>berr := None\<rparr>))"
        using readErr_events [OF B, of e] by (simp add: Drop_def)
      then show ?thesis
        using Some False spec discard_spec_err [OF lim(2)] wfD
        by (subst discard_loop.simps) (simp add: Let_def readErr_def Drop_def wf_def)
    next
      case None
      then have N: "berr (Drop d) = None" by (simp add: Drop_def)
      have "fsize (refill (Drop d)) < fsize d"
        using refill_size [OF wfD N] by (simp add: Drop_def fsize_def)
      then obtain s' e d' where r:
        "discard_loop ?n (s + ?k) (refill (Drop d)) = Some ((s + ?k + s', e), d')" "wf d'"
        "discard_spec (limit ?n) (events (refill (Drop d))) = ((s', e), events d')"
        using less.hyps [of "refill (Drop d)"] refill_wf [OF wfD] by blast
      have N': "\<not> berr (Drop d) \<noteq> None" using N by simp
      have "discard_loop n s d = discard_loop ?n (s + ?k) (refill (Drop d))"
        by (subst discard_loop.simps) (simp only: False if_False Let_def N')
      then show ?thesis
        using r spec refill_events [OF wfD B N] by (simp add: add.assoc)
    qed
  qed
qed

lemma Discard_spec:
  "wf d \<Longrightarrow> \<exists>s e d'. Discard n d = Some ((s, e), d') \<and> wf d' \<and>
     discard_spec (limit n) (events d) = ((s, e), events d')"
  using discard_loop_spec [of d n 0] by (simp add: Discard_def)

lemma Read_spec:
  "wf d \<Longrightarrow> \<exists>p e d'. Read lp d = Some ((p, e), d') \<and> wf d' \<and> length p \<le> lp \<and>
     eats p e (events d) (events d')"
proof (induction "fsize d" arbitrary: d rule: less_induct)
  case less
  consider (data) "br d \<noteq> bw d" | (err) e where "br d = bw d" "berr d = Some e"
    | (empty) "br d = bw d" "berr d = None" by fastforce
  then show ?case
  proof cases
    case data
    let ?p = "take lp (Buffered d)"
    have le: "length ?p \<le> bw d - br d" using length_Buffered [OF less.prems] by simp
    have "take (length ?p) (Buffered d) = ?p" by (simp add: min_def)
    then show ?thesis using data advance_events [OF less.prems le]
      by (subst Read.simps) (auto simp: eats_def Let_def)
  next
    case err
    then show ?thesis using less.prems readErr_events [of d e]
      by (subst Read.simps) (auto simp: readErr_def Buffered_def wf_def eats_def)
  next
    case empty
    then have B: "Buffered d = []" by (simp add: Buffered_def)
    show ?thesis
    proof (cases "lp \<ge> length (bb d)")
      case True
      obtain x e u where u: "uread lp (bu d) = (x, e, u)" by (metis prod_cases3)
      have "events d = canon (uevs (bu d))" "events (d\<lparr>bu := u\<rparr>) = canon (uevs u)"
        using B empty by (auto simp: events_def Buffered_def)
      then have "eats x e (events d) (events (d\<lparr>bu := u\<rparr>))" using uread_eats [OF u] by simp
      then show ?thesis using empty True u uread_len [OF u] less.prems
        by (subst Read.simps) (simp add: wf_def)
    next
      case False
      obtain p e d' where r: "Read lp (refill d) = Some ((p, e), d')" "wf d'" "length p \<le> lp"
          "eats p e (events (refill d)) (events d')"
        using less.hyps [OF refill_size refill_wf, OF less.prems empty(2) less.prems] by blast
      then show ?thesis using empty False refill_events [OF less.prems B empty(2)]
        by (subst Read.simps) simp
    qed
  qed
qed

lemma read_more_spec:
  assumes "wf d" and "berr d = None"
  shows "wf (snd (read_more d))" and "events (snd (read_more d)) = events d"
    and "br (snd (read_more d)) = br d" and "bw (snd (read_more d)) = bw d + fst (read_more d)"
proof -
  obtain x e u where u: "uread (length (bb d) - bw d) (bu d) = (x, e, u)" by (metis prod_cases3)
  have x: "bw d + length x \<le> length (bb d)" using uread_len [OF u] assms by (auto simp: wf_def)
  let ?d = "snd (read_more d)"
  have d: "?d = d\<lparr>bu := u, bb := take (bw d) (bb d) @ x @ drop (bw d + length x) (bb d),
        berr := e, bw := bw d + length x\<rparr>" by (simp add: read_more_def u)
  show "wf ?d" using assms x by (auto simp: wf_def d)
  show "br ?d = br d" "bw ?d = bw d + fst (read_more d)" by (simp_all add: read_more_def u)
  have "Buffered ?d = Buffered d @ x"
    using assms x by (auto simp: Buffered_def d wf_def take_add drop_take Suc_diff_le)
  then show "events ?d = events d"
    using canon_append [OF uread_canon [OF u], of "map Byte (Buffered d)"] assms(2)
    by (simp add: events_def d flip: append_assoc map_append)
qed

lemma readErr_stuck:
  "berr d = Some e \<Longrightarrow> events d = canon (map Byte (Buffered d) @ Err e # uevs (bu d)) \<and>
     events (d\<lparr>berr := None\<rparr>) = canon (map Byte (Buffered d) @ uevs (bu d))"
  by (simp add: events_def)

text \<open>
  \<open>took d n e d'\<close>: the operation read \<open>n\<close> bytes into the buffer and took nothing out of it; it
  returned the error \<open>e\<close> that came next after the buffered bytes, if any.
\<close>

definition took :: "BufReader \<Rightarrow> nat \<Rightarrow> io_err option \<Rightarrow> BufReader \<Rightarrow> bool" where
  "took d n e d' \<longleftrightarrow> length (Buffered d') = length (Buffered d) + n \<and>
     (case e of None \<Rightarrow> events d' = events d
      | Some x \<Rightarrow> (\<exists>t. events d = map Byte (Buffered d') @ t \<and>
                      (\<exists>t'. next_ev t = (Inl x, t') \<and> events d' = map Byte (Buffered d') @ t')))"

lemma took_readErr:
  assumes "berr d = Some e"
  shows "took d 0 (Some e) (d\<lparr>berr := None\<rparr>)"
  using readErr_stuck [OF assms] next_ev_canon [of "Err e # uevs (bu d)"] by (auto simp: took_def)

lemma took_more:
  "took d n e d' \<Longrightarrow> wf d0 \<Longrightarrow> berr d0 = None \<Longrightarrow> d = snd (read_more d0) \<Longrightarrow>
   took d0 (fst (read_more d0) + n) e d'"
  using read_more_spec [of d0] length_Buffered [of d0] length_Buffered [of d]
  by (auto simp: took_def wf_def split: option.splits)

lemma atleast_loop_spec:
  "wf d \<Longrightarrow> \<exists>m e d'. atleast_loop w n d = ((n + m, e), d') \<and> wf d' \<and> took d m e d' \<and>
     (e = None \<longrightarrow> int (n + m) \<ge> w \<or> bw d' = length (bb d'))"
proof (induction "fsize d" arbitrary: n d rule: less_induct)
  case less
  show ?case
  proof (cases "bw d < length (bb d) \<and> int n < w")
    case False
    then show ?thesis using less.prems
      by (subst atleast_loop.simps) (auto simp: took_def wf_def)
  next
    case T: True
    show ?thesis
    proof (cases "berr d")
      case (Some e)
      then show ?thesis using T less.prems took_readErr [OF Some]
        by (subst atleast_loop.simps) (auto simp: readErr_def wf_def)
    next
      case None
      obtain x d1 where x: "read_more d = (x, d1)" by fastforce
      obtain m e d' where r: "atleast_loop w (n + x) d1 = ((n + x + m, e), d')" "wf d'" "took d1 m e d'"
        "e = None \<longrightarrow> int (n + x + m) \<ge> w \<or> bw d' = length (bb d')"
        using less.hyps [of d1 "n + x"] read_more_size [of d] read_more_spec [OF less.prems None] T None x
        by auto
      then show ?thesis using T None x took_more [OF r(3) less.prems None]
        by (subst atleast_loop.simps) (auto simp: add.assoc)
    qed
  qed
qed

lemma upto_loop_spec:
  "wf d \<Longrightarrow> \<exists>m e d'. upto_loop w n d = ((n + m, e), d') \<and> wf d' \<and> took d m e d' \<and>
     (0 < n + m \<or> w \<le> 0 \<longrightarrow> e = None)"
proof (induction "fsize d" arbitrary: n d rule: less_induct)
  case less
  show ?case
  proof (cases "bw d < length (bb d) \<and> (w \<le> 0 \<or> int (bw d - br d) < w)")
    case False
    then show ?thesis using less.prems
      by (subst upto_loop.simps) (auto simp: took_def wf_def)
  next
    case T: True
    show ?thesis
    proof (cases "berr d")
      case (Some e)
      then show ?thesis using T less.prems took_readErr [OF Some]
        by (subst upto_loop.simps) (auto simp: readErr_def wf_def took_def)
    next
      case None
      obtain x d1 where x: "read_more d = (x, d1)" by fastforce
      obtain m e d' where r: "upto_loop w (n + x) d1 = ((n + x + m, e), d')" "wf d'" "took d1 m e d'"
        "0 < n + x + m \<or> w \<le> 0 \<longrightarrow> e = None"
        using less.hyps [of d1 "n + x"] read_more_size [of d] read_more_spec [OF less.prems None] T None x
        by auto
      then show ?thesis using T None x took_more [OF r(3) less.prems None]
        by (subst upto_loop.simps) (auto simp: add.assoc)
    qed
  qed
qed

lemma reset_empty:
  assumes "wf d"
  defines "d0 \<equiv> (if br d = bw d then d\<lparr>br := 0, bw := 0\<rparr> else d)"
  shows "wf d0" and "events d0 = events d" and "Buffered d0 = Buffered d"
  using assms by (auto simp: d0_def wf_def events_def Buffered_def)

lemma took_reset:
  "wf d \<Longrightarrow> took (if br d = bw d then d\<lparr>br := 0, bw := 0\<rparr> else d) n e d' = took d n e d'"
  by (simp only: took_def reset_empty(2,3))

lemma FillBufferAtleast_spec:
  assumes "wf d"
  shows "\<exists>n e d'. FillBufferAtleast w d = ((n, e), d') \<and> wf d' \<and> took d n e d' \<and>
    (e = None \<longrightarrow> int n \<ge> w \<or> bw d' = length (bb d'))"
  using atleast_loop_spec [OF reset_empty(1) [OF assms], of w 0]
  unfolding FillBufferAtleast_def took_reset [OF assms] by simp

lemma FillBufferUpto_spec:
  assumes "wf d"
  shows "\<exists>n e d'. FillBufferUpto w d = ((n, e), d') \<and> wf d' \<and> took d n e d' \<and>
    (0 < n \<or> w \<le> 0 \<longrightarrow> e = None)"
  using upto_loop_spec [OF reset_empty(1) [OF assms], of w 0]
  unfolding FillBufferUpto_def took_reset [OF assms] by simp

lemma CompactBuffer_spec:
  assumes "wf d"
  shows "wf (CompactBuffer d)" and "events (CompactBuffer d) = events d"
    and "Buffered (CompactBuffer d) = Buffered d" and "br (CompactBuffer d) = 0"
  using assms length_Buffered [OF assms]
  by (auto simp: CompactBuffer_def wf_def events_def Buffered_def)

lemma Capacity_spec:
  assumes "wf d"
  shows "wf (snd (Capacity d))" and "events (snd (Capacity d)) = events d"
    and "bw (snd (Capacity d)) + fst (Capacity d) = Size d"
  using assms by (auto simp: Capacity_def wf_def events_def Buffered_def Size_def)

subsection \<open>The byte source interface\<close>

text \<open>
  What \<open>DotReader\<close> needs of the reader under it: \<open>rd\<close> takes the next byte or error off the sequence
  \<open>evs\<close>, and after a byte was read, \<open>unrd\<close> puts one back.
\<close>

locale byte_source =
  fixes rd :: "'s \<Rightarrow> ((io_err + byte) \<times> 's) option"
    and unrd :: "byte \<Rightarrow> 's \<Rightarrow> 's"
    and evs :: "'s \<Rightarrow> ev list"
    and ok :: "'s \<Rightarrow> bool"
  assumes rd_next: "ok s \<Longrightarrow> \<exists>r s'. rd s = Some (r, s') \<and> ok s' \<and> next_ev (evs s) = (r, evs s')"
    and unrd_back: "ok s \<Longrightarrow> rd s = Some (Inr c, s') \<Longrightarrow> ok (unrd x s') \<and> evs (unrd x s') = Byte x # evs s'"

interpretation buf: byte_source ReadByte "\<lambda>c d. snd (UnreadByte c d)" events wf
proof unfold_locales
  show "wf s \<Longrightarrow> \<exists>r s'. ReadByte s = Some (r, s') \<and> wf s' \<and> next_ev (events s) = (r, events s')" for s
    using ReadByte_spec by blast
  show "wf (snd (UnreadByte x s')) \<and> events (snd (UnreadByte x s')) = Byte x # events s'"
    if "wf s" "ReadByte s = Some (Inr c, s')" for s c s' x
    using ReadByte_spec [OF that(1)] UnreadByte_spec [of s' x] that(2) by auto
qed

interpretation evsrc: byte_source "\<lambda>es. Some (next_ev es)" "\<lambda>c es. Byte c # es" "\<lambda>es. es" "\<lambda>_. True"
  by unfold_locales simp_all

subsection \<open>Properties\<close>

text \<open>
  C38: every operation of the buffered reader returns, keeps the representation invariant, and does
  to the sequence of bytes and errors what its contract says: \<open>ReadByte\<close> takes the next one,
  \<open>ReadUntil\<close> the bytes up to the delimiter or the full destination, \<open>Discard\<close> skips, \<open>Read\<close> takes a
  prefix. The sequence does not show how the data was cut into reads or what is buffered.
\<close>
theorem BufReader_contract:
  assumes "wf d"
  shows "(\<exists>r d'. ReadByte d = Some (r, d') \<and> wf d' \<and> next_ev (events d) = (r, events d')) \<and>
   (\<exists>p e d'. ReadUntil lp q d = Some ((p, e), d') \<and> wf d' \<and>
           until_spec lp q (events d) = ((p, e), events d')) \<and>
   (\<exists>s e d'. Discard n d = Some ((s, e), d') \<and> wf d' \<and>
           discard_spec (limit n) (events d) = ((s, e), events d')) \<and>
   (\<exists>p e d'. Read lp d = Some ((p, e), d') \<and> wf d' \<and> length p \<le> lp \<and> eats p e (events d) (events d'))"
proof (intro conjI)
  show "\<exists>r d'. ReadByte d = Some (r, d') \<and> wf d' \<and> next_ev (events d) = (r, events d')"
    using ReadByte_spec [OF assms] by blast
  show "\<exists>p e d'. ReadUntil lp q d = Some ((p, e), d') \<and> wf d' \<and>
           until_spec lp q (events d) = ((p, e), events d')" by (rule ReadUntil_spec [OF assms])
  show "\<exists>s e d'. Discard n d = Some ((s, e), d') \<and> wf d' \<and>
           discard_spec (limit n) (events d) = ((s, e), events d')" by (rule Discard_spec [OF assms])
  show "\<exists>p e d'. Read lp d = Some ((p, e), d') \<and> wf d' \<and> length p \<le> lp \<and> eats p e (events d) (events d')"
    by (rule Read_spec [OF assms])
qed

theorem BufReader_contract_witness:
  "\<exists>p e d'. ReadUntil 10 LF (NewBufReader [([97], None), ([10, 98], None)]) = Some ((p, e), d') \<and> wf d' \<and>
     until_spec 10 LF (events (NewBufReader [([97], None), ([10, 98], None)])) = ((p, e), events d')"
  by (rule BufReader_contract [THEN conjunct2, THEN conjunct1]) (rule NewBufReader_wf)

text \<open>
  The operations that only manage the buffer lose nothing: \<open>FillBufferAtleast\<close> and
  \<open>FillBufferUpto\<close> return, report exactly the bytes added, and leave what they do not report as an
  error in the sequence; compacting and \<open>Capacity\<close> leave it unchanged; \<open>UnreadByte\<close> puts a byte back
  in front.
\<close>
theorem BufReader_buffer_management:
  assumes "wf d"
  shows "(\<exists>n e d'. FillBufferAtleast w d = ((n, e), d') \<and> wf d' \<and> took d n e d' \<and>
           (e = None \<longrightarrow> int n \<ge> w \<or> bw d' = length (bb d'))) \<and>
   (\<exists>n e d'. FillBufferUpto w d = ((n, e), d') \<and> wf d' \<and> took d n e d' \<and> (0 < n \<or> w \<le> 0 \<longrightarrow> e = None)) \<and>
   (wf (CompactBuffer d) \<and> events (CompactBuffer d) = events d \<and> Buffered (CompactBuffer d) = Buffered d) \<and>
   (events (snd (Capacity d)) = events d) \<and>
   (br d \<noteq> 0 \<or> bw d = 0 \<longrightarrow> fst (UnreadByte c d) = None \<and> wf (snd (UnreadByte c d)) \<and>
           events (snd (UnreadByte c d)) = Byte c # events d)"
proof (intro conjI)
  show "\<exists>n e d'. FillBufferAtleast w d = ((n, e), d') \<and> wf d' \<and> took d n e d' \<and>
           (e = None \<longrightarrow> int n \<ge> w \<or> bw d' = length (bb d'))" by (rule FillBufferAtleast_spec [OF assms])
  show "\<exists>n e d'. FillBufferUpto w d = ((n, e), d') \<and> wf d' \<and> took d n e d' \<and> (0 < n \<or> w \<le> 0 \<longrightarrow> e = None)"
    by (rule FillBufferUpto_spec [OF assms])
qed (use CompactBuffer_spec [OF assms] Capacity_spec [OF assms] UnreadByte_spec [OF assms] in simp_all)

theorem BufReader_buffer_management_witness:
  "\<exists>n e d'. FillBufferAtleast 2 (NewBufReader [([97], None), ([10, 98], None)]) = ((n, e), d') \<and> wf d' \<and>
     took (NewBufReader [([97], None), ([10, 98], None)]) n e d' \<and> (e = None \<longrightarrow> int n \<ge> 2 \<or> bw d' = length (bb d'))"
  by (rule BufReader_buffer_management [THEN conjunct1]) (rule NewBufReader_wf)

end
