(* ===== verification/Yenc.thy ===== *)
theory Yenc
  imports BufReader
begin

text \<open>
  \<open>utils/yenc\<close>: the yEnc encoder (\<open>enc.go\<close>) and decoder (\<open>dec.go\<close>).

  The encoder keeps the line it is building in a 1000-byte array of which \<open>ebuf\<close> is the used part; the
  decoder reads a line from its buffered reader into its own 1000-byte array and decodes it in
  place. The lemmas show that the array bounds are never reached, that the in-place loop decodes the
  line, and that what the encoder wrote, however its input was cut into writes, is decoded to the
  input, however it arrives.
\<close>

subsection \<open>enc.go\<close>

record YEncoder =
  ebuf :: bytes
  ew :: writer

definition lineLength :: nat where "lineLength = 990"

definition enc_put :: "byte \<Rightarrow> bytes \<Rightarrow> bytes" where
  "enc_put c buf =
     (let c = c + 42;
          (buf, c) = (if c = 0 \<or> c = CR \<or> c = LF \<or> c = 61 \<or> (length buf = 0 \<and> c = 46)
                      then (buf @ [61], c + 64) else (buf, c));
          buf = buf @ [c]
      in if length buf \<ge> lineLength then buf @ [CR, LF] else buf)"

text \<open>
  The result \<open>None\<close> is the panic on a writer that took fewer bytes without an error; \<open>i\<close> counts the
  bytes of the argument taken so far.
\<close>

fun enc_loop :: "nat \<Rightarrow> bytes \<Rightarrow> YEncoder \<Rightarrow> ((nat \<times> io_err option) \<times> YEncoder) option" where
  "enc_loop i [] e = Some ((i, None), e)"
| "enc_loop i (c # b) e =
     (if length (ebuf e) \<ge> lineLength
      then (let (nn, err, w) = uwrite (ebuf e) (ew e)
            in if err \<noteq> None
               then Some ((i, err), e\<lparr>ew := w, ebuf := (if nn \<noteq> 0 then drop nn (ebuf e) else ebuf e)\<rparr>)
               else if nn \<noteq> length (ebuf e) then None
               else enc_loop (i + 1) b (e\<lparr>ew := w, ebuf := enc_put c []\<rparr>))
      else enc_loop (i + 1) b (e\<lparr>ebuf := enc_put c (ebuf e)\<rparr>))"

definition YEncoder_Write :: "bytes \<Rightarrow> YEncoder \<Rightarrow> ((nat \<times> io_err option) \<times> YEncoder) option" where
  "YEncoder_Write b e = enc_loop 0 b e"

definition YEncoder_Close :: "YEncoder \<Rightarrow> (io_err option \<times> YEncoder) option" where
  "YEncoder_Close e =
     (if length (ebuf e) \<noteq> 0
      then let buf = (if ebuf e ! (length (ebuf e) - 1) \<noteq> LF then ebuf e @ [CR, LF] else ebuf e);
               (nn, err, w) = uwrite buf (ew e)
           in if err \<noteq> None then Some (err, e\<lparr>ew := w, ebuf := (if nn > 0 then drop nn buf else buf)\<rparr>)
              else if nn \<noteq> length buf then None
              else Some (None, e\<lparr>ew := w, ebuf := []\<rparr>)
      else Some (None, e))"

subsection \<open>dec.go\<close>

record YDecoder =
  dbr :: BufReader
  dline :: bytes
  linex :: nat
  linelen :: nat

definition NewYDecoder :: "BufReader \<Rightarrow> YDecoder" where
  "NewYDecoder r = \<lparr>dbr = r, dline = replicate 1000 0, linex = 0, linelen = 0\<rparr>"

text \<open>The decoding loop of \<open>fetch\<close>, in place: \<open>k\<close> is \<open>d.linelen\<close>.\<close>

function dec_loop :: "nat \<Rightarrow> nat \<Rightarrow> bytes \<Rightarrow> nat \<Rightarrow> io_err option \<Rightarrow> bytes \<times> nat \<times> io_err option" where
  "dec_loop i n ln k err =
     (if i < n
      then let c = ln ! i
           in if c = 61
              then if i + 1 \<ge> n then (ln, k, if err = None then Some ErrUnterminatedEscape else err)
                   else dec_loop (i + 2) n (ln[k := ln ! (i + 1) - 64 - 42]) (k + 1) err
              else dec_loop (i + 1) n (ln[k := c - 42]) (k + 1) err
      else (ln, k, err))"
  by pat_completeness auto
termination by (relation "measure (\<lambda>(i, n, _). n - i)") auto

declare dec_loop.simps [simp del]

definition fetch :: "YDecoder \<Rightarrow> (io_err option \<times> YDecoder) option" where
  "fetch d = do {
     ((p, err), r) \<leftarrow> ReadUntil (length (dline d)) LF (dbr d);
     let ln = p @ drop (length p) (dline d);
     let n = length p;
     let n = (if n > 0 \<and> ln ! (n - 1) = LF then n - 1 else n);
     let n = (if n > 0 \<and> ln ! (n - 1) = CR then n - 1 else n);
     if length ln \<ge> 2 \<and> ln ! 0 = 61 \<and> ln ! 1 = 121
     then Some (err, d\<lparr>dbr := r, dline := ln\<rparr>)
     else (let (ln, k, err) = dec_loop 0 n ln 0 err
           in Some (err, d\<lparr>dbr := r, dline := ln, linex := 0, linelen := k\<rparr>))
   }"

text \<open>The loop in front of both \<open>Read\<close> and \<open>WriteTo\<close>: fetch until there is data or an error.\<close>

partial_function (option) fetch_loop ::
  "io_err option \<Rightarrow> YDecoder \<Rightarrow> ((bool \<times> io_err option) \<times> YDecoder) option" where
  "fetch_loop err d =
     (if linex d = linelen d
      then if err \<noteq> None then Some ((False, err), d)
           else do { (err, d) \<leftarrow> fetch d; fetch_loop err d }
      else Some ((True, err), d))"

definition YDecoder_Read :: "nat \<Rightarrow> YDecoder \<Rightarrow> ((bytes \<times> io_err option) \<times> YDecoder) option" where
  "YDecoder_Read lp d = do {
     ((data, err), d) \<leftarrow> fetch_loop None d;
     if \<not> data then Some (([], err), d)
     else (let p = take lp (take (linelen d - linex d) (drop (linex d) (dline d)))
           in Some ((p, err), d\<lparr>linex := linex d + length p\<rparr>))
   }"

partial_function (option) writeto_loop ::
  "nat \<Rightarrow> io_err option \<Rightarrow> YDecoder \<times> writer \<Rightarrow> ((nat \<times> io_err option) \<times> YDecoder \<times> writer) option" where
  "writeto_loop n err t = do {
     ((data, err), d) \<leftarrow> fetch_loop err (fst t);
     if \<not> data then Some ((0, if err = Some EOF then None else err), d, snd t)
     else (let (wn, we, w) = uwrite (take (linelen d - linex d) (drop (linex d) (dline d))) (snd t);
               n = n + wn;
               d = d\<lparr>linex := linex d + wn\<rparr>
           in if we \<noteq> None
              then Some ((n, if err = None \<or> err = Some EOF then we else err), d, w)
              else writeto_loop n err (d, w))
   }"

definition YDecoder_WriteTo ::
  "YDecoder \<times> writer \<Rightarrow> ((nat \<times> io_err option) \<times> YDecoder \<times> writer) option" where
  "YDecoder_WriteTo t = writeto_loop 0 None t"

subsection \<open>One line\<close>

definition ebyte :: "bool \<Rightarrow> byte \<Rightarrow> bytes" where
  "ebyte first c =
     (if c + 42 = 0 \<or> c + 42 = CR \<or> c + 42 = LF \<or> c + 42 = 61 \<or> (first \<and> c + 42 = 46)
      then [61, c + 42 + 64] else [c + 42])"

fun ebody :: "bool \<Rightarrow> bytes \<Rightarrow> bytes" where
  "ebody first [] = []"
| "ebody first (c # cs) = ebyte first c @ ebody False cs"

lemma ebody_snoc: "ebody f (cs @ [c]) = ebody f cs @ ebyte (f \<and> cs = []) c"
  by (induction cs arbitrary: f) auto

lemma ebyte_clean: "CR \<notin> set (ebyte f c)" "LF \<notin> set (ebyte f c)" "ebyte f c \<noteq> []" "length (ebyte f c) \<le> 2"
proof -
  define x where "x = c + 42"
  show "CR \<notin> set (ebyte f c)" "LF \<notin> set (ebyte f c)" "ebyte f c \<noteq> []" "length (ebyte f c) \<le> 2"
    unfolding ebyte_def x_def [symmetric] by auto
qed

lemma ebody_clean: "CR \<notin> set (ebody f cs)" "LF \<notin> set (ebody f cs)"
  by (induction cs arbitrary: f) (auto simp: ebyte_clean)

lemma ebody_empty: "ebody f cs = [] \<longleftrightarrow> cs = []"
  using ebyte_clean(3) by (cases cs) auto

lemma enc_put_ebyte:
  "enc_put c buf = (let b = buf @ ebyte (buf = []) c in if length b \<ge> lineLength then b @ [CR, LF] else b)"
  by (simp add: enc_put_def ebyte_def Let_def)

text \<open>Decoding a line, on lists: the bytes and whether an escape was left open.\<close>

fun ydec :: "bytes \<Rightarrow> bytes \<times> bool" where
  "ydec [] = ([], False)"
| "ydec [c] = (if c = 61 then ([], True) else ([c - 42], False))"
| "ydec (c # x # xs) =
     (if c = 61 then (let (r, t) = ydec xs in ((x - 64 - 42) # r, t))
      else (let (r, t) = ydec (x # xs) in ((c - 42) # r, t)))"

lemma ydec_plain: "c \<noteq> 61 \<Longrightarrow> ydec (c # xs) = (let (r, t) = ydec xs in ((c - 42) # r, t))"
  by (cases xs) auto

lemma ydec_ebody: "ydec (ebody f cs) = (cs, False)"
proof (induction cs arbitrary: f)
  case (Cons c cs)
  then show ?case by (auto simp: ebyte_def ydec_plain)
qed simp

lemma dec_loop_ydec:
  "k \<le> i \<Longrightarrow> i \<le> n \<Longrightarrow> n \<le> length ln \<Longrightarrow>
   \<exists>ln' k'. dec_loop i n ln k err =
       (ln', k', if snd (ydec (take (n - i) (drop i ln))) \<and> err = None then Some ErrUnterminatedEscape else err) \<and>
     length ln' = length ln \<and> k' \<le> n \<and> k \<le> k' \<and>
     take k' ln' = take k ln @ fst (ydec (take (n - i) (drop i ln)))"
proof (induction "n - i" arbitrary: i k ln rule: less_induct)
  case less
  show ?case
  proof (cases "i < n")
    case False
    then show ?thesis using less.prems by (subst dec_loop.simps) auto
  next
    case T: True
    have d: "take (n - i) (drop i ln) = ln ! i # take (n - Suc i) (drop (Suc i) ln)"
      using T less.prems by (simp add: nth_drop_Cons Suc_diff_Suc [symmetric])
    show ?thesis
    proof (cases "ln ! i = 61")
      case False
      let ?ln = "ln[k := ln ! i - 42]"
      have "drop (Suc i) ?ln = drop (Suc i) ln" "take (Suc k) ?ln = take k ln @ [ln ! i - 42]"
        using less.prems T by (simp_all add: take_Suc_conv_app_nth)
      then obtain ln' k' where "dec_loop (Suc i) n ?ln (Suc k) err =
          (ln', k', if snd (ydec (take (n - Suc i) (drop (Suc i) ln))) \<and> err = None then Some ErrUnterminatedEscape else err)"
        "length ln' = length ln" "k' \<le> n" "Suc k \<le> k'"
        "take k' ln' = take k ln @ (ln ! i - 42) # fst (ydec (take (n - Suc i) (drop (Suc i) ln)))"
        using less.hyps [of "Suc i" "Suc k" ?ln, OF diff_less_mono2 [OF lessI T]] less.prems T by auto
      then show ?thesis using T False d ydec_plain [OF False]
        by (intro exI [of _ ln'] exI [of _ k'] conjI)
           (subst dec_loop.simps, simp_all add: split_beta)
    next
      case esc: True
      show ?thesis
      proof (cases "i + 1 \<ge> n")
        case True
        then show ?thesis using T esc less.prems d by (subst dec_loop.simps) (auto intro!: exI)
      next
        case False
        let ?ln = "ln[k := ln ! (i + 1) - 64 - 42]"
        have d2: "take (n - Suc i) (drop (Suc i) ln) = ln ! Suc i # take (n - Suc (Suc i)) (drop (Suc (Suc i)) ln)"
          using False less.prems by (simp add: nth_drop_Cons Suc_diff_Suc [symmetric])
        have "drop (i + 2) ?ln = drop (i + 2) ln" "take (Suc k) ?ln = take k ln @ [ln ! (i + 1) - 64 - 42]"
          using less.prems T by (simp_all add: take_Suc_conv_app_nth)
        then obtain ln' k' where "dec_loop (i + 2) n ?ln (Suc k) err =
            (ln', k', if snd (ydec (take (n - (i + 2)) (drop (i + 2) ln))) \<and> err = None then Some ErrUnterminatedEscape else err)"
          "length ln' = length ln" "k' \<le> n" "Suc k \<le> k'"
          "take k' ln' = take k ln @ (ln ! (i + 1) - 64 - 42) # fst (ydec (take (n - (i + 2)) (drop (i + 2) ln)))"
          using less.hyps [of "i + 2" "Suc k" ?ln] less.prems T False by (auto simp: diff_less_mono2)
        then show ?thesis using T False esc d d2
          by (intro exI [of _ ln'] exI [of _ k'] conjI)
             (subst dec_loop.simps, simp_all add: split_beta)
      qed
    qed
  qed
qed

subsection \<open>What the encoder writes\<close>

text \<open>
  \<open>lines\<close> are finished lines, \<open>cur\<close> the bytes of the line being built; a line is finished as soon as
  it is 990 bytes long, and written when the next byte comes.
\<close>

definition full :: "bytes \<Rightarrow> bool" where
  "full l \<longleftrightarrow> lineLength \<le> length (ebody True l) \<and> length (ebody True l) \<le> lineLength + 1"

definition ycode :: "bytes list \<Rightarrow> bytes" where
  "ycode ls = concat (map (\<lambda>l. ebody True l @ [CR, LF]) ls)"

lemma ycode_append [simp]: "ycode (a @ b) = ycode a @ ycode b" "ycode [l] = ebody True l @ [CR, LF]" "ycode [] = []"
  by (simp_all add: ycode_def)

definition enc_inv :: "bytes \<Rightarrow> YEncoder \<Rightarrow> bool" where
  "enc_inv ds e \<longleftrightarrow>
     (\<exists>ls cur. ds = concat ls @ cur \<and> list_all full ls \<and> wroom (ew e) = None \<and> wout (ew e) = ycode ls \<and>
        ebuf e = ebody True cur \<and> length (ebuf e) < lineLength) \<or>
     (\<exists>ls l. ds = concat ls @ l \<and> list_all full ls \<and> full l \<and> wroom (ew e) = None \<and> wout (ew e) = ycode ls \<and>
        ebuf e = ebody True l @ [CR, LF])"

lemma enc_put_inv:
  assumes "ds = concat ls @ cur" and "list_all full ls" and "wroom w = None" and "wout w = ycode ls"
    and "buf = ebody True cur" and "length buf < lineLength"
  shows "enc_inv (ds @ [c]) \<lparr>ebuf = enc_put c buf, ew = w\<rparr>"
proof -
  let ?b = "buf @ ebyte (buf = []) c"
  have b: "?b = ebody True (cur @ [c])"
    unfolding assms(5) ebody_empty by (simp add: ebody_snoc)
  have len: "length ?b \<le> lineLength + 1" using ebyte_clean(4) [of "buf = []" c] assms(6) by simp
  show ?thesis
  proof (cases "lineLength \<le> length ?b")
    case True
    then have "full (cur @ [c])" using len by (simp only: full_def b)
    then show ?thesis using True assms(1-4) b
      unfolding enc_inv_def enc_put_ebyte Let_def
      by (intro disjI2 exI [of _ ls] exI [of _ "cur @ [c]"]) simp
  next
    case False
    then show ?thesis using assms(1-4) b
      unfolding enc_inv_def enc_put_ebyte Let_def
      by (intro disjI1 exI [of _ ls] exI [of _ "cur @ [c]"]) simp
  qed
qed

lemma enc_loop_inv:
  "enc_inv ds e \<Longrightarrow> \<exists>e'. enc_loop i b e = Some ((i + length b, None), e') \<and> enc_inv (ds @ b) e'"
proof (induction b arbitrary: i ds e)
  case Nil
  then show ?case by simp
next
  case (Cons c b)
  obtain buf w where e: "e = \<lparr>ebuf = buf, ew = w\<rparr>" by (cases e)
  have rec: "\<exists>e'. enc_loop (i + 1) b e1 = Some ((i + length (c # b), None), e') \<and> enc_inv (ds @ c # b) e'"
    if "enc_inv (ds @ [c]) e1" for e1
    using Cons.IH [OF that, of "i + 1"] by simp
  from Cons.prems consider
      (cur) ls cur where "ds = concat ls @ cur" "list_all full ls" "wroom w = None" "wout w = ycode ls"
        "buf = ebody True cur" "length buf < lineLength"
    | (full) ls l where "ds = concat ls @ l" "list_all full ls" "full l" "wroom w = None" "wout w = ycode ls"
        "buf = ebody True l @ [CR, LF]"
    unfolding enc_inv_def e by auto
  then show ?case
  proof cases
    case cur
    then show ?thesis using rec [OF enc_put_inv [OF cur]] by (simp add: e)
  next
    case full
    have "uwrite buf w = (length buf, None, w\<lparr>wout := ycode (ls @ [l])\<rparr>)"
      using full by (simp add: uwrite_def)
    moreover have "enc_inv (ds @ [c]) \<lparr>ebuf = enc_put c [], ew = w\<lparr>wout := ycode (ls @ [l])\<rparr>\<rparr>"
      using full by (intro enc_put_inv [where ls = "ls @ [l]" and cur = "[]"]) (simp_all add: lineLength_def)
    moreover have "lineLength \<le> length buf" using full by (simp add: full_def)
    ultimately show ?thesis using rec by (simp add: e)
  qed
qed

text \<open>Any sequence of writes and the final \<open>Close\<close>.\<close>

fun enc_all :: "bytes list \<Rightarrow> YEncoder \<Rightarrow> YEncoder option" where
  "enc_all [] e = map_option snd (YEncoder_Close e)"
| "enc_all (b # ps) e = Option.bind (YEncoder_Write b e) (\<lambda>(_, e). enc_all ps e)"

definition short :: "bytes \<Rightarrow> bool" where
  "short l \<longleftrightarrow> l \<noteq> [] \<and> length (ebody True l) \<le> lineLength + 1"

lemma Close_inv:
  assumes "enc_inv ds e"
  shows "\<exists>ls e'. YEncoder_Close e = Some (None, e') \<and> ds = concat ls \<and> list_all short ls \<and> wout (ew e') = ycode ls"
proof -
  have fs: "list_all full ls \<Longrightarrow> list_all short ls" for ls
    by (auto simp: full_def short_def list_all_iff lineLength_def)
  from assms consider
      (cur) ls cur where "ds = concat ls @ cur" "list_all full ls" "wroom (ew e) = None" "wout (ew e) = ycode ls"
        "ebuf e = ebody True cur" "length (ebuf e) < lineLength"
    | (full) ls l where "ds = concat ls @ l" "list_all full ls" "full l" "wroom (ew e) = None" "wout (ew e) = ycode ls"
        "ebuf e = ebody True l @ [CR, LF]"
    unfolding enc_inv_def by auto
  then show ?thesis
  proof cases
    case cur
    show ?thesis
    proof (cases "cur = []")
      case True
      then show ?thesis using cur fs by (intro exI [of _ ls]) (simp add: YEncoder_Close_def)
    next
      case False
      then have "ebuf e \<noteq> []" using cur(5) by (simp add: ebody_empty)
      moreover from this have "last (ebuf e) \<noteq> LF"
        using ebody_clean(2) [of True cur] cur(5) last_in_set by metis
      ultimately have b: "ebuf e \<noteq> []" "ebuf e ! (length (ebuf e) - 1) \<noteq> LF"
        by (simp_all add: last_conv_nth)
      have "short cur" using cur False by (auto simp: short_def)
      then show ?thesis using cur b fs by (intro exI [of _ "ls @ [cur]"]) (simp add: YEncoder_Close_def uwrite_def Let_def)
    qed
  next
    case full
    then have "short l" using fs [of "[l]"] by simp
    then show ?thesis using full fs
      by (intro exI [of _ "ls @ [l]"]) (simp add: YEncoder_Close_def uwrite_def Let_def nth_append)
  qed
qed

lemma enc_all_inv:
  "enc_inv ds e \<Longrightarrow> \<exists>ls e'. enc_all ps e = Some e' \<and> ds @ concat ps = concat ls \<and> list_all short ls \<and>
     wout (ew e') = ycode ls"
proof (induction ps arbitrary: ds e)
  case Nil
  then show ?case using Close_inv [of ds e] by auto
next
  case (Cons b ps)
  obtain e1 where "YEncoder_Write b e = Some ((length b, None), e1)" "enc_inv (ds @ b) e1"
    using enc_loop_inv [OF Cons.prems, of 0 b] by (auto simp: YEncoder_Write_def)
  then show ?case using Cons.IH [of "ds @ b" e1] by simp
qed

subsection \<open>What the decoder reads\<close>

definition dec_ok :: "YDecoder \<Rightarrow> bool" where
  "dec_ok d \<longleftrightarrow> wf (dbr d) \<and> length (dline d) = 1000 \<and> linex d = linelen d \<and> linelen d \<le> 1000"

lemma ebyte_noty: "ebyte f c @ r = 61 # x # t \<Longrightarrow> x \<noteq> 121"
proof -
  define v where "v = c + 42"
  assume "ebyte f c @ r = 61 # x # t"
  then show ?thesis unfolding ebyte_def v_def [symmetric] by (auto split: if_splits)
qed

lemma fetch_eq:
  assumes r: "ReadUntil (length (dline d)) LF (dbr d) = Some ((p, err), r)" and p: "length p = Suc (Suc n)"
    and ln: "p @ drop (length p) (dline d) = ln" "ln ! Suc n = LF" "ln ! n = CR"
    and noty: "\<not> (ln ! 0 = 61 \<and> ln ! 1 = 121)" and k: "dec_loop 0 n ln 0 err = (ln', k, err')"
  shows "fetch d = Some (err', d\<lparr>dbr := r, dline := ln', linex := 0, linelen := k\<rparr>)"
  unfolding fetch_def r Option.bind.simps prod.case Let_def ln(1)
  using noty by (auto simp: p ln(2,3) k)

lemma fetch_line:
  assumes "dec_ok d" and "events (dbr d) = map Byte (ebody True l @ [CR, LF]) @ es" and "short l"
  shows "\<exists>d'. fetch d = Some (None, d') \<and> wf (dbr d') \<and> events (dbr d') = es \<and> length (dline d') = 1000 \<and>
    linex d' = 0 \<and> linelen d' = length l \<and> take (linelen d') (dline d') = l \<and> linelen d' \<le> 1000"
proof -
  let ?b = "ebody True l"
  have len: "length ?b < 999" "?b \<noteq> []" using assms(3) ebody_empty by (auto simp: short_def lineLength_def)
  have spec: "until_spec 1000 LF (events (dbr d)) = ((?b @ [CR, LF], None), es)"
    using until_spec_found [of LF "?b @ [CR]" 1000 es] ebody_clean(2) len by (simp add: assms(2))
  obtain r where r: "ReadUntil 1000 LF (dbr d) = Some ((?b @ [CR, LF], None), r)" "wf r" "events r = es"
    using ReadUntil_spec [of "dbr d" 1000 LF] assms(1) by (auto simp: dec_ok_def spec)
  define ln where "ln = ?b @ [CR, LF] @ drop (length ?b + 2) (dline d)"
  have ln: "length ln = 1000" "take (length ?b) ln = ?b" "ln ! Suc (length ?b) = LF" "ln ! length ?b = CR"
    using assms(1) len by (simp_all add: ln_def dec_ok_def nth_append)
  have first: "\<not> (ln ! 0 = 61 \<and> ln ! 1 = 121)"
  proof
    assume a: "ln ! 0 = 61 \<and> ln ! 1 = 121"
    obtain c cs where l: "l = c # cs" using len(2) by (cases l) auto
    have "ln = 61 # 121 # drop 2 ln"
      using a ln(1) by (metis (no_types, lifting) Suc_1 cancel_comm_monoid_add_class.diff_cancel
          drop0 nth_drop_Cons numeral_One numeral_le_iff numeral_less_iff semiring_norm(68,76,77,78) zero_less_numeral One_nat_def)
    then have "ebyte True c @ (ebody False cs @ [CR, LF] @ drop (length ?b + 2) (dline d)) = 61 # 121 # drop 2 ln"
      by (simp add: ln_def l)
    then show False using ebyte_noty by blast
  qed
  obtain ln' k where k: "dec_loop 0 (length ?b) ln 0 None = (ln', k, None)" "length ln' = 1000" "k \<le> length ?b"
      "take k ln' = l"
    using dec_loop_ydec [of 0 0 "length ?b" ln None] ln len ydec_ebody [of True l] by auto
  have "length (take k ln') = k" using k(2,3) len(1) by simp
  then have kl: "k = length l" unfolding k(4) by simp
  have "fetch d = Some (None, d\<lparr>dbr := r, dline := ln', linex := 0, linelen := k\<rparr>)"
    using assms(1) ln(3,4) first k(1)
    by (intro fetch_eq [where n = "length ?b" and p = "?b @ [CR, LF]" and ln = ln])
       (simp_all add: dec_ok_def r ln_def)
  then show ?thesis using r k kl len by auto
qed

lemma fetch_end:
  assumes "dec_ok d" and "events (dbr d) = []"
  shows "\<exists>d'. fetch d = Some (Some EOF, d') \<and> linex d' = linelen d'"
proof -
  obtain r where r: "ReadUntil 1000 LF (dbr d) = Some (([], Some EOF), r)"
    using ReadUntil_spec [of "dbr d" 1000 LF] assms by (auto simp: dec_ok_def)
  have "dec_loop 0 0 (dline d) 0 (Some EOF) = (dline d, 0, Some EOF)"
    by (simp add: dec_loop.simps)
  then show ?thesis using assms(1) by (simp add: fetch_def dec_ok_def r)
qed

lemma writeto_lines:
  "dec_ok d \<Longrightarrow> events (dbr d) = map Byte (ycode ls) \<Longrightarrow> list_all short ls \<Longrightarrow> wroom w = None \<Longrightarrow>
   \<exists>d' w'. writeto_loop n None (d, w) = Some ((0, None), d', w') \<and> wout w' = wout w @ concat ls"
proof (induction ls arbitrary: n d w)
  case Nil
  obtain d' where f: "fetch d = Some (Some EOF, d')" "linex d' = linelen d'"
    using fetch_end [of d] Nil by auto
  have "fetch_loop None d = Some ((False, Some EOF), d')"
    using f Nil(1) by (subst fetch_loop.simps) (simp add: dec_ok_def, subst fetch_loop.simps, simp)
  then show ?case by (subst writeto_loop.simps) simp
next
  case (Cons l ls)
  have ev: "events (dbr d) = map Byte (ebody True l @ [CR, LF]) @ map Byte (ycode ls)"
    using Cons.prems(2) by (simp add: ycode_def)
  have sh: "short l" "list_all short ls" using Cons.prems by auto
  obtain d1 where f: "fetch d = Some (None, d1)" "wf (dbr d1)" "events (dbr d1) = map Byte (ycode ls)"
    "length (dline d1) = 1000" "linex d1 = 0" "linelen d1 = length l" "take (linelen d1) (dline d1) = l"
    "linelen d1 \<le> 1000"
    using fetch_line [OF Cons.prems(1) ev sh(1)] by blast
  have "length l \<noteq> 0" using sh by (simp add: short_def)
  then have "fetch_loop None d = Some ((True, None), d1)"
    using f Cons.prems(1) by (subst fetch_loop.simps) (simp add: dec_ok_def, subst fetch_loop.simps, simp)
  moreover have "uwrite l w = (length l, None, w\<lparr>wout := wout w @ l\<rparr>)"
    using Cons.prems by (simp add: uwrite_def)
  ultimately have "writeto_loop n None (d, w)
      = writeto_loop (n + length l) None (d1\<lparr>linex := length l\<rparr>, w\<lparr>wout := wout w @ l\<rparr>)"
    using f by (subst writeto_loop.simps) simp
  moreover have "dec_ok (d1\<lparr>linex := length l\<rparr>)" using f by (simp add: dec_ok_def)
  ultimately show ?case
    using Cons.IH [of "d1\<lparr>linex := length l\<rparr>" "w\<lparr>wout := wout w @ l\<rparr>" "n + length l"] sh f Cons.prems by auto
qed

subsection \<open>Properties\<close>

text \<open>
  C39: yEnc round trip. Whatever data is given to the encoder, in any sequence of writes, the writer
  accepting everything, \<open>Close\<close> leaves an encoding that the decoder's \<open>WriteTo\<close> turns back into the
  data, for every way the encoding arrives at its buffered reader. Neither side panics or stops
  early.
\<close>
theorem yenc_roundtrip:
  "\<exists>e'. enc_all ps \<lparr>ebuf = [], ew = \<lparr>wout = [], wroom = None\<rparr>\<rparr> = Some e' \<and>
     (\<forall>r. wf r \<and> events r = map Byte (wout (ew e')) \<longrightarrow>
        (\<exists>n d w. YDecoder_WriteTo (NewYDecoder r, \<lparr>wout = [], wroom = None\<rparr>) = Some ((n, None), d, w) \<and>
                wout w = concat ps))"
proof -
  have "enc_inv [] \<lparr>ebuf = [], ew = \<lparr>wout = [], wroom = None\<rparr>\<rparr>"
    unfolding enc_inv_def by (intro disjI1 exI [of _ "[]"]) (simp add: lineLength_def)
  from enc_all_inv [OF this, of ps] obtain ls e' where e: "enc_all ps \<lparr>ebuf = [], ew = \<lparr>wout = [], wroom = None\<rparr>\<rparr> = Some e'"
      "concat ps = concat ls" "list_all short ls" "wout (ew e') = ycode ls"
    by auto
  have "dec_ok (NewYDecoder r)" if "wf r" for r using that by (simp add: dec_ok_def NewYDecoder_def)
  then show ?thesis
    using e writeto_lines [of "NewYDecoder _" ls "\<lparr>wout = [], wroom = None\<rparr>" 0]
    by (fastforce simp: YDecoder_WriteTo_def NewYDecoder_def)
qed

theorem yenc_roundtrip_witness:
  "\<exists>e'. enc_all [[1, 214, 4], [19]] \<lparr>ebuf = [], ew = \<lparr>wout = [], wroom = None\<rparr>\<rparr> = Some e' \<and>
     (\<exists>n d w. YDecoder_WriteTo (NewYDecoder (NewBufReader [(wout (ew e'), None)]), \<lparr>wout = [], wroom = None\<rparr>)
         = Some ((n, None), d, w) \<and> wout w = [1, 214, 4, 19])"
  using yenc_roundtrip [of "[[1, 214, 4], [19]]"] NewBufReader_wf
  by (elim exE) (rule exI, force)

end
