(* ===== verification/Utf8.thy ===== *)
theory Utf8
  imports Prelude
begin

text \<open>
  The part of Go's \<open>unicode/utf8\<close> that the repository calls: the size of the first encoded rune of a
  byte string, by the ranges of the first and second byte, and validity of a whole string.
\<close>

definition cont_byte :: "byte \<Rightarrow> bool" where
  "cont_byte c \<longleftrightarrow> 0x80 \<le> c \<and> c \<le> 0xBF"

text \<open>\<open>0\<close> where \<open>DecodeRune\<close> gives \<open>RuneError\<close> of width 1, or the string is empty.\<close>

fun rune_size :: "bytes \<Rightarrow> nat" where
  "rune_size [] = 0"
| "rune_size (a # s) =
     (if a < 0x80 then 1
      else if 0xC2 \<le> a \<and> a \<le> 0xDF then
        (case s of b # _ \<Rightarrow> if cont_byte b then 2 else 0 | _ \<Rightarrow> 0)
      else if 0xE0 \<le> a \<and> a \<le> 0xEF then
        (case s of
           b # c # _ \<Rightarrow>
             if (if a = 0xE0 then 0xA0 else 0x80) \<le> b \<and> b \<le> (if a = 0xED then 0x9F else 0xBF) \<and> cont_byte c
             then 3 else 0
         | _ \<Rightarrow> 0)
      else if 0xF0 \<le> a \<and> a \<le> 0xF4 then
        (case s of
           b # c # d # _ \<Rightarrow>
             if (if a = 0xF0 then 0x90 else 0x80) \<le> b \<and> b \<le> (if a = 0xF4 then 0x8F else 0xBF) \<and>
                cont_byte c \<and> cont_byte d
             then 4 else 0
         | _ \<Rightarrow> 0)
      else 0)"

lemma rune_size_le: "rune_size s \<le> length s"
  by (cases s) (auto split: list.splits)

text \<open>The width a rune-wise scan moves by.\<close>

definition rune_width :: "bytes \<Rightarrow> nat" where
  "rune_width s = max 1 (rune_size s)"

lemma rune_width_pos: "0 < rune_width s"
  by (simp add: rune_width_def)

lemma rune_width_less [simp]: "s \<noteq> [] \<Longrightarrow> length s - rune_width s < length s"
  by (simp add: rune_width_pos)

lemma rune_width_ascii: "a < 0x80 \<Longrightarrow> rune_width (a # s) = 1"
  by (simp add: rune_width_def)

function utf8_valid :: "bytes \<Rightarrow> bool" where
  "utf8_valid s = (if s = [] then True else if rune_size s = 0 then False else utf8_valid (drop (rune_size s) s))"
  by pat_completeness auto
termination by (relation "measure length") auto

declare utf8_valid.simps [simp del]

lemma utf8_valid_ascii: "\<forall>c\<in>set s. c < 0x80 \<Longrightarrow> utf8_valid s"
  by (induction s) (simp_all add: utf8_valid.simps [of "_ # _"] utf8_valid.simps [of "[]"])

end
