(* ===== verification/AsciiUtils.thy ===== *)
theory AsciiUtils
  imports Streams
begin

text \<open>
  \<open>utils/text/asciiutils\<close>: comparison without case, fields, trimming and character tests on byte
  strings (\<open>asciiutils.go\<close>), the line-splitting writer (\<open>splitwriter.go\<close>) and the reader that turns
  text into Unix text (\<open>unixtextreader.go\<close>).

  The three comparisons are shown to be equality of upper-cased strings (of a prefix, of a suffix),
  \<open>IterateFields\<close> to call its callback once for each maximal run of non-blank bytes, the splitting
  writer to be independent of how its input is cut into writes and to keep its lines within the
  width, and the text reader to deliver the input without carriage returns and with a final newline,
  for every sequence of reads.
\<close>

subsection \<open>asciiutils.go\<close>

text \<open>The loop body shared by the three comparisons: the two bytes are equal or a letter pair.\<close>

definition fold_eq :: "byte \<Rightarrow> byte \<Rightarrow> bool" where
  "fold_eq ac bc =
     (if ac = bc then True
      else (let (ac, bc) = (if ac > bc then (bc, ac) else (ac, bc))
            in ac \<ge> 65 \<and> ac \<le> 90 \<and> ac + 97 - 65 = bc))"

fun fold_loop :: "bytes \<Rightarrow> bytes \<Rightarrow> bool" where
  "fold_loop (a # xs) (b # ys) = (if fold_eq a b then fold_loop xs ys else False)"
| "fold_loop _ _ = True"

definition EqualFoldString :: "bytes \<Rightarrow> bytes \<Rightarrow> bool" where
  "EqualFoldString a b = (if length a \<noteq> length b then False else fold_loop a b)"

text \<open>The loop runs over the length of \<open>s\<close>: over the first, or the last, bytes of \<open>b\<close>.\<close>

definition StartsWithFoldString :: "bytes \<Rightarrow> bytes \<Rightarrow> bool" where
  "StartsWithFoldString b s = (if length b < length s then False else fold_loop (take (length s) b) s)"

definition EndsWithFoldString :: "bytes \<Rightarrow> bytes \<Rightarrow> bool" where
  "EndsWithFoldString b s =
     (if length b < length s then False else fold_loop (take (length s) (rev b)) (rev s))"

definition UntilString :: "bytes \<Rightarrow> byte \<Rightarrow> bytes" where
  "UntilString s c = takeWhile (\<lambda>x. x \<noteq> c) s"

definition isws :: "byte \<Rightarrow> bool" where
  "isws c \<longleftrightarrow> c = SP \<or> c = TAB"

lemma drop_word_less:
  assumes "dropWhile isws s \<noteq> []"
  shows "length (dropWhile (\<lambda>c. \<not> isws c) (dropWhile isws s)) < length s"
proof -
  obtain c cs where s1: "dropWhile isws s = c # cs" using assms by (cases "dropWhile isws s") auto
  then have "\<not> isws c" using hd_dropWhile [OF assms] by simp
  then have "length (dropWhile (\<lambda>c. \<not> isws c) (c # cs)) < length (c # cs)"
    using length_dropWhile_le [of "\<lambda>c. \<not> isws c" cs] by simp
  also have "\<dots> \<le> length s" using length_dropWhile_le [of isws s] by (simp add: s1)
  finally show ?thesis by (simp add: s1)
qed

text \<open>The callback changes a state of the caller's.\<close>

function iter_fields :: "(bytes \<Rightarrow> 's \<Rightarrow> 's) \<Rightarrow> bytes \<Rightarrow> nat \<Rightarrow> 's \<Rightarrow> nat \<times> 's" where
  "iter_fields f s n st =
     (let s1 = dropWhile isws s
      in if s1 = [] then (n, st)
         else iter_fields f (dropWhile (\<lambda>c. \<not> isws c) s1) (n + 1)
                (f (takeWhile (\<lambda>c. \<not> isws c) s1) st))"
  by pat_completeness auto
termination
proof (relation "measure (\<lambda>(f, s, n, st). length s)", goal_cases)
  case (2 f s n st s1)
  then show ?case using drop_word_less [of s] by simp
qed simp

declare iter_fields.simps [simp del]

definition IterateFields :: "(bytes \<Rightarrow> 's \<Rightarrow> 's) \<Rightarrow> bytes \<Rightarrow> 's \<Rightarrow> nat \<times> 's" where
  "IterateFields f s st = iter_fields f s 0 st"

definition TrimWSString :: "bytes \<Rightarrow> bytes" where
  "TrimWSString b = rev (dropWhile isws (rev (dropWhile isws b)))"

definition TrimWSBytes :: "bytes \<Rightarrow> bytes" where
  "TrimWSBytes b = rev (dropWhile isws (rev (dropWhile isws b)))"

definition TrimLeftWSBytes :: "bytes \<Rightarrow> bytes" where
  "TrimLeftWSBytes b = dropWhile isws b"

definition IsPrintableASCIISlice :: "bytes \<Rightarrow> byte \<Rightarrow> bool" where
  "IsPrintableASCIISlice s e \<longleftrightarrow> \<not> list_ex (\<lambda>c. c \<le> 32 \<or> c \<ge> 127 \<or> c = e) s"

definition IsPrintableASCIIStr :: "bytes \<Rightarrow> byte \<Rightarrow> bool" where
  "IsPrintableASCIIStr s e \<longleftrightarrow> \<not> list_ex (\<lambda>c. c \<le> 32 \<or> c \<ge> 127 \<or> c = e) s"

definition Is7BitBytes :: "bytes \<Rightarrow> bool" where
  "Is7BitBytes s \<longleftrightarrow> \<not> list_ex (\<lambda>c. c \<ge> 128) s"

definition Is7BitString :: "bytes \<Rightarrow> bool" where
  "Is7BitString s \<longleftrightarrow> \<not> list_ex (\<lambda>c. c \<ge> 128) s"

definition ContainsControlString :: "bytes \<Rightarrow> bool" where
  "ContainsControlString s \<longleftrightarrow> list_ex (\<lambda>c. c < 32 \<and> c \<noteq> TAB \<or> c = 127) s"

definition TrimUnixNL :: "bytes \<Rightarrow> bytes" where
  "TrimUnixNL s =
     (if length s > 1 \<and> s ! (length s - 1) = LF \<and> s ! (length s - 2) \<noteq> LF
      then take (length s - 1) s else s)"

subsection \<open>splitwriter.go\<close>

record SplitWriter =
  sW :: writer
  sN :: nat
  sI :: nat

partial_function (option) split_loop ::
  "nat \<Rightarrow> bytes \<Rightarrow> SplitWriter \<Rightarrow> ((nat \<times> io_err option) \<times> SplitWriter) option" where
  "split_loop n b w =
     (if b = [] then Some ((n, None), w)
      else let (err, w) =
             (if sI w \<ge> sN w then
                (let (_, err, u) = uwrite [LF] (sW w)
                 in if err \<noteq> None then (err, w\<lparr>sW := u\<rparr>) else (None, w\<lparr>sW := u, sI := 0\<rparr>))
              else (None, w))
           in if err \<noteq> None then Some ((n, err), w)
              else let cb = (if length b > sN w - sI w then take (sN w - sI w) b else b);
                       (x, err, u) = uwrite cb (sW w);
                       w = w\<lparr>sW := u, sI := sI w + x\<rparr>
                   in if err \<noteq> None then Some ((n + x, err), w) else split_loop (n + x) (drop x b) w)"

definition SplitWriter_Write ::
  "bytes \<Rightarrow> SplitWriter \<Rightarrow> ((nat \<times> io_err option) \<times> SplitWriter) option" where
  "SplitWriter_Write b w = split_loop 0 b w"

subsection \<open>unixtextreader.go\<close>

datatype utr_state = utrNL | utrText | utrEOF

text \<open>The two loops of \<open>Read\<close> drop the carriage returns of what was read and keep the state.\<close>

fun utr_strip :: "bytes \<Rightarrow> utr_state \<Rightarrow> bytes \<times> utr_state" where
  "utr_strip [] s = ([], s)"
| "utr_strip (c # cs) s =
     (if c = CR then utr_strip cs s
      else (let (out, s') = utr_strip cs (if c \<noteq> LF then utrText else utrNL) in (c # out, s')))"

definition UnixTextReader_Read ::
  "nat \<Rightarrow> utr_state \<times> reader \<Rightarrow> (bytes \<times> io_err option) \<times> utr_state \<times> reader" where
  "UnixTextReader_Read lb t =
     (let (s, u) = t
      in if lb = 0 then (([], None), s, u)
         else if s = utrEOF then (([LF], Some EOF), utrNL, u)
         else let (x, e, u) = uread lb u; (out, s) = utr_strip x s
              in if e = Some EOF \<and> s \<noteq> utrNL
                 then if lb > length out then ((out @ [LF], e), utrNL, u)
                      else ((out, None), utrEOF, u)
                 else ((out, e), s, u))"

subsection \<open>Comparison without case\<close>

definition upper :: "byte \<Rightarrow> byte" where
  "upper c = (if 97 \<le> c \<and> c \<le> 122 then c - 32 else c)"

definition upn :: "nat \<Rightarrow> nat" where
  "upn x = (if 97 \<le> x \<and> x \<le> 122 then x - 32 else x)"

lemma upn_eq:
  "x = y \<or> 65 \<le> min x y \<and> min x y \<le> 90 \<and> min x y + 32 = max x y \<longleftrightarrow> upn x = upn y"
  by (cases "x \<le> y"; cases "97 \<le> x \<and> x \<le> 122"; cases "97 \<le> y \<and> y \<le> 122"; simp add: upn_def min_def max_def; linarith)

lemma fold_eq_upper: "fold_eq a b \<longleftrightarrow> upper a = upper b"
proof -
  have up: "unat (upper c) = upn (unat c)" for c
    by (auto simp: upn_def upper_def word_le_nat_alt unat_sub)
  have lt: "unat c < 256" for c :: byte using unat_lt_2p [of c] by simp
  have add: "(x :: nat) \<le> 90 \<Longrightarrow> (x + 32) mod 256 = x + 32" for x by simp
  have fold: "fold_eq a b \<longleftrightarrow> unat a = unat b \<or>
      (let x = min (unat a) (unat b); y = max (unat a) (unat b) in 65 \<le> x \<and> x \<le> 90 \<and> x + 32 = y)"
    using add [of "unat a"] add [of "unat b"]
    by (auto simp: fold_eq_def Let_def word_unat_eq_iff word_le_nat_alt word_less_nat_alt
        unat_word_ariths min_def max_def)
  show ?thesis
    unfolding fold word_unat_eq_iff [of "upper a"] up Let_def by (rule upn_eq)
qed

lemma fold_loop_upper: "length a = length b \<Longrightarrow> fold_loop a b \<longleftrightarrow> map upper a = map upper b"
  by (induction a b rule: list_induct2) (simp_all add: fold_eq_upper)

lemma EqualFoldString_upper [simp]: "EqualFoldString a b \<longleftrightarrow> map upper a = map upper b"
  using map_eq_imp_length_eq [of upper a upper b] by (auto simp: EqualFoldString_def fold_loop_upper)

lemma StartsWithFoldString_upper:
  "StartsWithFoldString b s \<longleftrightarrow> (\<exists>p t. b = p @ t \<and> map upper p = map upper s)"
proof
  assume "StartsWithFoldString b s"
  then have "map upper (take (length s) b) = map upper s"
    by (simp add: StartsWithFoldString_def fold_loop_upper split: if_splits)
  then show "\<exists>p t. b = p @ t \<and> map upper p = map upper s" by (metis append_take_drop_id)
next
  assume "\<exists>p t. b = p @ t \<and> map upper p = map upper s"
  then obtain p t where b: "b = p @ t" "map upper p = map upper s" by blast
  then have "length p = length s" by (metis length_map)
  with b show "StartsWithFoldString b s" by (simp add: StartsWithFoldString_def fold_loop_upper)
qed

lemma EndsWithFoldString_rev: "EndsWithFoldString b s = StartsWithFoldString (rev b) (rev s)"
  by (simp add: EndsWithFoldString_def StartsWithFoldString_def)

lemma EndsWithFoldString_upper:
  "EndsWithFoldString b s \<longleftrightarrow> (\<exists>t p. b = t @ p \<and> map upper p = map upper s)"
proof -
  have "(\<exists>p t. rev b = p @ t \<and> map upper p = map upper (rev s))
      \<longleftrightarrow> (\<exists>p t. rev b = rev p @ rev t \<and> map upper (rev p) = map upper (rev s))"
    by (metis rev_rev_ident)
  also have "\<dots> \<longleftrightarrow> (\<exists>p t. b = t @ p \<and> map upper p = map upper s)"
    by (simp only: rev_append [symmetric] rev_is_rev_conv rev_map [symmetric])
  finally show ?thesis unfolding EndsWithFoldString_rev StartsWithFoldString_upper by blast
qed

subsection \<open>Fields\<close>

lemma iter_fields_word:
  assumes "w \<noteq> []" and "\<forall>c\<in>set w. \<not> isws c" and "\<forall>c\<in>set p. isws c" and "r = [] \<or> isws (hd r)"
  shows "iter_fields f (p @ w @ r) n st = iter_fields f r (n + 1) (f w st)"
proof -
  have d: "dropWhile isws (p @ w @ r) = w @ r"
    using assms by (cases w) (simp_all add: dropWhile_append3)
  have t: "takeWhile (\<lambda>c. \<not> isws c) (w @ r) = w" "dropWhile (\<lambda>c. \<not> isws c) (w @ r) = r"
    using assms by (cases r; simp)+
  show ?thesis using assms(1) by (subst iter_fields.simps) (simp add: d t Let_def)
qed

lemma iter_fields_blank: "\<forall>c\<in>set p. isws c \<Longrightarrow> iter_fields f p n st = (n, st)"
  by (subst iter_fields.simps) simp

text \<open>A line of fields: each word is preceded by blanks, all but the first by at least one.\<close>

fun line_of :: "(bytes \<times> bytes) list \<Rightarrow> bytes \<Rightarrow> bytes" where
  "line_of [] t = t"
| "line_of ((p, w) # ws) t = p @ w @ line_of ws t"

definition good_fields :: "(bytes \<times> bytes) list \<Rightarrow> bool" where
  "good_fields ws \<longleftrightarrow> list_all (\<lambda>(p, w). list_all isws p \<and> w \<noteq> [] \<and> list_all (\<lambda>c. \<not> isws c) w) ws
     \<and> list_all (\<lambda>(p, w). p \<noteq> []) (tl ws)"

lemma line_of_hd:
  "list_all (\<lambda>(p, w). list_all isws p \<and> p \<noteq> []) ws \<Longrightarrow> list_all isws t \<Longrightarrow>
   line_of ws t = [] \<or> isws (hd (line_of ws t))"
  by (cases ws; cases t) (auto simp: list_all_iff)

lemma iter_fields_line:
  assumes "good_fields ws" and "list_all isws t"
  shows "iter_fields f (line_of ws t) n st = (n + length ws, fold f (map snd ws) st)"
  using assms
proof (induction ws arbitrary: n st)
  case Nil
  then show ?case by (simp add: iter_fields_blank list_all_iff)
next
  case (Cons x ws)
  obtain p w where x: "x = (p, w)" by (cases x)
  have "line_of ws t = [] \<or> isws (hd (line_of ws t))"
    using Cons.prems by (intro line_of_hd) (auto simp: good_fields_def list_all_iff)
  moreover have "good_fields ws"
    using Cons.prems by (cases ws) (auto simp: good_fields_def)
  ultimately show ?case
    using Cons by (simp add: x iter_fields_word good_fields_def list_all_iff)
qed

lemma line_of_exists: "\<exists>ws t. s = line_of ws t \<and> good_fields ws \<and> list_all isws t"
proof (induction "length s" arbitrary: s rule: less_induct)
  case less
  let ?s1 = "dropWhile isws s"
  let ?r = "dropWhile (\<lambda>c. \<not> isws c) ?s1" and ?w = "takeWhile (\<lambda>c. \<not> isws c) ?s1"
  show ?case
  proof (cases "?s1 = []")
    case True
    then show ?thesis
      by (intro exI [of _ "[]"] exI [of _ s]) (simp add: good_fields_def list_all_iff)
  next
    case False
    then have hd: "\<not> isws (hd ?s1)" by (rule hd_dropWhile)
    then have w: "?w \<noteq> []" using False by (cases ?s1) auto
    have s: "s = takeWhile isws s @ ?w @ ?r" by simp
    have "length ?r < length s" using False by (rule drop_word_less)
    then obtain ws t where r: "?r = line_of ws t" "good_fields ws" "list_all isws t"
      using less by blast
    have "good_fields ((takeWhile isws s, ?w) # ws)"
    proof (cases ws)
      case Nil
      then show ?thesis using w by (auto simp: good_fields_def list_all_iff dest: set_takeWhileD)
    next
      case (Cons x ws')
      obtain p v where x: "x = (p, v)" by (cases x)
      have "isws (hd ?r)" using hd_dropWhile [of "\<lambda>c. \<not> isws c" ?s1] r Cons x
        by (auto simp: good_fields_def)
      then have "p \<noteq> []" using r Cons x by (cases v) (auto simp: good_fields_def)
      then show ?thesis using w r Cons x
        by (auto simp: good_fields_def list_all_iff dest: set_takeWhileD)
    qed
    then show ?thesis using s r by (metis (no_types, lifting) line_of.simps(2))
  qed
qed

subsection \<open>The splitting writer\<close>

text \<open>What the writer puts out for \<open>b\<close> with \<open>i\<close> bytes already on the line, and the new \<open>i\<close>.\<close>

fun wrap :: "nat \<Rightarrow> nat \<Rightarrow> bytes \<Rightarrow> bytes" where
  "wrap N i [] = []"
| "wrap N i (c # cs) = (if i \<ge> N then LF # c # wrap N 1 cs else c # wrap N (Suc i) cs)"

fun wrap_pos :: "nat \<Rightarrow> nat \<Rightarrow> bytes \<Rightarrow> nat" where
  "wrap_pos N i [] = i"
| "wrap_pos N i (c # cs) = wrap_pos N (if i \<ge> N then 1 else Suc i) cs"

lemma wrap_append: "wrap N i (xs @ ys) = wrap N i xs @ wrap N (wrap_pos N i xs) ys"
  by (induction xs arbitrary: i) auto

lemma wrap_pos_append: "wrap_pos N i (xs @ ys) = wrap_pos N (wrap_pos N i xs) ys"
  by (induction xs arbitrary: i) auto

lemma wrap_short: "length xs \<le> N - i \<Longrightarrow> wrap N i xs = xs \<and> wrap_pos N i xs = i + length xs"
  by (induction xs arbitrary: i) auto

lemma wrap_nl: "0 < N \<Longrightarrow> N \<le> i \<Longrightarrow> b \<noteq> [] \<Longrightarrow>
    wrap N i b = LF # wrap N 0 b \<and> wrap_pos N i b = wrap_pos N 0 b"
  by (cases b) auto

lemma wrap_run:
  "wrap N i b = l @ r \<Longrightarrow> LF \<notin> set l \<Longrightarrow> i \<le> N \<Longrightarrow> length l \<le> N - i"
proof (induction b arbitrary: i l)
  case (Cons c cs)
  show ?case
  proof (cases l)
    case Nil then show ?thesis by simp
  next
    case l: (Cons d ds)
    then have "i < N" using Cons.prems by (auto split: if_splits)
    then show ?thesis using Cons.prems Cons.IH [of "Suc i" ds] l by simp
  qed
qed simp

lemma wrap_lines:
  assumes "0 < N"
  shows "wrap N i b = p @ l @ r \<Longrightarrow> LF \<notin> set l \<Longrightarrow> i \<le> N \<Longrightarrow> length l \<le> N"
proof (induction p arbitrary: i b)
  case Nil
  then show ?case using wrap_run [of N i b l r] by simp
next
  case (Cons d p)
  then obtain c cs where b: "b = c # cs" by (cases b) auto
  show ?case
  proof (cases "N \<le> i")
    case True
    then show ?thesis using Cons wrap_nl [OF assms True, of b] b by (intro Cons.IH [of 0 b]) auto
  next
    case False
    then show ?thesis using Cons b by (intro Cons.IH [of "Suc i" cs]) auto
  qed
qed

lemma wrap_filter: "LF \<notin> set b \<Longrightarrow> filter (\<lambda>c. c \<noteq> LF) (wrap N i b) = b"
  by (induction b arbitrary: i) auto

definition split_ok :: "bytes \<Rightarrow> SplitWriter \<Rightarrow> nat \<times> io_err option \<Rightarrow> SplitWriter \<Rightarrow> bool" where
  "split_ok b w res w' \<longleftrightarrow> (case res of (m, e) \<Rightarrow>
     m \<le> length b \<and> sN w' = sN w \<and>
     (\<exists>x. wout (sW w') = wout (sW w) @ wrap (sN w) (sI w) (take m b) @ x \<and>
          (x = [] \<or> x = [LF] \<and> e \<noteq> None \<and> (0 < m \<or> sN w \<le> sI w))) \<and>
     (e = None \<longrightarrow> m = length b \<and> sI w' = wrap_pos (sN w) (sI w) b))"

lemma split_chunk:
  assumes w: "uwrite cb (sW w) = (x, e, u)" and cb: "cb = take (sN w - sI w) b"
    and rest: "e = None \<Longrightarrow> split_ok (drop x b) (w\<lparr>sW := u, sI := sI w + x\<rparr>) (m, e') w'"
    and fail: "e \<noteq> None \<Longrightarrow> m = 0 \<and> e' = e \<and> w' = w\<lparr>sW := u, sI := sI w + x\<rparr>"
  shows "split_ok b w (x + m, e') w'"
proof -
  have x: "wout u = wout (sW w) @ take x b" "x \<le> length b" "x \<le> sN w - sI w"
    using uwrite_wout [OF w] by (auto simp: cb min_def split: if_splits)
  have wr: "wrap (sN w) (sI w) (take x b) = take x b" "wrap_pos (sN w) (sI w) (take x b) = sI w + x"
    using wrap_short [of "take x b" "sN w" "sI w"] x by auto
  show ?thesis
  proof (cases e)
    case (Some a)
    then show ?thesis using fail x wr by (simp add: split_ok_def)
  next
    case None
    have "take (x + m) b = take x b @ take m (drop x b)" by (rule take_add)
    moreover have "wrap_pos (sN w) (sI w) b = wrap_pos (sN w) (sI w + x) (drop x b)"
      using wrap_pos_append [of "sN w" "sI w" "take x b" "drop x b"] wr by simp
    ultimately show ?thesis using rest [OF None] x wr by (auto simp: split_ok_def wrap_append)
  qed
qed

lemma split_loop_ok:
  "0 < sN w \<Longrightarrow> \<exists>m e w'. split_loop n b w = Some ((n + m, e), w') \<and> split_ok b w (m, e) w'"
proof (induction "length b" arbitrary: n b w rule: less_induct)
  case less
  have body: "\<exists>m e w'. (case uwrite (take (sN v - sI v) b) (sW v) of (x, err, u) \<Rightarrow>
        if err \<noteq> None then Some ((n + x, err), v\<lparr>sW := u, sI := sI v + x\<rparr>)
        else split_loop (n + x) (drop x b) (v\<lparr>sW := u, sI := sI v + x\<rparr>)) = Some ((n + m, e), w')
      \<and> split_ok b v (m, e) w'" if b: "b \<noteq> []" and v: "sI v < sN v" for v
  proof -
    obtain x e u where u: "uwrite (take (sN v - sI v) b) (sW v) = (x, e, u)" by (metis prod_cases3)
    show ?thesis
    proof (cases e)
      case (Some a)
      then have "split_ok b v (x + 0, e) (v\<lparr>sW := u, sI := sI v + x\<rparr>)"
        by (intro split_chunk [OF u refl]) simp_all
      then show ?thesis using Some u by auto
    next
      case None
      then have "x = length (take (sN v - sI v) b)" using uwrite_all u by blast
      then have "length (drop x b) < length b" using b v by auto
      then obtain m e' w' where m:
        "split_loop (n + x) (drop x b) (v\<lparr>sW := u, sI := sI v + x\<rparr>) = Some ((n + x + m, e'), w')"
        "split_ok (drop x b) (v\<lparr>sW := u, sI := sI v + x\<rparr>) (m, e') w'"
        using less.hyps [of "drop x b" "v\<lparr>sW := u, sI := sI v + x\<rparr>" "n + x"] v by auto
      have "split_ok b v (x + m, e') w'" using None m by (intro split_chunk [OF u refl]) simp_all
      then show ?thesis using None u m by (auto simp: add.assoc)
    qed
  qed
  show ?case
  proof (cases "b = []")
    case True
    then show ?thesis by (subst split_loop.simps) (auto simp: split_ok_def)
  next
    case b: False
    have cb: "(if length b > k then take k b else b) = take k b" for k by simp
    obtain k e u where nl: "uwrite [LF] (sW w) = (k, e, u)" by (metis prod_cases3)
    show ?thesis
    proof (cases "sN w \<le> sI w")
      case False
      then show ?thesis using body [OF b, of w] b
        by (subst split_loop.simps) (simp add: cb Let_def)
    next
      case True
      show ?thesis
      proof (cases e)
        case (Some a)
        then have "split_ok b w (0, e) (w\<lparr>sW := u\<rparr>)"
          using uwrite_wout [OF nl] True by (cases k) (auto simp: split_ok_def)
        then show ?thesis using Some True b nl by (subst split_loop.simps) auto
      next
        case None
        let ?v = "w\<lparr>sW := u, sI := 0\<rparr>"
        have "wout u = wout (sW w) @ [LF]" using uwrite_wout [OF nl] uwrite_all nl None by fastforce
        then have "split_ok b w (m, e') w'" if "split_ok b ?v (m, e') w'" "m \<noteq> 0 \<or> e' \<noteq> None" for m e' w'
          using that wrap_nl [OF less.prems True] b less.prems True
          by (cases "take m b = []") (auto simp: split_ok_def)
        moreover obtain m e' w' where "split_ok b ?v (m, e') w'" "split_loop n b w = Some ((n + m, e'), w')"
          using body [OF b, of ?v] less.prems True b None nl
          by (subst (asm) split_loop.simps) (auto simp: cb Let_def)
        moreover have "m \<noteq> 0 \<or> e' \<noteq> None" using calculation b by (auto simp: split_ok_def)
        ultimately show ?thesis by blast
      qed
    qed
  qed
qed

subsection \<open>Unix text\<close>

text \<open>What the text reader still has to deliver, and the error it ends with.\<close>

fun utr_rest :: "utr_state \<Rightarrow> ev list \<Rightarrow> bytes \<times> io_err" where
  "utr_rest s [] = (if s = utrNL then [] else [LF], EOF)"
| "utr_rest s (Byte c # es) =
     (if s = utrEOF then ([LF], EOF)
      else if c = CR then utr_rest s es
      else (let (b, e) = utr_rest (if c \<noteq> LF then utrText else utrNL) es in (c # b, e)))"
| "utr_rest s (Err e # es) =
     (if s = utrEOF then ([LF], EOF)
      else (if e = EOF \<and> s \<noteq> utrNL then [LF] else [], e))"

lemma utr_rest_EOF: "utr_rest utrEOF es = ([LF], EOF)"
  by (cases "(utrEOF, es)" rule: utr_rest.cases) auto

lemma utr_rest_strip:
  assumes "utr_strip x s = (b, s')" and "s \<noteq> utrEOF"
  shows "utr_rest s (map Byte x @ es) = (b @ fst (utr_rest s' es), snd (utr_rest s' es)) \<and>
         s' \<noteq> utrEOF \<and> length b \<le> length x"
  using assms
proof (induction x s arbitrary: b s' rule: utr_strip.induct)
  case (1 s)
  then show ?case by simp
next
  case (2 c cs s)
  obtain b1 s1 where r: "utr_strip cs (if c \<noteq> LF then utrText else utrNL) = (b1, s1)" by fastforce
  show ?case
  proof (cases "c = CR")
    case True
    then show ?thesis using 2 by fastforce
  next
    case False
    then show ?thesis using 2 r by (auto simp: split_beta split: if_splits)
  qed
qed

lemma UnixTextReader_Read_rest:
  assumes r: "UnixTextReader_Read lb (s, u) = ((b, e), s', u')" and lb: "0 < lb"
  shows "length b \<le> lb"
    and "utr_rest s (uevs u) = (case e of None \<Rightarrow> (b @ fst (utr_rest s' (uevs u')), snd (utr_rest s' (uevs u')))
                                 | Some x \<Rightarrow> (b, x))"
    and "e = None \<Longrightarrow> usize u' < usize u"
proof -
  obtain x e0 u0 where u0: "uread lb u = (x, e0, u0)" by (metis prod_cases3)
  obtain b0 s0 where b0: "utr_strip x s = (b0, s0)" by fastforce
  have blen: "length b0 \<le> lb" if "s \<noteq> utrEOF"
    using uread_len [OF u0] utr_rest_strip [OF b0 that, of "[]"] by simp
  note strip = utr_rest_strip [OF b0]
  have ends: "u = [] \<Longrightarrow> x = [] \<and> e0 = Some EOF \<and> u0 = []" using u0 by simp
  show "length b \<le> lb" using r lb u0 b0 blen
    by (auto simp: UnixTextReader_Read_def split: if_splits)
  show "e = None \<Longrightarrow> usize u' < usize u"
    using r lb u0 b0 uread_size [OF u0 lb] ends
    by (cases "u = []") (auto simp: UnixTextReader_Read_def split: if_splits)
  show "utr_rest s (uevs u) = (case e of None \<Rightarrow> (b @ fst (utr_rest s' (uevs u')), snd (utr_rest s' (uevs u')))
                                 | Some x \<Rightarrow> (b, x))"
  proof (cases "s = utrEOF")
    case True
    then show ?thesis using r lb by (auto simp: UnixTextReader_Read_def utr_rest_EOF)
  next
    case False
    show ?thesis
    proof (cases "u = []")
      case True
      then show ?thesis using r lb ends False by (auto simp: UnixTextReader_Read_def)
    next
      case u: False
      show ?thesis unfolding uread_evs [OF u0 u]
        using r lb u0 b0 strip [OF False] False
        by (cases e0) (auto simp: UnixTextReader_Read_def utr_rest_EOF split: if_splits option.splits)
    qed
  qed
qed

text \<open>A caller that reads with buffers of the given sizes until it gets an error.\<close>

fun utr_drain :: "nat list \<Rightarrow> utr_state \<times> reader \<Rightarrow> bytes \<times> io_err option" where
  "utr_drain [] t = ([], None)"
| "utr_drain (l # ls) t =
     (case UnixTextReader_Read l t of
        ((b, Some e), t') \<Rightarrow> (b, Some e)
      | ((b, None), t') \<Rightarrow> (let (b', e) = utr_drain ls t' in (b @ b', e)))"

lemma utr_drain_rest:
  "\<forall>l\<in>set ls. 0 < l \<Longrightarrow> usize u < length ls \<Longrightarrow>
   utr_drain ls (s, u) = (fst (utr_rest s (uevs u)), Some (snd (utr_rest s (uevs u))))"
proof (induction ls arbitrary: s u)
  case (Cons l ls)
  obtain b e s' u' where r: "UnixTextReader_Read l (s, u) = ((b, e), s', u')" by (metis prod_cases4 surj_pair)
  show ?case
    using UnixTextReader_Read_rest [OF r] Cons r by (cases e) (auto simp: split_beta)
qed simp

definition unix_text :: "bytes \<Rightarrow> bytes" where
  "unix_text b = (let t = filter (\<lambda>c. c \<noteq> CR) b in if t = [] \<or> last t = LF then t else t @ [LF])"

lemma utr_rest_bytes:
  "s \<noteq> utrEOF \<Longrightarrow> utr_rest s (map Byte b) =
     (if filter (\<lambda>c. c \<noteq> CR) b = [] then if s = utrNL then [] else [LF] else unix_text b, EOF)"
  by (induction b arbitrary: s) (auto simp: unix_text_def Let_def)

subsection \<open>Properties\<close>

text \<open>
  The three case-insensitive comparisons are exact: \<open>EqualFoldString\<close> compares the upper-cased
  strings, \<open>StartsWithFoldString\<close> and \<open>EndsWithFoldString\<close> find a prefix or suffix whose upper-cased
  form is that of \<open>s\<close>; only the 26 letters are folded.
\<close>
theorem fold_compare:
  "(EqualFoldString a b \<longleftrightarrow> map upper a = map upper b) \<and>
   (StartsWithFoldString b s \<longleftrightarrow> (\<exists>p t. b = p @ t \<and> map upper p = map upper s)) \<and>
   (EndsWithFoldString b s \<longleftrightarrow> (\<exists>t p. b = t @ p \<and> map upper p = map upper s))"
  by (intro conjI EqualFoldString_upper StartsWithFoldString_upper EndsWithFoldString_upper)

text \<open>
  \<open>IterateFields\<close> calls its callback on exactly the fields of the string, in order, and returns
  their number: every string is a line of blank-separated words, and its words are what the callback
  sees.
\<close>
theorem IterateFields_fields:
  "\<exists>ws t. s = line_of ws t \<and> good_fields ws \<and> list_all isws t \<and>
     (\<forall>f st. IterateFields f s st = (length ws, fold f (map snd ws) st))"
proof -
  obtain ws t where "s = line_of ws t" "good_fields ws" "list_all isws t"
    using line_of_exists [of s] by blast
  then show ?thesis
    by (intro exI [of _ ws] exI [of _ t]) (simp add: IterateFields_def iter_fields_line)
qed

text \<open>
  A \<open>SplitWriter\<close> of positive width returns from every \<open>Write\<close>; it has then put out the bytes it
  reports as written with line breaks inserted, plus at most a line break the failed write had
  begun; without an error it took all of \<open>b\<close>, and its position is that of the bytes written so far,
  so the output does not depend on how the data is cut into writes; and no line it puts out is
  longer than its width.
\<close>
theorem SplitWriter_wraps:
  assumes "0 < sN w"
  shows "(\<exists>n e w'. SplitWriter_Write b w = Some ((n, e), w') \<and> split_ok b w (n, e) w') \<and>
   (wrap (sN w) i (b1 @ b2) = wrap (sN w) i b1 @ wrap (sN w) (wrap_pos (sN w) i b1) b2) \<and>
   (wrap (sN w) i b = p @ l @ r \<longrightarrow> LF \<notin> set l \<longrightarrow> i \<le> sN w \<longrightarrow> length l \<le> sN w) \<and>
   (LF \<notin> set b \<longrightarrow> filter (\<lambda>c. c \<noteq> LF) (wrap (sN w) i b) = b)"
proof (intro conjI impI)
  show "\<exists>n e w'. SplitWriter_Write b w = Some ((n, e), w') \<and> split_ok b w (n, e) w'"
    using split_loop_ok [OF assms, of 0 b] by (auto simp: SplitWriter_Write_def)
  show "wrap (sN w) i b = p @ l @ r \<Longrightarrow> LF \<notin> set l \<Longrightarrow> i \<le> sN w \<Longrightarrow> length l \<le> sN w"
    using wrap_lines [OF assms] by blast
qed (use wrap_append wrap_filter in auto)

theorem SplitWriter_wraps_witness:
  "\<exists>n e w'. SplitWriter_Write [1, 2, 3] \<lparr>sW = \<lparr>wout = [], wroom = None\<rparr>, sN = 2, sI = 0\<rparr> = Some ((n, e), w')
     \<and> split_ok [1, 2, 3] \<lparr>sW = \<lparr>wout = [], wroom = None\<rparr>, sN = 2, sI = 0\<rparr> (n, e) w'"
  by (rule SplitWriter_wraps [THEN conjunct1]) simp

text \<open>
  However the underlying reader cuts its data and whatever buffer sizes the caller uses, a
  \<open>UnixTextReader\<close> delivers the text without carriage returns and with a final newline, then \<open>EOF\<close>,
  within \<open>usize u + 1\<close> reads.
\<close>
theorem UnixTextReader_text:
  assumes "uevs u = map Byte b" and "\<forall>l\<in>set ls. 0 < l" and "usize u < length ls"
  shows "utr_drain ls (utrNL, u) = (unix_text b, Some EOF)"
  using utr_drain_rest [OF assms(2,3)] by (simp add: assms(1) utr_rest_bytes unix_text_def)

theorem UnixTextReader_text_witness:
  "utr_drain [1, 2, 1, 5, 5, 5, 5] (utrNL, [([97, 13], None), ([10, 98], None)]) = ([97, 10, 98, 10], Some EOF)"
  using UnixTextReader_text [of "[([97, 13], None), ([10, 98], None)]" "[97, 13, 10, 98]" "[1, 2, 1, 5, 5, 5, 5]"]
  by (simp add: unix_text_def)

end
