(* ===== verification/Wildmat.thy ===== *)
theory Wildmat
  imports Utf8 AsciiUtils
begin

text \<open>
  \<open>nntp/wildmat.go\<close>: validation of wildmats, their translation into regular expressions, and
  matching. The translation is modelled down to the text of the expression; \<open>regexp\<close> is modelled on
  the expressions the translation writes: \<open>^\<close>, \<open>$\<close>, letters and digits, escaped characters, \<open>.\<close> and
  \<open>.*\<close>, matched rune by rune. \<open>MustCompile\<close> panics on an escape of a byte outside ASCII.

  The reference is the RFC 3977 reading of a wildmat: comma-separated patterns, a leading \<open>!\<close>
  negating one, \<open>*\<close> and \<open>?\<close> as wildcards, the rightmost pattern that matches deciding.
\<close>

definition wm_exact :: "byte \<Rightarrow> bool" where
  "wm_exact c \<longleftrightarrow> (0x22 \<le> c \<and> c \<le> 0x29) \<or> c = 0x2B \<or> (0x2D \<le> c \<and> c \<le> 0x3E) \<or>
     (0x40 \<le> c \<and> c \<le> 0x5A) \<or> (0x5E \<le> c \<and> c \<le> 0x7E) \<or> c \<ge> 0x80"

datatype wm_state = sStartPattern | sInsidePattern | sNegate

fun valid_loop :: "bytes \<Rightarrow> wm_state \<Rightarrow> bool \<Rightarrow> (wm_state \<times> bool) option" where
  "valid_loop [] s u = Some (s, u)"
| "valid_loop (c # x) s u =
     (let u = (if c \<ge> 0x80 then True else u)
      in if wm_exact c \<or> c = 42 \<or> c = 63 then valid_loop x sInsidePattern u
         else if c = 33 \<and> s = sStartPattern then valid_loop x sNegate u
         else if c = 44 \<and> s = sInsidePattern then valid_loop x sStartPattern u
         else None)"

definition ValidWildmat :: "bytes \<Rightarrow> bool" where
  "ValidWildmat x =
     (case valid_loop x sStartPattern False of
        None \<Rightarrow> False
      | Some (s, hasunicode) \<Rightarrow> s = sInsidePattern \<and> (\<not> hasunicode \<or> utf8_valid x))"

subsection \<open>Regular expressions\<close>

datatype rx = RLit byte | RAny | RStar

definition alnum :: "byte \<Rightarrow> bool" where
  "alnum c \<longleftrightarrow> (48 \<le> c \<and> c \<le> 57) \<or> (65 \<le> c \<and> c \<le> 90) \<or> (97 \<le> c \<and> c \<le> 122)"

fun re_items :: "bytes \<Rightarrow> rx list option" where
  "re_items [] = None"
| "re_items (c # r) =
     (if c = 36 \<and> r = [] then Some []
      else if c = 46 then
        (case r of
           d # r' \<Rightarrow> if d = 42 then map_option ((#) RStar) (re_items r') else map_option ((#) RAny) (re_items r)
         | [] \<Rightarrow> None)
      else if c = 92 then
        (case r of
           d # r' \<Rightarrow> if d < 0x80 \<and> \<not> alnum d then map_option ((#) (RLit d)) (re_items r') else None
         | [] \<Rightarrow> None)
      else if alnum c then map_option ((#) (RLit c)) (re_items r)
      else None)"

definition MustCompile :: "bytes \<Rightarrow> rx list option" where
  "MustCompile e = (case e of c # r \<Rightarrow> if c = 94 then re_items r else None | [] \<Rightarrow> None)"

declare conj_cong [fundef_cong]

function rx_match :: "rx list \<Rightarrow> bytes \<Rightarrow> bool" where
  "rx_match [] s \<longleftrightarrow> s = []"
| "rx_match (RLit c # r) s \<longleftrightarrow> (case s of d # t \<Rightarrow> d = c \<and> rx_match r t | [] \<Rightarrow> False)"
| "rx_match (RAny # r) s \<longleftrightarrow> s \<noteq> [] \<and> hd s \<noteq> LF \<and> rx_match r (drop (rune_width s) s)"
| "rx_match (RStar # r) s \<longleftrightarrow>
     rx_match r s \<or> s \<noteq> [] \<and> hd s \<noteq> LF \<and> rx_match (RStar # r) (drop (rune_width s) s)"
  by pat_completeness auto
termination
  by (relation "measures [length \<circ> fst, length \<circ> snd]") auto

declare rx_match.simps [simp del]

subsection \<open>Translation\<close>

type_synonym wildmat = "(rx list \<times> bool) list"

fun compile_loop :: "bytes \<Rightarrow> bytes \<Rightarrow> bool \<Rightarrow> wildmat \<Rightarrow> wildmat option" where
  "compile_loop [] b result w =
     (case MustCompile (b @ [36]) of None \<Rightarrow> None | Some re \<Rightarrow> Some (w @ [(re, result)]))"
| "compile_loop (c # x) b result w =
     (if alnum c then compile_loop x (b @ [c]) result w
      else if c = 63 then compile_loop x (b @ [46]) result w
      else if c = 42 then compile_loop x (b @ [46, 42]) result w
      else if c = 44 then
        (case MustCompile (b @ [36]) of None \<Rightarrow> None
         | Some re \<Rightarrow> compile_loop x [94] True (w @ [(re, result)]))
      else if c = 33 then compile_loop x b False w
      else compile_loop x (b @ [92, c]) result w)"

definition CompileWildmat :: "bytes \<Rightarrow> wildmat option" where
  "CompileWildmat x = compile_loop x [94] True []"

text \<open>The size hint for the buffer; it bounds the text of every piece.\<close>

fun est_loop :: "bytes \<Rightarrow> nat \<Rightarrow> nat \<Rightarrow> nat" where
  "est_loop [] this mx = (if this > mx then this else mx)"
| "est_loop (c # x) this mx =
     (if alnum c \<or> c = 63 then est_loop x (this + 1) mx
      else if c = 44 then est_loop x 0 (if this > mx then this else mx)
      else if c = 33 then est_loop x this mx
      else est_loop x (this + 2) mx)"

definition estimateTranslatedSize :: "bytes \<Rightarrow> nat" where
  "estimateTranslatedSize x = est_loop x 0 0"

fun check_loop :: "wildmat \<Rightarrow> bytes \<Rightarrow> bool \<Rightarrow> bool" where
  "check_loop [] s result = result"
| "check_loop ((re, r) # w) s result = check_loop w s (if rx_match re s then r else result)"

definition CheckString :: "wildmat \<Rightarrow> bytes \<Rightarrow> bool" where
  "CheckString w s = check_loop w s False"

definition CheckBytes :: "wildmat \<Rightarrow> bytes \<Rightarrow> bool" where
  "CheckBytes w s = check_loop w s False"

subsection \<open>Reference semantics\<close>

function glob :: "bytes \<Rightarrow> bytes \<Rightarrow> bool" where
  "glob [] s \<longleftrightarrow> s = []"
| "glob (c # p) s \<longleftrightarrow>
     (if c = 42 then glob p s \<or> s \<noteq> [] \<and> hd s \<noteq> LF \<and> glob (c # p) (drop (rune_width s) s)
      else if c = 63 then s \<noteq> [] \<and> hd s \<noteq> LF \<and> glob p (drop (rune_width s) s)
      else (case s of d # t \<Rightarrow> d = c \<and> glob p t | [] \<Rightarrow> False))"
  by pat_completeness auto
termination
  by (relation "measures [length \<circ> fst, length \<circ> snd]") auto

declare glob.simps [simp del]

text \<open>The patterns of a wildmat: whether negated, and the text.\<close>

fun commas :: "bytes \<Rightarrow> bytes list" where
  "commas [] = [[]]"
| "commas (c # x) = (if c = 44 then [] # commas x
                     else (case commas x of p # ps \<Rightarrow> (c # p) # ps | [] \<Rightarrow> [[c]]))"

definition pattern :: "bytes \<Rightarrow> bool \<times> bytes" where
  "pattern p = (if p \<noteq> [] \<and> hd p = 33 then (True, tl p) else (False, p))"

definition wildmat_matches :: "bytes \<Rightarrow> bytes \<Rightarrow> bool" where
  "wildmat_matches x s =
     (case find (\<lambda>(neg, p). glob p s) (rev (map pattern (commas x))) of
        None \<Rightarrow> False | Some (neg, _) \<Rightarrow> \<not> neg)"

subsection \<open>The translation of one pattern\<close>

definition good_char :: "byte \<Rightarrow> bool" where
  "good_char c \<longleftrightarrow> wm_exact c \<or> c = 42 \<or> c = 63"

definition ascii :: "bytes \<Rightarrow> bool" where
  "ascii p \<longleftrightarrow> (\<forall>c\<in>set p. c < 0x80)"

lemma ascii_simps [simp]: "ascii []" "ascii (c # p) \<longleftrightarrow> c < 0x80 \<and> ascii p"
  "ascii (p @ q) \<longleftrightarrow> ascii p \<and> ascii q"
  by (auto simp: ascii_def)

fun rx_of :: "bytes \<Rightarrow> rx list" where
  "rx_of [] = []"
| "rx_of (c # p) = (if c = 42 then RStar else if c = 63 then RAny else RLit c) # rx_of p"

fun rx_text :: "bytes \<Rightarrow> bytes" where
  "rx_text [] = []"
| "rx_text (c # p) =
     (if alnum c then [c] else if c = 63 then [46] else if c = 42 then [46, 42] else [92, c]) @ rx_text p"

lemma rx_match_glob: "rx_match (rx_of p) s = glob p s"
proof (induction p s rule: glob.induct)
  case (1 s)
  then show ?case by (simp add: glob.simps rx_match.simps)
next
  case (2 c p s)
  consider "c = 42" | "c = 63" | "c \<noteq> 42" "c \<noteq> 63" by blast
  then show ?case
  proof cases
    case 1
    then show ?thesis
      using 2 by (subst glob.simps) (simp, subst rx_match.simps, auto)
  next
    case c: 2
    then show ?thesis using 2 by (subst glob.simps) (simp add: rx_match.simps cong: conj_cong)
  next
    case 3
    then show ?thesis using 2 by (subst glob.simps) (cases s; auto simp: rx_match.simps)
  qed
qed

lemma alnum_not [simp]:
  "alnum 42 = False" "alnum 63 = False" "alnum 46 = False" "alnum 92 = False" "alnum 36 = False"
  "alnum 44 = False" "alnum 33 = False"
  by (simp_all add: alnum_def)

lemma rx_text_not_star: "hd (rx_text p @ [36]) \<noteq> 42"
proof (cases p)
  case (Cons c q)
  then show ?thesis by (cases "c = 42") (auto simp: alnum_def)
qed simp

lemma re_items_text:
  "\<forall>c\<in>set p. good_char c \<Longrightarrow> re_items (rx_text p @ [36]) = (if ascii p then Some (rx_of p) else None)"
proof (induction p)
  case (Cons c p)
  have IH: "re_items (rx_text p @ [36]) = (if ascii p then Some (rx_of p) else None)" using Cons by simp
  have ne: "rx_text p @ [36] \<noteq> []" by simp
  then obtain d r where dr: "rx_text p @ [36] = d # r" by (cases "rx_text p @ [36]") auto
  have d: "d \<noteq> 42" using rx_text_not_star [of p] by (simp add: dr)
  consider "alnum c" | "c = 63" | "c = 42" | "\<not> alnum c" "c \<noteq> 63" "c \<noteq> 42" by blast
  then show ?case
  proof cases
    case 1
    then have "c \<noteq> 36" "c \<noteq> 46" "c \<noteq> 92" "c \<noteq> 42" "c \<noteq> 63" by auto
    moreover have "c < 0x80" using 1 unfolding alnum_def by (auto elim: order_le_less_trans)
    ultimately show ?thesis using 1 IH by simp
  next
    case 2
    then show ?thesis using IH dr d by simp
  next
    case 3
    then show ?thesis using IH by simp
  next
    case 4
    then show ?thesis using IH by simp
  qed
qed simp

subsection \<open>The translation of a wildmat\<close>

lemma good_char_simps: "good_char c \<Longrightarrow> c \<noteq> 44 \<and> c \<noteq> 33"
  by (auto simp: good_char_def wm_exact_def)

lemma commas_ne [simp]: "commas x \<noteq> []"
  by (induction x) (auto split: list.splits)

lemma commas_cases:
  "commas x = p # ps \<Longrightarrow> 44 \<notin> set p \<and> (ps = [] \<and> x = p \<or> (\<exists>x'. x = p @ 44 # x' \<and> commas x' = ps))"
proof (induction x arbitrary: p)
  case (Cons c x)
  obtain q qs where q: "commas x = q # qs" by (cases "commas x") auto
  show ?case using Cons q by (auto split: if_splits)
qed simp

definition all_good :: "bytes \<Rightarrow> bool" where
  "all_good p \<longleftrightarrow> (\<forall>c\<in>set p. good_char c)"

definition seg_ok :: "bytes \<Rightarrow> bool" where
  "seg_ok p \<longleftrightarrow> snd (pattern p) \<noteq> [] \<and> all_good (snd (pattern p))"

lemma valid_segs:
  assumes "valid_loop x s u = Some (sInsidePattern, u')"
  shows "case commas x of [] \<Rightarrow> False | p # ps \<Rightarrow> list_all seg_ok ps \<and>
    (case s of sStartPattern \<Rightarrow> seg_ok p | sInsidePattern \<Rightarrow> all_good p | sNegate \<Rightarrow> p \<noteq> [] \<and> all_good p)"
  using assms
proof (induction x arbitrary: s u)
  case Nil
  then show ?case by (simp add: all_good_def)
next
  case (Cons c x)
  obtain q qs where q: "commas x = q # qs" by (cases "commas x") auto
  consider (good) "wm_exact c \<or> c = 42 \<or> c = 63" | (neg) "c = 33" "s = sStartPattern"
    | (comma) "c = 44" "s = sInsidePattern"
    using Cons.prems(1) by (auto simp: Let_def split: if_splits)
  then show ?case
  proof cases
    case good
    then have c: "good_char c" by (simp add: good_char_def)
    then have c': "c \<noteq> 44" "c \<noteq> 33" using good_char_simps by auto
    have "valid_loop x sInsidePattern (if c \<ge> 0x80 then True else u) = Some (sInsidePattern, u')"
      using Cons.prems(1) good by (simp add: Let_def)
    from Cons.IH [OF this] have "list_all seg_ok qs" "all_good q" by (auto simp: q)
    then show ?thesis using c c' q by (cases s) (auto simp: seg_ok_def pattern_def all_good_def)
  next
    case neg
    then have "\<not> (wm_exact c \<or> c = 42 \<or> c = 63)" by (simp add: wm_exact_def)
    then have "valid_loop x sNegate (if c \<ge> 0x80 then True else u) = Some (sInsidePattern, u')"
      using Cons.prems(1) neg by (simp add: Let_def)
    from Cons.IH [OF this] have "list_all seg_ok qs" "q \<noteq> []" "all_good q" by (auto simp: q)
    then show ?thesis using neg q by (auto simp: seg_ok_def pattern_def)
  next
    case comma
    then have "\<not> (wm_exact c \<or> c = 42 \<or> c = 63)" by (simp add: wm_exact_def)
    then have "valid_loop x sStartPattern (if c \<ge> 0x80 then True else u) = Some (sInsidePattern, u')"
      using Cons.prems(1) comma by (simp add: Let_def)
    from Cons.IH [OF this] have "list_all seg_ok qs" "seg_ok q" by (auto simp: q)
    then show ?thesis using comma q by (simp add: all_good_def)
  qed
qed

lemma rx_text_snoc: "rx_text (q @ [c]) = rx_text q @ rx_text [c]"
  by (induction q) simp_all

lemma compile_run:
  "all_good p \<Longrightarrow> compile_loop (p @ y) (94 # rx_text q) r w = compile_loop y (94 # rx_text (q @ p)) r w"
proof (induction p arbitrary: q)
  case (Cons c p)
  have c: "c \<noteq> 44" "c \<noteq> 33" using Cons.prems good_char_simps by (auto simp: all_good_def)
  have "compile_loop ((c # p) @ y) (94 # rx_text q) r w = compile_loop (p @ y) (94 # rx_text (q @ [c])) r w"
    using c by (simp add: rx_text_snoc)
  then show ?case using Cons by (simp add: all_good_def)
qed simp

lemma MustCompile_text:
  "all_good p \<Longrightarrow> MustCompile (94 # rx_text p @ [36]) = (if ascii p then Some (rx_of p) else None)"
  by (simp add: MustCompile_def re_items_text all_good_def)

definition piece :: "bytes \<Rightarrow> rx list \<times> bool" where
  "piece seg = (case pattern seg of (neg, p) \<Rightarrow> (rx_of p, \<not> neg))"

lemma compile_seg:
  assumes "seg_ok p"
  shows "compile_loop (p @ y) [94] True w = compile_loop y (94 # rx_text (snd (pattern p))) (\<not> fst (pattern p)) w"
proof (cases "p \<noteq> [] \<and> hd p = 33")
  case True
  then obtain q where p: "p = 33 # q" by (cases p) auto
  then show ?thesis using assms compile_run [of q y "[]" False w] by (simp add: pattern_def seg_ok_def)
next
  case False
  then have "pattern p = (False, p)" by (auto simp: pattern_def)
  then show ?thesis using assms compile_run [of p y "[]" True w] by (simp add: seg_ok_def)
qed

lemma compile_segs:
  "list_all seg_ok (commas x) \<Longrightarrow>
   compile_loop x [94] True w = (if ascii x then Some (w @ map piece (commas x)) else None)"
proof (induction "commas x" arbitrary: x w)
  case Nil
  then show ?case by (metis commas_ne)
next
  case (Cons p ps)
  have p: "seg_ok p" using Cons.prems Cons.hyps(2) [symmetric] by simp
  have asc: "ascii (snd (pattern p)) = ascii p" by (cases p) (auto simp: pattern_def)
  have m: "MustCompile (94 # rx_text (snd (pattern p)) @ [36]) = (if ascii p then Some (fst (piece p)) else None)"
    "snd (piece p) = (\<not> fst (pattern p))"
    using p MustCompile_text [of "snd (pattern p)"] by (auto simp: seg_ok_def piece_def split_beta asc)
  consider "ps = []" "x = p" | x' where "x = p @ 44 # x'" "commas x' = ps"
    using commas_cases [OF Cons.hyps(2) [symmetric]] by blast
  then show ?case
  proof cases
    case 1
    have c: "commas x = [p]" using Cons.hyps(2) 1 by simp
    have "compile_loop (p @ []) [94] True w = (if ascii p then Some (w @ [piece p]) else None)"
      unfolding compile_seg [OF p] using m by (simp add: prod_eq_iff)
    then show ?thesis unfolding c using 1 by simp
  next
    case 2
    have c: "commas x = p # commas x'" using Cons.hyps(2) 2 by simp
    have "compile_loop (p @ 44 # x') [94] True w
        = (if ascii p then compile_loop x' [94] True (w @ [(fst (piece p), snd (piece p))]) else None)"
      unfolding compile_seg [OF p] using m by simp
    moreover have "list_all seg_ok (commas x')" using Cons.prems c by simp
    ultimately show ?thesis
      using Cons.hyps(1) [of x' "w @ [piece p]"] 2 c by simp
  qed
qed

lemma check_loop_snoc: "check_loop (w @ [(re, r)]) s b = (if rx_match re s then r else check_loop w s b)"
  by (induction w arbitrary: b) auto

lemma check_pieces:
  "check_loop (map piece ps) s b = (case find (\<lambda>(neg, p). glob p s) (rev (map pattern ps)) of
     None \<Rightarrow> b | Some (neg, _) \<Rightarrow> \<not> neg)"
proof (induction ps rule: rev_induct)
  case (snoc p ps)
  then show ?case
    by (simp add: piece_def check_loop_snoc rx_match_glob split_beta)
qed simp

lemma valid_loop_unicode:
  "valid_loop x s u = Some (s', u') \<Longrightarrow> u' = (u \<or> (\<exists>c\<in>set x. c \<ge> 0x80))"
  by (induction x arbitrary: s u) (auto simp: Let_def split: if_splits)

lemma ValidWildmat_segs:
  assumes "ValidWildmat x"
  shows "list_all seg_ok (commas x)"
proof -
  obtain u where "valid_loop x sStartPattern False = Some (sInsidePattern, u)"
    using assms by (cases "valid_loop x sStartPattern False") (auto simp: ValidWildmat_def)
  from valid_segs [OF this] show ?thesis by (cases "commas x") simp_all
qed

subsection \<open>Properties\<close>

text \<open>
  C40: an ASCII wildmat that \<open>ValidWildmat\<close> accepts is compiled, and \<open>CheckString\<close> and \<open>CheckBytes\<close>
  decide as RFC 3977 says: the rightmost pattern that matches the name decides, negated or not, and
  a name no pattern matches is rejected.
\<close>
theorem wildmat_correct:
  assumes "ValidWildmat x" and "ascii x"
  shows "\<exists>w. CompileWildmat x = Some w \<and>
    (\<forall>s. CheckString w s = wildmat_matches x s \<and> CheckBytes w s = wildmat_matches x s)"
  using compile_segs [OF ValidWildmat_segs [OF assms(1)], of "[]"] assms(2)
  by (simp add: CompileWildmat_def CheckString_def CheckBytes_def check_pieces wildmat_matches_def)

theorem wildmat_correct_witness:
  "\<exists>w. CompileWildmat (bs ''a*,!ab?'') = Some w \<and> (\<forall>s. CheckString w s = wildmat_matches (bs ''a*,!ab?'') s
     \<and> CheckBytes w s = wildmat_matches (bs ''a*,!ab?'') s)"
  by (rule wildmat_correct) code_simp+

text \<open>
  A wildmat with a byte outside ASCII makes \<open>CompileWildmat\<close> panic, although \<open>ValidWildmat\<close>
  accepts it: the byte is escaped and \<open>MustCompile\<close> rejects the escape.
\<close>
theorem wildmat_unicode_panics:
  assumes "ValidWildmat x" and "\<not> ascii x"
  shows "CompileWildmat x = None"
  using compile_segs [OF ValidWildmat_segs [OF assms(1)], of "[]"] assms(2)
  by (simp add: CompileWildmat_def)

theorem wildmat_unicode_panics_witness: "ValidWildmat [0xC4, 0x85, 42] \<and> CompileWildmat [0xC4, 0x85, 42] = None"
proof -
  have v: "ValidWildmat [0xC4, 0x85, 42]" by code_simp
  show ?thesis using v wildmat_unicode_panics [OF v] by (simp add: ascii_def)
qed

end
