(* ===== verification/NntpUtil.thy ===== *)
theory NntpUtil
  imports Utf8 AsciiUtils Wildmat
begin

text \<open>
  \<open>nntp/servutil.go\<close>: the parsing helpers of the NNTP command handlers (keywords, message ids, group
  names, ranges, dates and times), with \<open>strconv.ParseUint\<close> and the decimal rendering of \<open>fmt\<close>.
\<close>

subsection \<open>Decimal numbers\<close>

definition is_digit :: "byte \<Rightarrow> bool" where
  "is_digit c \<longleftrightarrow> 48 \<le> c \<and> c \<le> 57"

definition digit_val :: "byte \<Rightarrow> nat" where
  "digit_val c = unat (c - 48)"

definition dec_val :: "bytes \<Rightarrow> nat" where
  "dec_val s = foldl (\<lambda>n c. 10 * n + digit_val c) 0 s"

text \<open>\<open>strconv.ParseUint(s, 10, 64)\<close>\<close>

definition ParseUint :: "bytes \<Rightarrow> u64 option" where
  "ParseUint s =
     (if s \<noteq> [] \<and> list_all is_digit s \<and> dec_val s < 2 ^ 64 then Some (of_nat (dec_val s)) else None)"

text \<open>\<open>%d\<close>\<close>

fun dec :: "nat \<Rightarrow> bytes" where
  "dec n = (if n < 10 then [of_nat (48 + n)] else dec (n div 10) @ [of_nat (48 + n mod 10)])"

declare dec.simps [simp del]

lemma digit_byte:
  assumes "d < 10"
  shows "is_digit (of_nat (48 + d))" and "digit_val (of_nat (48 + d)) = d"
proof -
  have "(of_nat (48 + d) :: byte) - 48 = of_nat d" by simp
  then show "digit_val (of_nat (48 + d)) = d" using assms by (simp only: digit_val_def) (simp add: unat_of_nat)
  have "unat (of_nat (48 + d) :: byte) = 48 + d" using assms by (simp only: unat_of_nat) simp
  then show "is_digit (of_nat (48 + d))" using assms by (simp add: is_digit_def word_le_nat_alt)
qed

lemma dec_digits: "list_all is_digit (dec n) \<and> dec n \<noteq> []"
  by (induction n rule: dec.induct) (subst (1 2) dec.simps, auto simp: digit_byte simp del: of_nat_add)

lemma dec_val_snoc: "dec_val (s @ [c]) = 10 * dec_val s + digit_val c"
  by (simp add: dec_val_def)

lemma dec_val_dec [simp]: "dec_val (dec n) = n"
proof (induction n rule: dec.induct)
  case (1 n)
  show ?case
  proof (cases "n < 10")
    case True
    then show ?thesis using digit_byte(2) [OF True] by (subst dec.simps) (simp add: dec_val_def del: of_nat_add)
  next
    case False
    then show ?thesis using 1 digit_byte(2) [of "n mod 10"]
      by (subst dec.simps) (simp add: dec_val_snoc del: of_nat_add)
  qed
qed

lemma ParseUint_dec: "n < 2 ^ 64 \<Longrightarrow> ParseUint (dec n) = Some (of_nat n)"
  using dec_digits [of n] by (simp add: ParseUint_def)

subsection \<open>Keywords and case\<close>

definition up_byte :: "byte \<Rightarrow> byte" where
  "up_byte c = (if c \<ge> 97 \<and> c \<le> 122 then c - (97 - 65) else c)"

text \<open>The index where the keyword ends, and the buffer with the keyword in upper case.\<close>

fun parseKeyword :: "bytes \<Rightarrow> nat \<times> bytes" where
  "parseKeyword [] = (0, [])"
| "parseKeyword (c # b) =
     (if c = SP \<or> c = TAB then (0, c # b)
      else (let (i, b') = parseKeyword b in (i + 1, up_byte c # b')))"

definition ToUpperASCII :: "bytes \<Rightarrow> bytes" where
  "ToUpperASCII b = map up_byte b"

definition ToLowerASCII :: "bytes \<Rightarrow> bytes" where
  "ToLowerASCII b = map (\<lambda>c. if c \<ge> 65 \<and> c \<le> 90 then c + (97 - 65) else c) b"

lemma up_byte_upper: "up_byte c = upper c"
  by (simp add: up_byte_def upper_def conj_commute)

lemma parseKeyword_spec:
  "parseKeyword b = (length (takeWhile (\<lambda>c. \<not> isws c) b),
     map upper (takeWhile (\<lambda>c. \<not> isws c) b) @ dropWhile (\<lambda>c. \<not> isws c) b)"
  by (induction b) (auto simp: isws_def up_byte_upper split: prod.splits)

subsection \<open>Message ids, numbers, header queries, group names\<close>

definition CutMessageID :: "bytes \<Rightarrow> bytes" where
  "CutMessageID i = take (length i - 1 - 1) (drop 1 i)"

definition CutMsgIDStr :: "bytes \<Rightarrow> bytes" where
  "CutMsgIDStr i = take (length i - 1 - 1) (drop 1 i)"

definition ValidMessageID :: "bytes \<Rightarrow> bool" where
  "ValidMessageID i \<longleftrightarrow> length i \<ge> 3 \<and> i ! 0 = 60 \<and> i ! (length i - 1) = 62 \<and>
     length i \<le> 250 \<and> IsPrintableASCIISlice (CutMessageID i) 62"

definition ReservedMessageID :: "bytes \<Rightarrow> bool" where
  "ReservedMessageID i \<longleftrightarrow> i = bs ''<0>'' \<or> i = bs ''<keepalive@dummy.tld>''"

definition validMessageNum :: "u64 \<Rightarrow> bool" where
  "validMessageNum n \<longleftrightarrow> sint n > 0"

text \<open>The callers pass a non-empty query.\<close>

definition validHeaderQuery :: "bytes \<Rightarrow> bool" where
  "validHeaderQuery hq =
     (let hq = (if hq ! 0 = 58 then drop 1 hq else hq) in IsPrintableASCIISlice hq 58)"

definition maxGroupNameLength :: nat where "maxGroupNameLength = 450"

definition group_char :: "byte \<Rightarrow> bool" where
  "group_char c \<longleftrightarrow> (c \<ge> 0x22 \<and> c \<le> 0x29) \<or> c = 0x2B \<or> (c \<ge> 0x2D \<and> c \<le> 0x3E) \<or>
     (c \<ge> 0x40 \<and> c \<le> 0x5A) \<or> (c \<ge> 0x5E \<and> c \<le> 0x7E) \<or> c \<ge> 0x80"

definition ValidGroupSlice :: "bytes \<Rightarrow> bool" where
  "ValidGroupSlice s = (if length s > maxGroupNameLength then False else list_all group_char s)"

definition FullValidGroupSlice :: "bytes \<Rightarrow> bool" where
  "FullValidGroupSlice s =
     (if length s > maxGroupNameLength then False
      else if \<not> list_all group_char s then False
      else \<not> list_ex (\<lambda>c. c \<ge> 0x80) s \<or> utf8_valid s)"

lemma CutMessageID_wrap: "CutMessageID ([60] @ m @ [62]) = m"
  by (simp add: CutMessageID_def)

lemma ValidMessageID_iff:
  "ValidMessageID i \<longleftrightarrow> (\<exists>m. i = [60] @ m @ [62] \<and> m \<noteq> [] \<and> length m \<le> 248 \<and>
     (\<forall>c\<in>set m. 32 < c \<and> c < 127 \<and> c \<noteq> 62))"
proof
  assume v: "ValidMessageID i"
  then have len: "3 \<le> length i" and ends: "i ! 0 = 60" "i ! (length i - 1) = 62"
    by (auto simp: ValidMessageID_def)
  have i: "i = [60] @ CutMessageID i @ [62]"
  proof -
    obtain a r where ar: "i = a # r" using len by (cases i) auto
    then have r: "r \<noteq> []" "a = 60" using len ends by auto
    then have "last r = 62" using ends ar by (simp add: last_conv_nth nth_Cons')
    then have "r = butlast r @ [62]" using r by (metis append_butlast_last_id)
    then have "r = take (length r - 1) r @ [62]" by (simp only: butlast_conv_take [symmetric])
    then show ?thesis using r by (simp add: ar CutMessageID_def)
  qed
  then have "length (CutMessageID i) = length i - 2" by (metis length_append length_Cons
      list.size(3) add_diff_cancel_right' diff_add_inverse One_nat_def add_Suc_right numeral_2_eq_2 plus_1_eq_Suc diff_Suc_Suc)
  then show "\<exists>m. i = [60] @ m @ [62] \<and> m \<noteq> [] \<and> length m \<le> 248 \<and> (\<forall>c\<in>set m. 32 < c \<and> c < 127 \<and> c \<noteq> 62)"
    using v i len by (intro exI [of _ "CutMessageID i"])
      (auto simp: ValidMessageID_def IsPrintableASCIISlice_def list_ex_iff not_le)
next
  assume "\<exists>m. i = [60] @ m @ [62] \<and> m \<noteq> [] \<and> length m \<le> 248 \<and> (\<forall>c\<in>set m. 32 < c \<and> c < 127 \<and> c \<noteq> 62)"
  then obtain m where m: "i = [60] @ m @ [62]" "m \<noteq> []" "length m \<le> 248"
    "\<forall>c\<in>set m. 32 < c \<and> c < 127 \<and> c \<noteq> 62" by blast
  have "1 \<le> length m" using m(2) by (cases m) auto
  then show "ValidMessageID i"
    using m by (auto simp: ValidMessageID_def IsPrintableASCIISlice_def list_ex_iff not_le CutMessageID_wrap
        [simplified] nth_append CutMessageID_def)
qed

subsection \<open>Ranges\<close>

definition parseRange :: "bytes \<Rightarrow> int \<times> int \<times> bool" where
  "parseRange srange =
     (let rmin = 1; rmax = - 1 in
      case index_byte srange 45 of
        Some i \<Rightarrow>
          (case (if i \<noteq> 0 then map_option (\<lambda>n. if sint n \<ge> 0 then sint n else rmin) (ParseUint (take i srange))
                 else Some rmin) of
             None \<Rightarrow> (rmin, rmax, False)
           | Some rmin \<Rightarrow>
             (case (if i + 1 \<noteq> length srange
                    then map_option (\<lambda>n. if sint n \<ge> 0 then sint n else rmax) (ParseUint (drop (i + 1) srange))
                    else Some rmax) of
                None \<Rightarrow> (rmin, rmax, False)
              | Some rmax \<Rightarrow> (rmin, rmax, True)))
      | None \<Rightarrow>
          (case ParseUint srange of
             None \<Rightarrow> (rmin, rmax, False)
           | Some n \<Rightarrow> (sint n, sint n, True)))"

subsection \<open>Dates and times\<close>

definition isNumberSlice :: "bytes \<Rightarrow> bool" where
  "isNumberSlice x \<longleftrightarrow> \<not> list_ex (\<lambda>c. c < 48 \<or> c > 57) x"

definition stoi64 :: "bytes \<Rightarrow> u64" where
  "stoi64 x = foldl (\<lambda>n c. n * 10 + ucast (c - 48)) 0 x"

definition stoi :: "bytes \<Rightarrow> u64" where
  "stoi x = foldl (\<lambda>n c. n * 10 + ucast (c - 48)) 0 x"

text \<open>\<open>CY\<close> is \<open>time.Now().UTC().Year()\<close>.\<close>

definition parseDateSlice :: "int \<Rightarrow> bytes \<Rightarrow> int \<times> int \<times> int \<times> bool" where
  "parseDateSlice CY date =
     (let l = length date in
      if l < 6 \<or> l = 7 \<or> l > 12 \<or> \<not> isNumberSlice date then (0, 0, 0, False)
      else let D = int (digit_val (date ! (l - 2))) * 10 + int (digit_val (date ! (l - 1)));
               M = int (digit_val (date ! (l - 4))) * 10 + int (digit_val (date ! (l - 3)));
               Y = (if l \<noteq> 6 then sint (stoi (take (l - 4) date))
                    else let Y = int (digit_val (date ! 0)) * 10 + int (digit_val (date ! 1));
                             CYa = CY div 100; CYb = CY mod 100
                         in if Y \<le> CYb then Y + CYa * 100 else Y + (CYa - 1) * 100)
           in (Y, M, D, M > 0 \<and> M \<le> 12 \<and> D > 0))"

definition parseTimeSlice :: "bytes \<Rightarrow> int \<times> int \<times> int \<times> bool" where
  "parseTimeSlice t =
     (if length t \<noteq> 6 \<or> \<not> isNumberSlice t then (0, 0, 0, False)
      else let h = int (digit_val (t ! 0)) * 10 + int (digit_val (t ! 1));
               m = int (digit_val (t ! 2)) * 10 + int (digit_val (t ! 3));
               s = int (digit_val (t ! 4)) * 10 + int (digit_val (t ! 5))
           in (h, m, s, h \<le> 24 \<and> m < 60 \<and> s \<le> 61))"

text \<open>The civil time handed to \<open>time.Date\<close>, or the response to the client.\<close>

type_synonym civil = "int \<times> int \<times> int \<times> int \<times> int \<times> int"

definition parseDateTime :: "int \<Rightarrow> bytes \<Rightarrow> bytes \<Rightarrow> bytes + civil" where
  "parseDateTime CY ds ts =
     (case parseDateSlice CY ds of
        (Y, M, D, v) \<Rightarrow>
          if \<not> v then Inl (bs ''501 invalid date'')
          else case parseTimeSlice ts of
                 (h, m, s, v) \<Rightarrow>
                   if \<not> v then Inl (bs ''501 invalid time'') else Inr (Y, M, D, h, m, s))"

subsection \<open>Ranges and dates are read back\<close>

lemma digits_no_dash: "list_all is_digit s \<Longrightarrow> 45 \<notin> set s"
  by (auto simp: list_all_iff is_digit_def)

lemma index_byte_split: "q \<notin> set a \<Longrightarrow> index_byte (a @ q # b) q = Some (length a)"
proof -
  assume "q \<notin> set a"
  then have "takeWhile (\<lambda>c. c \<noteq> q) a = a" by (intro takeWhile_eq_self) auto
  then show ?thesis by (simp add: index_byte_def takeWhile_tail Let_def)
qed

lemma sint_of_nat: "n < 2 ^ 63 \<Longrightarrow> sint (of_nat n :: u64) = int n"
  by (simp add: signed_of_nat signed_take_bit_int_eq_self)

lemma is_digit_val: "is_digit c \<Longrightarrow> digit_val c < 10"
  by (auto simp: is_digit_def digit_val_def unat_sub word_le_nat_alt)

lemma isNumberSlice_iff: "isNumberSlice x \<longleftrightarrow> list_all is_digit x"
  by (auto simp: isNumberSlice_def is_digit_def list_all_iff list_ex_iff not_less)

lemma stoi_dec_val:
  "list_all is_digit x \<Longrightarrow> stoi x = of_nat (dec_val x)"
proof (induction x rule: rev_induct)
  case (snoc c x)
  have "ucast (c - 48) = (of_nat (digit_val c) :: u64)" by (simp add: digit_val_def)
  then show ?case using snoc by (simp add: stoi_def dec_val_def mult.commute)
qed (simp add: stoi_def dec_val_def)

lemma dec_val_bound: "list_all is_digit x \<Longrightarrow> dec_val x < 10 ^ length x"
proof (induction x rule: rev_induct)
  case (snoc c x)
  then show ?case using is_digit_val [of c] by (simp add: dec_val_snoc)
qed (simp add: dec_val_def)

lemma sint_wraps: "2 ^ 63 \<le> n \<Longrightarrow> n < 2 ^ 64 \<Longrightarrow> sint (of_nat n :: u64) = int n - 2 ^ 64"
proof -
  assume n: "2 ^ 63 \<le> n" "n < 2 ^ 64"
  have "take_bit (Suc 63) (int n) = take_bit (Suc 63) (int n - 2 ^ 64)"
    unfolding take_bit_eq_mod by simp
  then have "signed_take_bit 63 (int n) = signed_take_bit 63 (int n - 2 ^ 64)"
    by (simp only: signed_take_bit_eq_iff_take_bit_eq)
  also have "\<dots> = int n - 2 ^ 64" using n by (intro signed_take_bit_int_eq_self) simp_all
  finally show ?thesis by (simp add: signed_of_nat)
qed

lemma century:
  "(0 :: int) \<le> y \<Longrightarrow> y < 100 \<Longrightarrow>
   c - 100 < (if y \<le> c mod 100 then y + c div 100 * 100 else y + (c div 100 - 1) * 100) \<and>
   (if y \<le> c mod 100 then y + c div 100 * 100 else y + (c div 100 - 1) * 100) \<le> c"
  by presburger

lemma parseRange_dash:
  assumes "45 \<notin> set a"
  shows "parseRange (a @ 45 # b) =
    (case (if a \<noteq> [] then map_option (\<lambda>n. if sint n \<ge> 0 then sint n else 1) (ParseUint a) else Some 1) of
       None \<Rightarrow> (1, - 1, False)
     | Some rmin \<Rightarrow>
         (case (if b \<noteq> [] then map_option (\<lambda>n. if sint n \<ge> 0 then sint n else - 1) (ParseUint b) else Some (- 1)) of
            None \<Rightarrow> (rmin, - 1, False) | Some rmax \<Rightarrow> (rmin, rmax, True)))"
  unfolding parseRange_def Let_def index_byte_split [OF assms] by (simp cong: option.case_cong)

lemma parseRange_single:
  "45 \<notin> set a \<Longrightarrow> parseRange a = (case ParseUint a of None \<Rightarrow> (1, - 1, False) | Some n \<Rightarrow> (sint n, sint n, True))"
  by (simp add: parseRange_def index_byte_None [THEN iffD2] Let_def)

lemma dec_no_dash: "45 \<notin> set (dec n)"
  using dec_digits digits_no_dash by blast

subsection \<open>Properties\<close>

text \<open>
  \<open>ValidMessageID\<close> accepts exactly \<open><m>\<close> with \<open>m\<close> 1 to 248 printable non-space ASCII bytes other
  than \<open>>\<close>, and \<open>CutMessageID\<close> gives \<open>m\<close>; a keyword is the longest prefix without blanks, upper-cased,
  with the rest of the line unchanged.
\<close>
theorem message_id_and_keyword:
  "(ValidMessageID i \<longleftrightarrow> (\<exists>m. i = [60] @ m @ [62] \<and> m \<noteq> [] \<and> length m \<le> 248 \<and>
     (\<forall>c\<in>set m. 32 < c \<and> c < 127 \<and> c \<noteq> 62))) \<and>
   (CutMessageID ([60] @ m @ [62]) = m) \<and>
   (parseKeyword b = (length (takeWhile (\<lambda>c. \<not> isws c) b),
     map upper (takeWhile (\<lambda>c. \<not> isws c) b) @ dropWhile (\<lambda>c. \<not> isws c) b))"
  by (intro conjI ValidMessageID_iff CutMessageID_wrap parseKeyword_spec)

theorem message_id_and_keyword_witness: "ValidMessageID (bs ''<a@b>'')"
  by (rule message_id_and_keyword [THEN conjunct1, THEN iffD2], rule exI [of _ "bs ''a@b''"]) code_simp

text \<open>
  \<open>parseRange\<close> reads back every range written with numbers below \<open>2 ^ 63\<close> (the bounds it leaves
  open are \<open>1\<close> and \<open>- 1\<close>), and gives no valid range for a string that is not a range. A single
  number from \<open>2 ^ 63\<close> on is accepted and becomes a negative range, where the same number after a
  dash is ignored.
\<close>
theorem parseRange_reads:
  assumes "a < 2 ^ 63" and "b < 2 ^ 63" and "2 ^ 63 \<le> c" and "c < 2 ^ 64"
  shows "(parseRange (dec a @ 45 # dec b) = (int a, int b, True)) \<and>
   (parseRange (dec a @ [45]) = (int a, - 1, True)) \<and>
   (parseRange (45 # dec b) = (1, int b, True)) \<and>
   (parseRange (dec a) = (int a, int a, True)) \<and>
   (parseRange (45 # dec c) = (1, - 1, True)) \<and>
   (parseRange (dec c) = (int c - 2 ^ 64, int c - 2 ^ 64, True)) \<and>
   (\<not> list_all is_digit s \<longrightarrow> 45 \<notin> set s \<longrightarrow> snd (snd (parseRange s)) = False)"
proof (intro conjI)
  have p: "ParseUint (dec a) = Some (of_nat a)" "ParseUint (dec b) = Some (of_nat b)"
      "ParseUint (dec c) = Some (of_nat c)" using assms by (simp_all add: ParseUint_dec)
  have s: "sint (of_nat a :: u64) = int a" "sint (of_nat b :: u64) = int b"
    "sint (of_nat c :: u64) = int c - 2 ^ 64"
    using assms by (simp_all add: sint_of_nat sint_wraps)
  have neg: "\<not> int c - 2 ^ 64 \<ge> 0" using assms(4) by simp
  have ne: "dec n \<noteq> []" for n using dec_digits by blast
  show "parseRange (dec a @ 45 # dec b) = (int a, int b, True)"
    using p s ne by (simp add: parseRange_dash dec_no_dash)
  show "parseRange (dec a @ [45]) = (int a, - 1, True)" using p s ne by (simp add: parseRange_dash dec_no_dash)
  show "parseRange (45 # dec b) = (1, int b, True)"
    using p s ne parseRange_dash [of "[]" "dec b"] by simp
  show "parseRange (45 # dec c) = (1, - 1, True)"
    using p s ne neg parseRange_dash [of "[]" "dec c"] by simp
  show "parseRange (dec a) = (int a, int a, True)" using p s by (simp add: parseRange_single dec_no_dash)
  show "parseRange (dec c) = (int c - 2 ^ 64, int c - 2 ^ 64, True)"
    using p s by (simp add: parseRange_single dec_no_dash)
  show "\<not> list_all is_digit s \<longrightarrow> 45 \<notin> set s \<longrightarrow> snd (snd (parseRange s)) = False"
    by (simp add: parseRange_single ParseUint_def)
qed

theorem parseRange_reads_witness: "parseRange (dec 9000 @ 45 # dec 9100) = (9000, 9100, True)"
  using parseRange_reads [of 9000 9100 "2 ^ 63"] by simp

text \<open>
  A date of digits is read as year, month and day by position, with a two-digit year taken as
  the one year with those last digits that is not after the current year and less than a century
  before it; validity requires a month from 1 to 12 and a day from 1 up (there is no upper bound on
  the day).
\<close>
theorem parseDateSlice_reads:
  assumes "list_all is_digit (y @ [m1, m2, d1, d2])" and "length y = 2 \<or> (4 \<le> length y \<and> length y \<le> 8)"
  shows "\<exists>Y. parseDateSlice CY (y @ [m1, m2, d1, d2]) =
      (Y, int (dec_val [m1, m2]), int (dec_val [d1, d2]),
       1 \<le> dec_val [m1, m2] \<and> dec_val [m1, m2] \<le> 12 \<and> 1 \<le> dec_val [d1, d2]) \<and>
    (if length y = 2 then Y mod 100 = int (dec_val y) \<and> CY - 100 < Y \<and> Y \<le> CY else Y = int (dec_val y))"
proof -
  let ?d = "y @ [m1, m2, d1, d2]"
  have md: "int (digit_val (?d ! (length ?d - 2))) * 10 + int (digit_val (?d ! (length ?d - 1))) = int (dec_val [d1, d2])"
    "int (digit_val (?d ! (length ?d - 4))) * 10 + int (digit_val (?d ! (length ?d - 3))) = int (dec_val [m1, m2])"
    by (simp_all add: nth_append dec_val_def)
  have ok: "\<not> (length ?d < 6 \<or> length ?d = 7 \<or> length ?d > 12 \<or> \<not> isNumberSlice ?d)"
    using assms by (auto simp: isNumberSlice_iff)
  show ?thesis
  proof (cases "length y = 2")
    case True
    then obtain a b where y: "y = [a, b]" by (auto simp: length_Suc_conv numeral_2_eq_2)
    have lt: "dec_val y < 100" using dec_val_bound [of y] assms y by simp
    let ?Y = "if int (dec_val y) \<le> CY mod 100 then int (dec_val y) + CY div 100 * 100
              else int (dec_val y) + (CY div 100 - 1) * 100"
    have "parseDateSlice CY ?d = (?Y, int (dec_val [m1, m2]), int (dec_val [d1, d2]),
        1 \<le> dec_val [m1, m2] \<and> dec_val [m1, m2] \<le> 12 \<and> 1 \<le> dec_val [d1, d2])"
      unfolding parseDateSlice_def Let_def md using ok y by (auto simp: dec_val_def)
    moreover have "?Y mod 100 = int (dec_val y)" using lt by (cases "int (dec_val y) \<le> CY mod 100") (simp_all only: mod_mult_self1 if_True if_False, simp_all)
    moreover have "CY - 100 < ?Y \<and> ?Y \<le> CY"
      by (intro century) (use lt in simp_all)
    ultimately show ?thesis using True by auto
  next
    case False
    then have len: "4 \<le> length y" "length y \<le> 8" using assms by auto
    have dg: "list_all is_digit y" using assms by simp
    have "dec_val y < 10 ^ length y" by (rule dec_val_bound [OF dg])
    also have "\<dots> \<le> 10 ^ 8" using len by (intro power_increasing) simp_all
    finally have "sint (stoi y) = int (dec_val y)" unfolding stoi_dec_val [OF dg] by (intro sint_of_nat) simp
    then have "parseDateSlice CY ?d = (int (dec_val y), int (dec_val [m1, m2]), int (dec_val [d1, d2]),
        1 \<le> dec_val [m1, m2] \<and> dec_val [m1, m2] \<le> 12 \<and> 1 \<le> dec_val [d1, d2])"
      unfolding parseDateSlice_def Let_def md using ok len by auto
    then show ?thesis using False by auto
  qed
qed

theorem parseDateSlice_reads_witness:
  "\<exists>Y. parseDateSlice 2024 (bs ''99'' @ [49, 50, 51, 49]) = (Y, int (dec_val [49, 50]), int (dec_val [51, 49]),
       1 \<le> dec_val [49, 50] \<and> dec_val [49, 50] \<le> 12 \<and> 1 \<le> dec_val [51, 49]) \<and>
    (if length (bs ''99'') = 2 then Y mod 100 = int (dec_val (bs ''99'')) \<and> 2024 - 100 < Y \<and> Y \<le> 2024
     else Y = int (dec_val (bs ''99'')))"
  by (rule parseDateSlice_reads) code_simp+

end
