(* ===== verification/DotReader.thy ===== *)
theory DotReader
  imports BufReader
begin

text \<open>
  \<open>utils/text/bufreader/dotreader.go\<close>: the reader of dot-terminated NNTP text blocks, a six-state
  machine over the bytes of a \<open>BufReader\<close> that removes dot-stuffing, turns CRLF into LF, and notes
  bare CR and LF.

  The operations are written over the two calls they make on the reader below (\<open>rd\<close> and \<open>unrd\<close>), and
  then taken at \<open>ReadByte\<close> and \<open>UnreadByte\<close>. Inside the \<open>byte_source\<close> interface each run is shown to
  be the run over the plain sequence of bytes and errors; \<open>undot\<close> is what a reader of the whole block
  gets there, and it is the inverse of the wire format.
\<close>

datatype dot_state = sBeginLine | sDot | sNonBegin | sDotCR | sCR | sEOF

record DotReader =
  ds :: dot_state
  badnl :: bool

definition NewDotReader :: DotReader where
  "NewDotReader = \<lparr>ds = sBeginLine, badnl = False\<rparr>"

definition InvalidNL :: "DotReader \<Rightarrow> bool" where
  "InvalidNL d = badnl d"

definition Reset :: "DotReader \<Rightarrow> DotReader" where
  "Reset d = d\<lparr>ds := sBeginLine, badnl := False\<rparr>"

definition process ::
  "(byte \<Rightarrow> 's \<Rightarrow> 's) \<Rightarrow> byte \<Rightarrow> DotReader \<times> 's \<Rightarrow> (byte \<times> bool) \<times> DotReader \<times> 's" where
  "process unrd c t =
     (let (d, s) = t in
      case ds d of
        sBeginLine \<Rightarrow>
          if c = 46 then ((0, False), d\<lparr>ds := sDot\<rparr>, s)
          else if c = CR then ((0, False), d\<lparr>ds := sCR\<rparr>, s)
          else if c \<noteq> LF then ((c, True), d\<lparr>ds := sNonBegin\<rparr>, s)
          else ((c, True), d\<lparr>badnl := True, ds := sBeginLine\<rparr>, s)
      | sDot \<Rightarrow>
          if c = CR then ((0, False), d\<lparr>ds := sDotCR\<rparr>, s)
          else if c = LF then ((0, False), d\<lparr>badnl := True, ds := sEOF\<rparr>, s)
          else ((c, True), d\<lparr>ds := sNonBegin\<rparr>, s)
      | sNonBegin \<Rightarrow>
          if c = CR then ((0, False), d\<lparr>ds := sCR\<rparr>, s)
          else if c = LF then ((c, True), d\<lparr>badnl := True, ds := sBeginLine\<rparr>, s)
          else ((c, True), d, s)
      | sDotCR \<Rightarrow>
          if c = LF then ((0, False), d\<lparr>ds := sEOF\<rparr>, s)
          else ((CR, True), d\<lparr>badnl := True, ds := sNonBegin\<rparr>, unrd c s)
      | sCR \<Rightarrow>
          if c = LF then ((c, True), d\<lparr>ds := sBeginLine\<rparr>, s)
          else ((CR, True), d\<lparr>badnl := True, ds := sNonBegin\<rparr>, unrd c s)
      | sEOF \<Rightarrow> ((c, True), d, s))"

definition unexpected :: "io_err \<Rightarrow> io_err" where
  "unexpected e = (if e = EOF then ErrUnexpectedEOF else e)"

partial_function (option) dot_read ::
  "('s \<Rightarrow> ((io_err + byte) \<times> 's) option) \<Rightarrow> (byte \<Rightarrow> 's \<Rightarrow> 's) \<Rightarrow> nat \<Rightarrow> bytes \<Rightarrow> DotReader \<times> 's
   \<Rightarrow> ((bytes \<times> io_err option) \<times> DotReader \<times> 's) option" where
  "dot_read rd unrd l b t =
     (if length b < l \<and> ds (fst t) \<noteq> sEOF
      then do {
        (r, s) \<leftarrow> rd (snd t);
        case r of
          Inl e \<Rightarrow> Some ((b, Some (unexpected e)), fst t, s)
        | Inr c \<Rightarrow> (let ((c, v), t) = process unrd c (fst t, s)
                    in dot_read rd unrd l (if v then b @ [c] else b) t)
      }
      else Some ((b, if ds (fst t) = sEOF then Some EOF else None), t))"

partial_function (option) dot_byte ::
  "('s \<Rightarrow> ((io_err + byte) \<times> 's) option) \<Rightarrow> (byte \<Rightarrow> 's \<Rightarrow> 's) \<Rightarrow> DotReader \<times> 's
   \<Rightarrow> ((io_err + byte) \<times> DotReader \<times> 's) option" where
  "dot_byte rd unrd t =
     (if ds (fst t) \<noteq> sEOF
      then do {
        (r, s) \<leftarrow> rd (snd t);
        case r of
          Inl e \<Rightarrow> Some (Inl (unexpected e), fst t, s)
        | Inr c \<Rightarrow> (let ((c, v), t) = process unrd c (fst t, s)
                    in if v then Some (if ds (fst t) = sEOF then Inl EOF else Inr c, t)
                       else dot_byte rd unrd t)
      }
      else Some (Inl EOF, t))"

partial_function (option) dot_discard ::
  "('s \<Rightarrow> ((io_err + byte) \<times> 's) option) \<Rightarrow> (byte \<Rightarrow> 's \<Rightarrow> 's) \<Rightarrow> int \<Rightarrow> nat \<Rightarrow> DotReader \<times> 's
   \<Rightarrow> ((nat \<times> io_err option) \<times> DotReader \<times> 's) option" where
  "dot_discard rd unrd k n t =
     (if (k < 0 \<or> int n < k) \<and> ds (fst t) \<noteq> sEOF
      then do {
        (r, s) \<leftarrow> rd (snd t);
        case r of
          Inl e \<Rightarrow> Some ((n, Some (unexpected e)), fst t, s)
        | Inr c \<Rightarrow> (let ((c, v), t) = process unrd c (fst t, s)
                    in dot_discard rd unrd k (if v then n + 1 else n) t)
      }
      else Some ((n, if ds (fst t) = sEOF then Some EOF else None), t))"

text \<open>The methods, over the buffered reader.\<close>

abbreviation unread :: "byte \<Rightarrow> BufReader \<Rightarrow> BufReader" where
  "unread c r \<equiv> snd (UnreadByte c r)"

definition DotReader_Read ::
  "nat \<Rightarrow> DotReader \<times> BufReader \<Rightarrow> ((bytes \<times> io_err option) \<times> DotReader \<times> BufReader) option" where
  "DotReader_Read l = dot_read ReadByte unread l []"

definition DotReader_ReadByte ::
  "DotReader \<times> BufReader \<Rightarrow> ((io_err + byte) \<times> DotReader \<times> BufReader) option" where
  "DotReader_ReadByte = dot_byte ReadByte unread"

definition DotReader_Discard ::
  "int \<Rightarrow> DotReader \<times> BufReader \<Rightarrow> ((nat \<times> io_err option) \<times> DotReader \<times> BufReader) option" where
  "DotReader_Discard k = dot_discard ReadByte unread k 0"

subsection \<open>Over the plain sequence\<close>

abbreviation ev_rd :: "ev list \<Rightarrow> ((io_err + byte) \<times> ev list) option" where
  "ev_rd es \<equiv> Some (next_ev es)"

abbreviation ev_unrd :: "byte \<Rightarrow> ev list \<Rightarrow> ev list" where
  "ev_unrd c es \<equiv> Byte c # es"

definition dot_size :: "DotReader \<times> ev list \<Rightarrow> nat" where
  "dot_size t = 2 * length (snd t) + (if ds (fst t) = sCR \<or> ds (fst t) = sDotCR then 1 else 0)"

lemma process_size:
  "ds d \<noteq> sEOF \<Longrightarrow> process ev_unrd c (d, es) = (r, t) \<Longrightarrow> dot_size t < dot_size (d, Byte c # es)"
  by (cases "ds d") (auto simp: process_def dot_size_def split: if_splits)

lemma process_sim:
  assumes "ok (unrd c s) \<and> evs (unrd c s) = Byte c # evs s" and "ok s"
    and "process unrd c (d, s) = (r, d', s')"
  shows "process ev_unrd c (d, evs s) = (r, d', evs s') \<and> ok s'"
  using assms by (cases "ds d") (auto simp: process_def split: if_splits)

lemma undot_size:
  assumes "ds d \<noteq> sEOF" and "(Inr c, es') = next_ev es" and "(r, t) = process ev_unrd c (d, es')"
  shows "dot_size t < dot_size (d, es)"
proof -
  have "es = Byte c # es'" using assms(2) by (cases es rule: next_ev.cases) auto
  then show ?thesis using process_size [OF assms(1) assms(3) [symmetric]] by simp
qed

function undot :: "DotReader \<times> ev list \<Rightarrow> (bytes \<times> io_err) \<times> DotReader \<times> ev list" where
  "undot (d, es) =
     (if ds d = sEOF then (([], EOF), d, es)
      else case next_ev es of
             (Inl e, es) \<Rightarrow> (([], unexpected e), d, es)
           | (Inr c, es) \<Rightarrow>
               (case process ev_unrd c (d, es) of ((c, v), t) \<Rightarrow>
                  (case undot t of ((b, e), t') \<Rightarrow> ((if v then c # b else b, e), t'))))"
  by pat_completeness auto
termination
  by (relation "measure dot_size") (simp_all add: undot_size)

declare undot.simps [simp del]

context byte_source
begin

lemma run_step:
  assumes "ok s" and "rd s = Some (Inr c, s1)" and "ds d \<noteq> sEOF"
    and "process unrd c (d, s1) = (r, d', s')"
  shows "process ev_unrd c (d, evs s1) = (r, d', evs s')" and "ok s'" and "next_ev (evs s) = (Inr c, evs s1)"
    and "dot_size (d', evs s') < dot_size (d, evs s)"
proof -
  have s1: "ok s1" "next_ev (evs s) = (Inr c, evs s1)" using rd_next [OF assms(1)] assms(2) by auto
  show *: "process ev_unrd c (d, evs s1) = (r, d', evs s')" "ok s'"
    using process_sim [of ok unrd c s1 evs] unrd_back [OF assms(1,2)] s1 assms(4) by blast+
  show "next_ev (evs s) = (Inr c, evs s1)" by (rule s1)
  then have "evs s = Byte c # evs s1" by (cases "evs s" rule: next_ev.cases) auto
  then show "dot_size (d', evs s') < dot_size (d, evs s)"
    using process_size [OF assms(3) *(1)] by simp
qed

lemma dot_read_sim:
  "ok s \<Longrightarrow> \<exists>p d' s'. dot_read rd unrd l b (d, s) = Some (p, d', s') \<and> ok s' \<and>
     dot_read ev_rd ev_unrd l b (d, evs s) = Some (p, d', evs s')"
proof (induction "dot_size (d, evs s)" arbitrary: b d s rule: less_induct)
  case less
  obtain r s1 where r: "rd s = Some (r, s1)" "ok s1" "next_ev (evs s) = (r, evs s1)"
    using rd_next [OF less.prems] by blast
  show ?case
  proof (cases "length b < l \<and> ds d \<noteq> sEOF")
    case False
    then show ?thesis using less.prems by (subst (1 2) dot_read.simps) auto
  next
    case T: True
    show ?thesis
    proof (cases r)
      case (Inl e)
      then show ?thesis using T r by (subst (1 2) dot_read.simps) simp
    next
      case (Inr c)
      obtain c' v d' s' where p: "process unrd c (d, s1) = ((c', v), d', s')" by (metis prod_cases4 surj_pair)
      note st = run_step [OF less.prems, of c s1 d, OF _ _ p]
      show ?thesis
        using less.hyps [of d' s' "if v then b @ [c'] else b"] st T r Inr p
        by (subst (1 2) dot_read.simps) simp
    qed
  qed
qed

lemma dot_byte_sim:
  "ok s \<Longrightarrow> \<exists>p d' s'. dot_byte rd unrd (d, s) = Some (p, d', s') \<and> ok s' \<and>
     dot_byte ev_rd ev_unrd (d, evs s) = Some (p, d', evs s')"
proof (induction "dot_size (d, evs s)" arbitrary: d s rule: less_induct)
  case less
  obtain r s1 where r: "rd s = Some (r, s1)" "ok s1" "next_ev (evs s) = (r, evs s1)"
    using rd_next [OF less.prems] by blast
  show ?case
  proof (cases "ds d \<noteq> sEOF")
    case False
    then show ?thesis using less.prems by (subst (1 2) dot_byte.simps) auto
  next
    case T: True
    show ?thesis
    proof (cases r)
      case (Inl e)
      then show ?thesis using T r by (subst (1 2) dot_byte.simps) simp
    next
      case (Inr c)
      obtain c' v d' s' where p: "process unrd c (d, s1) = ((c', v), d', s')" by (metis prod_cases4 surj_pair)
      note st = run_step [OF less.prems, of c s1 d, OF _ _ p]
      show ?thesis
        using less.hyps [of d' s'] st T r Inr p by (subst (1 2) dot_byte.simps) (cases v; simp)
    qed
  qed
qed

lemma dot_discard_sim:
  "ok s \<Longrightarrow> \<exists>p d' s'. dot_discard rd unrd k n (d, s) = Some (p, d', s') \<and> ok s' \<and>
     dot_discard ev_rd ev_unrd k n (d, evs s) = Some (p, d', evs s')"
proof (induction "dot_size (d, evs s)" arbitrary: n d s rule: less_induct)
  case less
  obtain r s1 where r: "rd s = Some (r, s1)" "ok s1" "next_ev (evs s) = (r, evs s1)"
    using rd_next [OF less.prems] by blast
  show ?case
  proof (cases "(k < 0 \<or> int n < k) \<and> ds d \<noteq> sEOF")
    case False
    then show ?thesis using less.prems by (subst (1 2) dot_discard.simps) auto
  next
    case T: True
    show ?thesis
    proof (cases r)
      case (Inl e)
      then show ?thesis using T r by (subst (1 2) dot_discard.simps) simp
    next
      case (Inr c)
      obtain c' v d' s' where p: "process unrd c (d, s1) = ((c', v), d', s')" by (metis prod_cases4 surj_pair)
      note st = run_step [OF less.prems, of c s1 d, OF _ _ p]
      show ?thesis
        using less.hyps [of d' s' "if v then n + 1 else n"] st T r Inr p
        by (subst (1 2) dot_discard.simps) simp
    qed
  qed
qed

end

subsection \<open>What the operations take off the block\<close>

lemma undot_EOF [simp]: "ds d = sEOF \<Longrightarrow> undot (d, es) = (([], EOF), d, es)"
  by (simp add: undot.simps)

lemma undot_Nil [simp]: "ds d \<noteq> sEOF \<Longrightarrow> undot (d, []) = (([], ErrUnexpectedEOF), d, [])"
  by (simp add: undot.simps unexpected_def)

lemma undot_Err [simp]: "ds d \<noteq> sEOF \<Longrightarrow> undot (d, Err e # es) = (([], unexpected e), d, es)"
  by (simp add: undot.simps)

lemma undot_next:
  "ds d \<noteq> sEOF \<Longrightarrow> next_ev es = (Inl e, es') \<Longrightarrow> undot (d, es) = (([], unexpected e), d, es')"
  by (simp add: undot.simps)

lemma undot_step:
  "ds d \<noteq> sEOF \<Longrightarrow> next_ev es = (Inr c, es1) \<Longrightarrow> process ev_unrd c (d, es1) = ((c', v), t) \<Longrightarrow>
   undot (d, es) = (case undot t of ((b, e), t') \<Rightarrow> ((if v then c' # b else b, e), t'))"
  by (simp add: undot.simps)

lemma undot_Byte:
  "ds d \<noteq> sEOF \<Longrightarrow> undot (d, Byte c # es) =
     (case process ev_unrd c (d, es) of ((c', v), t) \<Rightarrow>
        (case undot t of ((b, e), t') \<Rightarrow> ((if v then c' # b else b, e), t')))"
  by (subst undot.simps) simp

lemma step_size:
  "ds d \<noteq> sEOF \<Longrightarrow> next_ev es = (Inr c, es1) \<Longrightarrow> process ev_unrd c (d, es1) = (r, t) \<Longrightarrow>
   dot_size t < dot_size (d, es)"
  using undot_size [of d c es1 es r t] by simp

lemma dot_read_undot:
  "dot_read ev_rd ev_unrd l b t = Some ((b', e), t') \<Longrightarrow> length b \<le> l \<Longrightarrow>
   \<exists>p. b' = b @ p \<and> length b' \<le> l \<and>
     (case e of Some x \<Rightarrow> undot t = ((p, x), t')
      | None \<Rightarrow> length b' = l \<and> (case undot t' of ((q, x), t'') \<Rightarrow> undot t = ((p @ q, x), t'')))"
proof (induction "dot_size t" arbitrary: b t rule: less_induct)
  case less
  obtain d es where t: "t = (d, es)" by (cases t)
  show ?case
  proof (cases "length b < l \<and> ds d \<noteq> sEOF")
    case False
    then show ?thesis using less.prems
      by (subst (asm) dot_read.simps) (auto simp: t split: prod.splits if_splits)
  next
    case T: True
    obtain r es1 where r: "next_ev es = (r, es1)" by fastforce
    show ?thesis
    proof (cases r)
      case (Inl x)
      then show ?thesis using T r less.prems undot_next [of d es x es1]
        by (subst (asm) dot_read.simps) (auto simp: t)
    next
      case (Inr c)
      obtain c' v t1 where p: "process ev_unrd c (d, es1) = ((c', v), t1)" by (metis surj_pair)
      let ?b = "if v then b @ [c'] else b"
      have rec: "dot_read ev_rd ev_unrd l ?b t1 = Some ((b', e), t')"
        using less.prems(1) T r Inr p by (subst (asm) dot_read.simps) (simp add: t)
      have "length ?b \<le> l" using T by simp
      then obtain q where q: "b' = ?b @ q" "length b' \<le> l"
        "case e of Some x \<Rightarrow> undot t1 = ((q, x), t')
         | None \<Rightarrow> length b' = l \<and> (case undot t' of ((w, x), t'') \<Rightarrow> undot t1 = ((q @ w, x), t''))"
        using less.hyps [OF _ rec] step_size [of d es c es1] T r Inr p by (auto simp: t)
      have st: "undot t = (case undot t1 of ((b, e), t') \<Rightarrow> ((if v then c' # b else b, e), t'))"
        unfolding t using T r Inr p by (intro undot_step) auto
      show ?thesis
      proof (intro exI [of _ "if v then c' # q else q"] conjI)
        show "b' = b @ (if v then c' # q else q)" using q(1) by simp
      qed (use q st in \<open>cases e; simp split: prod.splits\<close>)+
    qed
  qed
qed

lemma dot_byte_undot:
  "dot_byte ev_rd ev_unrd t = Some (r, t') \<Longrightarrow>
     (case r of Inl x \<Rightarrow> undot t = (([], x), t')
      | Inr c \<Rightarrow> (case undot t' of ((q, x), t'') \<Rightarrow> undot t = ((c # q, x), t'')))"
proof (induction "dot_size t" arbitrary: t rule: less_induct)
  case less
  obtain d es where t: "t = (d, es)" by (cases t)
  show ?case
  proof (cases "ds d = sEOF")
    case True
    then show ?thesis using less.prems by (subst (asm) dot_byte.simps) (auto simp: t)
  next
    case T: False
    obtain r1 es1 where r: "next_ev es = (r1, es1)" by fastforce
    show ?thesis
    proof (cases r1)
      case (Inl x)
      then show ?thesis using T r less.prems undot_next [of d es x es1]
        by (subst (asm) dot_byte.simps) (auto simp: t)
    next
      case (Inr c)
      obtain c' v t1 where p: "process ev_unrd c (d, es1) = ((c', v), t1)" by (metis surj_pair)
      have st: "undot t = (case undot t1 of ((b, e), t') \<Rightarrow> ((if v then c' # b else b, e), t'))"
        unfolding t using T r Inr p by (intro undot_step) auto
      show ?thesis
      proof (cases v)
        case True
        have "ds (fst t1) \<noteq> sEOF" using p T True
          by (cases "ds d") (auto simp: process_def split: if_splits)
        then show ?thesis using True st less.prems T r Inr p
          by (subst (asm) dot_byte.simps) (auto simp: t split: prod.splits)
      next
        case False
        then have "dot_byte ev_rd ev_unrd t1 = Some (r, t')"
          using less.prems T r Inr p by (subst (asm) dot_byte.simps) (simp add: t)
        then show ?thesis using less.hyps [of t1] step_size [of d es c es1] T r Inr p st False
          by (auto simp: t split: sum.splits prod.splits)
      qed
    qed
  qed
qed

lemma dot_byte_size:
  "dot_byte ev_rd ev_unrd t = Some (r, t') \<Longrightarrow>
   dot_size t' \<le> dot_size t \<and> (\<forall>x. r = Inr x \<longrightarrow> dot_size t' < dot_size t)"
proof (induction "dot_size t" arbitrary: t rule: less_induct)
  case less
  obtain d es where t: "t = (d, es)" by (cases t)
  obtain x es1 where x: "next_ev es = (x, es1)" by (cases "next_ev es")
  have le: "length es1 \<le> length es" using x by (cases es rule: next_ev.cases) auto
  show ?case
  proof (cases "ds d = sEOF")
    case True
    then show ?thesis using less(2) by (subst (asm) dot_byte.simps) (auto simp: t)
  next
    case F: False
    show ?thesis
    proof (cases x)
      case (Inl e)
      then show ?thesis using less(2) F x le
        by (subst (asm) dot_byte.simps) (auto simp: t dot_size_def)
    next
      case (Inr c)
      obtain c' v t1 where p: "process ev_unrd c (d, es1) = ((c', v), t1)" by (metis surj_pair)
      have lt: "dot_size t1 < dot_size t"
        unfolding t by (rule undot_size [of d c es1 es "(c', v)"]) (use F x Inr p in simp_all)
      show ?thesis
      proof (cases v)
        case True
        then show ?thesis using less(2) F x Inr p lt by (subst (asm) dot_byte.simps) (auto simp: t)
      next
        case False
        then have "dot_byte ev_rd ev_unrd t1 = Some (r, t')"
          using less(2) F x Inr p by (subst (asm) dot_byte.simps) (auto simp: t)
        then show ?thesis using less(1) [OF lt] lt by fastforce
      qed
    qed
  qed
qed

lemma dot_discard_size:
  "dot_discard ev_rd ev_unrd k n t = Some (r, t') \<Longrightarrow> dot_size t' \<le> dot_size t"
proof (induction "dot_size t" arbitrary: n t rule: less_induct)
  case less
  obtain d es where t: "t = (d, es)" by (cases t)
  obtain x es1 where x: "next_ev es = (x, es1)" by (cases "next_ev es")
  have le: "length es1 \<le> length es" using x by (cases es rule: next_ev.cases) auto
  show ?case
  proof (cases "(k < 0 \<or> int n < k) \<and> ds d \<noteq> sEOF")
    case False
    then show ?thesis using less(2) by (subst (asm) dot_discard.simps) (auto simp: t)
  next
    case True
    show ?thesis
    proof (cases x)
      case (Inl e)
      then show ?thesis using less(2) True x le
        by (subst (asm) dot_discard.simps) (auto simp: t dot_size_def)
    next
      case (Inr c)
      obtain c' v t1 where p: "process ev_unrd c (d, es1) = ((c', v), t1)" by (metis surj_pair)
      have lt: "dot_size t1 < dot_size t"
        unfolding t by (rule undot_size [of d c es1 es "(c', v)"]) (use True x Inr p in simp_all)
      have "dot_discard ev_rd ev_unrd k (if v then n + 1 else n) t1 = Some (r, t')"
        using less(2) True x Inr p by (subst (asm) dot_discard.simps) (auto simp: t split: if_splits)
      then show ?thesis using less(1) [OF lt] lt by fastforce
    qed
  qed
qed

lemma dot_discard_undot:
  "dot_discard ev_rd ev_unrd k n t = Some ((m, e), t') \<Longrightarrow> k < 0 \<or> int n \<le> k \<Longrightarrow>
   \<exists>p. m = n + length p \<and>
     (case e of Some x \<Rightarrow> undot t = ((p, x), t')
      | None \<Rightarrow> int m = k \<and> (case undot t' of ((q, x), t'') \<Rightarrow> undot t = ((p @ q, x), t'')))"
proof (induction "dot_size t" arbitrary: n t rule: less_induct)
  case less
  obtain d es where t: "t = (d, es)" by (cases t)
  show ?case
  proof (cases "(k < 0 \<or> int n < k) \<and> ds d \<noteq> sEOF")
    case False
    then show ?thesis using less.prems
      by (subst (asm) dot_discard.simps) (auto simp: t split: prod.splits if_splits)
  next
    case T: True
    obtain r es1 where r: "next_ev es = (r, es1)" by fastforce
    show ?thesis
    proof (cases r)
      case (Inl x)
      then show ?thesis using T r less.prems undot_next [of d es x es1]
        by (subst (asm) dot_discard.simps) (auto simp: t)
    next
      case (Inr c)
      obtain c' v t1 where p: "process ev_unrd c (d, es1) = ((c', v), t1)" by (metis surj_pair)
      let ?n = "if v then n + 1 else n"
      have rec: "dot_discard ev_rd ev_unrd k ?n t1 = Some ((m, e), t')"
        using less.prems(1) T r Inr p by (subst (asm) dot_discard.simps) (simp add: t)
      have "k < 0 \<or> int ?n \<le> k" using T by auto
      then obtain q where q: "m = ?n + length q"
        "case e of Some x \<Rightarrow> undot t1 = ((q, x), t')
         | None \<Rightarrow> int m = k \<and> (case undot t' of ((w, x), t'') \<Rightarrow> undot t1 = ((q @ w, x), t''))"
        using less.hyps [OF _ rec] step_size [of d es c es1] T r Inr p by (auto simp: t)
      have st: "undot t = (case undot t1 of ((b, e), t') \<Rightarrow> ((if v then c' # b else b, e), t'))"
        unfolding t using T r Inr p by (intro undot_step) auto
      show ?thesis
      proof (intro exI [of _ "if v then c' # q else q"] conjI)
        show "m = n + length (if v then c' # q else q)" using q(1) by simp
      qed (use q st in \<open>cases e; simp split: prod.splits\<close>)+
    qed
  qed
qed

subsection \<open>The wire format\<close>

text \<open>
  A line of the block is sent with an extra dot if it begins with one; a sender may also add one
  where it is not needed. A line is a pair: whether a dot was added, and the text.
\<close>

definition clean :: "bytes \<Rightarrow> bool" where
  "clean ln \<longleftrightarrow> CR \<notin> set ln \<and> LF \<notin> set ln"

definition line_ok :: "bool \<times> bytes \<Rightarrow> bool" where
  "line_ok x = (case x of (dot, ln) \<Rightarrow> clean ln \<and> (if dot then ln \<noteq> [] else ln = [] \<or> hd ln \<noteq> 46))"

definition wire_line :: "bool \<times> bytes \<Rightarrow> bytes" where
  "wire_line x = (case x of (dot, ln) \<Rightarrow> (if dot then [46] else []) @ ln @ [CR, LF])"

definition wire :: "(bool \<times> bytes) list \<Rightarrow> bytes" where
  "wire ws = concat (map wire_line ws) @ [46, CR, LF]"

definition plain :: "(bool \<times> bytes) list \<Rightarrow> bytes" where
  "plain ws = concat (map (\<lambda>(dot, ln). ln @ [LF]) ws)"

definition stuff :: "bytes \<Rightarrow> bool \<times> bytes" where
  "stuff ln = (ln \<noteq> [] \<and> hd ln = 46, ln)"

lemma wire_simps [simp]:
  "wire [] = [46, CR, LF]" "wire ((dot, ln) # ws) = (if dot then [46] else []) @ ln @ [CR, LF] @ wire ws"
  "plain [] = []" "plain ((dot, ln) # ws) = ln @ [LF] @ plain ws"
  by (simp_all add: wire_def wire_line_def plain_def)

lemma stuff_ok: "clean ln \<Longrightarrow> line_ok (stuff ln)"
  by (auto simp: line_ok_def stuff_def)

lemma undot_bytes:
  "ds d = sNonBegin \<Longrightarrow> clean ln \<Longrightarrow> undot (d, map Byte ln @ es) =
     (case undot (d, es) of ((b, e), t) \<Rightarrow> ((ln @ b, e), t))"
proof (induction ln)
  case (Cons c ln)
  then show ?case
    by (simp add: undot_Byte process_def clean_def split_beta)
qed (simp split: prod.splits)

lemma undot_crlf:
  "ds d = sNonBegin \<or> ds d = sBeginLine \<Longrightarrow> undot (d, Byte CR # Byte LF # es) =
     (case undot (d\<lparr>ds := sBeginLine\<rparr>, es) of ((b, e), t) \<Rightarrow> ((LF # b, e), t))"
  by (auto simp: undot_Byte process_def)

lemma undot_line:
  assumes "ds d = sBeginLine" and "line_ok (dot, ln)"
  shows "undot (d, map Byte (wire_line (dot, ln)) @ es) =
     (case undot (d, es) of ((b, e), t) \<Rightarrow> ((ln @ LF # b, e), t))"
proof (cases ln)
  case Nil
  then have "\<not> dot" "d\<lparr>ds := sBeginLine\<rparr> = d" using assms by (auto simp: line_ok_def)
  then show ?thesis using undot_crlf [of d es, unfolded \<open>d\<lparr>ds := sBeginLine\<rparr> = d\<close>] assms(1) Nil
    by (simp add: wire_line_def)
next
  case (Cons c cs)
  have d: "d\<lparr>ds := sBeginLine\<rparr> = d" using assms by simp
  have cs: "clean cs" using assms Cons by (auto simp: line_ok_def clean_def)
  have "undot (d, map Byte (wire_line (dot, ln)) @ es)
      = (case undot (d\<lparr>ds := sNonBegin\<rparr>, map Byte cs @ Byte CR # Byte LF # es) of
           ((b, e), t) \<Rightarrow> ((c # b, e), t))"
    using assms Cons
    by (cases dot)
       (simp_all add: undot_Byte wire_line_def line_ok_def clean_def process_def split: prod.splits)
  then show ?thesis using undot_bytes [OF _ cs] undot_crlf [of "d\<lparr>ds := sNonBegin\<rparr>" es] Cons d
    by (simp split: prod.splits)
qed

lemma undot_wire:
  "ds d = sBeginLine \<Longrightarrow> list_all line_ok ws \<Longrightarrow>
   undot (d, map Byte (wire ws) @ es) = ((plain ws, EOF), d\<lparr>ds := sEOF\<rparr>, es)"
proof (induction ws)
  case Nil
  then show ?case
    by (simp add: undot_Byte process_def)
next
  case (Cons w ws)
  obtain dot ln where w: "w = (dot, ln)" by (cases w)
  have eq: "map Byte (wire (w # ws)) @ es = map Byte (wire_line (dot, ln)) @ map Byte (wire ws) @ es"
    by (simp add: w wire_line_def)
  have ok: "line_ok (dot, ln)" and IH: "undot (d, map Byte (wire ws) @ es) = ((plain ws, EOF), d\<lparr>ds := sEOF\<rparr>, es)"
    using Cons by (auto simp: w)
  show ?case unfolding eq undot_line [OF Cons.prems(1) ok] IH by (simp add: w)
qed

text \<open>
  Conversely, a block read to its end without a bare CR or LF was such a sequence of lines:
  \<open>expects\<close> says what the input is in each state of the machine, with the rest of its output.
\<close>

definition expects :: "dot_state \<Rightarrow> bytes \<Rightarrow> bytes \<Rightarrow> bool" where
  "expects st inp out \<longleftrightarrow>
     (case st of
        sBeginLine \<Rightarrow> \<exists>ws. list_all line_ok ws \<and> inp = wire ws \<and> out = plain ws
      | sDot \<Rightarrow> \<exists>ws. list_all line_ok ws \<and> 46 # inp = wire ws \<and> out = plain ws
      | sNonBegin \<Rightarrow> \<exists>ln ws. clean ln \<and> list_all line_ok ws \<and>
                      inp = ln @ [CR, LF] @ wire ws \<and> out = ln @ [LF] @ plain ws
      | sCR \<Rightarrow> \<exists>ws. list_all line_ok ws \<and> inp = [LF] @ wire ws \<and> out = [LF] @ plain ws
      | sDotCR \<Rightarrow> inp = [LF] \<and> out = []
      | sEOF \<Rightarrow> inp = [] \<and> out = [])"

lemma expects_nonbegin:
  "expects sNonBegin inp out \<Longrightarrow> c \<noteq> CR \<Longrightarrow> c \<noteq> LF \<Longrightarrow> expects sNonBegin (c # inp) (c # out)"
  unfolding expects_def dot_state.case
  by (elim exE conjE, intro exI [of _ "c # ln" for ln] exI conjI) (auto simp: clean_def)

lemma expects_begin:
  assumes "expects sNonBegin inp out" and "c \<noteq> CR" and "c \<noteq> LF"
  shows "c \<noteq> 46 \<Longrightarrow> expects sBeginLine (c # inp) (c # out)" and "expects sDot (c # inp) (c # out)"
proof -
  obtain ln ws where l: "clean ln" "list_all line_ok ws" "inp = ln @ [CR, LF] @ wire ws"
    "out = ln @ [LF] @ plain ws" using assms(1) by (auto simp: expects_def)
  have c: "clean (c # ln)" using l assms by (simp add: clean_def)
  show "expects sDot (c # inp) (c # out)"
    using l c by (auto simp: expects_def line_ok_def intro!: exI [of _ "(True, c # ln) # ws"])
  show "expects sBeginLine (c # inp) (c # out)" if "c \<noteq> 46"
    using l c that by (auto simp: expects_def line_ok_def intro!: exI [of _ "(False, c # ln) # ws"])
qed

lemma expects_cr: "expects sCR inp out \<Longrightarrow> expects sBeginLine (CR # inp) out \<and> expects sNonBegin (CR # inp) out"
  unfolding expects_def dot_state.case
proof (elim exE conjE, intro conjI)
  fix ws assume a: "list_all line_ok ws" "inp = [LF] @ wire ws" "out = [LF] @ plain ws"
  show "\<exists>ws. list_all line_ok ws \<and> CR # inp = wire ws \<and> out = plain ws"
    using a by (intro exI [of _ "(False, []) # ws"]) (simp add: line_ok_def clean_def)
  show "\<exists>ln ws. clean ln \<and> list_all line_ok ws \<and> CR # inp = ln @ [CR, LF] @ wire ws \<and> out = ln @ [LF] @ plain ws"
    using a by (intro exI [of _ "[]"] exI [of _ ws]) (simp add: clean_def)
qed

lemma expects_end: "\<exists>ws. list_all line_ok ws \<and> [46, CR, LF] = wire ws \<and> [] = plain ws"
  by (intro exI [of _ "[]"]) simp

lemma badnl_stays: "undot t = ((b, e), t') \<Longrightarrow> badnl (fst t) \<Longrightarrow> badnl (fst t')"
proof (induction t arbitrary: b e rule: undot.induct)
  case (1 d es)
  show ?case
  proof (cases "ds d = sEOF \<or> (\<exists>x es1. next_ev es = (Inl x, es1))")
    case True
    then show ?thesis using "1.prems" undot_next [of d es] by (cases "ds d = sEOF") auto
  next
    case False
    then obtain c es1 where n: "next_ev es = (Inr c, es1)" by (metis old.sum.exhaust surj_pair)
    obtain c' v t1 where p: "process ev_unrd c (d, es1) = ((c', v), t1)" by (metis surj_pair)
    obtain b1 e1 t2 where u: "undot t1 = ((b1, e1), t2)" by (metis surj_pair)
    have "badnl (fst t1)" using p "1.prems" by (cases "ds d") (auto simp: process_def split: if_splits)
    moreover have "undot t1 = ((b1, e1), t')" using "1.prems" undot_step [OF _ n p] u False by auto
    ultimately show ?thesis using "1.IH" [OF _ n [symmetric] refl p [symmetric] refl] False by simp
  qed
qed

lemma undot_expects:
  "undot (d, es) = ((b, EOF), d', es') \<Longrightarrow> \<not> badnl d' \<Longrightarrow>
   \<exists>inp. es = map Byte inp @ es' \<and> expects (ds d) inp b \<and> d' = d\<lparr>ds := sEOF\<rparr>"
proof (induction "dot_size (d, es)" arbitrary: d es b rule: less_induct)
  case less
  show ?case
  proof (cases "ds d = sEOF")
    case True
    then show ?thesis using less.prems by (intro exI [of _ "[]"]) (auto simp: expects_def)
  next
    case F: False
    show ?thesis
    proof (cases es)
      case Nil
      then show ?thesis using less.prems F by simp
    next
      case es: (Cons x es1)
      then obtain c where x: "x = Byte c"
        using less.prems F by (cases x) (auto simp: unexpected_def split: if_splits)
      obtain c' v d1 es2 where p: "process ev_unrd c (d, es1) = ((c', v), d1, es2)" by (metis surj_pair)
      obtain b1 where u: "undot (d1, es2) = ((b1, EOF), d', es')" and b: "b = (if v then c' # b1 else b1)"
        using less.prems(1) p F by (auto simp: es x undot_Byte split: prod.splits)
      obtain inp where i: "es2 = map Byte inp @ es'" "expects (ds d1) inp b1" "d' = d1\<lparr>ds := sEOF\<rparr>"
        using less.hyps [OF _ u less.prems(2)] process_size [OF F p] es x by auto
      have good: "\<not> badnl d1" using badnl_stays [OF u] less.prems(2) by auto
      have step: "es1 = es2 \<and> d' = d\<lparr>ds := sEOF\<rparr> \<and> expects (ds d) (c # inp) b"
        using p good i(2) b i(3) F expects_end expects_begin [of inp b1 c] expects_nonbegin [of inp b1 c] expects_cr [of inp b1]
        by (cases "ds d") (auto simp: process_def expects_def [of sDot] expects_def [of sDotCR]
            expects_def [of sCR] expects_def [of sBeginLine] expects_def [of sEOF] split: if_splits)
      then show ?thesis using i es x by (intro exI [of _ "c # inp"]) simp
    qed
  qed
qed

subsection \<open>Properties\<close>

text \<open>
  C36: a dot-terminated block survives the wire: stuffed, sent and read back it is its lines, each
  ended by LF, then \<open>EOF\<close>, with no bad newline noted and nothing read past the terminator; and in
  the other direction, whenever a block is read to \<open>EOF\<close> without a bad newline, what came off the
  wire was exactly such a sequence of lines.
\<close>
theorem dot_block_roundtrip:
  "undot (NewDotReader, es) = ((b, EOF), d, es') \<and> \<not> InvalidNL d \<longleftrightarrow>
     (\<exists>ws. list_all line_ok ws \<and> es = map Byte (wire ws) @ es' \<and> b = plain ws \<and>
           d = \<lparr>ds = sEOF, badnl = False\<rparr>)"
  (is "?l \<longleftrightarrow> ?r")
proof
  assume ?l
  then show ?r using undot_expects [of NewDotReader es b d es']
    by (auto simp: InvalidNL_def NewDotReader_def expects_def)
next
  assume ?r
  then show ?l using undot_wire [of NewDotReader] by (auto simp: InvalidNL_def NewDotReader_def)
qed

text \<open>
  C37: over any buffered connection, whatever the division of the data into reads, \<open>Read\<close>,
  \<open>ReadByte\<close> and \<open>Discard\<close> return, keep the buffered reader's invariant, and hand out exactly the next
  bytes of the block: the bytes returned come first in what \<open>undot\<close> gives for the whole block, an
  error or \<open>EOF\<close> is returned where \<open>undot\<close> ends, and otherwise the request was filled.
\<close>
theorem DotReader_reads_block:
  assumes "wf r"
  shows "(\<exists>b e d' r'. DotReader_Read l (d, r) = Some ((b, e), d', r') \<and> wf r' \<and> length b \<le> l \<and>
      (case e of Some x \<Rightarrow> undot (d, events r) = ((b, x), d', events r')
       | None \<Rightarrow> length b = l \<and> (case undot (d', events r') of ((q, x), t) \<Rightarrow> undot (d, events r) = ((b @ q, x), t)))) \<and>
   (\<exists>c d' r'. DotReader_ReadByte (d, r) = Some (c, d', r') \<and> wf r' \<and>
      (case c of Inl x \<Rightarrow> undot (d, events r) = (([], x), d', events r')
       | Inr c \<Rightarrow> (case undot (d', events r') of ((q, x), t) \<Rightarrow> undot (d, events r) = ((c # q, x), t)))) \<and>
   (\<exists>b e d' r'. DotReader_Discard k (d, r) = Some ((length b, e), d', r') \<and> wf r' \<and>
      (case e of Some x \<Rightarrow> undot (d, events r) = ((b, x), d', events r')
       | None \<Rightarrow> int (length b) = k \<and> (case undot (d', events r') of ((q, x), t) \<Rightarrow> undot (d, events r) = ((b @ q, x), t))))"
proof (intro conjI)
  obtain b e d' r' where "DotReader_Read l (d, r) = Some ((b, e), d', r')" "wf r'"
    "dot_read ev_rd ev_unrd l [] (d, events r) = Some ((b, e), d', events r')"
    unfolding DotReader_Read_def using buf.dot_read_sim [OF assms, of l "[]" d] by (metis surj_pair)
  then show "\<exists>b e d' r'. DotReader_Read l (d, r) = Some ((b, e), d', r') \<and> wf r' \<and> length b \<le> l \<and>
      (case e of Some x \<Rightarrow> undot (d, events r) = ((b, x), d', events r')
       | None \<Rightarrow> length b = l \<and> (case undot (d', events r') of ((q, x), t) \<Rightarrow> undot (d, events r) = ((b @ q, x), t)))"
    using dot_read_undot [of l "[]" "(d, events r)" b e "(d', events r')"] by auto
  obtain c d' r' where "DotReader_ReadByte (d, r) = Some (c, d', r')" "wf r'"
    "dot_byte ev_rd ev_unrd (d, events r) = Some (c, d', events r')"
    unfolding DotReader_ReadByte_def using buf.dot_byte_sim [OF assms, of d] by blast
  then show "\<exists>c d' r'. DotReader_ReadByte (d, r) = Some (c, d', r') \<and> wf r' \<and>
      (case c of Inl x \<Rightarrow> undot (d, events r) = (([], x), d', events r')
       | Inr c \<Rightarrow> (case undot (d', events r') of ((q, x), t) \<Rightarrow> undot (d, events r) = ((c # q, x), t)))"
    using dot_byte_undot [of "(d, events r)" c "(d', events r')"] by blast
  obtain n e d' r' where n: "DotReader_Discard k (d, r) = Some ((n, e), d', r')" "wf r'"
    "dot_discard ev_rd ev_unrd k 0 (d, events r) = Some ((n, e), d', events r')"
    unfolding DotReader_Discard_def using buf.dot_discard_sim [OF assms, of k 0 d] by (metis surj_pair)
  have "k < 0 \<or> int 0 \<le> k" by auto
  from dot_discard_undot [OF n(3) this] obtain p where p: "n = length p"
      "case e of Some x \<Rightarrow> undot (d, events r) = ((p, x), d', events r')
       | None \<Rightarrow> int n = k \<and> (case undot (d', events r') of ((q, x), t) \<Rightarrow> undot (d, events r) = ((p @ q, x), t))"
    by auto
  show "\<exists>b e d' r'. DotReader_Discard k (d, r) = Some ((length b, e), d', r') \<and> wf r' \<and>
      (case e of Some x \<Rightarrow> undot (d, events r) = ((b, x), d', events r')
       | None \<Rightarrow> int (length b) = k \<and> (case undot (d', events r') of ((q, x), t) \<Rightarrow> undot (d, events r) = ((b @ q, x), t)))"
    using p(2) n unfolding p(1) by (intro exI [of _ p] exI [of _ e] exI [of _ d'] exI [of _ r']) simp
qed

theorem DotReader_reads_block_witness:
  "\<exists>c d' r'. DotReader_ReadByte (NewDotReader, NewBufReader [([46, 46], None), ([97, 13, 10], None)]) = Some (c, d', r') \<and>
     wf r' \<and> (case c of Inl x \<Rightarrow> undot (NewDotReader, events (NewBufReader [([46, 46], None), ([97, 13, 10], None)])) = (([], x), d', events r')
       | Inr c \<Rightarrow> (case undot (d', events r') of ((q, x), t) \<Rightarrow>
           undot (NewDotReader, events (NewBufReader [([46, 46], None), ([97, 13, 10], None)])) = ((c # q, x), t)))"
  by (rule DotReader_reads_block [THEN conjunct2, THEN conjunct1]) (rule NewBufReader_wf)

end
