(* ===== verification/NntpConn.thy ===== *)
theory NntpConn
  imports NntpUtil DotReader
begin

text \<open>
  The state of an NNTP server connection (\<open>nntp/stypes.go\<close>), the run-time configuration
  (\<open>nntp/server.go\<close>), users, privileges and what follows a TLS handshake (\<open>nntp/auth.go\<close>,
  \<open>auth_pass.go\<close>, \<open>auth_certfp.go\<close>), the interface of the article store (\<open>nntp/nntpprovider.go\<close>)
  and the responses (\<open>nntp/responses.go\<close>).

  What a handler does is a function of the connection. The client sees the list \<open>out\<close> of response
  lines and dot-terminated blocks; \<open>wleft\<close> is the number of flushes after which writing to the
  client fails. The provider's own data is the component \<open>pst\<close>, its selected group is
  \<open>CurrentGroup\<close>.
\<close>

subsection \<open>Users and configuration\<close>

record UserPriv =
  AllowReading :: bool
  AllowPosting :: bool

definition MergeUserPriv :: "UserPriv \<Rightarrow> UserPriv \<Rightarrow> UserPriv" where
  "MergeUserPriv a b = \<lparr>AllowReading = AllowReading a \<or> AllowReading b,
                        AllowPosting = AllowPosting a \<or> AllowPosting b\<rparr>"

text \<open>The range loop over a string sees its runes; those that matter here are the bytes \<open>r\<close> and \<open>w\<close>.\<close>

fun ParseUserPriv :: "bytes \<Rightarrow> UserPriv \<Rightarrow> UserPriv \<times> bool" where
  "ParseUserPriv [] up = (up, True)"
| "ParseUserPriv (c # s) up =
     (if c = 114 then ParseUserPriv s (up\<lparr>AllowReading := True\<rparr>)
      else if c = 119 then ParseUserPriv s (up\<lparr>AllowPosting := True\<rparr>)
      else (up, False))"

record UserInfo =
  Name :: bytes
  Serv :: bytes
  uiPriv :: UserPriv

record ActiveLogin =
  ui :: "UserInfo option"
  ch :: bytes

text \<open>The two methods of \<open>UserPassProvider\<close> the server calls.\<close>

record UserPassProvider =
  NNTPUserPassByName :: "bytes \<Rightarrow> UserInfo option \<times> bytes"
  NNTPCheckPass :: "bytes \<Rightarrow> bytes \<Rightarrow> bool"

text \<open>A client certificate is its encoding; \<open>TLSConfig\<close> is whether one is set.\<close>

type_synonym cert = bytes

record NNTPServerRunCfg =
  DefaultPriv :: UserPriv
  NNTPS :: bool
  TLSConfig :: bool
  TLSPriv :: UserPriv
  CertFPProvider :: "(cert \<Rightarrow> UserInfo option) option"
  CertFPAutoAuth :: bool
  userPassProvider :: "UserPassProvider option"
  UnsafePass :: bool
  UnsafeEarlyUserReject :: bool

text \<open>
  What a command finds around it: the configuration \<open>GetRunCfg\<close> returns at that time (no handler
  reads it twice on a path), the clock, and the outcome of a TLS handshake: the peer's certificates
  and what the encrypted connection will deliver.
\<close>

record env =
  cfg :: NNTPServerRunCfg
  now :: "nat \<times> nat \<times> nat \<times> nat \<times> nat \<times> nat"
  handshake :: "(cert list \<times> reader) option"

subsection \<open>Connections\<close>

datatype reply = Line bytes | Block bytes

record ('g, 'p) conn =
  rd :: BufReader
  dr :: "DotReader option"
  out :: "reply list"
  wleft :: "nat option"
  CurrentGroup :: "'g option"
  priv :: UserPriv
  authenticated :: bool
  activeLogin :: "ActiveLogin option"
  tlsConn :: bool
  pst :: 'p

text \<open>
  A handler returns whether the connection goes on, or panics (with \<open>ErrAbortHandler\<close> or a run-time
  error), or never returns.
\<close>

datatype 'c outcome = Ret bool 'c | Panic 'c | Hang

fun andThen :: "'c outcome \<Rightarrow> (bool \<Rightarrow> 'c \<Rightarrow> 'c outcome) \<Rightarrow> 'c outcome" where
  "andThen (Ret b c) k = k b c"
| "andThen (Panic c) k = Panic c"
| "andThen Hang k = Hang"

fun AbortOnErr :: "io_err option \<times> 'c \<Rightarrow> ('c \<Rightarrow> 'c outcome) \<Rightarrow> 'c outcome" where
  "AbortOnErr (Some e, c) k = Panic c"
| "AbortOnErr (None, c) k = k c"

text \<open>One flush of the writer: \<open>textproto.Writer.PrintfLine\<close>, or a \<open>DotWriter\<close> written and closed.\<close>

definition flush :: "reply \<Rightarrow> ('g, 'p) conn \<Rightarrow> io_err option \<times> ('g, 'p) conn" where
  "flush r c =
     (case wleft c of
        None \<Rightarrow> (None, c\<lparr>out := out c @ [r]\<rparr>)
      | Some 0 \<Rightarrow> (Some ErrShort, c)
      | Some (Suc n) \<Rightarrow> (None, c\<lparr>out := out c @ [r], wleft := Some n\<rparr>))"

definition PrintfLine :: "bytes \<Rightarrow> ('g, 'p) conn \<Rightarrow> io_err option \<times> ('g, 'p) conn" where
  "PrintfLine l = flush (Line l)"

definition DotBlock :: "bytes \<Rightarrow> ('g, 'p) conn \<Rightarrow> io_err option \<times> ('g, 'p) conn" where
  "DotBlock b = flush (Block b)"

definition Cleanup :: "('g, 'p) conn \<Rightarrow> ('g, 'p) conn" where
  "Cleanup c = c\<lparr>CurrentGroup := None\<rparr>"

definition OpenReader :: "('g, 'p) conn \<Rightarrow> ('g, 'p) conn" where
  "OpenReader c =
     (case dr c of Some d \<Rightarrow> c\<lparr>dr := Some (Reset d)\<rparr> | None \<Rightarrow> c\<lparr>dr := Some NewDotReader\<rparr>)"

definition pullActiveLogin :: "('g, 'p) conn \<Rightarrow> ActiveLogin option \<times> ('g, 'p) conn" where
  "pullActiveLogin c = (activeLogin c, c\<lparr>activeLogin := None\<rparr>)"

definition tlsStarted :: "('g, 'p) conn \<Rightarrow> bool" where
  "tlsStarted c = tlsConn c"

text \<open>\<open>c.dr.Discard(-1)\<close>\<close>

definition dr_Discard :: "('g, 'p) conn \<Rightarrow> ('g, 'p) conn option" where
  "dr_Discard c =
     (case dr c of
        None \<Rightarrow> Some c
      | Some d \<Rightarrow> (case DotReader_Discard (- 1) (d, rd c) of
           None \<Rightarrow> None
         | Some (r, d, b) \<Rightarrow> Some (c\<lparr>dr := Some d, rd := b\<rparr>)))"

definition setupDefaults :: "NNTPServerRunCfg \<Rightarrow> ('g, 'p) conn \<Rightarrow> ('g, 'p) conn" where
  "setupDefaults rCfg c = c\<lparr>priv := DefaultPriv rCfg\<rparr>"

definition loginSuccess :: "UserInfo \<Rightarrow> ('g, 'p) conn \<Rightarrow> ('g, 'p) conn" where
  "loginSuccess u c = c\<lparr>authenticated := True, priv := MergeUserPriv (priv c) (uiPriv u)\<rparr>"

text \<open>
  A missing \<open>CertFPProvider\<close> is a nil interface: calling it panics. So does writing to the log of a
  connection that has none yet; \<open>lg\<close> says whether \<open>c.log\<close> is set.
\<close>

definition postTLS :: "bool \<Rightarrow> NNTPServerRunCfg \<Rightarrow> cert list \<Rightarrow> ('g, 'p) conn \<Rightarrow> ('g, 'p) conn outcome" where
  "postTLS lg rCfg certs c =
     (let c = c\<lparr>tlsConn := True\<rparr>;
          c = c\<lparr>priv := MergeUserPriv (priv c) (TLSPriv rCfg)\<rparr>
      in if CertFPAutoAuth rCfg \<and> \<not> authenticated c then
           (case certs of
              [] \<Rightarrow> Ret True c
            | p # _ \<Rightarrow>
                (case CertFPProvider rCfg of
                   None \<Rightarrow> Panic c
                 | Some f \<Rightarrow>
                     (case f p of
                        None \<Rightarrow> Ret True c
                      | Some u \<Rightarrow>
                          let c = c\<lparr>authenticated := True, priv := MergeUserPriv (priv c) (uiPriv u)\<rparr>
                          in if lg then Ret True c else Panic c)))
         else Ret True c)"

definition advertisePlaintextAuth :: "NNTPServerRunCfg \<Rightarrow> ('g, 'p) conn \<Rightarrow> bool" where
  "advertisePlaintextAuth rCfg c \<longleftrightarrow>
     userPassProvider rCfg \<noteq> None \<and> \<not> authenticated c \<and> (UnsafePass rCfg \<or> tlsStarted c)"

subsection \<open>The provider\<close>

datatype art_kind = articleFull | articleHead | articleBody | articleStat

text \<open>An \<open>AbstractResponder\<close>: the line its \<open>OpenDotWriter\<close> sends in front of the block.\<close>

datatype opener = cmdNewNewsOpener | cmdNewGroupsOpener | listCmdListOpener | cmdXGTitleOpener

text \<open>The calls of \<open>NNTPProvider\<close>; \<open>GetArticleFullByMsgID\<close> is \<open>GetArticleByMsgID articleFull\<close>.\<close>

datatype pcall =
    GetArticleByMsgID art_kind bytes
  | GetArticleByNum art_kind u64
  | GetArticleByCurr art_kind
  | SelectGroup bytes
  | SelectAndListGroup bytes int int
  | SelectNextArticle
  | SelectPrevArticle
  | ListNewNews opener bytes civil
  | ListNewGroups opener civil
  | ListActiveGroups opener bytes
  | ListNewsgroups opener bytes
  | GetOverByMsgID bytes
  | GetOverByRange int int
  | GetXOverByRange int int
  | GetOverByCurr
  | GetHdrByMsgID bytes bytes
  | GetHdrByRange bytes int int
  | GetHdrByCurr bytes
  | GetXHdrByMsgID bytes bytes
  | GetXHdrByRange bytes int int
  | GetXHdrByCurr bytes
  | HandlePost
  | HandleIHave bytes
  | HandleCheck bytes
  | HandleTakeThis bytes

record ('g, 'p) NNTPProvider =
  SupportsNewNews :: bool
  SupportsOverByMsgID :: bool
  SupportsHdr :: bool
  SupportsIHave :: bool
  SupportsPost :: bool
  SupportsStream :: bool
  SupportsXListen :: bool
  call :: "pcall \<Rightarrow> ('g, 'p) conn \<Rightarrow> ('g, 'p) conn outcome"

subsection \<open>Responses\<close>

definition num :: "u64 \<Rightarrow> bytes" where
  "num n = dec (unat n)"

definition ResGroupSuccessfullySelected ::
  "u64 \<Rightarrow> u64 \<Rightarrow> u64 \<Rightarrow> bytes \<Rightarrow> ('g, 'p) conn \<Rightarrow> io_err option \<times> ('g, 'p) conn" where
  "ResGroupSuccessfullySelected est lo hi gn =
     PrintfLine (bs ''211 '' @ num est @ bs '' '' @ num lo @ bs '' '' @ num hi @ bs '' '' @ gn)"

definition ResArticleNumbersFollow ::
  "u64 \<Rightarrow> u64 \<Rightarrow> u64 \<Rightarrow> bytes \<Rightarrow> ('g, 'p) conn \<Rightarrow> io_err option \<times> ('g, 'p) conn" where
  "ResArticleNumbersFollow est lo hi gn =
     PrintfLine (bs ''211 '' @ num est @ bs '' '' @ num lo @ bs '' '' @ num hi @ bs '' '' @ gn
                 @ bs '' list follows'')"

definition ResListFollows :: "('g, 'p) conn \<Rightarrow> io_err option \<times> ('g, 'p) conn" where
  "ResListFollows = PrintfLine (bs ''215 list follows'')"

definition ResArticleFollows :: "u64 \<Rightarrow> bytes \<Rightarrow> ('g, 'p) conn \<Rightarrow> io_err option \<times> ('g, 'p) conn" where
  "ResArticleFollows n msgid = PrintfLine (bs ''220 '' @ num n @ bs '' <'' @ msgid @ bs ''> cominngg!!!'')"

definition ResHeadFollows :: "u64 \<Rightarrow> bytes \<Rightarrow> ('g, 'p) conn \<Rightarrow> io_err option \<times> ('g, 'p) conn" where
  "ResHeadFollows n msgid = PrintfLine (bs ''221 '' @ num n @ bs '' <'' @ msgid @ bs ''> head incoming'')"

definition ResXHdrFollow :: "('g, 'p) conn \<Rightarrow> io_err option \<times> ('g, 'p) conn" where
  "ResXHdrFollow = PrintfLine (bs ''221 headers follow'')"

definition ResBodyFollows :: "u64 \<Rightarrow> bytes \<Rightarrow> ('g, 'p) conn \<Rightarrow> io_err option \<times> ('g, 'p) conn" where
  "ResBodyFollows n msgid = PrintfLine (bs ''222 '' @ num n @ bs '' <'' @ msgid @ bs ''> body is coming'')"

definition ResArticleFound :: "u64 \<Rightarrow> bytes \<Rightarrow> ('g, 'p) conn \<Rightarrow> io_err option \<times> ('g, 'p) conn" where
  "ResArticleFound n msgid = PrintfLine (bs ''223 '' @ num n @ bs '' <'' @ msgid @ bs ''> it's here'')"

definition ResOverviewInformationFollows :: "('g, 'p) conn \<Rightarrow> io_err option \<times> ('g, 'p) conn" where
  "ResOverviewInformationFollows = PrintfLine (bs ''224 ovewview info follows'')"

definition ResHdrFollow :: "('g, 'p) conn \<Rightarrow> io_err option \<times> ('g, 'p) conn" where
  "ResHdrFollow = PrintfLine (bs ''225 headers follow'')"

definition ResListOfNewArticlesFollows :: "('g, 'p) conn \<Rightarrow> io_err option \<times> ('g, 'p) conn" where
  "ResListOfNewArticlesFollows = PrintfLine (bs ''230 new articles list'')"

definition ResListOfNewNewsgroupsFollows :: "('g, 'p) conn \<Rightarrow> io_err option \<times> ('g, 'p) conn" where
  "ResListOfNewNewsgroupsFollows = PrintfLine (bs ''231 new newsgroups list'')"

definition ResTransferSuccess :: "('g, 'p) conn \<Rightarrow> io_err option \<times> ('g, 'p) conn" where
  "ResTransferSuccess = PrintfLine (bs ''235 got it :>'')"

definition ResArticleWanted :: "bytes \<Rightarrow> ('g, 'p) conn \<Rightarrow> io_err option \<times> ('g, 'p) conn" where
  "ResArticleWanted msgid = PrintfLine (bs ''238 <'' @ msgid @ bs ''>'')"

definition ResArticleTransferedOK :: "bytes \<Rightarrow> ('g, 'p) conn \<Rightarrow> io_err option \<times> ('g, 'p) conn" where
  "ResArticleTransferedOK msgid = PrintfLine (bs ''239 <'' @ msgid @ bs ''>'')"

definition ResPostingAccepted :: "('g, 'p) conn \<Rightarrow> io_err option \<times> ('g, 'p) conn" where
  "ResPostingAccepted = PrintfLine (bs ''240 article taken in'')"

definition ResSendArticleToBeTransferred :: "('g, 'p) conn \<Rightarrow> io_err option \<times> ('g, 'p) conn" where
  "ResSendArticleToBeTransferred = PrintfLine (bs ''335 yes want'')"

definition ResSendArticleToBePosted :: "('g, 'p) conn \<Rightarrow> io_err option \<times> ('g, 'p) conn" where
  "ResSendArticleToBePosted = PrintfLine (bs ''340 I consent'')"

text \<open>The error texts of the responses below are those of \<open>e.Error()\<close>.\<close>

definition ResInternalError :: "bytes option \<Rightarrow> ('g, 'p) conn \<Rightarrow> io_err option \<times> ('g, 'p) conn" where
  "ResInternalError e =
     (case e of Some e \<Rightarrow> PrintfLine (bs ''403 internal error: '' @ e)
      | None \<Rightarrow> PrintfLine (bs ''403 internal error''))"

definition ResNoSuchNewsgroup :: "('g, 'p) conn \<Rightarrow> io_err option \<times> ('g, 'p) conn" where
  "ResNoSuchNewsgroup = PrintfLine (bs ''411 I don't see any such newsgroup'')"

definition ResNoNewsgroupSelected :: "('g, 'p) conn \<Rightarrow> io_err option \<times> ('g, 'p) conn" where
  "ResNoNewsgroupSelected = PrintfLine (bs ''412 no newsgroup selected fam'')"

definition ResCurrentArticleNumberIsInvalid :: "('g, 'p) conn \<Rightarrow> io_err option \<times> ('g, 'p) conn" where
  "ResCurrentArticleNumberIsInvalid =
     PrintfLine (bs ''420 current blaze article number isn't valid'')"

definition ResXNoArticles :: "('g, 'p) conn \<Rightarrow> io_err option \<times> ('g, 'p) conn" where
  "ResXNoArticles = PrintfLine (bs ''420 no articles'')"

definition ResNoNextArticleInThisGroup :: "('g, 'p) conn \<Rightarrow> io_err option \<times> ('g, 'p) conn" where
  "ResNoNextArticleInThisGroup = PrintfLine (bs ''421 no next article'')"

definition ResNoPrevArticleInThisGroup :: "('g, 'p) conn \<Rightarrow> io_err option \<times> ('g, 'p) conn" where
  "ResNoPrevArticleInThisGroup = PrintfLine (bs ''422 no prev article'')"

definition ResNoArticleWithThatNum :: "('g, 'p) conn \<Rightarrow> io_err option \<times> ('g, 'p) conn" where
  "ResNoArticleWithThatNum = PrintfLine (bs ''423 no article with that number'')"

definition ResNoArticlesInThatRange :: "('g, 'p) conn \<Rightarrow> io_err option \<times> ('g, 'p) conn" where
  "ResNoArticlesInThatRange = PrintfLine (bs ''423 no articles in that range'')"

definition ResNoArticleWithThatMsgID :: "('g, 'p) conn \<Rightarrow> io_err option \<times> ('g, 'p) conn" where
  "ResNoArticleWithThatMsgID = PrintfLine (bs ''430 no article with that Message-ID'')"

definition ResArticleWantLater :: "bytes \<Rightarrow> ('g, 'p) conn \<Rightarrow> io_err option \<times> ('g, 'p) conn" where
  "ResArticleWantLater msgid = PrintfLine (bs ''431 <'' @ msgid @ bs ''>'')"

definition ResTransferNotWanted :: "('g, 'p) conn \<Rightarrow> io_err option \<times> ('g, 'p) conn" where
  "ResTransferNotWanted = PrintfLine (bs ''435 n-no'')"

definition ResTransferFailed :: "('g, 'p) conn \<Rightarrow> io_err option \<times> ('g, 'p) conn" where
  "ResTransferFailed = PrintfLine (bs ''436 transfer failed, plz resend later'')"

definition ResTransferRejected :: "bytes option \<Rightarrow> ('g, 'p) conn \<Rightarrow> io_err option \<times> ('g, 'p) conn" where
  "ResTransferRejected e =
     (case e of None \<Rightarrow> PrintfLine (bs ''437 transfer rejected, don't wanna'')
      | Some e \<Rightarrow> PrintfLine (bs ''437 transfer rejected, don't wanna ('' @ e @ bs '')''))"

definition ResArticleNotWanted :: "bytes \<Rightarrow> ('g, 'p) conn \<Rightarrow> io_err option \<times> ('g, 'p) conn" where
  "ResArticleNotWanted msgid = PrintfLine (bs ''438 <'' @ msgid @ bs ''>'')"

definition ResArticleRejected ::
  "bytes \<Rightarrow> bytes option \<Rightarrow> ('g, 'p) conn \<Rightarrow> io_err option \<times> ('g, 'p) conn" where
  "ResArticleRejected msgid e =
     (case e of None \<Rightarrow> PrintfLine (bs ''439 <'' @ msgid @ bs ''>'')
      | Some e \<Rightarrow> PrintfLine (bs ''439 <'' @ msgid @ bs ''> '' @ e))"

definition ResPostingNotPermitted :: "('g, 'p) conn \<Rightarrow> io_err option \<times> ('g, 'p) conn" where
  "ResPostingNotPermitted = PrintfLine (bs ''440 article injection isn't allowed'')"

definition ResPostingFailed :: "bytes option \<Rightarrow> ('g, 'p) conn \<Rightarrow> io_err option \<times> ('g, 'p) conn" where
  "ResPostingFailed e =
     (case e of None \<Rightarrow> PrintfLine (bs ''441 article injection failed'')
      | Some e \<Rightarrow> PrintfLine (bs ''441 article injection failed: '' @ e))"

definition ResAuthRequired :: "('g, 'p) conn \<Rightarrow> io_err option \<times> ('g, 'p) conn" where
  "ResAuthRequired = PrintfLine (bs ''480 authentication required'')"

definition ResBadMessageID :: "('g, 'p) conn \<Rightarrow> io_err option \<times> ('g, 'p) conn" where
  "ResBadMessageID = PrintfLine (bs ''501 invalid Message-ID'')"

definition ResXPermission :: "('g, 'p) conn \<Rightarrow> io_err option \<times> ('g, 'p) conn" where
  "ResXPermission = PrintfLine (bs ''502 no permission'')"

definition OpenDotWriter :: "opener \<Rightarrow> ('g, 'p) conn \<Rightarrow> io_err option \<times> ('g, 'p) conn" where
  "OpenDotWriter aw =
     (case aw of
        cmdNewNewsOpener \<Rightarrow> ResListOfNewArticlesFollows
      | cmdNewGroupsOpener \<Rightarrow> ResListOfNewNewsgroupsFollows
      | listCmdListOpener \<Rightarrow> ResListFollows
      | cmdXGTitleOpener \<Rightarrow> PrintfLine (bs ''282 data follows''))"

lemmas Res_defs = ResGroupSuccessfullySelected_def ResArticleNumbersFollow_def ResListFollows_def
  ResArticleFollows_def ResHeadFollows_def ResXHdrFollow_def ResBodyFollows_def ResArticleFound_def
  ResOverviewInformationFollows_def ResHdrFollow_def ResListOfNewArticlesFollows_def
  ResListOfNewNewsgroupsFollows_def ResTransferSuccess_def ResArticleWanted_def
  ResArticleTransferedOK_def ResPostingAccepted_def ResSendArticleToBeTransferred_def
  ResSendArticleToBePosted_def ResInternalError_def ResNoSuchNewsgroup_def
  ResNoNewsgroupSelected_def ResCurrentArticleNumberIsInvalid_def ResXNoArticles_def
  ResNoNextArticleInThisGroup_def ResNoPrevArticleInThisGroup_def ResNoArticleWithThatNum_def
  ResNoArticlesInThatRange_def ResNoArticleWithThatMsgID_def ResArticleWantLater_def
  ResTransferNotWanted_def ResTransferFailed_def ResTransferRejected_def ResArticleNotWanted_def
  ResArticleRejected_def ResPostingNotPermitted_def ResPostingFailed_def ResAuthRequired_def
  ResBadMessageID_def ResXPermission_def

end
