(* ===== verification/NntpCmds.thy ===== *)
theory NntpCmds
  imports NntpConn "HOL-Library.List_Lexorder"
begin

text \<open>
  The command tables and handlers of the NNTP server: \<open>nntp/scmd_base.go\<close>, \<open>scmd_auth.go\<close>,
  \<open>scmd_read.go\<close>, \<open>scmd_list.go\<close>, \<open>scmd_post.go\<close> and the commands of \<open>scmd_listen.go\<close>. A command
  table is a list in the order of the source; \<open>cmdfunc\<close> names the handler and \<open>run\<close> calls it
  (the table itself is read by \<open>cmdHelp\<close>, a cycle the Go code breaks with an initialisation
  function). A handler takes the environment, the provider, the connection, the arguments and the
  rest of the line.
\<close>

subsection \<open>Cutting a line into arguments\<close>

function skip_spaces :: "bytes \<Rightarrow> nat \<Rightarrow> nat option" where
  "skip_spaces b x =
     (let x = x + 1 in
      if x \<ge> length b then None
      else if b ! x \<noteq> SP \<and> b ! x \<noteq> TAB then Some x
      else skip_spaces b x)"
  by auto
termination by (relation "measure (\<lambda>(b, x). length b - x)") auto

function skip_word :: "bytes \<Rightarrow> nat \<Rightarrow> nat" where
  "skip_word b x =
     (let x = x + 1 in
      if x \<ge> length b then x
      else if b ! x = SP \<or> b ! x = TAB then x
      else skip_word b x)"
  by auto
termination by (relation "measure (\<lambda>(b, x). length b - x)") auto

declare skip_spaces.simps [simp del] skip_word.simps [simp del]

lemma skip_spaces_bounds: "skip_spaces b x = Some y \<Longrightarrow> x < y \<and> y < length b"
proof (induction b x rule: skip_spaces.induct)
  case (1 b x)
  then show ?case by (subst (asm) (2) skip_spaces.simps) (fastforce simp: Let_def split: if_splits)
qed

lemma skip_word_bounds: "x < skip_word b x"
proof (induction b x rule: skip_word.induct)
  case (1 b x)
  then show ?case by (subst skip_word.simps) (fastforce simp: Let_def)
qed

text \<open>\<open>Extra args y\<close>: the maximal number of arguments is there and more starts at \<open>y\<close>.\<close>

datatype parsed = Args "bytes list" | Extra "bytes list" nat

function args_loop :: "bytes \<Rightarrow> nat \<Rightarrow> nat \<Rightarrow> bytes list \<Rightarrow> parsed" where
  "args_loop b m x args =
     (case skip_spaces b x of
        None \<Rightarrow> Args args
      | Some sx \<Rightarrow>
          if length args \<ge> m then Extra args sx
          else let x = skip_word b sx;
                   args = args @ [take (x - sx) (drop sx b)]
               in if x \<ge> length b then Args args else args_loop b m x args)"
  by auto
termination
  by (relation "measure (\<lambda>(b, m, x, args). length b - x)")
    (auto dest!: skip_spaces_bounds intro: diff_less_mono2 less_trans [OF _ skip_word_bounds])

declare args_loop.simps [simp del]

definition parse_args :: "bytes \<Rightarrow> nat \<Rightarrow> nat \<Rightarrow> parsed" where
  "parse_args b x m = (if x \<ge> length b then Args [] else args_loop b m x [])"

text \<open>The reference: the blank-separated words of a string, and what is left after \<open>m\<close> of them.\<close>

function words :: "bytes \<Rightarrow> bytes list" where
  "words s =
     (let s = dropWhile isws s in
      if s = [] then [] else takeWhile (\<lambda>c. \<not> isws c) s # words (dropWhile (\<lambda>c. \<not> isws c) s))"
  by auto
termination
proof (relation "measure length", goal_cases)
  case (2 s x)
  then have ne: "dropWhile isws s \<noteq> []" by simp
  then obtain a r where ar: "dropWhile isws s = a # r" by (cases "dropWhile isws s") auto
  moreover have "\<not> isws a" using hd_dropWhile [OF ne] ar by simp
  ultimately have "length (dropWhile (\<lambda>c. \<not> isws c) x) \<le> length r"
    using 2 by (simp add: length_dropWhile_le)
  also have "\<dots> < length s" using length_dropWhile_le [of isws s] ar by simp
  finally show ?case by simp
qed simp

fun after_words :: "nat \<Rightarrow> bytes \<Rightarrow> bytes" where
  "after_words 0 s = dropWhile isws s"
| "after_words (Suc m) s = after_words m (dropWhile (\<lambda>c. \<not> isws c) (dropWhile isws s))"

declare words.simps [simp del]

lemma words_skip: "words (dropWhile isws s) = words s"
  by (subst (1 2) words.simps) (simp add: Let_def)

lemma words_Nil [simp]: "words [] = []"
  by (subst words.simps) simp

lemma words_word: "\<not> isws a \<Longrightarrow> words (a # s) = (a # takeWhile (\<lambda>c. \<not> isws c) s) # words (dropWhile (\<lambda>c. \<not> isws c) s)"
  by (subst words.simps) simp

lemma skip_spaces_step:
  "skip_spaces b x = (if Suc x \<ge> length b then None
     else if isws (b ! Suc x) then skip_spaces b (Suc x) else Some (Suc x))"
  by (subst skip_spaces.simps) (simp add: isws_def)

lemma skip_word_step:
  "skip_word b x = (if Suc x \<ge> length b \<or> isws (b ! Suc x) then Suc x else skip_word b (Suc x))"
  by (subst skip_word.simps) (simp add: isws_def)

lemma skip_spaces_spec:
  "case skip_spaces b x of
     None \<Rightarrow> dropWhile isws (drop (Suc x) b) = []
   | Some y \<Rightarrow> drop y b = dropWhile isws (drop (Suc x) b) \<and> x < y \<and> y < length b \<and> \<not> isws (b ! y)"
proof (induction "length b - x" arbitrary: x rule: less_induct)
  case less
  show ?case
  proof (cases "Suc x < length b \<and> isws (b ! Suc x)")
    case True
    then have "drop (Suc x) b = b ! Suc x # drop (Suc (Suc x)) b" by (simp add: nth_drop_Cons)
    moreover have "length b - Suc x < length b - x" using True by auto
    ultimately show ?thesis using less [of "Suc x"] True
      by (subst skip_spaces_step) (auto split: option.splits)
  next
    case False
    then show ?thesis
      by (subst skip_spaces_step) (auto simp: nth_drop_Cons [of "Suc x"])
  qed
qed

lemma skip_word_spec:
  "x < length b \<Longrightarrow> drop (skip_word b x) b = dropWhile (\<lambda>c. \<not> isws c) (drop (Suc x) b) \<and>
     take (skip_word b x - x) (drop x b) = b ! x # takeWhile (\<lambda>c. \<not> isws c) (drop (Suc x) b) \<and>
     x < skip_word b x \<and> skip_word b x \<le> length b"
proof (induction "length b - x" arbitrary: x rule: less_induct)
  case less
  have d: "drop x b = b ! x # drop (Suc x) b" using less(2) by (rule nth_drop_Cons)
  show ?case
  proof (cases "Suc x < length b \<and> \<not> isws (b ! Suc x)")
    case True
    then have e: "skip_word b x = skip_word b (Suc x)" by (subst skip_word_step) auto
    have d2: "drop (Suc x) b = b ! Suc x # drop (Suc (Suc x)) b" using True by (simp add: nth_drop_Cons)
    have IH: "drop (skip_word b (Suc x)) b = dropWhile (\<lambda>c. \<not> isws c) (drop (Suc (Suc x)) b)"
      "take (skip_word b (Suc x) - Suc x) (drop (Suc x) b)
        = b ! Suc x # takeWhile (\<lambda>c. \<not> isws c) (drop (Suc (Suc x)) b)"
      "Suc x < skip_word b (Suc x)" "skip_word b (Suc x) \<le> length b"
      using less(1) [of "Suc x"] True by auto
    have "skip_word b (Suc x) - x = Suc (skip_word b (Suc x) - Suc x)" using IH(3) by simp
    then have "take (skip_word b (Suc x) - x) (drop x b) = b ! x # take (skip_word b (Suc x) - Suc x) (drop (Suc x) b)"
      unfolding d by simp
    then show ?thesis using IH True unfolding e d2 by simp
  next
    case False
    then have "skip_word b x = Suc x" by (subst skip_word_step) auto
    moreover have "takeWhile (\<lambda>c. \<not> isws c) (drop (Suc x) b) = [] \<and>
        dropWhile (\<lambda>c. \<not> isws c) (drop (Suc x) b) = drop (Suc x) b"
      using False by (cases "Suc x < length b") (auto simp: nth_drop_Cons [of "Suc x"])
    ultimately show ?thesis using less(2) d by simp
  qed
qed

definition args_ok :: "bytes \<Rightarrow> nat \<Rightarrow> bytes \<Rightarrow> bytes list \<Rightarrow> parsed \<Rightarrow> bool" where
  "args_ok b m s as r \<longleftrightarrow>
     (case r of
        Args ws \<Rightarrow> ws = as @ words s \<and> length ws \<le> m
      | Extra ws y \<Rightarrow> m < length as + length (words s) \<and> ws = as @ take (m - length as) (words s) \<and>
          drop y b = after_words (m - length as) s)"

lemma args_loop_spec:
  "length as \<le> m \<Longrightarrow> args_ok b m (drop (Suc x) b) as (args_loop b m x as)"
proof (induction b m x as rule: args_loop.induct)
  case (1 b m x as)
  show ?case
  proof (cases "skip_spaces b x")
    case None
    then have "words (drop (Suc x) b) = []"
      using skip_spaces_spec [of x b] by (subst words_skip [symmetric]) (simp only: option.case words_Nil)
    then show ?thesis using None 1(2) by (subst args_loop.simps) (simp add: args_ok_def)
  next
    case (Some sx)
    then have sx: "drop sx b = dropWhile isws (drop (Suc x) b)" "sx < length b" "\<not> isws (b ! sx)"
      using skip_spaces_spec [of x b] by auto
    let ?x = "skip_word b sx"
    note w = skip_word_spec [OF sx(2)]
    have ws: "words (drop (Suc x) b) = take (?x - sx) (drop sx b) # words (drop ?x b)"
      using w words_word [OF sx(3), of "drop (Suc sx) b"] nth_drop_Cons [OF sx(2)]
      by (simp flip: words_skip [of "drop (Suc x) b"] sx(1))
    show ?thesis
    proof (cases "length as \<ge> m")
      case True
      then show ?thesis using 1(2) Some sx ws by (subst args_loop.simps) (simp add: args_ok_def)
    next
      case False
      let ?as = "as @ [take (?x - sx) (drop sx b)]"
      have dw: "dropWhile (\<lambda>c. \<not> isws c) (drop sx b) = drop ?x b"
        using w sx(3) nth_drop_Cons [OF sx(2)] by simp
      show ?thesis
      proof (cases "?x \<ge> length b")
        case True
        then show ?thesis using False Some ws by (subst args_loop.simps) (simp add: args_ok_def Let_def)
      next
        case 2: False
        then have e: "args_loop b m x as = args_loop b m ?x ?as"
          using False Some by (subst args_loop.simps) (simp add: Let_def)
        have sp: "isws (b ! ?x)"
          using w 2 hd_dropWhile [of "\<lambda>c. \<not> isws c" "drop (Suc sx) b"] by (metis drop_eq_Nil hd_drop_conv_nth linorder_not_le)
        have "words (drop (Suc ?x) b) = words (drop ?x b)"
          using 2 sp words_skip [of "drop (Suc ?x) b"] words_skip [of "drop ?x b"] by (simp add: nth_drop_Cons)
        moreover have "after_words k (drop (Suc ?x) b) = after_words k (drop ?x b)" for k
          using 2 sp by (cases k) (simp_all add: nth_drop_Cons)
        moreover have "args_ok b m (drop (Suc ?x) b) ?as (args_loop b m ?x ?as)"
          using 1(1) [OF Some False refl refl] 2 False by simp
        moreover have "after_words (m - length as) (drop (Suc x) b) = after_words (m - Suc (length as)) (drop ?x b)"
          using dw sx(1) Suc_diff_Suc [of "length as" m, symmetric] False by simp
        ultimately show ?thesis using False ws unfolding e
          by (cases "args_loop b m ?x ?as") (auto simp: args_ok_def take_Cons')
      qed
    qed
  qed
qed

lemma parse_args_spec:
  "case parseKeyword l of (x, b) \<Rightarrow>
     take x b = map upper (takeWhile (\<lambda>c. \<not> isws c) l) \<and>
     (case parse_args b x m of
        Args ws \<Rightarrow> ws = words (dropWhile (\<lambda>c. \<not> isws c) l) \<and> length ws \<le> m
      | Extra ws y \<Rightarrow> m < length (words (dropWhile (\<lambda>c. \<not> isws c) l)) \<and>
          ws = take m (words (dropWhile (\<lambda>c. \<not> isws c) l)) \<and>
          drop y b = after_words m (dropWhile (\<lambda>c. \<not> isws c) l))"
proof -
  let ?k = "map upper (takeWhile (\<lambda>c. \<not> isws c) l)" and ?s = "dropWhile (\<lambda>c. \<not> isws c) l"
  have k: "parseKeyword l = (length ?k, ?k @ ?s)" by (simp add: parseKeyword_spec)
  show ?thesis
  proof (cases ?s)
    case Nil
    then show ?thesis unfolding k prod.case Nil by (simp add: parse_args_def takeWhile_tail dropWhile_eq_Nil_conv takeWhile_eq_self)
  next
    case (Cons a r)
    then have a: "isws a" using hd_dropWhile [of "\<lambda>c. \<not> isws c" l] by simp
    have d: "drop (Suc (length ?k)) (?k @ ?s) = r" by (simp add: Cons)
    have "words ?s = words r" using a words_skip [of "?s"] words_skip [of r] by (simp add: Cons)
    moreover have "after_words m ?s = after_words m r" using a by (cases m) (simp_all add: Cons)
    moreover have "args_ok (?k @ ?s) m r [] (args_loop (?k @ ?s) m (length ?k) [])"
      using args_loop_spec [of "[]" m "?k @ ?s" "length ?k"] unfolding d by simp
    moreover have "parse_args (?k @ ?s) (length ?k) m = args_loop (?k @ ?s) m (length ?k) []"
      by (simp add: parse_args_def Cons)
    ultimately show ?thesis
      by (cases "args_loop (?k @ ?s) m (length ?k) []") (simp_all add: k args_ok_def)
  qed
qed

text \<open>
  C7: the argument loop of \<open>serveClient\<close>, \<open>cmdList\<close> and \<open>cmdAuthInfo\<close>: a line is its upper-cased
  keyword, up to \<open>m\<close> blank-separated words in order, and, if there are more, the rest of the line
  from the first character of word number \<open>m + 1\<close> on.
\<close>
theorem command_arguments:
  "case parseKeyword l of (x, b) \<Rightarrow>
     take x b = map upper (takeWhile (\<lambda>c. \<not> isws c) l) \<and>
     (case parse_args b x m of
        Args ws \<Rightarrow> ws = words (dropWhile (\<lambda>c. \<not> isws c) l) \<and> length ws \<le> m
      | Extra ws y \<Rightarrow> m < length (words (dropWhile (\<lambda>c. \<not> isws c) l)) \<and>
          ws = take m (words (dropWhile (\<lambda>c. \<not> isws c) l)) \<and>
          drop y b = after_words m (dropWhile (\<lambda>c. \<not> isws c) l))"
  by (rule parse_args_spec)

lemma after_words_ne: "m < length (words s) \<Longrightarrow> after_words m s \<noteq> []"
proof (induction m s rule: after_words.induct)
  case (1 s)
  then show ?case by (metis after_words.simps(1) gr_implies_not0 list.size(3) words_Nil words_skip)
next
  case (2 m s)
  show ?case
  proof (cases "dropWhile isws s")
    case Nil
    then show ?thesis using 2(2) by (subst (asm) words.simps) simp
  next
    case (Cons a r)
    have "words s = takeWhile (\<lambda>c. \<not> isws c) (dropWhile isws s) # words (dropWhile (\<lambda>c. \<not> isws c) (dropWhile isws s))"
      by (subst words.simps) (simp add: Cons)
    then show ?thesis using 2 by simp
  qed
qed

subsection \<open>Command tables\<close>

datatype cmdfunc =
    F_cmdVoid
  | F_cmdCapabilities
  | F_cmdMode
  | F_cmdHelp
  | F_cmdList
  | F_cmdQuit
  | F_cmdSlave
  | F_cmdAuthInfo
  | F_cmdStartTLS
  | F_cmdDate
  | F_cmdGroup
  | F_cmdListGroup
  | F_cmdNext
  | F_cmdLast
  | F_commonArticleHandler art_kind
  | F_cmdNewGroups
  | F_cmdNewNews
  | F_cmdXGTitle
  | F_commonCmdOver bool
  | F_commonCmdHdr bool
  | F_cmdPost
  | F_cmdIHave
  | F_cmdCheck
  | F_cmdTakeThis
  | F_cmdXListen
  | F_cmdXWait
  | F_listCmdActive
  | F_listCmdNewsgroups
  | F_listCmdOverviewFmt
  | F_authCmdUser
  | F_authCmdPass
  | F_authCmdSASL

record command =
  cmdfunc :: cmdfunc
  minargs :: nat
  maxargs :: nat
  allowextra :: bool
  helpmsg :: bytes

type_synonym commandMapType = "(bytes \<times> command) list"

definition commandMap :: commandMapType where
  "commandMap = [
     (bs '''', \<lparr>cmdfunc = F_cmdVoid, minargs = 0, maxargs = 0, allowextra = True,
        helpmsg = bs ''''\<rparr>),
     (bs ''CAPABILITIES'', \<lparr>cmdfunc = F_cmdCapabilities, minargs = 0, maxargs = 0, allowextra = True,
        helpmsg = bs ''- print server's capabilities.''\<rparr>),
     (bs ''MODE'', \<lparr>cmdfunc = F_cmdMode, minargs = 1, maxargs = 1, allowextra = False,
        helpmsg = bs ''''\<rparr>),
     (bs ''HELP'', \<lparr>cmdfunc = F_cmdHelp, minargs = 0, maxargs = 2, allowextra = False,
        helpmsg = bs ''- print manual.''\<rparr>),
     (bs ''LIST'', \<lparr>cmdfunc = F_cmdList, minargs = 0, maxargs = 0, allowextra = True,
        helpmsg = bs ''[keyword [wildmat|argument]] - query information. keyword defaults to ACTIVE.''\<rparr>),
     (bs ''QUIT'', \<lparr>cmdfunc = F_cmdQuit, minargs = 0, maxargs = 0, allowextra = True,
        helpmsg = bs ''- terminate connection.''\<rparr>),
     (bs ''SLAVE'', \<lparr>cmdfunc = F_cmdSlave, minargs = 0, maxargs = 0, allowextra = False,
        helpmsg = bs ''- notify server about slave status.''\<rparr>),
     (bs ''AUTHINFO'', \<lparr>cmdfunc = F_cmdAuthInfo, minargs = 0, maxargs = 0, allowextra = True,
        helpmsg = bs ''''\<rparr>),
     (bs ''STARTTLS'', \<lparr>cmdfunc = F_cmdStartTLS, minargs = 0, maxargs = 0, allowextra = False,
        helpmsg = bs ''''\<rparr>),
     (bs ''DATE'', \<lparr>cmdfunc = F_cmdDate, minargs = 0, maxargs = 0, allowextra = False,
        helpmsg = bs ''- get server's current Coordinated Universal Time.''\<rparr>),
     (bs ''GROUP'', \<lparr>cmdfunc = F_cmdGroup, minargs = 1, maxargs = 1, allowextra = False,
        helpmsg = bs ''group - select current group and set current article number to first article in the group.''\<rparr>),
     (bs ''LISTGROUP'', \<lparr>cmdfunc = F_cmdListGroup, minargs = 0, maxargs = 2, allowextra = False,
        helpmsg = bs ''[group [range]] - select current group (if specified) and set current article number to first article in the group (even if group is not specified). list articles present in the group, optionally limited by range argument.''\<rparr>),
     (bs ''NEXT'', \<lparr>cmdfunc = F_cmdNext, minargs = 0, maxargs = 0, allowextra = False,
        helpmsg = bs ''- advance current article number to next article (if available).''\<rparr>),
     (bs ''LAST'', \<lparr>cmdfunc = F_cmdLast, minargs = 0, maxargs = 0, allowextra = False,
        helpmsg = bs ''- change current article number to previous article (if available).''\<rparr>),
     (bs ''ARTICLE'', \<lparr>cmdfunc = F_commonArticleHandler articleFull, minargs = 0, maxargs = 1, allowextra = False,
        helpmsg = bs ''[<message-id>|number] - display the header, a blank line, then the body of the specified (or current) article.''\<rparr>),
     (bs ''HEAD'', \<lparr>cmdfunc = F_commonArticleHandler articleHead, minargs = 0, maxargs = 1, allowextra = False,
        helpmsg = bs ''[<message-id>|number] - display the header of the specified (or current) article.''\<rparr>),
     (bs ''BODY'', \<lparr>cmdfunc = F_commonArticleHandler articleBody, minargs = 0, maxargs = 1, allowextra = False,
        helpmsg = bs ''[<message-id>|number] - display the body of the specified (or current) article.''\<rparr>),
     (bs ''STAT'', \<lparr>cmdfunc = F_commonArticleHandler articleStat, minargs = 0, maxargs = 1, allowextra = False,
        helpmsg = bs ''[<message-id>|number] - check existence of the specified (or current) article.''\<rparr>),
     (bs ''NEWGROUPS'', \<lparr>cmdfunc = F_cmdNewGroups, minargs = 2, maxargs = 4, allowextra = False,
        helpmsg = bs ''[YY]YYMMDD hhmmss [GMT] - list newsgroups created since specified date.''\<rparr>),
     (bs ''NEWNEWS'', \<lparr>cmdfunc = F_cmdNewNews, minargs = 3, maxargs = 5, allowextra = False,
        helpmsg = bs ''wildmat [YY]YYMMDD hhmmss [GMT] - list newsgroups created since specified date.''\<rparr>),
     (bs ''XGTITLE'', \<lparr>cmdfunc = F_cmdXGTitle, minargs = 0, maxargs = 1, allowextra = False,
        helpmsg = bs ''[wildmat] - same as LIST NEWSGROUPS.''\<rparr>),
     (bs ''OVER'', \<lparr>cmdfunc = F_commonCmdOver True, minargs = 0, maxargs = 1, allowextra = False,
        helpmsg = bs ''[range|<message-id>] - query overview of article(s) specified by range or Message-ID, or currently selected article.''\<rparr>),
     (bs ''XOVER'', \<lparr>cmdfunc = F_commonCmdOver False, minargs = 0, maxargs = 1, allowextra = False,
        helpmsg = bs ''- same as OVER.''\<rparr>),
     (bs ''HDR'', \<lparr>cmdfunc = F_commonCmdHdr True, minargs = 1, maxargs = 2, allowextra = False,
        helpmsg = bs ''field [range|<message-id>] - query header field of article(s).''\<rparr>),
     (bs ''XHDR'', \<lparr>cmdfunc = F_commonCmdHdr False, minargs = 1, maxargs = 2, allowextra = False,
        helpmsg = bs ''field [range|<message-id>] - query header field of article(s).''\<rparr>),
     (bs ''POST'', \<lparr>cmdfunc = F_cmdPost, minargs = 0, maxargs = 0, allowextra = False,
        helpmsg = bs ''- perform article posting.''\<rparr>),
     (bs ''IHAVE'', \<lparr>cmdfunc = F_cmdIHave, minargs = 1, maxargs = 1, allowextra = False,
        helpmsg = bs ''<message-id> - offer and perform article transfer.''\<rparr>),
     (bs ''CHECK'', \<lparr>cmdfunc = F_cmdCheck, minargs = 1, maxargs = 1, allowextra = False,
        helpmsg = bs ''<message-id> - check if server desires article.''\<rparr>),
     (bs ''TAKETHIS'', \<lparr>cmdfunc = F_cmdTakeThis, minargs = 1, maxargs = 1, allowextra = False,
        helpmsg = bs ''<message-id> - It's dangerous to go alone! Take this.''\<rparr>),
     (bs ''XLISTEN'', \<lparr>cmdfunc = F_cmdXListen, minargs = 1, maxargs = 1, allowextra = True,
        helpmsg = bs ''eventtype - Start listening for events.''\<rparr>),
     (bs ''XWAIT'', \<lparr>cmdfunc = F_cmdXWait, minargs = 1, maxargs = 1, allowextra = False,
        helpmsg = bs ''millisecs - wait for event; 0 means poll, -1 means no limit.''\<rparr>)]"

definition listCommandMap :: commandMapType where
  "listCommandMap = [
     (bs ''ACTIVE'', \<lparr>cmdfunc = F_listCmdActive, minargs = 0, maxargs = 1, allowextra = False,
        helpmsg = bs ''[wildmat] - list valid newsgroups and associated information. returns list in format `<name> <high watermark> <low watermark> <status>`.''\<rparr>),
     (bs ''NEWSGROUPS'', \<lparr>cmdfunc = F_listCmdNewsgroups, minargs = 0, maxargs = 1, allowextra = False,
        helpmsg = bs ''[wildmat] - list newsgroups and their descriptions. returns list in format `<name> <description>`. usually separated by tab. description may contain spaces.''\<rparr>),
     (bs ''OVERVIEW.FMT'', \<lparr>cmdfunc = F_listCmdOverviewFmt, minargs = 0, maxargs = 0, allowextra = False,
        helpmsg = bs ''- list metadata fields returned by OVER command.''\<rparr>)]"

definition authCommandMap :: commandMapType where
  "authCommandMap = [
     (bs ''USER'', \<lparr>cmdfunc = F_authCmdUser, minargs = 1, maxargs = 1, allowextra = False,
        helpmsg = bs ''username - specify user name.''\<rparr>),
     (bs ''PASS'', \<lparr>cmdfunc = F_authCmdPass, minargs = 1, maxargs = 1, allowextra = False,
        helpmsg = bs ''password - specify password.''\<rparr>),
     (bs ''SASL'', \<lparr>cmdfunc = F_authCmdSASL, minargs = 1, maxargs = 2, allowextra = False,
        helpmsg = bs ''mechanism [initial-response] - utilize Simple Authentication and Security Layer.''\<rparr>)]"

text \<open>\<open>sortedCmdMapSlice\<close>: the keys in ascending order.\<close>

definition sortedCmdMapSlice :: "commandMapType \<Rightarrow> bytes list" where
  "sortedCmdMapSlice m = sort (map fst m)"

subsection \<open>scmd\_base.go\<close>

text \<open>\<open>AbortOnErr(...); return true\<close>\<close>

definition say :: "(('g, 'p) conn \<Rightarrow> io_err option \<times> ('g, 'p) conn) \<Rightarrow> ('g, 'p) conn \<Rightarrow> ('g, 'p) conn outcome" where
  "say r c = AbortOnErr (r c) (Ret True)"

text \<open>\<open>if !prov.X(...) { AbortOnErr(r) }; return true\<close>, and a call without a result\<close>

definition call_or ::
  "('g, 'p) NNTPProvider \<Rightarrow> pcall \<Rightarrow> (('g, 'p) conn \<Rightarrow> io_err option \<times> ('g, 'p) conn) \<Rightarrow> ('g, 'p) conn
   \<Rightarrow> ('g, 'p) conn outcome" where
  "call_or P pc r c = andThen (call P pc c) (\<lambda>ok c. if ok then Ret True c else say r c)"

definition call_only :: "('g, 'p) NNTPProvider \<Rightarrow> pcall \<Rightarrow> ('g, 'p) conn \<Rightarrow> ('g, 'p) conn outcome" where
  "call_only P pc c = andThen (call P pc c) (\<lambda>_ c. Ret True c)"

definition cmdVoid :: "bytes \<Rightarrow> ('g, 'p) conn \<Rightarrow> ('g, 'p) conn outcome" where
  "cmdVoid rest c =
     (if length rest \<noteq> 0 then say (PrintfLine (bs ''501 command must not start with space'')) c
      else Ret True c)"

definition line :: "string \<Rightarrow> bytes" where
  "line s = bs s @ [LF]"

definition capabilities :: "env \<Rightarrow> ('g, 'p) NNTPProvider \<Rightarrow> ('g, 'p) conn \<Rightarrow> bytes" where
  "capabilities E P c =
     line ''VERSION 2'' @
     (if advertisePlaintextAuth (cfg E) c then line ''AUTHINFO USER'' else []) @
     (if AllowReading (priv c) then line ''READER'' else []) @
     (if AllowPosting (priv c)
      then (if SupportsPost P then line ''POST'' else []) @
           (if SupportsIHave P then line ''IHAVE'' else []) @
           (if SupportsStream P then line ''STREAMING'' else [])
      else []) @
     (if AllowReading (priv c)
      then (if SupportsNewNews P then line ''NEWNEWS'' else []) @
           (if \<not> SupportsOverByMsgID P then line ''OVER'' else line ''OVER MSGID'') @
           (if SupportsHdr P then line ''HDR'' else [])
      else []) @
     (if AllowReading (priv c) \<or> AllowPosting (priv c)
      then line ''LIST ACTIVE NEWSGROUPS OVERVIEW.FMT'' else []) @
     (if TLSConfig (cfg E) \<and> \<not> tlsStarted c then line ''STARTTLS'' else []) @
     line ''IMPLEMENTATION CNTPD''"

definition cmdCapabilities :: "env \<Rightarrow> ('g, 'p) NNTPProvider \<Rightarrow> ('g, 'p) conn \<Rightarrow> ('g, 'p) conn outcome" where
  "cmdCapabilities E P c =
     AbortOnErr (PrintfLine (bs ''101 capability list follows'') c)
       (\<lambda>c. say (DotBlock (capabilities E P c)) c)"

definition cmdMode :: "('g, 'p) NNTPProvider \<Rightarrow> bytes list \<Rightarrow> ('g, 'p) conn \<Rightarrow> ('g, 'p) conn outcome" where
  "cmdMode P args c =
     (let smode = ToUpperASCII (args ! 0) in
      if smode = bs ''READER'' then
        if \<not> AllowReading (priv c) then say ResAuthRequired c
        else if AllowPosting (priv c) then say (PrintfLine (bs ''200 posting allowed'')) c
        else say (PrintfLine (bs ''201 posting forbidden'')) c
      else if smode = bs ''STREAM'' then
        if \<not> SupportsStream P then say (PrintfLine (bs ''503 STREAMING unimplemented'')) c
        else if AllowPosting (priv c) then say (PrintfLine (bs ''203 streaming permitted'')) c
        else say ResAuthRequired c
      else say (PrintfLine (bs ''503 requested MODE not supported'')) c)"

text \<open>The text \<open>cmdHelp\<close> sends; the closing of the dot writer is deferred and its error ignored.\<close>

definition noSuchCommand :: bytes where "noSuchCommand = line ''no such command''"

definition noInfoAboutThisCommand :: bytes where
  "noInfoAboutThisCommand = line ''no info about this command''"

definition printCmd :: "bytes \<Rightarrow> commandMapType \<Rightarrow> bytes \<Rightarrow> bytes" where
  "printCmd p m k =
     (case map_of m k of
        None \<Rightarrow> noSuchCommand
      | Some c \<Rightarrow> if helpmsg c = [] then noInfoAboutThisCommand
                  else p @ [SP] @ k @ [SP] @ helpmsg c @ [LF])"

definition printCmds :: "bytes \<Rightarrow> bytes list \<Rightarrow> commandMapType \<Rightarrow> bytes" where
  "printCmds p l m =
     concat (map (\<lambda>k. case map_of m k of
                        Some c \<Rightarrow> if helpmsg c \<noteq> [] then p @ [SP] @ k @ [SP] @ helpmsg c @ [LF] else []
                      | None \<Rightarrow> []) l)"

definition help_text :: "bytes list \<Rightarrow> bytes" where
  "help_text args =
     (if length args \<noteq> 0 then
        let k = ToUpperASCII (args ! 0) in
        (case map_of commandMap k of
           None \<Rightarrow> noSuchCommand
         | Some cmd \<Rightarrow>
             if length args \<noteq> 1 then
               let ck = ToUpperASCII (args ! 1) in
               if k = bs ''LIST'' then printCmd k listCommandMap ck
               else if k = bs ''AUTHINFO'' then printCmd k listCommandMap ck
               else noSuchCommand
             else if helpmsg cmd = [] then noInfoAboutThisCommand
             else k @ [SP] @ helpmsg cmd @ [LF])
      else
        concat (map (\<lambda>k.
          (case map_of commandMap k of
             Some cmd \<Rightarrow> if helpmsg cmd \<noteq> [] then k @ [SP] @ helpmsg cmd @ [LF] else []
           | None \<Rightarrow> []) @
          (if k = bs ''LIST'' then printCmds k (sortedCmdMapSlice listCommandMap) listCommandMap
           else if k = bs ''AUTHINFO'' then printCmds k (sortedCmdMapSlice authCommandMap) authCommandMap
           else [])) (sortedCmdMapSlice commandMap)))"

definition cmdHelp :: "bytes list \<Rightarrow> ('g, 'p) conn \<Rightarrow> ('g, 'p) conn outcome" where
  "cmdHelp args c =
     AbortOnErr (PrintfLine (bs ''100 here's manual'') c)
       (\<lambda>c. Ret True (snd (DotBlock (help_text args) c)))"

definition cmdQuit :: "('g, 'p) conn \<Rightarrow> ('g, 'p) conn outcome" where
  "cmdQuit c = Ret False (snd (PrintfLine (bs ''205 goodbye.'') c))"

definition pad0 :: "nat \<Rightarrow> nat \<Rightarrow> bytes" where
  "pad0 k n = replicate (k - length (dec n)) 48 @ dec n"

definition cmdDate :: "env \<Rightarrow> ('g, 'p) conn \<Rightarrow> ('g, 'p) conn outcome" where
  "cmdDate E c =
     (case now E of (Y, M, D, h, m, s) \<Rightarrow>
        say (PrintfLine (bs ''111 '' @ pad0 4 Y @ pad0 2 M @ pad0 2 D @ pad0 2 h @ pad0 2 m @ pad0 2 s
                         @ bs '' YYYYMMDDhhmmss'')) c)"

definition cmdSlave :: "('g, 'p) conn \<Rightarrow> ('g, 'p) conn outcome" where
  "cmdSlave = say (PrintfLine (bs ''202 slave status noted''))"

text \<open>The handshake's outcome and the encrypted connection's reader are part of the environment.\<close>

definition cmdStartTLS :: "env \<Rightarrow> ('g, 'p) conn \<Rightarrow> ('g, 'p) conn outcome" where
  "cmdStartTLS E c =
     (if \<not> TLSConfig (cfg E) then say (PrintfLine (bs ''580 TLS not configured'')) c
      else if tlsStarted c then say (PrintfLine (bs ''502 TLS already activated'')) c
      else AbortOnErr (PrintfLine (bs ''382 continue with TLS negotiation'') c)
        (\<lambda>c. case handshake E of
           None \<Rightarrow> Ret False c
         | Some (certs, u) \<Rightarrow>
             postTLS True (cfg E) certs (Cleanup (c\<lparr>rd := SetReader u (rd c)\<rparr>))))"

subsection \<open>scmd\_auth.go\<close>

definition authCmdUser :: "env \<Rightarrow> bytes list \<Rightarrow> ('g, 'p) conn \<Rightarrow> ('g, 'p) conn outcome" where
  "authCmdUser E args c =
     (case pullActiveLogin c of (ol, c) \<Rightarrow>
      if ol \<noteq> None then say (PrintfLine (bs ''482 authentication commands issued out of sequence'')) c
      else if authenticated c then say (PrintfLine (bs ''502 command unavailable'')) c
      else
        case userPassProvider (cfg E) of
          None \<Rightarrow> say (PrintfLine (bs ''503 AUTHINFO USER unimplemented'')) c
        | Some upp \<Rightarrow>
            if \<not> UnsafePass (cfg E) \<and> \<not> tlsStarted c then say (PrintfLine (bs ''483 TLS required'')) c
            else
              case NNTPUserPassByName upp (args ! 0) of (u, h) \<Rightarrow>
              if UnsafeEarlyUserReject (cfg E) \<and> u = None
              then say (PrintfLine (bs ''481 authentication failed'')) c
              else
                (case u of
                   Some u' \<Rightarrow>
                     if h = [] then
                       AbortOnErr (PrintfLine (bs ''281 authentication accepted'') c)
                         (\<lambda>c. Ret True (loginSuccess u' c))
                     else
                       AbortOnErr (PrintfLine (bs ''381 password required'') c)
                         (\<lambda>c. Ret True (c\<lparr>activeLogin := Some \<lparr>ui = u, ch = h\<rparr>\<rparr>))
                 | None \<Rightarrow>
                     AbortOnErr (PrintfLine (bs ''381 password required'') c)
                       (\<lambda>c. Ret True (c\<lparr>activeLogin := Some \<lparr>ui = u, ch = h\<rparr>\<rparr>))))"

definition authCmdPass :: "env \<Rightarrow> bytes list \<Rightarrow> ('g, 'p) conn \<Rightarrow> ('g, 'p) conn outcome" where
  "authCmdPass E args c =
     (case pullActiveLogin c of (ol, c) \<Rightarrow>
      case ol of
        None \<Rightarrow>
          if authenticated c then say (PrintfLine (bs ''502 command unavailable'')) c
          else if userPassProvider (cfg E) = None
          then say (PrintfLine (bs ''503 AUTHINFO PASS unimplemented'')) c
          else if \<not> UnsafePass (cfg E) \<and> \<not> tlsStarted c then say (PrintfLine (bs ''483 TLS required'')) c
          else say (PrintfLine (bs ''482 authentication commands issued out of sequence'')) c
      | Some l \<Rightarrow>
          (case ui l of
             None \<Rightarrow> say (PrintfLine (bs ''481 authentication failed'')) c
           | Some u \<Rightarrow>
               if ch l \<noteq> [] \<and> (case userPassProvider (cfg E) of
                                   None \<Rightarrow> True
                                 | Some upp \<Rightarrow> \<not> NNTPCheckPass upp (ch l) (args ! 0))
               then say (PrintfLine (bs ''481 authentication failed'')) c
               else AbortOnErr (PrintfLine (bs ''281 authentication accepted'') c)
                      (\<lambda>c. Ret True (loginSuccess u c))))"

definition authCmdSASL :: "bytes list \<Rightarrow> ('g, 'p) conn \<Rightarrow> ('g, 'p) conn outcome" where
  "authCmdSASL args =
     say (PrintfLine (bs ''503 AUTHINFO SASL '' @ ToUpperASCII (args ! 0) @ bs '' unimplemented''))"

subsection \<open>scmd\_read.go\<close>

definition commonArticleHandler ::
  "('g, 'p) NNTPProvider \<Rightarrow> art_kind \<Rightarrow> bytes list \<Rightarrow> ('g, 'p) conn \<Rightarrow> ('g, 'p) conn outcome" where
  "commonArticleHandler P kind args c =
     (if \<not> AllowReading (priv c) then say ResAuthRequired c
      else if length args > 0 then
        let id = args ! 0 in
        if ValidMessageID id then
          if ReservedMessageID id then say ResNoArticleWithThatMsgID c
          else call_or P (GetArticleByMsgID kind (CutMessageID id)) ResNoArticleWithThatMsgID c
        else
          (case ParseUint id of
             Some n \<Rightarrow>
               if CurrentGroup c = None then say ResNoNewsgroupSelected c
               else if \<not> validMessageNum n then say ResNoArticleWithThatNum c
               else call_or P (GetArticleByNum kind n) ResNoArticleWithThatNum c
           | None \<Rightarrow> say (PrintfLine (bs ''501 unrecognised message identifier'')) c)
      else if CurrentGroup c = None then say ResNoNewsgroupSelected c
      else call_or P (GetArticleByCurr kind) ResCurrentArticleNumberIsInvalid c)"

definition cmdGroup ::
  "('g, 'p) NNTPProvider \<Rightarrow> bytes list \<Rightarrow> ('g, 'p) conn \<Rightarrow> ('g, 'p) conn outcome" where
  "cmdGroup P args c =
     (if \<not> FullValidGroupSlice (args ! 0) then say (PrintfLine (bs ''501 invalid group name'')) c
      else if \<not> AllowReading (priv c) then say ResAuthRequired c
      else call_or P (SelectGroup (args ! 0)) ResNoSuchNewsgroup c)"

definition cmdListGroup ::
  "('g, 'p) NNTPProvider \<Rightarrow> bytes list \<Rightarrow> ('g, 'p) conn \<Rightarrow> ('g, 'p) conn outcome" where
  "cmdListGroup P args c =
     (if length args > 0 \<and> \<not> FullValidGroupSlice (args ! 0)
      then say (PrintfLine (bs ''501 invalid group name'')) c
      else if \<not> length args > 0 \<and> CurrentGroup c = None then say ResNoNewsgroupSelected c
      else
        let gn = (if length args > 0 then args ! 0 else []);
            (rmin, rmax, valid) = (if length args > 1 then parseRange (args ! 1) else (1, - 1, True))
        in if \<not> valid then say (PrintfLine (bs ''501 invalid range'')) c
           else if \<not> AllowReading (priv c) then say ResAuthRequired c
           else call_or P (SelectAndListGroup gn rmin rmax) ResNoSuchNewsgroup c)"

definition cmdNext :: "('g, 'p) NNTPProvider \<Rightarrow> ('g, 'p) conn \<Rightarrow> ('g, 'p) conn outcome" where
  "cmdNext P c =
     (if CurrentGroup c = None then say ResNoNewsgroupSelected c else call_only P SelectNextArticle c)"

definition cmdLast :: "('g, 'p) NNTPProvider \<Rightarrow> ('g, 'p) conn \<Rightarrow> ('g, 'p) conn outcome" where
  "cmdLast P c =
     (if CurrentGroup c = None then say ResNoNewsgroupSelected c else call_only P SelectPrevArticle c)"

definition current_year :: "env \<Rightarrow> int" where
  "current_year E = int (fst (now E))"

definition cmdNewNews ::
  "env \<Rightarrow> ('g, 'p) NNTPProvider \<Rightarrow> bytes list \<Rightarrow> ('g, 'p) conn \<Rightarrow> ('g, 'p) conn outcome" where
  "cmdNewNews E P args c =
     (if \<not> SupportsNewNews P then say (PrintfLine (bs ''503 unimplemented'')) c
      else let wm = args ! 0 in
        if \<not> ValidWildmat wm then say (PrintfLine (bs ''501 invalid wildmat'')) c
        else case parseDateTime (current_year E) (args ! 1) (args ! 2) of
               Inl l \<Rightarrow> say (PrintfLine l) c
             | Inr qt \<Rightarrow>
                 if \<not> AllowReading (priv c) then say ResAuthRequired c
                 else call_only P (ListNewNews cmdNewNewsOpener wm qt) c)"

definition cmdNewGroups ::
  "env \<Rightarrow> ('g, 'p) NNTPProvider \<Rightarrow> bytes list \<Rightarrow> ('g, 'p) conn \<Rightarrow> ('g, 'p) conn outcome" where
  "cmdNewGroups E P args c =
     (case parseDateTime (current_year E) (args ! 0) (args ! 1) of
        Inl l \<Rightarrow> say (PrintfLine l) c
      | Inr qt \<Rightarrow>
          if \<not> AllowReading (priv c) then say ResAuthRequired c
          else call_only P (ListNewGroups cmdNewGroupsOpener qt) c)"

definition commonCmdOver ::
  "('g, 'p) NNTPProvider \<Rightarrow> bytes list \<Rightarrow> bool \<Rightarrow> ('g, 'p) conn \<Rightarrow> ('g, 'p) conn outcome" where
  "commonCmdOver P args over c =
     (if \<not> AllowReading (priv c) then say ResAuthRequired c
      else if length args > 0 then
        let id = args ! 0 in
        if ValidMessageID id then
          if \<not> SupportsOverByMsgID P then say (PrintfLine (bs ''503 OVER MSGID unimplemented'')) c
          else if ReservedMessageID id then say ResNoArticleWithThatMsgID c
          else call_or P (GetOverByMsgID (CutMessageID id)) ResNoArticleWithThatMsgID c
        else if CurrentGroup c = None then say ResNoNewsgroupSelected c
        else
          (case parseRange id of (rmin, rmax, valid) \<Rightarrow>
             if \<not> valid then say (PrintfLine (bs ''501 invalid range'')) c
             else if over then
               if rmax \<ge> 0 \<and> rmax < rmin then say ResNoArticlesInThatRange c
               else call_or P (GetOverByRange rmin rmax) ResNoArticlesInThatRange c
             else
               if rmax \<ge> 0 \<and> rmax < rmin then say ResXNoArticles c
               else call_or P (GetXOverByRange rmin rmax) ResXNoArticles c)
      else if CurrentGroup c = None then say ResNoNewsgroupSelected c
      else call_or P GetOverByCurr ResCurrentArticleNumberIsInvalid c)"

definition commonCmdHdr ::
  "('g, 'p) NNTPProvider \<Rightarrow> bytes list \<Rightarrow> bool \<Rightarrow> ('g, 'p) conn \<Rightarrow> ('g, 'p) conn outcome" where
  "commonCmdHdr P args hdr c =
     (if \<not> SupportsHdr P then say (PrintfLine (bs ''503 (X)HDR unimplemented'')) c
      else if \<not> AllowReading (priv c) then say ResAuthRequired c
      else let hq = ToLowerASCII (args ! 0) in
        if \<not> validHeaderQuery hq then say (PrintfLine (bs ''501 invalid header query'')) c
        else if length args > 1 then
          let id = args ! 1 in
          if ValidMessageID id then
            if ReservedMessageID id then say ResNoArticleWithThatMsgID c
            else if hdr then call_or P (GetHdrByMsgID hq (CutMessageID id)) ResNoArticleWithThatMsgID c
            else call_or P (GetXHdrByMsgID hq (CutMessageID id)) ResNoArticleWithThatMsgID c
          else if CurrentGroup c = None then say ResNoNewsgroupSelected c
          else
            (case parseRange id of (rmin, rmax, valid) \<Rightarrow>
               if \<not> valid then say (PrintfLine (bs ''501 invalid range'')) c
               else if hdr then
                 if rmax \<ge> 0 \<and> rmax < rmin then say ResNoArticlesInThatRange c
                 else call_or P (GetHdrByRange hq rmin rmax) ResNoArticlesInThatRange c
               else
                 if rmax \<ge> 0 \<and> rmax < rmin then say ResXNoArticles c
                 else call_or P (GetXHdrByRange hq rmin rmax) ResXNoArticles c)
        else if CurrentGroup c = None then say ResNoNewsgroupSelected c
        else if hdr then call_or P (GetHdrByCurr hq) ResCurrentArticleNumberIsInvalid c
        else call_or P (GetXHdrByCurr hq) ResCurrentArticleNumberIsInvalid c)"

subsection \<open>scmd\_list.go\<close>

text \<open>A command without a wildmat passes nil, an empty slice.\<close>

definition list_groups ::
  "('g, 'p) NNTPProvider \<Rightarrow> (bytes \<Rightarrow> pcall) \<Rightarrow> bytes list \<Rightarrow> ('g, 'p) conn \<Rightarrow> ('g, 'p) conn outcome" where
  "list_groups P pc args c =
     (let wm = (if length args > 0 then args ! 0 else []) in
      if length args > 0 \<and> \<not> ValidWildmat wm then say (PrintfLine (bs ''501 invalid wildmat'')) c
      else if \<not> AllowReading (priv c) \<and> \<not> AllowPosting (priv c) then say ResAuthRequired c
      else call_only P (pc wm) c)"

definition listCmdActive ::
  "('g, 'p) NNTPProvider \<Rightarrow> bytes list \<Rightarrow> ('g, 'p) conn \<Rightarrow> ('g, 'p) conn outcome" where
  "listCmdActive P = list_groups P (ListActiveGroups listCmdListOpener)"

definition listCmdNewsgroups ::
  "('g, 'p) NNTPProvider \<Rightarrow> bytes list \<Rightarrow> ('g, 'p) conn \<Rightarrow> ('g, 'p) conn outcome" where
  "listCmdNewsgroups P = list_groups P (ListNewsgroups listCmdListOpener)"

definition cmdXGTitle ::
  "('g, 'p) NNTPProvider \<Rightarrow> bytes list \<Rightarrow> ('g, 'p) conn \<Rightarrow> ('g, 'p) conn outcome" where
  "cmdXGTitle P = list_groups P (ListNewsgroups cmdXGTitleOpener)"

definition overviewFmt :: bytes where
  "overviewFmt = line ''Subject:'' @ line ''From:'' @ line ''Date:'' @ line ''Message-ID:'' @
     line ''References:'' @ line '':bytes'' @ line '':lines'' @ line ''Xref:full''"

definition listCmdOverviewFmt :: "('g, 'p) conn \<Rightarrow> ('g, 'p) conn outcome" where
  "listCmdOverviewFmt c = AbortOnErr (ResListFollows c) (\<lambda>c. say (DotBlock overviewFmt) c)"

subsection \<open>scmd\_post.go\<close>

definition cmdPost :: "('g, 'p) NNTPProvider \<Rightarrow> ('g, 'p) conn \<Rightarrow> ('g, 'p) conn outcome" where
  "cmdPost P c =
     (if \<not> SupportsPost P then say (PrintfLine (bs ''503 POST unimplemented'')) c
      else if \<not> AllowPosting (priv c) then say ResPostingNotPermitted c
      else call_or P HandlePost ResPostingNotPermitted c)"

definition cmdIHave ::
  "('g, 'p) NNTPProvider \<Rightarrow> bytes list \<Rightarrow> ('g, 'p) conn \<Rightarrow> ('g, 'p) conn outcome" where
  "cmdIHave P args c =
     (if \<not> SupportsIHave P then say (PrintfLine (bs ''503 IHAVE unimplemented'')) c
      else let id = args ! 0 in
        if \<not> ValidMessageID id then say ResBadMessageID c
        else if \<not> AllowPosting (priv c) then say ResAuthRequired c
        else if ReservedMessageID id then say ResTransferNotWanted c
        else call_or P (HandleIHave (CutMessageID id)) ResTransferNotWanted c)"

definition cmdCheck ::
  "('g, 'p) NNTPProvider \<Rightarrow> bytes list \<Rightarrow> ('g, 'p) conn \<Rightarrow> ('g, 'p) conn outcome" where
  "cmdCheck P args c =
     (if \<not> SupportsStream P then say (PrintfLine (bs ''503 STREAMING unimplemented'')) c
      else let id = args ! 0 in
        if \<not> ValidMessageID id then say ResBadMessageID c
        else if \<not> AllowPosting (priv c) \<and> \<not> AllowReading (priv c) then say ResAuthRequired c
        else let cid = CutMessageID id in
          if ReservedMessageID id then say (ResArticleNotWanted cid) c
          else call_or P (HandleCheck cid) (ResArticleNotWanted cid) c)"

text \<open>\<open>defer r.Discard(-1)\<close> runs when the handler returns and when it panics.\<close>

fun defer_discard :: "('g, 'p) conn outcome \<Rightarrow> ('g, 'p) conn outcome" where
  "defer_discard (Ret b c) = (case dr_Discard c of None \<Rightarrow> Hang | Some c \<Rightarrow> Ret b c)"
| "defer_discard (Panic c) = (case dr_Discard c of None \<Rightarrow> Hang | Some c \<Rightarrow> Panic c)"
| "defer_discard Hang = Hang"

definition cmdTakeThis ::
  "('g, 'p) NNTPProvider \<Rightarrow> bytes list \<Rightarrow> ('g, 'p) conn \<Rightarrow> ('g, 'p) conn outcome" where
  "cmdTakeThis P args c =
     (let c = OpenReader c in
      defer_discard
        (if \<not> SupportsStream P then say (PrintfLine (bs ''503 STREAMING unimplemented'')) c
         else let id = args ! 0 in
           if \<not> ValidMessageID id then say ResBadMessageID c
           else if \<not> AllowPosting (priv c) then say ResAuthRequired c
           else let cid = CutMessageID id in
             if ReservedMessageID id then say (ResArticleRejected cid None) c
             else call_or P (HandleTakeThis cid) (ResArticleRejected cid None) c))"

subsection \<open>scmd\_listen.go\<close>

text \<open>The condition \<open>!SupportsXListen() || true\<close> always holds.\<close>

definition cmdXListen :: "('g, 'p) conn \<Rightarrow> ('g, 'p) conn outcome" where
  "cmdXListen = say (PrintfLine (bs ''503 XLISTEN unimplemented''))"

definition cmdXWait :: "('g, 'p) conn \<Rightarrow> ('g, 'p) conn outcome" where
  "cmdXWait = say (PrintfLine (bs ''503 XLISTEN unimplemented''))"

subsection \<open>Keywords with their own table\<close>

definition run_list ::
  "cmdfunc \<Rightarrow> ('g, 'p) NNTPProvider \<Rightarrow> bytes list \<Rightarrow> ('g, 'p) conn \<Rightarrow> ('g, 'p) conn outcome" where
  "run_list f P args c =
     (case f of
        F_listCmdActive \<Rightarrow> listCmdActive P args c
      | F_listCmdNewsgroups \<Rightarrow> listCmdNewsgroups P args c
      | _ \<Rightarrow> listCmdOverviewFmt c)"

definition cmdList :: "('g, 'p) NNTPProvider \<Rightarrow> bytes \<Rightarrow> ('g, 'p) conn \<Rightarrow> ('g, 'p) conn outcome" where
  "cmdList P rest c =
     (if length rest = 0 then andThen (listCmdActive P [] c) (\<lambda>_. Ret True)
      else case parseKeyword rest of (x, rest) \<Rightarrow>
        (case map_of listCommandMap (take x rest) of
           None \<Rightarrow> say (PrintfLine (bs ''501 unrecognised LIST keyword'')) c
         | Some cmd \<Rightarrow>
             (case parse_args rest x (maxargs cmd) of
                Extra args y \<Rightarrow>
                  if \<not> allowextra cmd then say (PrintfLine (bs ''501 too much parameters'')) c
                  else andThen (run_list (cmdfunc cmd) P args c) (\<lambda>_. Ret True)
              | Args args \<Rightarrow>
                  if length args < minargs cmd then say (PrintfLine (bs ''501 not enough parameters'')) c
                  else andThen (run_list (cmdfunc cmd) P args c) (\<lambda>_. Ret True))))"

definition run_auth :: "cmdfunc \<Rightarrow> env \<Rightarrow> bytes list \<Rightarrow> ('g, 'p) conn \<Rightarrow> ('g, 'p) conn outcome" where
  "run_auth f E args c =
     (case f of
        F_authCmdUser \<Rightarrow> authCmdUser E args c
      | F_authCmdPass \<Rightarrow> authCmdPass E args c
      | _ \<Rightarrow> authCmdSASL args c)"

definition cmdAuthInfo :: "env \<Rightarrow> bytes \<Rightarrow> ('g, 'p) conn \<Rightarrow> ('g, 'p) conn outcome" where
  "cmdAuthInfo E rest c =
     (if length rest = 0 then say (PrintfLine (bs ''501 AUTHINFO keyword expected'')) c
      else case parseKeyword rest of (x, rest) \<Rightarrow>
        (case map_of authCommandMap (take x rest) of
           None \<Rightarrow> say (PrintfLine (bs ''501 unrecognised AUTHINFO keyword'')) c
         | Some cmd \<Rightarrow>
             (case parse_args rest x (maxargs cmd) of
                Extra args y \<Rightarrow>
                  if \<not> allowextra cmd then say (PrintfLine (bs ''501 too much parameters'')) c
                  else andThen (run_auth (cmdfunc cmd) E args c) (\<lambda>_. Ret True)
              | Args args \<Rightarrow>
                  if length args < minargs cmd then say (PrintfLine (bs ''501 not enough parameters'')) c
                  else andThen (run_auth (cmdfunc cmd) E args c) (\<lambda>_. Ret True))))"

subsection \<open>Dispatch\<close>

definition run ::
  "cmdfunc \<Rightarrow> env \<Rightarrow> ('g, 'p) NNTPProvider \<Rightarrow> bytes list \<Rightarrow> bytes \<Rightarrow> ('g, 'p) conn
   \<Rightarrow> ('g, 'p) conn outcome" where
  "run f E P args rest c =
     (case f of
        F_cmdVoid \<Rightarrow> cmdVoid rest c
      | F_cmdCapabilities \<Rightarrow> cmdCapabilities E P c
      | F_cmdMode \<Rightarrow> cmdMode P args c
      | F_cmdHelp \<Rightarrow> cmdHelp args c
      | F_cmdList \<Rightarrow> cmdList P rest c
      | F_cmdQuit \<Rightarrow> cmdQuit c
      | F_cmdSlave \<Rightarrow> cmdSlave c
      | F_cmdAuthInfo \<Rightarrow> cmdAuthInfo E rest c
      | F_cmdStartTLS \<Rightarrow> cmdStartTLS E c
      | F_cmdDate \<Rightarrow> cmdDate E c
      | F_cmdGroup \<Rightarrow> cmdGroup P args c
      | F_cmdListGroup \<Rightarrow> cmdListGroup P args c
      | F_cmdNext \<Rightarrow> cmdNext P c
      | F_cmdLast \<Rightarrow> cmdLast P c
      | F_commonArticleHandler k \<Rightarrow> commonArticleHandler P k args c
      | F_cmdNewGroups \<Rightarrow> cmdNewGroups E P args c
      | F_cmdNewNews \<Rightarrow> cmdNewNews E P args c
      | F_cmdXGTitle \<Rightarrow> cmdXGTitle P args c
      | F_commonCmdOver over \<Rightarrow> commonCmdOver P args over c
      | F_commonCmdHdr hdr \<Rightarrow> commonCmdHdr P args hdr c
      | F_cmdPost \<Rightarrow> cmdPost P c
      | F_cmdIHave \<Rightarrow> cmdIHave P args c
      | F_cmdCheck \<Rightarrow> cmdCheck P args c
      | F_cmdTakeThis \<Rightarrow> cmdTakeThis P args c
      | F_cmdXListen \<Rightarrow> cmdXListen c
      | F_cmdXWait \<Rightarrow> cmdXWait c
      | F_listCmdActive \<Rightarrow> listCmdActive P args c
      | F_listCmdNewsgroups \<Rightarrow> listCmdNewsgroups P args c
      | F_listCmdOverviewFmt \<Rightarrow> listCmdOverviewFmt c
      | F_authCmdUser \<Rightarrow> authCmdUser E args c
      | F_authCmdPass \<Rightarrow> authCmdPass E args c
      | F_authCmdSASL \<Rightarrow> authCmdSASL args c)"

end
