(* ===== verification/NntpServer.thy ===== *)
theory NntpServer
  imports NntpCmds
begin

text \<open>
  The server side of a connection, \<open>nntp/server.go\<close>: reading command lines, dispatching them, and the
  life of a connection from its set-up to its end. \<open>serve\<close> is a loop that might run for ever, so it is
  a partial function; the environment of its \<open>n\<close>-th command is \<open>Es n\<close>.
\<close>

subsection \<open>One command line\<close>

definition strip_eol :: "bytes \<Rightarrow> bytes" where
  "strip_eol p =
     (if length p > 1 \<and> p ! (length p - 2) = CR then take (length p - 2) p else take (length p - 1) p)"

text \<open>The inner \<open>continue\<close> goes on with the next character.\<close>

fun check_chars :: "bytes \<Rightarrow> ('g, 'p) conn \<Rightarrow> ('g, 'p) conn outcome" where
  "check_chars [] c = Ret True c"
| "check_chars (x # incmd) c =
     (if x = 0 \<or> x = CR
      then AbortOnErr (PrintfLine (bs ''501 command contains illegal characters'') c) (check_chars incmd)
      else check_chars incmd c)"

definition dispatch ::
  "env \<Rightarrow> ('g, 'p) NNTPProvider \<Rightarrow> bytes \<Rightarrow> ('g, 'p) conn \<Rightarrow> ('g, 'p) conn outcome" where
  "dispatch E P incmd c =
     (case parseKeyword incmd of (x, incmd) \<Rightarrow>
        (case map_of commandMap (take x incmd) of
           None \<Rightarrow> say (PrintfLine (bs ''500 sir I do not understand'')) c
         | Some cmd \<Rightarrow>
             (case parse_args incmd x (maxargs cmd) of
                Extra args y \<Rightarrow>
                  if \<not> allowextra cmd then say (PrintfLine (bs ''501 too many parameters'')) c
                  else run (cmdfunc cmd) E P args (drop y incmd) c
              | Args args \<Rightarrow>
                  if length args < minargs cmd then say (PrintfLine (bs ''501 not enough parameters'')) c
                  else run (cmdfunc cmd) E P args [] c)))"

definition command_line ::
  "env \<Rightarrow> ('g, 'p) NNTPProvider \<Rightarrow> bytes \<Rightarrow> ('g, 'p) conn \<Rightarrow> ('g, 'p) conn outcome" where
  "command_line E P incmd c = andThen (check_chars incmd c) (\<lambda>_. dispatch E P incmd)"

subsection \<open>The loop\<close>

text \<open>
  A round of the loop goes on, or ends the connection with the value of \<open>abortConn\<close>, or never ends.
  A panic is recovered, and \<open>serveClient\<close> then returns the zero value \<open>false\<close>.
\<close>

datatype 'c round = Continue 'c | Return bool 'c | Blocked

fun recovered :: "'c outcome \<Rightarrow> 'c round" where
  "recovered (Ret b c) = (if b then Continue c else Return False c)"
| "recovered (Panic c) = Return False c"
| "recovered Hang = Blocked"

partial_function (option) drain :: "BufReader \<Rightarrow> (io_err option \<times> BufReader) option" where
  "drain r = do {
     ((p, e), r) \<leftarrow> ReadUntil 512 LF r;
     if e = Some ErrDelimNotFound then drain r else Some (e, r)
   }"

definition serve_round ::
  "env \<Rightarrow> ('g, 'p) NNTPProvider \<Rightarrow> ('g, 'p) conn \<Rightarrow> ('g, 'p) conn round" where
  "serve_round E P c =
     (case ReadUntil 512 LF (rd c) of
        None \<Rightarrow> Blocked
      | Some ((p, e), r) \<Rightarrow>
          let c = c\<lparr>rd := r\<rparr> in
          (case e of
             None \<Rightarrow> recovered (command_line E P (strip_eol p) c)
           | Some e \<Rightarrow>
               if e = ErrDelimNotFound then
                 (case drain r of
                    None \<Rightarrow> Blocked
                  | Some (e, r) \<Rightarrow>
                      let c = c\<lparr>rd := r\<rparr> in
                      (case e of
                         Some e \<Rightarrow> Return (e \<noteq> EOF) c
                       | None \<Rightarrow> recovered (say (PrintfLine (bs ''501 command too long'')) c)))
               else Return (e \<noteq> EOF) c))"

partial_function (option) serve ::
  "(nat \<Rightarrow> env) \<Rightarrow> ('g, 'p) NNTPProvider \<Rightarrow> nat \<Rightarrow> ('g, 'p) conn \<Rightarrow> (bool \<times> ('g, 'p) conn) option" where
  "serve Es P n c =
     (case serve_round (Es n) P c of
        Continue c \<Rightarrow> serve Es P (n + 1) c
      | Return b c \<Rightarrow> Some (b, c)
      | Blocked \<Rightarrow> None)"

definition greet :: "('g, 'p) conn \<Rightarrow> io_err option \<times> ('g, 'p) conn" where
  "greet c =
     (if AllowPosting (priv c) then PrintfLine (bs ''200 welcome! posting allowed.'') c
      else PrintfLine (bs ''201 welcome! posting forbidden.'') c)"

definition serveClient ::
  "(nat \<Rightarrow> env) \<Rightarrow> ('g, 'p) NNTPProvider \<Rightarrow> ('g, 'p) conn \<Rightarrow> (bool \<times> ('g, 'p) conn) option" where
  "serveClient Es P c =
     (case greet c of
        (Some e, c) \<Rightarrow> Some (False, c)
      | (None, c) \<Rightarrow> serve Es P 0 c)"

text \<open>
  \<open>handleConnection\<close> up to \<open>serveClient\<close>: \<open>u\<close> is what the client will send in plaintext, \<open>w\<close> how many
  responses it will take. The log of the connection is made after \<open>postTLS\<close>. \<open>Ret False\<close> is a connection closed because the handshake failed; a panic
  here is outside the recovery of \<open>serveClient\<close>.
\<close>

definition setup_conn ::
  "env \<Rightarrow> reader \<Rightarrow> nat option \<Rightarrow> 'p \<Rightarrow> ('g, 'p) conn outcome" where
  "setup_conn E u w s =
     (let c = \<lparr>rd = NewBufReader u, dr = None, out = [], wleft = w, CurrentGroup = None,
               priv = \<lparr>AllowReading = False, AllowPosting = False\<rparr>, authenticated = False,
               activeLogin = None, tlsConn = False, pst = s\<rparr>;
          c = setupDefaults (cfg E) c
      in if NNTPS (cfg E) then
           (case handshake E of
              None \<Rightarrow> Ret False c
            | Some (certs, u) \<Rightarrow> postTLS False (cfg E) certs (c\<lparr>rd := NewBufReader u\<rparr>))
         else Ret True c)"

datatype 'c ended = Ended bool 'c | Crashed | Running

definition handleConnection ::
  "(nat \<Rightarrow> env) \<Rightarrow> ('g, 'p) NNTPProvider \<Rightarrow> reader \<Rightarrow> nat option \<Rightarrow> 'p \<Rightarrow> ('g, 'p) conn ended" where
  "handleConnection Es P u w s =
     (case setup_conn (Es 0) u w s of
        Ret True c \<Rightarrow>
          (case serveClient (\<lambda>n. Es (n + 1)) P c of
             None \<Rightarrow> Running
           | Some (b, c) \<Rightarrow> Ended b c)
      | Ret False c \<Rightarrow> Ended False c
      | Panic c \<Rightarrow> Crashed
      | Hang \<Rightarrow> Running)"

end
