(* ===== verification/NntpLaws.thy ===== *)
theory NntpLaws
  imports NntpServer
begin

text \<open>
  What the server relies on from a provider and guarantees to its client. The locale
  \<open>provider_laws\<close> states the contract of \<open>NNTPProvider\<close>: a call returns, keeps the reader's
  invariant and what the server alone manages (privileges, authentication, TLS), never reads more
  than there is, answers the client when it returns \<open>true\<close> or has no result and is silent when it
  returns \<open>false\<close>, and selects a group only in the two calls made for it. The lemmas follow the
  handlers; the properties about the loop are at the end.
\<close>

subsection \<open>Relations between connection states\<close>

fun ends :: "(bool \<Rightarrow> 'c \<Rightarrow> bool) \<Rightarrow> ('c \<Rightarrow> bool) \<Rightarrow> 'c outcome \<Rightarrow> bool" where
  "ends Q R (Ret b c) = Q b c"
| "ends Q R (Panic c) = R c"
| "ends Q R Hang = False"

definition reads :: "('g, 'p) conn \<Rightarrow> ('g, 'p) conn \<Rightarrow> bool" where
  "reads c c' \<longleftrightarrow> wf (rd c') \<and> length (events (rd c')) \<le> length (events (rd c)) \<and> (\<exists>r. out c' = out c @ r)"

definition keeps :: "('g, 'p) conn \<Rightarrow> ('g, 'p) conn \<Rightarrow> bool" where
  "keeps c c' \<longleftrightarrow> reads c c' \<and> priv c' = priv c \<and> authenticated c' = authenticated c \<and>
     activeLogin c' = activeLogin c \<and> tlsConn c' = tlsConn c"

definition answered :: "('g, 'p) conn \<Rightarrow> ('g, 'p) conn \<Rightarrow> bool" where
  "answered c c' \<longleftrightarrow> length (out c) < length (out c') \<or> wleft c' = Some 0"

definition silent :: "('g, 'p) conn \<Rightarrow> ('g, 'p) conn \<Rightarrow> bool" where
  "silent c c' \<longleftrightarrow> out c' = out c \<and> wleft c' = wleft c"

fun no_result :: "pcall \<Rightarrow> bool" where
  "no_result SelectNextArticle = True"
| "no_result SelectPrevArticle = True"
| "no_result (ListNewNews _ _ _) = True"
| "no_result (ListNewGroups _ _) = True"
| "no_result (ListActiveGroups _ _) = True"
| "no_result (ListNewsgroups _ _) = True"
| "no_result _ = False"

fun selects :: "pcall \<Rightarrow> bool" where
  "selects (SelectGroup _) = True"
| "selects (SelectAndListGroup _ _ _) = True"
| "selects _ = False"

lemma ends_mono:
  "ends Q R r \<Longrightarrow> (\<And>b c. Q b c \<Longrightarrow> Q' b c) \<Longrightarrow> (\<And>c. R c \<Longrightarrow> R' c) \<Longrightarrow> ends Q' R' r"
  by (cases r) auto

lemma ends_andThen:
  "ends Q R r \<Longrightarrow> (\<And>b c. Q b c \<Longrightarrow> ends Q' R' (k b c)) \<Longrightarrow> (\<And>c. R c \<Longrightarrow> R' c) \<Longrightarrow> ends Q' R' (andThen r k)"
  by (cases r) auto

lemma reads_refl [simp]: "wf (rd c) \<Longrightarrow> reads c c"
  by (simp add: reads_def)

lemma keeps_refl [simp]: "wf (rd c) \<Longrightarrow> keeps c c"
  by (simp add: keeps_def)

lemma reads_trans: "reads a b \<Longrightarrow> reads b c \<Longrightarrow> reads a c"
  unfolding reads_def by (metis append_assoc order_trans)

lemma keeps_trans: "keeps a b \<Longrightarrow> keeps b c \<Longrightarrow> keeps a c"
  by (auto simp: keeps_def intro: reads_trans)

lemma keeps_wf: "keeps c c' \<Longrightarrow> wf (rd c')" and reads_wf: "reads c c' \<Longrightarrow> wf (rd c')"
  by (simp_all add: keeps_def reads_def)

lemma answered_trans1: "answered a b \<Longrightarrow> keeps b c \<Longrightarrow> (wleft b = Some 0 \<Longrightarrow> wleft c = Some 0) \<Longrightarrow> answered a c"
  by (auto simp: answered_def keeps_def reads_def)

lemma answered_trans2: "keeps a b \<Longrightarrow> answered b c \<Longrightarrow> answered a c"
  by (auto simp: answered_def keeps_def reads_def)

lemma ends_if: "(b \<Longrightarrow> ends Q R x) \<Longrightarrow> (\<not> b \<Longrightarrow> ends Q R y) \<Longrightarrow> ends Q R (if b then x else y)"
  by simp

lemma ends_Let: "ends Q R (f a) \<Longrightarrow> ends Q R (Let a f)"
  by simp

lemma ends_option:
  "(a = None \<Longrightarrow> ends Q R x) \<Longrightarrow> (\<And>v. a = Some v \<Longrightarrow> ends Q R (f v)) \<Longrightarrow> ends Q R (case a of None \<Rightarrow> x | Some v \<Rightarrow> f v)"
  by (cases a) auto

lemma ends_prod: "(\<And>x y. a = (x, y) \<Longrightarrow> ends Q R (f x y)) \<Longrightarrow> ends Q R (case a of (x, y) \<Rightarrow> f x y)"
  by (cases a) auto

lemma ends_sum:
  "(\<And>x. a = Inl x \<Longrightarrow> ends Q R (f x)) \<Longrightarrow> (\<And>y. a = Inr y \<Longrightarrow> ends Q R (g y)) \<Longrightarrow> ends Q R (case_sum f g a)"
  by (cases a) auto

lemma ends_parsed:
  "(\<And>x. a = Args x \<Longrightarrow> ends Q R (f x)) \<Longrightarrow> (\<And>x y. a = Extra x y \<Longrightarrow> ends Q R (g x y)) \<Longrightarrow> ends Q R (case_parsed f g a)"
  by (cases a) auto

lemmas ends_intros = ends_if ends_Let ends_option ends_prod ends_sum ends_parsed

subsection \<open>Writing\<close>

lemma flush_cases:
  obtains e where "wleft c = Some 0" "flush r c = (Some e, c)"
  | w where "flush r c = (None, c\<lparr>out := out c @ [r], wleft := w\<rparr>)"
proof (cases "wleft c")
  case None
  then have "flush r c = (None, c\<lparr>out := out c @ [r], wleft := None\<rparr>)" by (simp add: flush_def)
  then show ?thesis by (rule that(2))
next
  case (Some n)
  show ?thesis
  proof (cases n)
    case 0
    then show ?thesis using Some by (intro that(1)) (simp_all add: flush_def)
  next
    case (Suc m)
    then have "flush r c = (None, c\<lparr>out := out c @ [r], wleft := Some m\<rparr>)" using Some by (simp add: flush_def)
    then show ?thesis by (rule that(2))
  qed
qed

definition printer :: "(('g, 'p) conn \<Rightarrow> io_err option \<times> ('g, 'p) conn) \<Rightarrow> bool" where
  "printer f \<longleftrightarrow> (\<exists>r. f = flush r)"

lemma printer_PrintfLine [simp]: "printer (PrintfLine l)" and printer_DotBlock [simp]: "printer (DotBlock b)"
  by (auto simp: printer_def PrintfLine_def DotBlock_def)

lemma printer_Res [simp]:
  "printer ResListFollows" "printer ResNoSuchNewsgroup" "printer ResNoNewsgroupSelected"
  "printer ResCurrentArticleNumberIsInvalid" "printer ResXNoArticles" "printer ResNoArticleWithThatNum"
  "printer ResNoArticlesInThatRange" "printer ResNoArticleWithThatMsgID" "printer ResTransferNotWanted"
  "printer (ResArticleNotWanted i)" "printer (ResArticleRejected i e)" "printer ResPostingNotPermitted"
  "printer ResAuthRequired" "printer ResBadMessageID"
  by (simp_all add: Res_defs split: option.split)

lemma keeps_flush [simp]:
  "wf (rd c) \<Longrightarrow> keeps c (c\<lparr>out := out c @ r, wleft := w\<rparr>)"
  by (auto simp: keeps_def reads_def)

abbreviation ok :: "('g, 'p) conn \<Rightarrow> ('g, 'p) conn outcome \<Rightarrow> bool" where
  "ok c r \<equiv> ends (\<lambda>b c'. keeps c c' \<and> answered c c') (keeps c) r"

lemma AbortOnErr_printer:
  assumes "printer r" and "R c" and "\<And>x w. ends Q R (k (c\<lparr>out := out c @ [x], wleft := w\<rparr>))"
  shows "ends Q R (AbortOnErr (r c) k)"
proof -
  obtain x where "r = flush x" using assms(1) by (auto simp: printer_def)
  then show ?thesis using assms(2,3) by (cases rule: flush_cases [of c x]) auto
qed

lemma answered_flush [simp]: "answered c (c\<lparr>out := out c @ [x], wleft := w\<rparr>)"
  by (simp add: answered_def)

lemma ok_say: "printer r \<Longrightarrow> wf (rd c) \<Longrightarrow> ok c (say r c)"
  unfolding say_def by (rule AbortOnErr_printer) auto

lemma ok_trans: "keeps c c' \<Longrightarrow> ok c' r \<Longrightarrow> ok c r"
  by (erule ends_mono) (auto intro: keeps_trans answered_trans2)

lemma dr_Discard_ok:
  assumes "wf (rd c)"
  shows "\<exists>c'. dr_Discard c = Some c' \<and> keeps c c' \<and> silent c c' \<and> CurrentGroup c' = CurrentGroup c"
proof (cases "dr c")
  case None
  then show ?thesis using assms by (simp add: dr_Discard_def silent_def)
next
  case (Some d)
  obtain n e d' r' where n: "dot_discard ReadByte unread (- 1) 0 (d, rd c) = Some ((n, e), d', r')" "wf r'"
    "dot_discard ev_rd ev_unrd (- 1) 0 (d, events (rd c)) = Some ((n, e), d', events r')"
    using buf.dot_discard_sim [OF assms, of "- 1" 0 d] by (metis surj_pair)
  have "dot_size (d', events r') \<le> dot_size (d, events (rd c))"
    by (rule dot_discard_size [OF n(3)])
  then have "length (events r') \<le> length (events (rd c))" by (auto simp: dot_size_def split: if_splits)
  then show ?thesis using n Some
    by (simp add: dr_Discard_def DotReader_Discard_def keeps_def reads_def silent_def)
qed

lemma ok_PrintThen:
  assumes "printer r" and "wf (rd c)" and "\<And>c'. keeps c c' \<Longrightarrow> answered c c' \<Longrightarrow> ok c' (k c')"
  shows "ok c (AbortOnErr (r c) k)"
proof (rule AbortOnErr_printer [OF assms(1)])
  fix x w
  let ?c = "c\<lparr>out := out c @ [x], wleft := w\<rparr>"
  have "ok ?c (k ?c)" by (rule assms(3)) (simp_all add: assms(2))
  then show "ok c (k ?c)" by (rule ok_trans [OF keeps_flush [OF assms(2)]])
qed (simp add: assms(2))

lemmas printer_intros = printer_PrintfLine printer_DotBlock printer_Res

text \<open>The invariant of the selected group, and handlers that keep it.\<close>

definition ginv :: "('g, 'p) conn \<Rightarrow> bool" where
  "ginv c \<longleftrightarrow> CurrentGroup c \<noteq> None \<longrightarrow> AllowReading (priv c)"

abbreviation gok :: "('g, 'p) conn outcome \<Rightarrow> bool" where
  "gok r \<equiv> ends (\<lambda>b. ginv) ginv r"

lemma ginv_more [simp]: "ginv (c\<lparr>out := x, wleft := w\<rparr>) = ginv c"
  by (simp add: ginv_def)

lemma ginv_flush: "ginv c \<Longrightarrow> ginv (snd (flush r c))"
  by (cases rule: flush_cases [of c r]) auto

lemma g_say: "printer r \<Longrightarrow> wf (rd c) \<Longrightarrow> ginv c \<Longrightarrow> gok (say r c)"
  unfolding say_def by (rule AbortOnErr_printer) auto

lemma g_defer: "gok r \<Longrightarrow> ok c r \<Longrightarrow> gok (defer_discard r)"
proof (cases r)
  case (Ret b c1)
  assume "gok r" "ok c r"
  then have "ginv c1" "wf (rd c1)" using Ret by (auto dest: keeps_wf)
  then show ?thesis using dr_Discard_ok [of c1] Ret by (auto simp: ginv_def keeps_def)
next
  case (Panic c1)
  assume "gok r" "ok c r"
  then have "ginv c1" "wf (rd c1)" using Panic by (auto dest: keeps_wf)
  then show ?thesis using dr_Discard_ok [of c1] Panic by (auto simp: ginv_def keeps_def)
qed simp

subsection \<open>Authentication\<close>

text \<open>
  The specification of authentication: what a connection knows about its client and how that may
  change in one command. A login without a password, a checked password and a certificate are the
  only ways to become authenticated.
\<close>

record login =
  lpriv :: UserPriv
  lauth :: bool
  lpending :: "ActiveLogin option"
  ltls :: bool

definition login_of :: "('g, 'p) conn \<Rightarrow> login" where
  "login_of c = \<lparr>lpriv = priv c, lauth = authenticated c, lpending = activeLogin c, ltls = tlsConn c\<rparr>"

definition password_allowed :: "env \<Rightarrow> login \<Rightarrow> bool" where
  "password_allowed E v \<longleftrightarrow> UnsafePass (cfg E) \<or> ltls v"

inductive auth_step :: "env \<Rightarrow> login \<Rightarrow> login \<Rightarrow> bool" for E where
  idle: "auth_step E v v"
| forget: "auth_step E v (v\<lparr>lpending := None\<rparr>)"
| asked: "\<not> lauth v \<Longrightarrow> lpending v = None \<Longrightarrow> password_allowed E v \<Longrightarrow> userPassProvider (cfg E) = Some p \<Longrightarrow>
    NNTPUserPassByName p name = (u, h) \<Longrightarrow> u = None \<or> h \<noteq> [] \<Longrightarrow>
    auth_step E v (v\<lparr>lpending := Some \<lparr>ui = u, ch = h\<rparr>\<rparr>)"
| no_password: "\<not> lauth v \<Longrightarrow> lpending v = None \<Longrightarrow> password_allowed E v \<Longrightarrow>
    userPassProvider (cfg E) = Some p \<Longrightarrow> NNTPUserPassByName p name = (Some u, []) \<Longrightarrow>
    auth_step E v (v\<lparr>lauth := True, lpriv := MergeUserPriv (lpriv v) (uiPriv u)\<rparr>)"
| password: "lpending v = Some l \<Longrightarrow> ui l = Some u \<Longrightarrow>
    ch l = [] \<or> (\<exists>p. userPassProvider (cfg E) = Some p \<and> NNTPCheckPass p (ch l) pw) \<Longrightarrow>
    auth_step E v (v\<lparr>lpending := None, lauth := True, lpriv := MergeUserPriv (lpriv v) (uiPriv u)\<rparr>)"
| starttls: "TLSConfig (cfg E) \<Longrightarrow> \<not> ltls v \<Longrightarrow>
    auth_step E v (v\<lparr>ltls := True, lpriv := MergeUserPriv (lpriv v) (TLSPriv (cfg E))\<rparr>)"
| certificate: "TLSConfig (cfg E) \<Longrightarrow> \<not> ltls v \<Longrightarrow> \<not> lauth v \<Longrightarrow> CertFPAutoAuth (cfg E) \<Longrightarrow>
    handshake E = Some (crt # certs, r) \<Longrightarrow> CertFPProvider (cfg E) = Some f \<Longrightarrow> f crt = Some u \<Longrightarrow>
    auth_step E v (v\<lparr>ltls := True, lauth := True,
      lpriv := MergeUserPriv (MergeUserPriv (lpriv v) (TLSPriv (cfg E))) (uiPriv u)\<rparr>)"

inductive_cases auth_stepE: "auth_step E v v'"

lemma login_of_simps [simp]:
  "lpriv (login_of c) = priv c" "lauth (login_of c) = authenticated c"
  "lpending (login_of c) = activeLogin c" "ltls (login_of c) = tlsConn c"
  "login_of (c\<lparr>rd := r, CurrentGroup := g\<rparr>) = login_of c" "login_of (c\<lparr>out := x, wleft := w\<rparr>) = login_of c"
  by (simp_all add: login_of_def)

lemma keeps_login: "keeps c c' \<Longrightarrow> login_of c' = login_of c"
  by (simp add: keeps_def login_of_def)

text \<open>What a command may do to the connection; \<open>STARTTLS\<close> changes the reader.\<close>

definition goes :: "env \<Rightarrow> ('g, 'p) conn \<Rightarrow> ('g, 'p) conn \<Rightarrow> bool" where
  "goes E c c' \<longleftrightarrow> wf (rd c') \<and> (\<exists>r. out c' = out c @ r) \<and> auth_step E (login_of c) (login_of c') \<and>
     (tlsConn c' = tlsConn c \<longrightarrow> length (events (rd c')) \<le> length (events (rd c)))"

abbreviation gone :: "env \<Rightarrow> ('g, 'p) conn \<Rightarrow> ('g, 'p) conn outcome \<Rightarrow> bool" where
  "gone E c r \<equiv> ends (\<lambda>b c'. goes E c c' \<and> answered c c') (goes E c) r"

lemma keeps_goes: "keeps c c' \<Longrightarrow> goes E c c'"
  by (simp add: goes_def keeps_login auth_step.idle) (simp add: keeps_def reads_def)

lemma ok_gone: "ok c r \<Longrightarrow> gone E c r"
  by (erule ends_mono) (simp_all add: keeps_goes)

lemma gone_trans: "keeps c c' \<Longrightarrow> gone E c' r \<Longrightarrow> gone E c r"
proof (erule ends_mono)
  have "goes E c d" if "keeps c c'" "goes E c' d" for d
    using that by (auto simp: goes_def keeps_login) (auto simp: keeps_def reads_def)
  then show "keeps c c' \<Longrightarrow> goes E c' d \<and> answered c' d \<Longrightarrow> goes E c d \<and> answered c d"
    "keeps c c' \<Longrightarrow> goes E c' d \<Longrightarrow> goes E c d" for d
    by (auto intro: answered_trans2)
qed

lemma goes_flush:
  assumes "wf (rd c)" and "auth_step E (login_of c) (login_of d)"
    and "rd d = rd c" and "\<exists>r. out d = out c @ r"
  shows "goes E c d"
  using assms by (auto simp: goes_def)

text \<open>Handlers that print one line and then change what is known of the client.\<close>

lemma gone_say:
  assumes "printer r" and "wf (rd d)" and "auth_step E (login_of c) (login_of d)"
    and "rd d = rd c" and "out d = out c" and "wleft d = wleft c"
    and "\<And>x w. \<exists>d'. k (d\<lparr>out := x, wleft := w\<rparr>) = Ret True d' \<and> rd d' = rd c \<and> out d' = x \<and> wleft d' = w \<and>
            auth_step E (login_of c) (login_of d')"
  shows "gone E c (AbortOnErr (r d) k)"
proof (rule AbortOnErr_printer [OF assms(1)])
  show "goes E c d" using assms by (intro goes_flush) auto
  fix x w
  obtain d' where "k (d\<lparr>out := out d @ [x], wleft := w\<rparr>) = Ret True d'" "rd d' = rd c" "out d' = out c @ [x]"
    "wleft d' = w" "auth_step E (login_of c) (login_of d')" using assms(7) assms(5) by metis
  then show "gone E c (k (d\<lparr>out := out d @ [x], wleft := w\<rparr>))"
    using assms(2,4) by (auto simp: answered_def intro!: goes_flush)
qed

lemma gone_say_forget:
  assumes "printer r" and "wf (rd c)"
  shows "gone E c (say r (c\<lparr>activeLogin := None\<rparr>))"
  unfolding say_def
  by (rule gone_say [OF assms(1)]) (use assms(2) auth_step.forget [of E "login_of c"] in \<open>auto simp: login_of_def\<close>)

lemma gone_authCmdUser:
  assumes "wf (rd c)"
  shows "gone E c (authCmdUser E args c)"
proof -
  let ?c = "c\<lparr>activeLogin := None\<rparr>"
  note forget = auth_step.forget [of E "login_of c"]
  have f: "auth_step E (login_of c) (login_of ?c)" using forget by (simp add: login_of_def)
  show ?thesis
  proof (cases "activeLogin c = None \<and> \<not> authenticated c \<and> (UnsafePass (cfg E) \<or> tlsConn c) \<and>
      userPassProvider (cfg E) \<noteq> None")
    case False
    then show ?thesis
      unfolding authCmdUser_def pullActiveLogin_def prod.case tlsStarted_def
      by (intro ends_intros gone_say_forget printer_intros assms) auto
  next
    case True
    then obtain p where p: "userPassProvider (cfg E) = Some p" by auto
    obtain u h where uh: "NNTPUserPassByName p (args ! 0) = (u, h)" by force
    have pa: "password_allowed E (login_of c)" using True by (simp add: password_allowed_def)
    have ask: "gone E c (AbortOnErr (PrintfLine (bs ''381 password required'') ?c)
        (\<lambda>c. Ret True (c\<lparr>activeLogin := Some \<lparr>ui = u, ch = h\<rparr>\<rparr>)))" if "u = None \<or> h \<noteq> []"
      by (rule gone_say) (use assms f True auth_step.asked [OF _ _ pa p uh that] in \<open>auto simp: login_of_def\<close>)
    have acc: "gone E c (AbortOnErr (PrintfLine (bs ''281 authentication accepted'') ?c)
        (\<lambda>c. Ret True (loginSuccess v c)))" if "u = Some v" "h = []" for v
      by (rule gone_say) (use assms f True auth_step.no_password [OF _ _ pa p] uh that in
          \<open>auto simp: login_of_def loginSuccess_def\<close>)
    show ?thesis
      unfolding authCmdUser_def pullActiveLogin_def prod.case tlsStarted_def p option.case uh
      by (intro ends_intros gone_say_forget printer_intros assms ask acc) (use True in auto)
  qed
qed

lemma gone_authCmdPass:
  assumes "wf (rd c)"
  shows "gone E c (authCmdPass E args c)"
proof -
  let ?c = "c\<lparr>activeLogin := None\<rparr>"
  have f: "auth_step E (login_of c) (login_of ?c)"
    using auth_step.forget [of E "login_of c"] by (simp add: login_of_def)
  have acc: "gone E c (AbortOnErr (PrintfLine (bs ''281 authentication accepted'') ?c)
        (\<lambda>c. Ret True (loginSuccess u c)))"
    if "activeLogin c = Some l" "ui l = Some u"
      "\<not> (ch l \<noteq> [] \<and> (case userPassProvider (cfg E) of None \<Rightarrow> True
          | Some upp \<Rightarrow> \<not> NNTPCheckPass upp (ch l) (args ! 0)))" for l u
    by (rule gone_say) (use assms f that auth_step.password [of "login_of c" l u E "args ! 0"] in
        \<open>auto simp: login_of_def loginSuccess_def split: option.splits\<close>)
  show ?thesis
    unfolding authCmdPass_def pullActiveLogin_def prod.case tlsStarted_def
    by (intro ends_intros gone_say_forget printer_intros assms acc)
qed

lemma gone_cmdStartTLS:
  assumes "wf (rd c)"
  shows "gone E c (cmdStartTLS E c)"
proof (cases "TLSConfig (cfg E) \<and> \<not> tlsConn c")
  case False
  then show ?thesis
    unfolding cmdStartTLS_def tlsStarted_def
    by (intro ok_gone ends_intros ok_say printer_intros assms) auto
next
  case True
  show ?thesis
  proof (cases "handshake E")
    case None
    show ?thesis
      unfolding cmdStartTLS_def tlsStarted_def None option.case
      by (intro ok_gone ends_if ok_say printer_intros assms AbortOnErr_printer) (use assms in auto)
  next
    case (Some hs)
    then obtain certs u where hs: "handshake E = Some (certs, u)" by (cases hs) auto
    have tls: "gone E c (postTLS True (cfg E) certs (Cleanup (d\<lparr>rd := SetReader u (rd d)\<rparr>)))"
      if d: "d = c\<lparr>out := out c @ [x], wleft := w\<rparr>" for d x w
    proof -
      note t = auth_step.starttls [of E "login_of c"] auth_step.certificate [of E "login_of c" _ _ u]
      have "wf (SetReader u (rd c))" using assms by (simp add: SetReader_def wf_def)
      then show ?thesis
        using True hs t unfolding d postTLS_def Let_def Cleanup_def
        by (auto simp: goes_def answered_def login_of_def split: list.split option.split)
    qed
    show ?thesis
      unfolding cmdStartTLS_def hs option.case prod.case
      by (intro ends_if ok_gone [OF ok_say] printer_intros assms AbortOnErr_printer tls refl)
        (use assms in \<open>simp_all add: keeps_goes\<close>)
  qed
qed

lemma gone_run_auth:
  assumes "wf (rd c)"
  shows "gone E c (andThen (run_auth f E args c) (\<lambda>_. Ret True))"
proof -
  have "gone E c (run_auth f E args c)"
    using gone_authCmdUser [OF assms] gone_authCmdPass [OF assms] ok_gone [OF ok_say [OF _ assms]]
    by (auto simp: run_auth_def authCmdSASL_def split: cmdfunc.split)
  then show ?thesis by (rule ends_andThen) auto
qed

lemma gone_cmdAuthInfo:
  assumes "wf (rd c)"
  shows "gone E c (cmdAuthInfo E rest c)"
  unfolding cmdAuthInfo_def
  by (intro ends_intros gone_run_auth ok_gone [OF ok_say] printer_intros assms)

lemma g_auth:
  assumes "wf (rd c)" and "ginv c"
  shows "gok (cmdAuthInfo E rest c)" and "gok (cmdStartTLS E c)" and "gok (authCmdUser E args c)"
    and "gok (authCmdPass E args c)" and "gok (authCmdSASL args c)"
proof -
  have l: "gok (AbortOnErr (r d) (\<lambda>c. Ret True (loginSuccess u c)))"
      "gok (AbortOnErr (r d) (\<lambda>c. Ret True (c\<lparr>activeLogin := a\<rparr>)))" "gok (say r d)"
    if "printer r" "d = c\<lparr>activeLogin := None\<rparr>" for r d u a
    unfolding say_def using that(2) assms(2)
    by (intro AbortOnErr_printer [OF that(1)]; simp add: ginv_def loginSuccess_def MergeUserPriv_def)+
  show u: "gok (authCmdUser E args c)" for args
    unfolding authCmdUser_def pullActiveLogin_def prod.case by (intro ends_intros l printer_intros refl)
  show p: "gok (authCmdPass E args c)" for args
    unfolding authCmdPass_def pullActiveLogin_def prod.case by (intro ends_intros l printer_intros refl)
  show s: "gok (authCmdSASL args c)" for args
    unfolding authCmdSASL_def by (intro g_say printer_intros assms)
  have "gok (run_auth f E as c)" for f as
    using u p s by (simp add: run_auth_def split: cmdfunc.split)
  then have "gok (andThen (run_auth f E as c) (\<lambda>_. Ret True))" for f as
    by (rule ends_andThen) auto
  then show "gok (cmdAuthInfo E rest c)"
    unfolding cmdAuthInfo_def by (intro ends_intros g_say printer_intros assms)
  show "gok (cmdStartTLS E c)"
    unfolding cmdStartTLS_def
    by (intro ends_intros g_say printer_intros assms AbortOnErr_printer)
      (use assms in \<open>auto simp: postTLS_def Let_def Cleanup_def ginv_def split: list.split option.split\<close>)
qed

subsection \<open>The contract\<close>

locale provider_laws =
  fixes P :: "('g, 'p) NNTPProvider"
  assumes call_ends: "wf (rd c) \<Longrightarrow>
      ends (\<lambda>b c'. keeps c c' \<and> (if b \<or> no_result pc then answered c c' else silent c c')) (keeps c) (call P pc c)"
    and call_group: "wf (rd c) \<Longrightarrow> CurrentGroup c = None \<Longrightarrow> \<not> selects pc \<Longrightarrow>
      ends (\<lambda>b c'. CurrentGroup c' = None) (\<lambda>c'. CurrentGroup c' = None) (call P pc c)"
begin

lemma ok_call_or:
  assumes "printer r" and "wf (rd c)"
  shows "ok c (call_or P pc r c)"
  unfolding call_or_def
proof (rule ends_andThen [OF call_ends [OF assms(2), of pc]])
  show "ends (\<lambda>b c'. keeps c c' \<and> answered c c') (keeps c) (if b then Ret True c' else say r c')"
    if "keeps c c' \<and> (if b \<or> no_result pc then answered c c' else silent c c')" for b c'
  proof (cases b)
    case False
    have "ok c' (say r c')" by (rule ok_say [OF assms(1)]) (use that keeps_wf in blast)
    then show ?thesis using that False ok_trans [of c c' "say r c'"] by simp
  qed (use that in simp)
qed

lemma ok_call_only:
  assumes "no_result pc" and "wf (rd c)"
  shows "ok c (call_only P pc c)"
  unfolding call_only_def
  by (rule ends_andThen [OF call_ends [OF assms(2), of pc]]) (use assms(1) in auto)

lemma no_resultI: "no_result SelectNextArticle" "no_result SelectPrevArticle" "no_result (ListNewNews aw w t)"
    "no_result (ListNewGroups aw t)" "no_result (ListActiveGroups aw w)" "no_result (ListNewsgroups aw w)"
  by simp_all

lemmas ok_intros = ends_intros ok_say ok_call_or ok_call_only printer_intros no_resultI

lemmas read_handlers = commonArticleHandler_def cmdGroup_def cmdListGroup_def cmdNext_def cmdLast_def
  cmdNewNews_def cmdNewGroups_def commonCmdOver_def commonCmdHdr_def

lemma ok_read:
  assumes "wf (rd c)"
  shows "ok c (commonArticleHandler P kind args c)" and "ok c (cmdGroup P args c)"
    and "ok c (cmdListGroup P args c)" and "ok c (cmdNext P c)" and "ok c (cmdLast P c)"
    and "ok c (cmdNewNews E P args c)" and "ok c (cmdNewGroups E P args c)"
    and "ok c (commonCmdOver P args b c)" and "ok c (commonCmdHdr P args b c)"
  unfolding read_handlers by (intro ok_intros assms)+

lemmas list_handlers = list_groups_def listCmdActive_def listCmdNewsgroups_def cmdXGTitle_def
  listCmdOverviewFmt_def

lemma ok_list:
  assumes "wf (rd c)"
  shows "ok c (listCmdActive P args c)" and "ok c (listCmdNewsgroups P args c)"
    and "ok c (cmdXGTitle P args c)" and "ok c (listCmdOverviewFmt c)"
  unfolding list_handlers by (intro ok_intros ok_PrintThen assms keeps_wf; assumption)+

lemma ok_defer:
  assumes "ok c r"
  shows "ok c (defer_discard r)"
proof (cases r)
  case (Ret b c1)
  then have k: "keeps c c1" "answered c c1" using assms by simp_all
  obtain c2 where "dr_Discard c1 = Some c2" "keeps c1 c2" "silent c1 c2"
    using dr_Discard_ok [OF keeps_wf [OF k(1)]] by blast
  then show ?thesis using k Ret by (auto simp: answered_def silent_def intro: keeps_trans)
next
  case (Panic c1)
  then have k: "keeps c c1" using assms by simp
  obtain c2 where "dr_Discard c1 = Some c2" "keeps c1 c2"
    using dr_Discard_ok [OF keeps_wf [OF k]] by blast
  then show ?thesis using k Panic by (auto intro: keeps_trans)
qed (use assms in simp)

lemma keeps_OpenReader: "wf (rd c) \<Longrightarrow> keeps c (OpenReader c)"
  by (auto simp: OpenReader_def keeps_def reads_def split: option.split)

lemma ok_post:
  assumes "wf (rd c)"
  shows "ok c (cmdPost P c)" and "ok c (cmdIHave P args c)" and "ok c (cmdCheck P args c)"
    and "ok c (cmdTakeThis P args c)"
proof -
  have o: "wf (rd (OpenReader c))" using keeps_OpenReader [OF assms] by (rule keeps_wf)
  show "ok c (cmdTakeThis P args c)"
    unfolding cmdTakeThis_def Let_def
    by (intro ok_trans [OF keeps_OpenReader [OF assms]] ok_defer ok_intros o)
  show "ok c (cmdPost P c)" "ok c (cmdIHave P args c)" "ok c (cmdCheck P args c)"
    unfolding cmdPost_def cmdIHave_def cmdCheck_def by (intro ok_intros assms)+
qed

lemma ok_base:
  assumes "wf (rd c)"
  shows "ok c (cmdCapabilities E P c)" and "ok c (cmdMode P args c)"
    and "ok c (cmdHelp args c)" and "ok c (cmdQuit c)" and "ok c (cmdSlave c)" and "ok c (cmdDate E c)"
    and "ok c (cmdXListen c)" and "ok c (cmdXWait c)"
proof -
  show "ok c (cmdCapabilities E P c)"
    unfolding cmdCapabilities_def by (intro ok_PrintThen ok_intros assms; erule keeps_wf)
  show "ok c (cmdHelp args c)"
    unfolding cmdHelp_def
  proof (rule ok_PrintThen)
    fix c1 assume c1: "keeps c c1" "answered c c1"
    show "ok c1 (Ret True (snd (DotBlock (help_text args) c1)))"
      using keeps_wf [OF c1(1)] by (cases rule: flush_cases [of c1 "Block (help_text args)"])
        (auto simp: DotBlock_def answered_def)
  qed (use assms in auto)
  show "ok c (cmdQuit c)"
    using assms by (cases rule: flush_cases [of c "Line (bs ''205 goodbye.'')"])
      (auto simp: cmdQuit_def PrintfLine_def answered_def simp del: bs_Cons)
  show "ok c (cmdMode P args c)" "ok c (cmdSlave c)" "ok c (cmdDate E c)" "ok c (cmdXListen c)" "ok c (cmdXWait c)"
    unfolding cmdMode_def cmdSlave_def cmdDate_def cmdXListen_def cmdXWait_def by (intro ok_intros assms)+
qed

text \<open>A group is selected only while reading is allowed.\<close>

lemma call_ginv:
  assumes "wf (rd c)" and "ginv c" and "selects pc \<Longrightarrow> AllowReading (priv c)"
  shows "ends (\<lambda>b c'. keeps c c' \<and> ginv c') ginv (call P pc c)"
proof (cases "AllowReading (priv c)")
  case True
  then show ?thesis
    by (intro ends_mono [OF call_ends [OF assms(1), of pc]]) (auto simp: ginv_def keeps_def)
next
  case False
  then have g: "CurrentGroup c = None" "\<not> selects pc" using assms(2,3) by (auto simp: ginv_def)
  show ?thesis
    using call_ends [OF assms(1), of pc] call_group [OF assms(1) g] by (cases "call P pc c") (auto simp: ginv_def)
qed

lemma g_call_or:
  assumes "printer r" and "wf (rd c)" and "ginv c" and "selects pc \<Longrightarrow> AllowReading (priv c)"
  shows "gok (call_or P pc r c)"
  unfolding call_or_def
  by (rule ends_andThen [OF call_ginv [OF assms(2,3,4)]]) (auto intro!: g_say assms(1) dest: keeps_wf)

lemma g_call_only:
  assumes "wf (rd c)" and "ginv c" and "selects pc \<Longrightarrow> AllowReading (priv c)"
  shows "gok (call_only P pc c)"
  unfolding call_only_def by (rule ends_andThen [OF call_ginv [OF assms]]) auto

lemmas g_intros = ends_intros g_say g_call_or g_call_only printer_intros

lemma g_read:
  assumes "wf (rd c)" and "ginv c"
  shows "gok (commonArticleHandler P kind args c)" and "gok (cmdGroup P args c)"
    and "gok (cmdListGroup P args c)" and "gok (cmdNext P c)" and "gok (cmdLast P c)"
    and "gok (cmdNewNews E P args c)" and "gok (cmdNewGroups E P args c)"
    and "gok (commonCmdOver P args b c)" and "gok (commonCmdHdr P args b c)"
  unfolding read_handlers by (intro g_intros assms; simp)+

lemma g_list:
  assumes "wf (rd c)" and "ginv c"
  shows "gok (listCmdActive P args c)" and "gok (listCmdNewsgroups P args c)"
    and "gok (cmdXGTitle P args c)" and "gok (listCmdOverviewFmt c)"
proof -
  show "gok (listCmdOverviewFmt c)" unfolding listCmdOverviewFmt_def
    by (intro AbortOnErr_printer g_intros) (use assms in \<open>simp_all add: ginv_def\<close>)
  show "gok (listCmdActive P args c)" "gok (listCmdNewsgroups P args c)" "gok (cmdXGTitle P args c)"
    unfolding list_handlers by (intro g_intros assms; simp)+
qed

lemma g_post:
  assumes "wf (rd c)" and "ginv c"
  shows "gok (cmdPost P c)" and "gok (cmdIHave P args c)" and "gok (cmdCheck P args c)"
    and "gok (cmdTakeThis P args c)"
proof -
  have o: "wf (rd (OpenReader c))" "ginv (OpenReader c)"
    using keeps_wf [OF keeps_OpenReader [OF assms(1)]] assms(2)
    by (simp_all add: ginv_def OpenReader_def split: option.split)
  let ?r = "if \<not> SupportsStream P then say (PrintfLine (bs ''503 STREAMING unimplemented'')) (OpenReader c)
         else let id = args ! 0 in
           if \<not> ValidMessageID id then say ResBadMessageID (OpenReader c)
           else if \<not> AllowPosting (priv (OpenReader c)) then say ResAuthRequired (OpenReader c)
           else let cid = CutMessageID id in
             if ReservedMessageID id then say (ResArticleRejected cid None) (OpenReader c)
             else call_or P (HandleTakeThis cid) (ResArticleRejected cid None) (OpenReader c)"
  have "gok ?r" by (intro g_intros o; simp)
  moreover have "ok (OpenReader c) ?r" by (intro ok_intros o)
  ultimately show "gok (cmdTakeThis P args c)"
    unfolding cmdTakeThis_def Let_def by (rule g_defer)
  show "gok (cmdPost P c)" "gok (cmdIHave P args c)" "gok (cmdCheck P args c)"
    unfolding cmdPost_def cmdIHave_def cmdCheck_def by (intro g_intros assms; simp)+
qed

lemma g_base:
  assumes "wf (rd c)" and "ginv c"
  shows "gok (cmdVoid rest c)" and "gok (cmdCapabilities E P c)" and "gok (cmdMode P args c)"
    and "gok (cmdHelp args c)" and "gok (cmdQuit c)" and "gok (cmdSlave c)" and "gok (cmdDate E c)"
    and "gok (cmdXListen c)" and "gok (cmdXWait c)"
proof -
  show "gok (cmdCapabilities E P c)" unfolding cmdCapabilities_def
    by (intro AbortOnErr_printer g_intros) (use assms in \<open>simp_all add: ginv_def\<close>)
  show "gok (cmdHelp args c)" unfolding cmdHelp_def
    by (intro AbortOnErr_printer printer_intros) (use assms in \<open>simp_all add: ginv_flush DotBlock_def ginv_more\<close>)
  show "gok (cmdQuit c)"
    using assms(2) by (simp add: cmdQuit_def PrintfLine_def ginv_flush)
  show "gok (cmdVoid rest c)" "gok (cmdMode P args c)" "gok (cmdSlave c)" "gok (cmdDate E c)"
    "gok (cmdXListen c)" "gok (cmdXWait c)"
    unfolding cmdVoid_def cmdMode_def cmdSlave_def cmdDate_def cmdXListen_def cmdXWait_def
    by (intro g_intros assms; simp add: assms)+
qed

lemma ok_cmdList:
  assumes "wf (rd c)"
  shows "ok c (cmdList P rest c)"
proof -
  have "ok c (run_list f P args c)" for f args
    using ok_list [OF assms] by (simp add: run_list_def split: cmdfunc.split)
  then have "ok c (andThen (run_list f P args c) (\<lambda>_. Ret True))" for f args
    by (rule ends_andThen) auto
  moreover have "ok c (andThen (listCmdActive P [] c) (\<lambda>_. Ret True))"
    by (rule ends_andThen [OF ok_list(1) [OF assms]]) auto
  ultimately show ?thesis
    unfolding cmdList_def by (intro ends_intros ok_say printer_intros assms)
qed

lemma g_cmdList:
  assumes "wf (rd c)" and "ginv c"
  shows "gok (cmdList P rest c)"
proof -
  have "gok (run_list f P args c)" for f args
    using g_list [OF assms] by (simp add: run_list_def split: cmdfunc.split)
  then have "gok (andThen (run_list f P args c) (\<lambda>_. Ret True))" for f args
    by (rule ends_andThen) auto
  moreover have "gok (andThen (listCmdActive P [] c) (\<lambda>_. Ret True))"
    by (rule ends_andThen [OF g_list(1) [OF assms]]) auto
  ultimately show ?thesis
    unfolding cmdList_def by (intro ends_intros g_say printer_intros assms)
qed

lemma ok_run:
  assumes "wf (rd c)" and "f \<notin> {F_cmdVoid, F_cmdAuthInfo, F_cmdStartTLS, F_authCmdUser, F_authCmdPass}"
  shows "ok c (run f E P args rest c)"
  using assms(2) ok_base [OF assms(1)] ok_read [OF assms(1)] ok_list [OF assms(1)] ok_post [OF assms(1)]
    ok_cmdList [OF assms(1)] ok_say [OF printer_PrintfLine assms(1)]
  by (cases f) (simp_all add: run_def authCmdSASL_def)

lemma gone_run:
  assumes "wf (rd c)" and "f = F_cmdVoid \<Longrightarrow> rest \<noteq> []"
  shows "gone E c (run f E P args rest c)"
proof (cases "f \<in> {F_cmdVoid, F_cmdAuthInfo, F_cmdStartTLS, F_authCmdUser, F_authCmdPass}")
  case True
  have "gone E c (cmdVoid rest c)" if "rest \<noteq> []"
    using that unfolding cmdVoid_def by (intro ok_gone ends_if ok_say printer_intros assms) simp
  then show ?thesis
    using True assms(2) gone_cmdAuthInfo [OF assms(1)] gone_cmdStartTLS [OF assms(1)]
      gone_authCmdUser [OF assms(1)] gone_authCmdPass [OF assms(1)]
    by (auto simp: run_def)
qed (intro ok_gone ok_run assms)

lemma g_run:
  assumes "wf (rd c)" and "ginv c"
  shows "gok (run f E P args rest c)"
  using g_base [OF assms] g_read [OF assms] g_list [OF assms] g_post [OF assms] g_cmdList [OF assms]
    g_auth [OF assms]
  by (cases f) (simp_all only: run_def cmdfunc.case)

end

end
