(* ===== verification/NntpLoop.thy ===== *)
theory NntpLoop
  imports NntpLaws
begin

text \<open>
  The command loop under a provider that keeps its contract: a line is dispatched to a handler, every
  round reads at least one byte, the loop ends, and what each command does to the client's login is
  a step of \<open>auth_step\<close>.
\<close>

subsection \<open>Lines\<close>

lemma commandMap_void: "map_of commandMap k = Some cmd \<Longrightarrow> cmdfunc cmd = F_cmdVoid \<Longrightarrow> k = [] \<and> maxargs cmd = 0 \<and> minargs cmd = 0"
proof -
  have "\<forall>(k, cmd)\<in>set commandMap. cmdfunc cmd = F_cmdVoid \<longrightarrow> k = [] \<and> maxargs cmd = 0 \<and> minargs cmd = 0"
    by (simp add: commandMap_def del: bs_Cons)
  then show "map_of commandMap k = Some cmd \<Longrightarrow> cmdfunc cmd = F_cmdVoid \<Longrightarrow> k = [] \<and> maxargs cmd = 0 \<and> minargs cmd = 0"
    by (auto dest!: map_of_SomeD)
qed

lemma check_chars_ends:
  "wf (rd c) \<Longrightarrow> ends (\<lambda>b c'. keeps c c' \<and> (ginv c \<longrightarrow> ginv c')) (\<lambda>c'. keeps c c' \<and> (ginv c \<longrightarrow> ginv c')) (check_chars l c)"
proof (induction l arbitrary: c)
  case (Cons x l)
  show ?case
  proof (cases "x = 0 \<or> x = CR")
    case True
    have "ends (\<lambda>b c'. keeps c c' \<and> (ginv c \<longrightarrow> ginv c')) (\<lambda>c'. keeps c c' \<and> (ginv c \<longrightarrow> ginv c'))
        (AbortOnErr (PrintfLine (bs ''501 command contains illegal characters'') c) (check_chars l))"
    proof (rule AbortOnErr_printer)
      fix y w
      let ?c = "c\<lparr>out := out c @ [y], wleft := w\<rparr>"
      show "ends (\<lambda>b c'. keeps c c' \<and> (ginv c \<longrightarrow> ginv c')) (\<lambda>c'. keeps c c' \<and> (ginv c \<longrightarrow> ginv c')) (check_chars l ?c)"
        using Cons by (intro ends_mono [OF Cons.IH [of ?c]]) (auto intro: keeps_trans [of c ?c])
    qed (use Cons.prems in auto)
    then show ?thesis using True by simp
  next
    case False
    then show ?thesis using Cons by simp
  qed
qed simp

subsection \<open>Reading a line\<close>

lemma until_spec_le: "until_spec n q es = ((p, e), es') \<Longrightarrow> length es' \<le> length es"
proof (induction n q es arbitrary: p e es' rule: until_spec.induct)
  case (3 n q c es)
  show ?case
  proof (cases "n = 0 \<or> c = q \<or> n = 1")
    case False
    then obtain p1 where "until_spec (n - 1) q es = ((p1, e), es')"
      using 3(2) by (auto simp: Let_def split: prod.splits)
    then show ?thesis using 3(1) False by fastforce
  qed (use 3(2) in \<open>auto split: if_splits\<close>)
qed auto

lemma until_spec_less:
  "until_spec n q es = ((p, e), es') \<Longrightarrow> 0 < n \<Longrightarrow> e \<noteq> Some EOF \<Longrightarrow> length es' < length es"
proof (cases es rule: next_ev.cases)
  case (2 c es1)
  assume u: "until_spec n q es = ((p, e), es')" "0 < n"
  show ?thesis
  proof (cases "c = q \<or> n = 1")
    case False
    then obtain p1 where "until_spec (n - 1) q es1 = ((p1, e), es')"
      using u 2 by (auto simp: Let_def split: prod.splits)
    then show ?thesis using until_spec_le 2 by fastforce
  qed (use u 2 in \<open>auto split: if_splits\<close>)
qed auto

lemma drain_ends:
  "wf r \<Longrightarrow> \<exists>e r'. drain r = Some (e, r') \<and> wf r' \<and> length (events r') \<le> length (events r)"
proof (induction "length (events r)" arbitrary: r rule: less_induct)
  case less
  obtain p e r' where u: "ReadUntil 512 LF r = Some ((p, e), r')" "wf r'"
    "until_spec 512 LF (events r) = ((p, e), events r')"
    using ReadUntil_spec [OF less.prems] by blast
  show ?case
  proof (cases "e = Some ErrDelimNotFound")
    case True
    then have lt: "length (events r') < length (events r)"
      using until_spec_less [OF u(3)] by simp
    have "drain r = drain r'" by (subst drain.simps) (simp add: u True)
    then show ?thesis using less.hyps [OF lt u(2)] lt by fastforce
  next
    case False
    have "drain r = Some (e, r')" by (subst drain.simps) (simp add: u False)
    then show ?thesis using u(2) until_spec_le [OF u(3)] by simp
  qed
qed

lemma keeps_rd: "wf r \<Longrightarrow> length (events r) \<le> length (events (rd c)) \<Longrightarrow> keeps c (c\<lparr>rd := r\<rparr>)"
  by (simp add: keeps_def reads_def)

text \<open>
  An environment that lets nobody read: neither the defaults nor TLS nor any user of the password and
  certificate providers has the privilege.
\<close>

definition no_reader :: "env \<Rightarrow> bool" where
  "no_reader E \<longleftrightarrow> \<not> AllowReading (DefaultPriv (cfg E)) \<and> \<not> AllowReading (TLSPriv (cfg E)) \<and>
     (\<forall>p name u h. userPassProvider (cfg E) = Some p \<longrightarrow> NNTPUserPassByName p name = (Some u, h) \<longrightarrow>
        \<not> AllowReading (uiPriv u)) \<and>
     (\<forall>f crt u. CertFPProvider (cfg E) = Some f \<longrightarrow> f crt = Some u \<longrightarrow> \<not> AllowReading (uiPriv u))"

definition cannot_read :: "login \<Rightarrow> bool" where
  "cannot_read v \<longleftrightarrow> \<not> AllowReading (lpriv v) \<and>
     (\<forall>l u. lpending v = Some l \<longrightarrow> ui l = Some u \<longrightarrow> \<not> AllowReading (uiPriv u))"

lemma auth_step_cannot_read: "auth_step E v v' \<Longrightarrow> no_reader E \<Longrightarrow> cannot_read v \<Longrightarrow> cannot_read v'"
  by (induction rule: auth_step.induct) (auto simp: cannot_read_def no_reader_def MergeUserPriv_def)

text \<open>What a round without privileges does is the same for every provider with the same features.\<close>

lemma check_chars_same:
  "check_chars l c = Ret b d \<Longrightarrow> priv d = priv c \<and> CurrentGroup d = CurrentGroup c"
proof (induction l arbitrary: c)
  case (Cons x l)
  then show ?case
    by (cases rule: flush_cases [of c "Line (bs ''501 command contains illegal characters'')"])
      (auto simp: PrintfLine_def simp del: bs_Cons split: if_splits)
qed simp

lemma run_isolated:
  assumes "\<not> AllowReading (priv c)" and "\<not> AllowPosting (priv c)" and "CurrentGroup c = None"
  shows "run f E (P\<lparr>call := k\<rparr>) args rest c = run f E P args rest c"
proof -
  have t: "priv (OpenReader c) = priv c" by (simp add: OpenReader_def split: option.split)
  have l: "list_groups (P\<lparr>call := k\<rparr>) pc as c = list_groups P pc as c" for pc as
    using assms by (simp add: list_groups_def Let_def)
  have rl: "run_list g (P\<lparr>call := k\<rparr>) as c = run_list g P as c" for g as
    unfolding run_list_def listCmdActive_def listCmdNewsgroups_def l by (rule refl)
  have cl: "cmdList (P\<lparr>call := k\<rparr>) r c = cmdList P r c" for r
    unfolding cmdList_def listCmdActive_def l rl by (rule refl)
  show ?thesis
    by (cases f) (simp_all add: run_def l cl assms t commonArticleHandler_def cmdGroup_def cmdListGroup_def
        cmdNext_def cmdLast_def cmdNewNews_def cmdNewGroups_def commonCmdOver_def commonCmdHdr_def
        listCmdActive_def listCmdNewsgroups_def cmdXGTitle_def cmdPost_def cmdIHave_def cmdCheck_def
        cmdTakeThis_def cmdCapabilities_def capabilities_def cmdMode_def Let_def
        split: option.split sum.split prod.split)
qed

lemma command_line_isolated:
  assumes "\<not> AllowReading (priv c)" and "\<not> AllowPosting (priv c)" and "CurrentGroup c = None"
  shows "command_line E (P\<lparr>call := k\<rparr>) l c = command_line E P l c"
proof (cases "check_chars l c")
  case (Ret b d)
  then have d: "\<not> AllowReading (priv d)" "\<not> AllowPosting (priv d)" "CurrentGroup d = None"
    using check_chars_same [OF Ret] assms by simp_all
  have "dispatch E (P\<lparr>call := k\<rparr>) l d = dispatch E P l d"
    unfolding dispatch_def run_isolated [OF d] by (rule refl)
  then show ?thesis by (simp add: command_line_def Ret)
qed (simp_all add: command_line_def)

lemma serve_round_isolated:
  assumes "\<not> AllowReading (priv c)" and "\<not> AllowPosting (priv c)" and "CurrentGroup c = None"
  shows "serve_round E (P\<lparr>call := k\<rparr>) c = serve_round E P c"
proof -
  have "command_line E (P\<lparr>call := k\<rparr>) l (c\<lparr>rd := r\<rparr>) = command_line E P l (c\<lparr>rd := r\<rparr>)" for l r
    by (rule command_line_isolated) (use assms in simp_all)
  then show ?thesis unfolding serve_round_def Let_def by (simp only:)
qed

context provider_laws
begin

lemma gone_dispatch:
  assumes "wf (rd c)"
  shows "ends (\<lambda>b c'. goes E c c' \<and> (words l = [] \<or> answered c c')) (goes E c) (dispatch E P l c)"
proof -
  obtain x b where k: "parseKeyword l = (x, b)" by force
  have weak: "gone E c r \<Longrightarrow> ends (\<lambda>b c'. goes E c c' \<and> (words l = [] \<or> answered c c')) (goes E c) r" for r
    by (erule ends_mono) auto
  note sp = parse_args_spec [of l, unfolded k, simplified]
  show ?thesis
  proof (cases "map_of commandMap (take x b)")
    case None
    then show ?thesis
      unfolding dispatch_def k by (simp add: weak [OF ok_gone [OF ok_say]] assms del: bs_Cons)
  next
    case (Some cmd)
    show ?thesis
    proof (cases "cmdfunc cmd = F_cmdVoid \<and> (\<exists>ws. parse_args b x (maxargs cmd) = Args ws)")
      case True
      then obtain ws where ws: "parse_args b x (maxargs cmd) = Args ws" by blast
      have "take x b = []" "maxargs cmd = 0" "minargs cmd = 0" using commandMap_void [OF Some] True by auto
      then have kw: "takeWhile (\<lambda>c. \<not> isws c) l = []" and "ws = []" "words (dropWhile (\<lambda>c. \<not> isws c) l) = []"
        using sp [of "maxargs cmd"] ws by auto
      then have "words l = []" by (metis self_append_conv2 takeWhile_dropWhile_id)
      then show ?thesis
        using ws True \<open>ws = []\<close> \<open>minargs cmd = 0\<close> assms unfolding dispatch_def k
        by (simp add: Some run_def cmdVoid_def weak [OF ok_gone [OF ok_say]] keeps_goes del: bs_Cons)
    next
      case False
      have ne: "drop y b \<noteq> []" if "parse_args b x (maxargs cmd) = Extra ws y" for ws y
      proof -
        have m: "maxargs cmd < length (words (dropWhile (\<lambda>c. \<not> isws c) l))"
          "drop y b = after_words (maxargs cmd) (dropWhile (\<lambda>c. \<not> isws c) l)"
          using sp [of "maxargs cmd"] that by auto
        show ?thesis unfolding m(2) using m(1) by (rule after_words_ne)
      qed
      show ?thesis
        unfolding dispatch_def k
        by (simp add: Some del: bs_Cons) (intro weak ends_intros gone_run ok_gone [OF ok_say] printer_intros assms;
            use False ne in blast)
    qed
  qed
qed

lemma g_dispatch:
  assumes "wf (rd c)" and "ginv c"
  shows "gok (dispatch E P l c)"
  unfolding dispatch_def by (intro ends_intros g_run g_say printer_intros assms)

lemma command_line_ends:
  assumes "wf (rd c)"
  shows "ends (\<lambda>b c'. goes E c c' \<and> (words l = [] \<or> answered c c') \<and> (ginv c \<longrightarrow> ginv c'))
    (\<lambda>c'. goes E c c' \<and> (ginv c \<longrightarrow> ginv c')) (command_line E P l c)"
  unfolding command_line_def
proof (rule ends_andThen [OF check_chars_ends [OF assms, of l]])
  fix b d
  assume d: "keeps c d \<and> (ginv c \<longrightarrow> ginv d)"
  then have w: "wf (rd d)" using keeps_wf by blast
  have "goes E c e \<and> (answered d e \<longrightarrow> answered c e)" if "goes E d e" for e
    using that d by (auto simp: goes_def keeps_login intro: answered_trans2) (auto simp: keeps_def reads_def)
  then show "ends (\<lambda>b c'. goes E c c' \<and> (words l = [] \<or> answered c c') \<and> (ginv c \<longrightarrow> ginv c'))
     (\<lambda>c'. goes E c c' \<and> (ginv c \<longrightarrow> ginv c')) (dispatch E P l d)"
    using gone_dispatch [OF w, of E l] g_dispatch [OF w, of E l] d by (cases "dispatch E P l d") auto
qed (auto simp: keeps_goes)

text \<open>One round reads at least one byte, unless it starts TLS, and keeps the invariants.\<close>

lemma serve_round_ends:
  assumes "wf (rd c)"
  shows "case serve_round E P c of
      Continue d \<Rightarrow> goes E c d \<and> (ginv c \<longrightarrow> ginv d) \<and>
        (tlsConn d = tlsConn c \<longrightarrow> length (events (rd d)) < length (events (rd c)))
    | Return b d \<Rightarrow> goes E c d \<and> (ginv c \<longrightarrow> ginv d)
    | Blocked \<Rightarrow> False"
proof -
  obtain p e r where u: "ReadUntil 512 LF (rd c) = Some ((p, e), r)" "wf r"
    "until_spec 512 LF (events (rd c)) = ((p, e), events r)"
    using ReadUntil_spec [OF assms] by blast
  let ?c = "c\<lparr>rd := r\<rparr>"
  have le: "length (events r) \<le> length (events (rd c))" by (rule until_spec_le [OF u(3)])
  have lt: "length (events r) < length (events (rd c))" if "e \<noteq> Some EOF"
    using until_spec_less [OF u(3)] that by simp
  have g [simp]: "ginv (c\<lparr>rd := x\<rparr>) = ginv c" for x by (simp add: ginv_def)
  have body: "case recovered o1 of
      Continue d \<Rightarrow> goes E c d \<and> (ginv c \<longrightarrow> ginv d) \<and>
        (tlsConn d = tlsConn c \<longrightarrow> length (events (rd d)) < length (events (rd c)))
    | Return b d \<Rightarrow> goes E c d \<and> (ginv c \<longrightarrow> ginv d)
    | Blocked \<Rightarrow> False"
    if o1: "ends (\<lambda>b d. goes E (c\<lparr>rd := x\<rparr>) d \<and> (ginv c \<longrightarrow> ginv d))
        (\<lambda>d. goes E (c\<lparr>rd := x\<rparr>) d \<and> (ginv c \<longrightarrow> ginv d)) o1"
      and x: "wf x" "length (events x) < length (events (rd c))" for o1 x
  proof -
    have "goes E c d \<and> (tlsConn d = tlsConn c \<longrightarrow> length (events (rd d)) < length (events (rd c)))"
      if "goes E (c\<lparr>rd := x\<rparr>) d" for d
      using that x keeps_login [OF keeps_rd [of x c]] by (auto simp: goes_def)
    then show ?thesis using o1 by (cases o1) auto
  qed
  show ?thesis
  proof (cases e)
    case None
    have "ends (\<lambda>b d. goes E ?c d \<and> (ginv c \<longrightarrow> ginv d)) (\<lambda>d. goes E ?c d \<and> (ginv c \<longrightarrow> ginv d))
        (command_line E P (strip_eol p) ?c)"
      using command_line_ends [of ?c E "strip_eol p"] u(2) by (auto elim: ends_mono)
    then show ?thesis
      using body [OF _ u(2)] lt None unfolding serve_round_def u option.case prod.case Let_def by simp
  next
    case (Some x)
    have k: "goes E c ?c" by (intro keeps_goes keeps_rd u le)
    show ?thesis
    proof (cases "x = ErrDelimNotFound")
      case False
      then show ?thesis using k by (simp add: serve_round_def u Some)
    next
      case True
      obtain e2 r2 where d: "drain r = Some (e2, r2)" "wf r2" "length (events r2) \<le> length (events r)"
        using drain_ends [OF u(2)] by blast
      have lt2: "length (events r2) < length (events (rd c))" using d(3) lt Some True by simp
      have k2: "goes E c (c\<lparr>rd := r2\<rparr>)" using lt2 by (intro keeps_goes keeps_rd d) simp
      have s: "ends (\<lambda>b d. goes E (c\<lparr>rd := r2\<rparr>) d \<and> (ginv c \<longrightarrow> ginv d))
          (\<lambda>d. goes E (c\<lparr>rd := r2\<rparr>) d \<and> (ginv c \<longrightarrow> ginv d))
          (say (PrintfLine (bs ''501 command too long'')) (c\<lparr>rd := r2\<rparr>))"
        unfolding say_def
        by (intro AbortOnErr_printer printer_intros) (use d(2) in \<open>auto simp: keeps_goes ginv_def simp del: bs_Cons intro!: goes_flush auth_step.idle\<close>)
      show ?thesis
      proof (cases e2)
        case None
        then show ?thesis using body [OF s d(2) lt2]
          unfolding serve_round_def u Some True d None option.case prod.case Let_def by simp
      next
        case 2: (Some y)
        then show ?thesis using k2 by (simp add: serve_round_def u Some True d)
      qed
    qed
  qed
qed

text \<open>The loop ends, and what every round keeps holds at the end.\<close>

lemma serve_ends:
  assumes "wf (rd c)" and "I c"
    and step: "\<And>n c d. wf (rd c) \<Longrightarrow> I c \<Longrightarrow> goes (Es n) c d \<Longrightarrow> (ginv c \<longrightarrow> ginv d) \<Longrightarrow> I d"
  shows "\<exists>b d. serve Es P n c = Some (b, d) \<and> wf (rd d) \<and> I d"
  using assms(1,2)
proof (induction "(if tlsConn c then 0 else 1 :: nat, length (events (rd c)))" arbitrary: n c
    rule: wf_induct_rule [OF wf_lex_prod [OF wf_less_than wf_less_than]])
  case (1 c n)
  note r = serve_round_ends [OF 1(2), of "Es n"]
  show ?case
  proof (cases "serve_round (Es n) P c")
    case (Continue d)
    then have d: "goes (Es n) c d" "ginv c \<longrightarrow> ginv d"
      "tlsConn d = tlsConn c \<longrightarrow> length (events (rd d)) < length (events (rd c))" using r by auto
    have t: "tlsConn c \<longrightarrow> tlsConn d" using d(1)
      by (auto simp: goes_def elim!: auth_stepE) (simp_all add: login_of_def)
    have "\<exists>b e. serve Es P (n + 1) d = Some (b, e) \<and> wf (rd e) \<and> I e"
    proof (rule 1(1))
      show "((if tlsConn d then 0 else 1, length (events (rd d))), if tlsConn c then 0 else 1, length (events (rd c)))
          \<in> less_than <*lex*> less_than" using d(3) t by auto
      show "wf (rd d)" using d(1) by (simp add: goes_def)
      show "I d" by (rule step [OF 1(2,3) d(1,2)])
    qed
    then show ?thesis by (subst serve.simps) (simp add: Continue)
  next
    case (Return b d)
    then have d: "goes (Es n) c d" "ginv c \<longrightarrow> ginv d" using r by auto
    then have "wf (rd d)" "I d" using step [OF 1(2,3) d] by (simp_all add: goes_def)
    then show ?thesis by (subst serve.simps) (simp add: Return)
  next
    case Blocked
    then show ?thesis using r by simp
  qed
qed

text \<open>From the set-up of a connection to its end.\<close>

lemma handleConnection_ends:
  fixes I :: "('g, 'p) conn \<Rightarrow> bool"
  assumes "\<And>b c. setup_conn (Es 0) u w s = Ret b c \<Longrightarrow> I c"
    and flush: "\<And>c x v. I c \<Longrightarrow> I (c\<lparr>out := x, wleft := v\<rparr>)"
    and step: "\<And>n c d. wf (rd c) \<Longrightarrow> I c \<Longrightarrow> goes (Es n) c d \<Longrightarrow> (ginv c \<longrightarrow> ginv d) \<Longrightarrow> I d"
  shows "case handleConnection Es P u w s of Ended b d \<Rightarrow> I d | Crashed \<Rightarrow> True | Running \<Rightarrow> False"
proof (cases "setup_conn (Es 0) u w s :: ('g, 'p) conn outcome")
  case (Ret b c)
  have wfc: "wf (rd c)"
    using Ret NewBufReader_wf by (auto simp: setup_conn_def setupDefaults_def postTLS_def Let_def
        split: if_splits option.splits list.splits)
  have i: "I c" by (rule assms(1) [OF Ret])
  obtain e d where g: "greet c = (e, d)" by force
  obtain x where x: "greet c = flush (Line x) c"
    by (cases "AllowPosting (priv c)") (simp_all only: greet_def PrintfLine_def if_True if_False)
  have d: "wf (rd d)" "I d"
    using g x wfc i flush by (cases rule: flush_cases [of c "Line x"]; force)+
  show ?thesis
  proof (cases "b \<and> e = None")
    case True
    have "\<exists>b' d'. serve (\<lambda>n. Es (n + 1)) P 0 d = Some (b', d') \<and> wf (rd d') \<and> I d'"
    proof (rule serve_ends [where I = I, OF d])
      fix n c1 d1
      assume "wf (rd c1)" "I c1" "goes (Es (n + 1)) c1 d1" "ginv c1 \<longrightarrow> ginv d1"
      then show "I d1" by (rule step)
    qed
    then obtain b' d' where "serve (\<lambda>n. Es (n + 1)) P 0 d = Some (b', d')" "I d'" by blast
    then show ?thesis using True by (simp add: handleConnection_def Ret serveClient_def g)
  next
    case False
    then show ?thesis using d i
      by (cases b; cases e) (simp_all add: handleConnection_def Ret serveClient_def g)
  qed
next
  case Hang
  then show ?thesis
    by (auto simp: setup_conn_def setupDefaults_def postTLS_def Let_def split: if_splits option.splits list.splits)
qed (simp add: handleConnection_def)

end

lemma setup_ginv: "setup_conn E u w s = Ret b c \<Longrightarrow> ginv c \<and> CurrentGroup c = None"
  by (auto simp: setup_conn_def setupDefaults_def postTLS_def Let_def ginv_def
      split: if_splits option.splits list.splits)

lemma setup_cannot_read: "setup_conn E u w s = Ret b c \<Longrightarrow> no_reader E \<Longrightarrow> cannot_read (login_of c)"
  by (auto simp: setup_conn_def setupDefaults_def postTLS_def Let_def cannot_read_def no_reader_def
      MergeUserPriv_def split: if_splits option.splits list.splits)

end
