(* ===== verification/MailHeaders.thy ===== *)
theory MailHeaders
  imports AsciiUtils Utf8 Streams "HOL-Library.AList" "HOL-Library.List_Lexorder"
begin

text \<open>
  Header maps and lists (\<open>mail/common.go\<close>, \<open>headermap.go\<close>, \<open>headers.go\<close>) and the reader of a message
  head (\<open>mail/headerreader.go\<close>): the state machine \<open>hdr_chunk\<close> that eats one chunk of buffered input,
  the loop that fetches chunks, and the limited reader in front of it. An \<open>io.Reader\<close> is a function
  \<open>rd\<close> from the size of the buffer and a state to what it reads. Names are canonical by the table of
  the known headers, or else by the case rule.
\<close>

subsection \<open>Header names\<close>

definition overrides :: "(bytes \<times> bytes) list" where
  "overrides = map (map_prod bs bs) [
    (''Message-Id'', ''Message-ID''),
    (''Content-Id'', ''Content-ID''),
    (''List-Id'', ''List-ID''),
    (''Mime-Version'', ''MIME-Version''),
    (''Nntp-Posting-Date'', ''NNTP-Posting-Date''),
    (''Nntp-Posting-Host'', ''NNTP-Posting-Host''),
    (''X-Pubkey-Ed25519'', ''X-PubKey-Ed25519''),
    (''X-Signature-Ed25519-Sha512'', ''X-Signature-Ed25519-SHA512''),
    (''X-Signature-Ed25519-Blake2b'', ''X-Signature-Ed25519-BLAKE2b''),
    (''X-Frontend-Pubkey'', ''X-Frontend-PubKey''),
    (''X-Encrypted-Ip'', ''X-Encrypted-IP''),
    (''X-I2p-Desthash'', ''X-I2P-DestHash'')]"

definition commonHeadersList :: "bytes list" where
  "commonHeadersList = map bs [
    ''Also-Control'', ''Approved'', ''Archive'', ''Article-Names'', ''Article-Updates'', ''Bcc'',
    ''Bytes'', ''Cancel-Key'', ''Cancel-Lock'', ''Cc'', ''Comments'', ''Content-Description'',
    ''Content-Disposition'', ''Content-Language'', ''Content-Transfer-Encoding'',
    ''Content-Type'', ''Control'', ''Date'', ''Date-Received'', ''Distribution'', ''Expires'',
    ''Face'', ''Followup-To'', ''From'', ''Importance'', ''In-Reply-To'', ''Injection-Date'',
    ''Injection-Info'', ''Keywords'', ''Lines'', ''Newsgroups'', ''Organization'', ''Path'',
    ''Posting-Version'', ''Received'', ''References'', ''Relay-Version'', ''Return-Path'',
    ''Reply-To'', ''See-Also'', ''Sender'', ''Subject'', ''Summary'', ''Supersedes'', ''To'',
    ''User-Agent'', ''Xref'', ''X-Antivirus'', ''X-Antivirus-Status'', ''X-Complaints-To'',
    ''X-Complaints-Info'', ''X-Face'', ''X-Mailer'', ''X-Mozilla-News-Host'', ''X-Newsreader'',
    ''X-Notice'', ''X-Original-Bytes'', ''X-Priority'', ''X-Received'', ''X-Received-Bytes'',
    ''X-Trace'', ''X-Frontend-Signature'', ''X-Tor-Poster'', ''X-Sage'']"


text \<open>The table after \<open>init\<close>: the entries assigned last come first.\<close>

definition headerMap :: "bytes \<Rightarrow> bytes option" where
  "headerMap = map_of (map (\<lambda>v. (v, v)) commonHeadersList @ map (\<lambda>(k, v). (v, v)) overrides @ overrides)"

fun canonicalise_from :: "bool \<Rightarrow> bytes \<Rightarrow> bytes" where
  "canonicalise_from up [] = []"
| "canonicalise_from up (c # b) =
     (if up \<and> 97 \<le> c \<and> c \<le> 122 then c - 32
      else if \<not> up \<and> 65 \<le> c \<and> c \<le> 90 then c + 32 else c) # canonicalise_from (c = 45) b"

definition canonicaliseSlice :: "bytes \<Rightarrow> bytes" where
  "canonicaliseSlice = canonicalise_from True"

definition unsafeMapCanonicalOriginalHeaders :: "bytes \<Rightarrow> bytes \<times> bytes" where
  "unsafeMapCanonicalOriginalHeaders b =
     (case headerMap b of
        Some h \<Rightarrow> (h, [])
      | None \<Rightarrow>
          let orig = b; b = canonicaliseSlice b in
          (case headerMap b of
             Some h \<Rightarrow> (h, [])
           | None \<Rightarrow> if b = orig then (b, []) else (b, orig)))"

definition UnsafeCanonicalHeader :: "bytes \<Rightarrow> bytes" where
  "UnsafeCanonicalHeader b =
     (case headerMap b of
        Some h \<Rightarrow> h
      | None \<Rightarrow>
          let b = canonicaliseSlice b in
          (case headerMap b of Some h \<Rightarrow> h | None \<Rightarrow> b))"

definition maxCommonHdrLen :: nat where "maxCommonHdrLen = 32"

definition FindCommonCanonicalKey :: "bytes \<Rightarrow> bytes" where
  "FindCommonCanonicalKey s =
     (case headerMap s of
        Some y \<Rightarrow> y
      | None \<Rightarrow>
          if length s > maxCommonHdrLen then []
          else (case headerMap (canonicalise_from True s) of Some y \<Rightarrow> y | None \<Rightarrow> []))"

definition ValidHeaderName :: "bytes \<Rightarrow> bool" where
  "ValidHeaderName h = IsPrintableASCIISlice h 58"

definition validHeaderContent :: "bytes \<Rightarrow> bool" where
  "validHeaderContent b \<longleftrightarrow>
     \<not> list_ex (\<lambda>c. c = 0 \<or> c = CR \<or> c = LF) b \<and> (\<not> list_ex (\<lambda>c. c AND 0x80 \<noteq> 0) b \<or> utf8_valid b)"

subsection \<open>Header maps and lists\<close>

record HeaderVal =
  hV :: bytes
  hO :: bytes
  hS :: "u32 list"

text \<open>A header map is an association list without double keys; its order means nothing.\<close>

type_synonym HeaderMap = "(bytes \<times> HeaderVal list) list"
type_synonym HeaderList = "(bytes \<times> HeaderVal) list"

definition OneHeaderVal :: "bytes \<Rightarrow> HeaderVal list" where
  "OneHeaderVal v = [\<lparr>hV = v, hO = [], hS = []\<rparr>]"

text \<open>\<open>h[x]\<close>: the nil slice where there is no entry.\<close>

definition entries :: "HeaderMap \<Rightarrow> bytes \<Rightarrow> HeaderVal list" where
  "entries h x = (case map_of h x of Some l \<Rightarrow> l | None \<Rightarrow> [])"

definition Has :: "HeaderMap \<Rightarrow> bytes \<Rightarrow> bool" where
  "Has h x \<longleftrightarrow> length (entries h x) \<noteq> 0"

definition GetFirst :: "HeaderMap \<Rightarrow> bytes \<Rightarrow> bytes" where
  "GetFirst h x = (case entries h x of v # _ \<Rightarrow> hV v | [] \<Rightarrow> [])"

text \<open>\<open>None\<close> is the panic.\<close>

definition GetOneOrNone :: "HeaderMap \<Rightarrow> bytes \<Rightarrow> bytes option" where
  "GetOneOrNone h x = (case entries h x of [v] \<Rightarrow> Some (hV v) | [] \<Rightarrow> Some [] | _ \<Rightarrow> None)"

definition Lookup :: "HeaderMap \<Rightarrow> bytes \<Rightarrow> HeaderVal list" where
  "Lookup h x =
     (case headerMap x of
        Some y \<Rightarrow> entries h y
      | None \<Rightarrow>
          (case map_of h x of
             Some s \<Rightarrow> s
           | None \<Rightarrow>
               let b = canonicalise_from True x in
               (case headerMap b of Some y \<Rightarrow> entries h y | None \<Rightarrow> entries h b)))"

text \<open>\<open>append(H[k], v)\<close>, as the callback of \<open>readHeaderMap\<close> and \<open>ToHeaderMap\<close> do it.\<close>

definition add_value :: "bytes \<times> HeaderVal \<Rightarrow> HeaderMap \<Rightarrow> HeaderMap" where
  "add_value kv H = AList.update (fst kv) (entries H (fst kv) @ [snd kv]) H"

definition ToHeaderMap :: "HeaderList \<Rightarrow> HeaderMap" where
  "ToHeaderMap hl = fold add_value hl []"

subsection \<open>The head reader\<close>

datatype hdr_err = HRead io_err | errMissingColon | errEmptyHeaderName | errInvalidContinuation | errEmptyFold
  | errInvalidHeaderName bytes | errInvalidHeaderContent bytes bytes

text \<open>
  The variables of \<open>readHeaderIntoFunc\<close>: \<open>hh\<close> is the buffer \<open>h\<close>, \<open>found\<close> lists the
  calls of \<open>rhf\<close>.
\<close>

record hst =
  hh :: bytes
  currHeader :: bytes
  origHeader :: bytes
  splits :: "u32 list"
  start :: nat
  contStart :: nat
  lastStart :: nat
  currFrag :: bool
  found :: HeaderList

definition hst0 :: hst where
  "hst0 = \<lparr>hh = [], currHeader = [], origHeader = [], splits = [], start = 0, contStart = 0, lastStart = 0,
     currFrag = False, found = []\<rparr>"

definition finishCurrent :: "hst \<Rightarrow> hdr_err option \<times> hst" where
  "finishCurrent st =
     (let hcont = drop (contStart st) (take (start st) (hh st)) in
      if length (currHeader st) \<noteq> 0 \<and> \<not> validHeaderContent hcont
      then (Some (errInvalidHeaderContent (currHeader st) hcont), st\<lparr>hh := []\<rparr>)
      else
        let st = (if length (currHeader st) \<noteq> 0
                  then st\<lparr>found := found st @ [(currHeader st,
                               \<lparr>hV = TrimWSBytes hcont, hO = origHeader st, hS = splits st\<rparr>)],
                          splits := [], currHeader := []\<rparr>
                  else st)
        in (None, st\<lparr>hh := [], start := 0, lastStart := 0\<rparr>))"

definition strip_cr :: "bytes \<Rightarrow> bytes" where
  "strip_cr line = (if length line \<noteq> 0 \<and> last line = CR then butlast line else line)"

text \<open>
  A line whose end has been found; \<open>Inr None\<close> is the jump to \<open>endHeaders\<close>.
\<close>

definition hdr_line :: "hst \<Rightarrow> hdr_err + hst option" where
  "hdr_line st =
     (let line = strip_cr (drop (start st) (hh st));
          st = st\<lparr>hh := take (start st + length line) (hh st)\<rparr>
      in if length line = 0 then Inr None
         else if \<not> isws (line ! 0) then
           (case index_byte line 58 of
              None \<Rightarrow> Inl errMissingColon
            | Some nn \<Rightarrow>
                let name = rev (dropWhile isws (rev (take nn line))) in
                if length name = 0 then Inl errEmptyHeaderName
                else if \<not> ValidHeaderName name then Inl (errInvalidHeaderName name)
                else
                  let (k, o') = unsafeMapCanonicalOriginalHeaders name;
                      nn = nn + 1;
                      nn = nn + length (takeWhile isws (drop nn line))
                  in Inr (Some (st\<lparr>currHeader := k, origHeader := o', contStart := nn, lastStart := nn,
                                   start := length (hh st)\<rparr>)))
         else if length (currHeader st) = 0 then Inl errInvalidContinuation
         else if start st - lastStart st = 0 \<or> length (TrimLeftWSBytes line) = 0 then Inl errEmptyFold
         else Inr (Some (st\<lparr>splits := splits st @ [of_nat (start st - lastStart st)],
                           lastStart := start st, start := length (hh st)\<rparr>)))"

text \<open>
  The canonicalisation writes the name in place. It is not visible later: \<open>contStart\<close> is behind it.
\<close>

datatype hstep = HMore hst | HStop hdr_err hst bytes | HDone hst bytes

function hdr_chunk :: "hst \<Rightarrow> bytes \<Rightarrow> hstep" where
  "hdr_chunk st b =
     (if length b = 0 then HMore st
      else
        let lastWasFrag = currFrag st;
            (wb, b', st) = (case index_byte b LF of
                              Some n \<Rightarrow> (take n b, drop (n + 1) b, st\<lparr>currFrag := False\<rparr>)
                            | None \<Rightarrow> (b, [], st\<lparr>currFrag := True\<rparr>));
            (e, st) = (if \<not> lastWasFrag \<and> length wb \<noteq> 0 \<and> \<not> isws (wb ! 0) then finishCurrent st
                       else (None, st))
        in (case e of
              Some e \<Rightarrow> HStop e st b'
            | None \<Rightarrow>
                let st = st\<lparr>hh := hh st @ wb\<rparr> in
                if currFrag st then HMore st
                else
                  (case hdr_line st of
                     Inl e \<Rightarrow> HStop e st b'
                   | Inr None \<Rightarrow> HDone st b'
                   | Inr (Some st) \<Rightarrow> hdr_chunk st b')))"
  by pat_completeness auto
termination
  by (relation "measure (\<lambda>(st, b). length b)")
    (auto split: if_splits option.splits dest!: index_byte_Some)

declare hdr_chunk.simps [simp del]

text \<open>
  The buffered reader in front of the source: what is buffered, the error queued behind it, the state of
  the source. The buffer holds \<open>headBufSize\<close> bytes and is compact when it is filled.
\<close>

definition headBufSize :: nat where "headBufSize = 4096"

type_synonym 's rdfun = "nat \<Rightarrow> 's \<Rightarrow> ((bytes \<times> io_err option) \<times> 's) option"
type_synonym 's hbuf = "bytes \<times> io_err option \<times> 's"

text \<open>\<open>FillBufferUpto(0)\<close> of \<open>estimateNumHeaders\<close>, and its count of header lines.\<close>

partial_function (option) fill_full :: "'s rdfun \<Rightarrow> 's hbuf \<Rightarrow> 's hbuf option" where
  "fill_full rd t =
     (case t of (b, q, s) \<Rightarrow>
        if length b < headBufSize \<and> q = None then do {
          ((x, q), s) \<leftarrow> rd (headBufSize - length b) s;
          fill_full rd (b @ x, q, s)
        }
        else Some t)"

fun count_headers :: "nat \<Rightarrow> nat \<Rightarrow> bytes \<Rightarrow> nat" where
  "count_headers n cont [] = n + cont"
| "count_headers n cont (c # b) =
     (if c = LF then
        if cont = 0 then n
        else if b \<noteq> [] \<and> isws (hd b) then count_headers n cont b
        else count_headers (n + 1) 0 b
      else count_headers n 1 b)"

definition estimateNumHeaders :: "'s rdfun \<Rightarrow> 's hbuf \<Rightarrow> (nat \<times> 's hbuf) option" where
  "estimateNumHeaders rd t = do { t \<leftarrow> fill_full rd t; Some (count_headers 0 0 (fst t), t) }"

text \<open>\<open>FillBufferAtleast(1)\<close> of an empty buffer.\<close>

partial_function (option) fill_one :: "'s rdfun \<Rightarrow> io_err option \<Rightarrow> 's \<Rightarrow> ((io_err + bytes) \<times> io_err option \<times> 's) option" where
  "fill_one rd q s =
     (case q of
        Some e \<Rightarrow> Some (Inl e, None, s)
      | None \<Rightarrow> do {
          ((x, q), s) \<leftarrow> rd headBufSize s;
          if x \<noteq> [] then Some (Inr x, q, s) else fill_one rd q s
        })"

partial_function (option) readHeaderIntoFunc ::
  "'s rdfun \<Rightarrow> hst \<Rightarrow> 's hbuf \<Rightarrow> ((HeaderList \<times> hdr_err option) \<times> 's hbuf) option" where
  "readHeaderIntoFunc rd st t =
     (case t of (b, q, s) \<Rightarrow>
        (case hdr_chunk st b of
           HStop e st b \<Rightarrow> Some ((found st, Some e), b, q, s)
         | HDone st b \<Rightarrow> (case finishCurrent st of (e, st) \<Rightarrow> Some ((found st, e), b, q, s))
         | HMore st \<Rightarrow> do {
             (x, q, s) \<leftarrow> fill_one rd q s;
             case x of
               Inl e \<Rightarrow> Some ((found st, Some (HRead e)), [], q, s)
             | Inr b \<Rightarrow> readHeaderIntoFunc rd st (b, q, s)
           }))"

definition readHeaderMap :: "'s rdfun \<Rightarrow> 's hbuf \<Rightarrow> ((HeaderMap \<times> hdr_err option) \<times> 's hbuf) option" where
  "readHeaderMap rd t = do {
     (est, t) \<leftarrow> estimateNumHeaders rd t;
     ((l, e), t) \<leftarrow> readHeaderIntoFunc rd hst0 t;
     Some ((ToHeaderMap l, e), t)
   }"

text \<open>\<open>limitedHeadReader\<close>: the state of the reader and what may still be read.\<close>

definition limited_read :: "'s rdfun \<Rightarrow> ('s \<times> nat) rdfun" where
  "limited_read rd l sn = do {
     ((b, e), s) \<leftarrow> rd (min l (snd sn)) (fst sn);
     let n = snd sn - length b;
     Some ((b, if e = None \<and> n = 0 \<and> b = [] then Some errHeadLimitReached else e), s, n)
   }"

record MessageHead =
  H :: HeaderMap
  B :: "(bytes \<times> io_err option) option"

text \<open>The body reader \<open>B\<close> keeps the buffer and reads from the unlimited source, which is the result.\<close>

definition ReadHeaders :: "'s rdfun \<Rightarrow> nat \<Rightarrow> 's \<Rightarrow> ((MessageHead \<times> hdr_err option) \<times> 's) option" where
  "ReadHeaders rd headlimit s =
     (if headlimit > 0 then do {
        ((h, e), b, q, s, n) \<leftarrow> readHeaderMap (limited_read rd) ([], None, s, headlimit);
        Some ((\<lparr>H = h,
                B = (if e = None
                     then Some (b, if n = 0 \<and> q = Some errHeadLimitReached then None else q) else None)\<rparr>, e), s)
      }
      else do {
        ((h, e), b, q, s) \<leftarrow> readHeaderMap rd ([], None, s);
        Some ((\<lparr>H = h, B = (if e = None then Some (b, q) else None)\<rparr>, e), s)
      })"

text \<open>
  \<open>ReadHeadersFromExisting\<close>: the limit counts what is buffered already. A negative limit cannot occur.
\<close>

definition ReadHeadersFromExisting ::
  "'s rdfun \<Rightarrow> nat \<Rightarrow> 's hbuf \<Rightarrow> ((HeaderMap \<times> hdr_err option) \<times> 's hbuf) option" where
  "ReadHeadersFromExisting rd headlimit t =
     (if headlimit > 0 then
        (case t of (b, q, s) \<Rightarrow> do {
           ((h, e), b, q, s, n) \<leftarrow> readHeaderMap (limited_read rd) (b, q, s, headlimit - length b);
           Some ((h, e), b, if n = 0 \<and> q = Some errHeadLimitReached then None else q, s)
         })
      else readHeaderMap rd t)"

end
