(* ===== verification/MailHeadLaws.thy ===== *)
theory MailHeadLaws
  imports MailHeaders
begin

text \<open>
  The head reader line by line, independence of the chunks the input comes in, and the invariant of the
  headers it yields.
\<close>

subsection \<open>One line\<close>

lemma index_byte_at: "q \<notin> set x \<Longrightarrow> index_byte (x @ q # y) q = Some (length x)"
  by (subst index_byte_def, subst takeWhile_append2) (auto simp: Let_def)

text \<open>The first piece of a line finishes the header before it.\<close>

definition open_line :: "bytes \<Rightarrow> hst \<Rightarrow> hdr_err option \<times> hst" where
  "open_line x st =
     (if \<not> currFrag st \<and> x \<noteq> [] \<and> \<not> isws (hd x) then finishCurrent st else (None, st))"

lemma finishCurrent_frag:
  "finishCurrent (st\<lparr>currFrag := f\<rparr>) = map_prod id (currFrag_update (\<lambda>_. f)) (finishCurrent st)"
  by (simp add: finishCurrent_def Let_def)

lemma hdr_chunk_Nil [simp]: "hdr_chunk st [] = HMore st"
  by (simp add: hdr_chunk.simps)

definition end_line :: "hst \<Rightarrow> bytes \<Rightarrow> hstep" where
  "end_line st b =
     (case hdr_line st of
        Inl e \<Rightarrow> HStop e st b
      | Inr None \<Rightarrow> HDone st b
      | Inr (Some st) \<Rightarrow> hdr_chunk st b)"

lemma hdr_chunk_line:
  assumes "LF \<notin> set x"
  shows "hdr_chunk st (x @ LF # b) =
    (case open_line x st of
       (Some e, st) \<Rightarrow> HStop e (st\<lparr>currFrag := False\<rparr>) b
     | (None, st) \<Rightarrow> end_line (st\<lparr>currFrag := False, hh := hh st @ x\<rparr>) b)"
  using assms
  by (subst hdr_chunk.simps)
    (simp add: index_byte_at open_line_def end_line_def finishCurrent_frag hd_conv_nth nth_append Let_def
      split: prod.split option.split sum.split)

lemma hdr_chunk_part:
  assumes "LF \<notin> set x" and "x \<noteq> []"
  shows "hdr_chunk st x =
    (case open_line x st of
       (Some e, st) \<Rightarrow> HStop e (st\<lparr>currFrag := True\<rparr>) []
     | (None, st) \<Rightarrow> HMore (st\<lparr>currFrag := True, hh := hh st @ x\<rparr>))"
  using assms
  by (subst hdr_chunk.simps)
    (simp add: index_byte_None [THEN iffD2] open_line_def finishCurrent_frag hd_conv_nth Let_def
      split: prod.split option.split)

subsection \<open>Independence of the chunks\<close>

text \<open>What a result shows: after an error neither the rest of the input nor the buffer counts.\<close>

fun seen :: "hstep \<Rightarrow> hstep" where
  "seen (HStop e st b) = HStop e (hst0\<lparr>found := found st\<rparr>) []"
| "seen (HDone st b) = HDone st b"
| "seen (HMore st) = HMore st"

fun feed :: "hstep \<Rightarrow> bytes \<Rightarrow> hstep" where
  "feed (HMore st) b = hdr_chunk st b"
| "feed (HDone st r) b = HDone st (r @ b)"
| "feed (HStop e st r) b = HStop e st r"

lemma open_line_append: "a \<noteq> [] \<Longrightarrow> open_line (a @ b) st = open_line a st"
  by (simp add: open_line_def)

lemma open_line_frag: "currFrag st \<Longrightarrow> open_line x st = (None, st)"
  by (simp add: open_line_def)

lemma hdr_chunk_append: "seen (hdr_chunk st (a @ b)) = seen (feed (hdr_chunk st a) b)"
proof (induction a arbitrary: st rule: length_induct)
  case (1 a)
  show ?case
  proof (cases "LF \<in> set a")
    case True
    then obtain x a' where a: "a = x @ LF # a'" "LF \<notin> set x" by (metis split_list_first)
    obtain e st1 where o: "open_line x st = (e, st1)" by force
    have "seen (hdr_chunk st' (a' @ b)) = seen (feed (hdr_chunk st' a') b)" for st' using 1 a by simp
    then show ?thesis
      by (simp add: a hdr_chunk_line o end_line_def split: option.split sum.split)
  next
    case a: False
    obtain e st1 where o: "open_line a st = (e, st1)" by force
    consider "a = []" | "b = []" | "a \<noteq> []" "b \<noteq> []" "LF \<notin> set b"
      | x b' where "a \<noteq> []" "b = x @ LF # b'" "LF \<notin> set x"
      by (metis split_list_first)
    then show ?thesis
    proof cases
      case 2
      then show ?thesis using a by (cases "a = []") (simp_all add: hdr_chunk_part o split: option.split)
    next
      case 3
      then show ?thesis using a
        by (simp add: hdr_chunk_part open_line_append o open_line_frag split: option.split)
    next
      case (4 x b')
      then show ?thesis using a hdr_chunk_line [of "a @ x" st b']
        by (simp add: hdr_chunk_part hdr_chunk_line open_line_append o open_line_frag split: option.split)
    qed simp
  qed
qed

subsection \<open>Sources\<close>

text \<open>
  What the head reader relies on: a read ends, keeps the source usable and, given room, comes nearer to
  an error (\<open>io_reader\<close>); and what it delivers is the next part of the bytes before the first error
  (\<open>io_source\<close>, for the states where these are determined).
\<close>

locale io_reader =
  fixes rd :: "'s rdfun" and ok :: "'s \<Rightarrow> bool" and sz :: "'s \<Rightarrow> nat"
  assumes rd_ends: "ok s \<Longrightarrow> \<exists>x q s'. rd n s = Some ((x, q), s') \<and> ok s' \<and> length x \<le> n \<and> sz s' \<le> sz s \<and>
    (q = None \<and> 0 < n \<longrightarrow> sz s' < sz s)"

locale io_source = io_reader rd ok sz
  for rd :: "'s rdfun" and ok :: "'s \<Rightarrow> bool" and sz :: "'s \<Rightarrow> nat" +
  fixes good :: "'s \<Rightarrow> bool" and data :: "'s \<Rightarrow> bytes \<times> io_err"
  assumes rd_data: "ok s \<Longrightarrow> good s \<Longrightarrow> rd n s = Some ((x, q), s') \<Longrightarrow>
    (case q of
       None \<Rightarrow> good s' \<and> data s = (x @ fst (data s'), snd (data s'))
     | Some e \<Rightarrow> data s = (x, e))"

text \<open>Everything that is left of a buffered source.\<close>

definition rest_of :: "('s \<Rightarrow> bytes \<times> io_err) \<Rightarrow> 's hbuf \<Rightarrow> bytes \<times> io_err" where
  "rest_of data t =
     (case t of (b, q, s) \<Rightarrow>
        (case q of None \<Rightarrow> (b @ fst (data s), snd (data s)) | Some e \<Rightarrow> (b, e)))"

context io_reader
begin

abbreviation fits :: "'s hbuf \<Rightarrow> 's \<Rightarrow> bool" where
  "fits t s \<equiv> ok (snd (snd t)) \<and> sz (snd (snd t)) \<le> sz s"

lemma fill_full_ends: "ok s \<Longrightarrow> \<exists>t. fill_full rd (b, q, s) = Some t \<and> fits t s"
proof (induction "if q = None then Suc (sz s) else 0" arbitrary: b q s rule: less_induct)
  case less
  show ?case
  proof (cases "length b < headBufSize \<and> q = None")
    case True
    obtain x q' s' where r: "rd (headBufSize - length b) s = Some ((x, q'), s')" "ok s'" "sz s' \<le> sz s"
      "q' = None \<longrightarrow> sz s' < sz s"
      using rd_ends [OF less.prems, of "headBufSize - length b"] True by auto
    have "\<exists>t. fill_full rd (b @ x, q', s') = Some t \<and> fits t s'"
      using r True by (intro less.hyps) auto
    then show ?thesis using True r by (subst fill_full.simps) auto
  qed (use less.prems in \<open>subst fill_full.simps; auto\<close>)
qed

lemma fill_one_ends:
  "ok s \<Longrightarrow> \<exists>x q' s'. fill_one rd q s = Some (x, q', s') \<and> ok s' \<and> sz s' \<le> sz s \<and>
     (case x of Inl e \<Rightarrow> q' = None | Inr x \<Rightarrow> x \<noteq> [] \<and> q = None \<and> (q' = None \<longrightarrow> sz s' < sz s))"
proof (induction "if q = None then Suc (sz s) else 0" arbitrary: q s rule: less_induct)
  case less
  show ?case
  proof (cases q)
    case None
    obtain x q1 s1 where r: "rd headBufSize s = Some ((x, q1), s1)" "ok s1" "sz s1 \<le> sz s"
      "q1 = None \<longrightarrow> sz s1 < sz s"
      using rd_ends [OF less.prems, of headBufSize] by (auto simp: headBufSize_def)
    show ?thesis
    proof (cases "x = []")
      case True
      have lt: "(if q1 = None then Suc (sz s1) else 0) < (if q = None then Suc (sz s) else 0)"
        using r None by simp
      obtain y q2 s2 where y: "fill_one rd q1 s1 = Some (y, q2, s2)" "ok s2" "sz s2 \<le> sz s1"
        "case y of Inl e \<Rightarrow> q2 = None | Inr x \<Rightarrow> x \<noteq> [] \<and> q1 = None \<and> (q2 = None \<longrightarrow> sz s2 < sz s1)"
        using less.hyps [OF lt r(2)] by blast
      have "fill_one rd q s = Some (y, q2, s2)"
        using r y True None by (subst fill_one.simps) simp
      then show ?thesis using r y None
        by (intro exI [of _ y] exI [of _ q2] exI [of _ s2]) (auto split: sum.splits)
    qed (use r None in \<open>subst fill_one.simps; simp\<close>)
  qed (use less.prems in \<open>subst fill_one.simps; simp\<close>)
qed

lemma readHeaderIntoFunc_ends:
  "ok s \<Longrightarrow> \<exists>r t. readHeaderIntoFunc rd st (b, q, s) = Some (r, t) \<and> fits t s"
proof (induction "if q = None then Suc (sz s) else 0" arbitrary: st b q s rule: less_induct)
  case less
  show ?case
  proof (cases "hdr_chunk st b")
    case (HMore st')
    obtain x q1 s1 where f: "fill_one rd q s = Some (x, q1, s1)" "ok s1" "sz s1 \<le> sz s"
      "case x of Inl e \<Rightarrow> q1 = None | Inr x \<Rightarrow> x \<noteq> [] \<and> q = None \<and> (q1 = None \<longrightarrow> sz s1 < sz s)"
      using fill_one_ends [OF less.prems, of q] by blast
    show ?thesis
    proof (cases x)
      case (Inr x')
      then have "\<exists>r t. readHeaderIntoFunc rd st' (x', q1, s1) = Some (r, t) \<and> fits t s1"
        using f by (intro less.hyps) auto
      then show ?thesis using HMore f Inr by (subst readHeaderIntoFunc.simps) auto
    qed (use HMore f in \<open>subst readHeaderIntoFunc.simps; simp\<close>)
  qed (use less.prems in \<open>subst readHeaderIntoFunc.simps; simp split: prod.split\<close>)+
qed

lemma readHeaderMap_ends: "ok s \<Longrightarrow> \<exists>h e t. readHeaderMap rd (b, q, s) = Some ((h, e), t) \<and> fits t s"
proof -
  assume "ok s"
  then obtain b1 q1 s1 where f: "fill_full rd (b, q, s) = Some (b1, q1, s1)" "ok s1" "sz s1 \<le> sz s"
    using fill_full_ends [of s b q] by auto
  then show ?thesis using readHeaderIntoFunc_ends [of s1 hst0 b1 q1]
    by (fastforce simp: readHeaderMap_def estimateNumHeaders_def)
qed

end

subsection \<open>What a head reader returns\<close>

text \<open>
  The specification: the bytes before the first error \<open>e\<close> are given to the state machine in one piece.
  The result is the headers found and the error, and the bytes behind the head.
\<close>

fun spec_of :: "io_err \<Rightarrow> hstep \<Rightarrow> (HeaderList \<times> hdr_err option) \<times> bytes" where
  "spec_of e (HStop x st r) = ((found st, Some x), [])"
| "spec_of e (HDone st r) = (case finishCurrent st of (x, st) \<Rightarrow> ((found st, x), r))"
| "spec_of e (HMore st) = ((found st, Some (HRead e)), [])"

definition head_spec :: "hst \<Rightarrow> bytes \<times> io_err \<Rightarrow> (HeaderList \<times> hdr_err option) \<times> bytes" where
  "head_spec st d = spec_of (snd d) (hdr_chunk st (fst d))"

lemma spec_of_seen: "spec_of e (seen h) = spec_of e h"
  by (cases h) auto

lemma head_spec_append: "head_spec st (a @ b, e) = spec_of e (feed (hdr_chunk st a) b)"
  using arg_cong [OF hdr_chunk_append [of st a b], of "spec_of e"] by (simp add: head_spec_def spec_of_seen)

context io_source
begin

lemma fill_full_data:
  "ok s \<Longrightarrow> q = None \<longrightarrow> good s \<Longrightarrow> \<exists>b' q' s'. fill_full rd (b, q, s) = Some (b', q', s') \<and> ok s' \<and>
     (q' = None \<longrightarrow> good s') \<and> rest_of data (b', q', s') = rest_of data (b, q, s)"
proof (induction "if q = None then Suc (sz s) else 0" arbitrary: b q s rule: less_induct)
  case less
  show ?case
  proof (cases "length b < headBufSize \<and> q = None")
    case True
    obtain x q1 s1 where r: "rd (headBufSize - length b) s = Some ((x, q1), s1)" "ok s1" "sz s1 \<le> sz s"
      "q1 = None \<longrightarrow> sz s1 < sz s"
      using rd_ends [OF less.prems(1), of "headBufSize - length b"] True by auto
    have d: "case q1 of None \<Rightarrow> good s1 \<and> data s = (x @ fst (data s1), snd (data s1)) | Some e \<Rightarrow> data s = (x, e)"
      using rd_data [OF _ _ r(1)] less.prems True by simp
    have lt: "(if q1 = None then Suc (sz s1) else 0) < (if q = None then Suc (sz s) else 0)"
      using True r by simp
    have "q1 = None \<longrightarrow> good s1" using d by auto
    then obtain b2 q2 s2 where i: "fill_full rd (b @ x, q1, s1) = Some (b2, q2, s2)" "ok s2"
      "q2 = None \<longrightarrow> good s2" "rest_of data (b2, q2, s2) = rest_of data (b @ x, q1, s1)"
      using less.hyps [OF lt r(2), of "b @ x"] by blast
    have "fill_full rd (b, q, s) = Some (b2, q2, s2)"
      using i(1) r(1) True by (subst fill_full.simps) simp
    moreover have "rest_of data (b @ x, q1, s1) = rest_of data (b, q, s)"
      using d True by (auto simp: rest_of_def split: option.splits)
    ultimately show ?thesis using i by simp
  qed (use less.prems in \<open>subst fill_full.simps; auto\<close>)
qed

lemma fill_one_data:
  "ok s \<Longrightarrow> q = None \<longrightarrow> good s \<Longrightarrow> fill_one rd q s = Some (x, q', s') \<Longrightarrow>
     (case x of
        Inl e \<Rightarrow> rest_of data ([], q, s) = ([], e)
      | Inr b \<Rightarrow> (q' = None \<longrightarrow> good s') \<and> rest_of data (b, q', s') = rest_of data ([], q, s))"
proof (induction "if q = None then Suc (sz s) else 0" arbitrary: q s rule: less_induct)
  case less
  show ?case
  proof (cases q)
    case None
    obtain y q1 s1 where r: "rd headBufSize s = Some ((y, q1), s1)" "ok s1" "sz s1 \<le> sz s"
      "q1 = None \<longrightarrow> sz s1 < sz s"
      using rd_ends [OF less.prems(1), of headBufSize] by (auto simp: headBufSize_def)
    have d: "case q1 of None \<Rightarrow> good s1 \<and> data s = (y @ fst (data s1), snd (data s1)) | Some e \<Rightarrow> data s = (y, e)"
      using rd_data [OF _ _ r(1)] less.prems None by simp
    show ?thesis
    proof (cases "y = []")
      case True
      have lt: "(if q1 = None then Suc (sz s1) else 0) < (if q = None then Suc (sz s) else 0)"
        using None r by simp
      have "fill_one rd q1 s1 = Some (x, q', s')"
        using less.prems(3) r True None by (subst (asm) fill_one.simps) simp
      moreover have "rest_of data ([], q1, s1) = rest_of data ([], q, s)" "q1 = None \<longrightarrow> good s1"
        using d True None by (auto simp: rest_of_def split: option.splits)
      ultimately show ?thesis using less.hyps [OF lt r(2)] by (simp split: sum.splits)
    next
      case False
      then have "x = Inr y" "q' = q1" "s' = s1"
        using less.prems(3) r None by (subst (asm) fill_one.simps, simp)+
      then show ?thesis using d None by (auto simp: rest_of_def split: option.splits)
    qed
  next
    case (Some e)
    then show ?thesis using less.prems(3) by (subst (asm) fill_one.simps) (auto simp: rest_of_def)
  qed
qed

lemma readHeaderIntoFunc_data:
  "ok s \<Longrightarrow> q = None \<longrightarrow> good s \<Longrightarrow> readHeaderIntoFunc rd st (b, q, s) = Some (r, t) \<Longrightarrow>
     r = fst (head_spec st (rest_of data (b, q, s))) \<and>
     (snd r = None \<longrightarrow> rest_of data t = (snd (head_spec st (rest_of data (b, q, s))), snd (rest_of data (b, q, s))) \<and>
        (fst (snd t) = None \<longrightarrow> good (snd (snd t))))"
proof (induction "if q = None then Suc (sz s) else 0" arbitrary: st b q s rule: less_induct)
  case less
  define c where "c = fst (rest_of data ([], q, s))"
  define e where "e = snd (rest_of data ([], q, s))"
  have rest: "rest_of data (b, q, s) = (b @ c, e)" for b
    by (auto simp: c_def e_def rest_of_def split: option.splits)
  have rest': "rest_of data ([], q, s) = (c, e)" using rest [of "[]"] by simp
  show ?case
  proof (cases "hdr_chunk st b")
    case (HMore st')
    obtain x q1 s1 where f: "fill_one rd q s = Some (x, q1, s1)" "ok s1" "sz s1 \<le> sz s"
      "case x of Inl e \<Rightarrow> q1 = None | Inr x \<Rightarrow> x \<noteq> [] \<and> q = None \<and> (q1 = None \<longrightarrow> sz s1 < sz s)"
      using fill_one_ends [OF less.prems(1), of q] by blast
    note d = fill_one_data [OF less.prems(1,2) f(1)]
    show ?thesis
    proof (cases x)
      case (Inl y)
      then have "r = (found st', Some (HRead y))"
        using less.prems(3) f HMore by (subst (asm) readHeaderIntoFunc.simps) simp
      then show ?thesis using d Inl HMore by (simp add: rest rest') (simp add: head_spec_def)
    next
      case (Inr y)
      have lt: "(if q1 = None then Suc (sz s1) else 0) < (if q = None then Suc (sz s) else 0)"
        using f Inr by simp
      have "readHeaderIntoFunc rd st' (y, q1, s1) = Some (r, t)"
        using less.prems(3) f HMore Inr by (subst (asm) readHeaderIntoFunc.simps) simp
      moreover have "rest_of data (y, q1, s1) = (c, e)" "q1 = None \<longrightarrow> good s1" using d Inr rest' by simp_all
      moreover have "head_spec st (rest_of data (b, q, s)) = head_spec st' (c, e)"
        using HMore by (simp add: rest head_spec_append) (simp add: head_spec_def)
      ultimately show ?thesis using less.hyps [OF lt f(2), of st' y] rest by auto
    qed
  next
    case (HStop x st' b')
    then show ?thesis using less.prems(3) by (subst (asm) readHeaderIntoFunc.simps) (auto simp: rest head_spec_append)
  next
    case (HDone st' b')
    then show ?thesis using less.prems rest [of b] rest [of b']
      by (subst (asm) readHeaderIntoFunc.simps) (auto simp: head_spec_append split: prod.splits)
  qed
qed

lemma readHeaderMap_data:
  assumes "ok s" and "q = None \<longrightarrow> good s" and "readHeaderMap rd (b, q, s) = Some ((h, e), t)"
  defines "sp \<equiv> head_spec hst0 (rest_of data (b, q, s))"
  shows "h = ToHeaderMap (fst (fst sp)) \<and> e = snd (fst sp) \<and>
    (e = None \<longrightarrow> rest_of data t = (snd sp, snd (rest_of data (b, q, s))) \<and> (fst (snd t) = None \<longrightarrow> good (snd (snd t))))"
proof -
  obtain b1 q1 s1 where f: "fill_full rd (b, q, s) = Some (b1, q1, s1)" "ok s1" "q1 = None \<longrightarrow> good s1"
    "rest_of data (b1, q1, s1) = rest_of data (b, q, s)"
    using fill_full_data [OF assms(1,2)] by blast
  obtain l where r: "readHeaderIntoFunc rd hst0 (b1, q1, s1) = Some ((l, e), t)" "h = ToHeaderMap l"
    using assms(3) f by (auto simp: readHeaderMap_def estimateNumHeaders_def split: Option.bind_splits)
  note d = readHeaderIntoFunc_data [OF f(2,3) r(1), unfolded f(4), folded sp_def]
  have "(l, e) = fst sp" using d by simp
  then have "fst (fst sp) = l" "snd (fst sp) = e" by (metis fst_conv, metis snd_conv)
  then show ?thesis using d r(2) by simp
qed

end

subsection \<open>The limit\<close>

text \<open>
  The limited reader delivers the first \<open>n\<close> bytes, and then its own error if there were more. When the
  error comes right behind the last byte allowed, which of the two is seen depends on the source.
\<close>

definition limit_data :: "('s \<Rightarrow> bytes \<times> io_err) \<Rightarrow> 's \<times> nat \<Rightarrow> bytes \<times> io_err" where
  "limit_data data sn =
     (take (snd sn) (fst (data (fst sn))),
      if snd sn < length (fst (data (fst sn))) then errHeadLimitReached else snd (data (fst sn)))"

context io_reader
begin

lemma limited_ends:
  assumes "ok s"
  shows "\<exists>x q s' k'. limited_read rd n (s, k) = Some ((x, q), s', k') \<and> ok s' \<and> length x \<le> n \<and> sz s' \<le> sz s \<and>
    k' \<le> k \<and> (q = None \<and> 0 < n \<longrightarrow> sz s' < sz s)"
proof -
  obtain x q s' where r: "rd (min n k) s = Some ((x, q), s')" "ok s'" "length x \<le> min n k" "sz s' \<le> sz s"
    "q = None \<and> 0 < min n k \<longrightarrow> sz s' < sz s"
    using rd_ends [OF assms] by blast
  then show ?thesis by (cases "k = 0") (auto simp: limited_read_def)
qed

lemma limited: "io_reader (limited_read rd) (\<lambda>(s, k). ok s) (\<lambda>(s, k). sz s)"
proof
  fix s n
  show "(case s of (s, k) \<Rightarrow> ok s) \<Longrightarrow> \<exists>x q s'. limited_read rd n s = Some ((x, q), s') \<and> (case s' of (s, k) \<Rightarrow> ok s) \<and>
      length x \<le> n \<and> (case s' of (s, k) \<Rightarrow> sz s) \<le> (case s of (s, k) \<Rightarrow> sz s) \<and>
      (q = None \<and> 0 < n \<longrightarrow> (case s' of (s, k) \<Rightarrow> sz s) < (case s of (s, k) \<Rightarrow> sz s))"
    using limited_ends [of "fst s" n "snd s"] by (cases s) fastforce
qed

end

context io_source
begin

lemma limited_source:
  "io_source (limited_read rd) (\<lambda>(s, k). ok s) (\<lambda>(s, k). sz s)
     (\<lambda>(s, k). good s \<and> length (fst (data s)) \<noteq> k) (limit_data data)"
proof (rule io_source.intro [OF limited], unfold_locales)
  fix s :: "'s \<times> nat" and n x q and s' :: "'s \<times> nat"
  assume a: "case s of (s, k) \<Rightarrow> ok s" "case s of (s, k) \<Rightarrow> good s \<and> length (fst (data s)) \<noteq> k"
    "limited_read rd n s = Some ((x, q), s')"
  obtain t k where s: "s = (t, k)" by force
  obtain y q1 t' where r: "rd (min n k) t = Some ((y, q1), t')" "length y \<le> min n k"
    using rd_ends [of t "min n k"] a(1) by (auto simp: s)
  have e: "x = y" "s' = (t', k - length y)"
    "q = (if q1 = None \<and> k - length y = 0 \<and> y = [] then Some errHeadLimitReached else q1)"
    using a(3) r by (auto simp: limited_read_def s Let_def)
  have d: "case q1 of None \<Rightarrow> good t' \<and> data t = (y @ fst (data t'), snd (data t')) | Some e \<Rightarrow> data t = (y, e)"
    using rd_data [OF _ _ r(1)] a(1,2) by (simp add: s)
  show "case q of None \<Rightarrow> (case s' of (s, k) \<Rightarrow> good s \<and> length (fst (data s)) \<noteq> k) \<and>
      limit_data data s = (x @ fst (limit_data data s'), snd (limit_data data s')) | Some e \<Rightarrow> limit_data data s = (x, e)"
    using d a(2) r(2) e by (cases q1) (auto simp: s limit_data_def)
qed

text \<open>Below the limit it is the source itself.\<close>

lemma limited_below:
  "io_source (limited_read rd) (\<lambda>(s, k). ok s) (\<lambda>(s, k). sz s)
     (\<lambda>(s, k). good s \<and> length (fst (data s)) < k) (\<lambda>(s, k). data s)"
proof (rule io_source.intro [OF limited], unfold_locales)
  fix s :: "'s \<times> nat" and n x q and s' :: "'s \<times> nat"
  assume a: "case s of (s, k) \<Rightarrow> ok s" "case s of (s, k) \<Rightarrow> good s \<and> length (fst (data s)) < k"
    "limited_read rd n s = Some ((x, q), s')"
  obtain t k where s: "s = (t, k)" by force
  obtain y q1 t' where r: "rd (min n k) t = Some ((y, q1), t')"
    using rd_ends [of t "min n k"] a(1) by (auto simp: s)
  have d: "case q1 of None \<Rightarrow> good t' \<and> data t = (y @ fst (data t'), snd (data t')) | Some e \<Rightarrow> data t = (y, e)"
    using rd_data [OF _ _ r(1)] a(1,2) by (simp add: s)
  then have "length y < k" using a(2) by (auto simp: s split: option.splits)
  then show "case q of None \<Rightarrow> (case s' of (s, k) \<Rightarrow> good s \<and> length (fst (data s)) < k) \<and>
      (case s of (s, k) \<Rightarrow> data s) = (x @ fst (case s' of (s, k) \<Rightarrow> data s), snd (case s' of (s, k) \<Rightarrow> data s))
    | Some e \<Rightarrow> (case s of (s, k) \<Rightarrow> data s) = (x, e)"
    using a(2,3) r d by (cases q1) (auto simp: limited_read_def s Let_def)
qed

end

subsection \<open>\<open>ReadHeaders\<close>\<close>

context io_reader
begin

lemma ReadHeaders_ends:
  assumes "ok s"
  shows "\<exists>h e s'. ReadHeaders rd k s = Some ((h, e), s') \<and> ok s' \<and> sz s' \<le> sz s \<and> (e = None \<longleftrightarrow> B h \<noteq> None)"
proof (cases "0 < k")
  case True
  then show ?thesis
    using io_reader.readHeaderMap_ends [OF limited, of "(s, k)" "[]" None] assms
    by (fastforce simp: ReadHeaders_def)
next
  case False
  then show ?thesis
    using readHeaderMap_ends [OF assms, of "[]" None] by (fastforce simp: ReadHeaders_def)
qed

end

context io_source
begin

lemma ReadHeaders_data:
  assumes "ok s" and "good s" and "data s = (c, x)" and "ReadHeaders rd k s = Some ((h, e), s')"
    and "k = 0 \<or> length c < k" and "x \<noteq> errHeadLimitReached"
  defines "sp \<equiv> head_spec hst0 (c, x)"
  shows "H h = ToHeaderMap (fst (fst sp)) \<and> e = snd (fst sp) \<and>
    (case B h of None \<Rightarrow> e \<noteq> None | Some (b, q) \<Rightarrow> e = None \<and> rest_of data (b, q, s') = (snd sp, x))"
proof (cases "0 < k")
  case True
  obtain m b q n where r: "readHeaderMap (limited_read rd) ([], None, s, k) = Some ((m, e), b, q, s', n)"
    and h: "h = \<lparr>H = m, B = (if e = None
      then Some (b, if n = 0 \<and> q = Some errHeadLimitReached then None else q) else None)\<rparr>"
    using assms(4) True by (auto simp: ReadHeaders_def split: Option.bind_splits)
  have d: "rest_of (\<lambda>(s, k). data s) ([], None, s, k) = (c, x)"
    using assms(3) by (simp add: rest_of_def)
  note l = io_source.readHeaderMap_data [OF limited_below _ _ r, unfolded d, folded sp_def]
  have l: "m = ToHeaderMap (fst (fst sp))" "e = snd (fst sp)"
    "e = None \<longrightarrow> rest_of (\<lambda>(s, k). data s) (b, q, s', n) = (snd sp, x)"
    using l assms(1,2,3,5) True by auto
  have "q \<noteq> Some errHeadLimitReached" if "e = None"
    using l(3) that assms(6) by (auto simp: rest_of_def)
  then show ?thesis using l by (auto simp: h rest_of_def)
next
  case False
  obtain m b q where r: "readHeaderMap rd ([], None, s) = Some ((m, e), b, q, s')"
    and h: "h = \<lparr>H = m, B = (if e = None then Some (b, q) else None)\<rparr>"
    using assms(4) False by (auto simp: ReadHeaders_def split: Option.bind_splits)
  have d: "rest_of data ([], None, s) = (c, x)" using assms(3) by (simp add: rest_of_def)
  show ?thesis
    using readHeaderMap_data [OF assms(1) _ r, unfolded d, folded sp_def] assms(2) by (auto simp: h)
qed

text \<open>A head that does not end within the limit is refused.\<close>

lemma ReadHeaders_limit:
  assumes "ok s" and "good s" and "data s = (c, x)" and "ReadHeaders rd k s = Some ((h, e), s')"
    and "0 < k" and "k < length c"
  shows "H h = ToHeaderMap (fst (fst (head_spec hst0 (take k c, errHeadLimitReached)))) \<and>
    e = snd (fst (head_spec hst0 (take k c, errHeadLimitReached)))"
proof -
  obtain m b q n where r: "readHeaderMap (limited_read rd) ([], None, s, k) = Some ((m, e), b, q, s', n)"
    and h: "H h = m"
    using assms(4,5) by (auto simp: ReadHeaders_def split: Option.bind_splits)
  have d: "rest_of (limit_data data) ([], None, s, k) = (take k c, errHeadLimitReached)"
    using assms(3,6) by (simp add: rest_of_def limit_data_def)
  show ?thesis
    using io_source.readHeaderMap_data [OF limited_source _ _ r, unfolded d] assms(1,2,3,6) h by auto
qed

end

subsection \<open>Plain readers\<close>

definition uread_rd :: "reader rdfun" where
  "uread_rd n u = (case uread n u of (x, q, u) \<Rightarrow> Some ((x, q), u))"

fun udata :: "reader \<Rightarrow> bytes \<times> io_err" where
  "udata [] = ([], EOF)"
| "udata ((b, None) # u) = (b @ fst (udata u), snd (udata u))"
| "udata ((b, Some e) # u) = (b, e)"

lemma uread_data:
  "uread n u = (x, q, u') \<Longrightarrow>
     (case q of None \<Rightarrow> udata u = (x @ fst (udata u'), snd (udata u')) | Some e \<Rightarrow> udata u = (x, e))"
proof (cases u)
  case (Cons c cs)
  obtain b e where c: "c = (b, e)" by force
  assume "uread n u = (x, q, u')"
  then show ?thesis
    by (cases e) (auto simp: Cons c split: if_splits)
qed auto

interpretation plain: io_source uread_rd "\<lambda>_. True" usize "\<lambda>_. True" udata
proof
  fix n and s :: reader
  obtain x q s' where u: "uread n s = (x, q, s')" by (metis prod_cases3)
  show "\<exists>x q s'. uread_rd n s = Some ((x, q), s') \<and> True \<and> length x \<le> n \<and> usize s' \<le> usize s \<and>
      (q = None \<and> 0 < n \<longrightarrow> usize s' < usize s)"
  proof (intro exI conjI)
    show "uread_rd n s = Some ((x, q), s')" by (simp add: uread_rd_def u)
    show "length x \<le> n" by (rule uread_len [OF u])
    show "usize s' \<le> usize s" using u by (cases s) (auto split: if_splits)
    show "q = None \<and> 0 < n \<longrightarrow> usize s' < usize s"
      using uread_size [OF u] u by (cases "s = []") auto
  qed simp
next
  fix s n x q and s' :: reader
  assume "uread_rd n s = Some ((x, q), s')"
  then have "uread n s = (x, q, s')" by (auto simp: uread_rd_def split: prod.splits)
  from uread_data [OF this]
  show "case q of None \<Rightarrow> True \<and> udata s = (x @ fst (udata s'), snd (udata s')) | Some e \<Rightarrow> udata s = (x, e)"
    by (simp split: option.splits)
qed

end
