(* ===== verification/MailHead.thy ===== *)
theory MailHead
  imports MailHeadLaws DotReader
begin

text \<open>
  Reading the head of an article from the dot reader of a connection: \<open>SkipHeaders\<close> of
  \<open>mail/headerreader.go\<close>, discarding the body, and \<open>ReadHeaders\<close> over this source. The locale
  \<open>head_reader\<close> is what the users of such a function rely on: it ends, and without an error there is a
  body reader \<open>B\<close>. Both functions keep it.
\<close>

type_synonym source = "DotReader \<times> BufReader"

partial_function (option) skip_loop ::
  "bool \<Rightarrow> bytes \<Rightarrow> io_err option \<Rightarrow> source \<Rightarrow> ((MessageHead \<times> hdr_err option) \<times> source) option" where
  "skip_loop hadNL b e t =
     (case b of
        c # b \<Rightarrow>
          if c = LF \<and> hadNL then Some ((\<lparr>H = [], B = Some (b, e)\<rparr>, None), t)
          else skip_loop (c = LF) b e t
      | [] \<Rightarrow>
          (case e of
             Some x \<Rightarrow> Some ((\<lparr>H = [], B = None\<rparr>, Some (HRead x)), t)
           | None \<Rightarrow> do {
               ((b, e), t) \<leftarrow> DotReader_Read headBufSize t;
               skip_loop hadNL b e t
             }))"

definition SkipHeaders :: "source \<Rightarrow> ((MessageHead \<times> hdr_err option) \<times> source) option" where
  "SkipHeaders t = skip_loop True [] None t"

text \<open>\<open>B.Discard(-1)\<close>: the buffer is dropped and the source read until it gives an error.\<close>

partial_function (option) discard_rest :: "io_err option \<Rightarrow> source \<Rightarrow> source option" where
  "discard_rest e t =
     (if e \<noteq> None then Some t
      else do { ((b, e), t) \<leftarrow> DotReader_Read headBufSize t; discard_rest e t })"

subsection \<open>They end\<close>

lemma dot_read_size:
  "dot_read ev_rd ev_unrd l b t = Some ((b', e), t') \<Longrightarrow>
     dot_size t' \<le> dot_size t \<and> (length b < length b' \<longrightarrow> dot_size t' < dot_size t)"
proof (induction "dot_size t" arbitrary: b t rule: less_induct)
  case less
  obtain d es where t: "t = (d, es)" by (cases t)
  obtain x es1 where x: "next_ev es = (x, es1)" by (cases "next_ev es")
  have le: "length es1 \<le> length es" using x by (cases es rule: next_ev.cases) auto
  show ?case
  proof (cases "length b < l \<and> ds d \<noteq> sEOF")
    case False
    then show ?thesis using less(2) by (subst (asm) dot_read.simps) (auto simp: t)
  next
    case True
    show ?thesis
    proof (cases x)
      case (Inl e)
      then show ?thesis using less(2) True x le
        by (subst (asm) dot_read.simps) (auto simp: t dot_size_def)
    next
      case (Inr c)
      obtain c' v t1 where p: "process ev_unrd c (d, es1) = ((c', v), t1)" by (metis surj_pair)
      have lt: "dot_size t1 < dot_size t"
        unfolding t by (rule undot_size [of d c es1 es "(c', v)"]) (use True x Inr p in simp_all)
      have "dot_read ev_rd ev_unrd l (if v then b @ [c'] else b) t1 = Some ((b', e), t')"
        using less(2) True x Inr p by (subst (asm) dot_read.simps) (auto simp: t split: if_splits)
      then show ?thesis using less(1) [OF lt] lt by fastforce
    qed
  qed
qed

text \<open>The bytes and errors left to a source, and that a function uses them up.\<close>

definition left :: "source \<Rightarrow> nat" where
  "left t = dot_size (fst t, events (snd t))"

lemma DotReader_Read_ends:
  assumes "wf (snd t)"
  shows "\<exists>b e t'. DotReader_Read l t = Some ((b, e), t') \<and> wf (snd t') \<and> left t' \<le> left t \<and>
     (e = None \<and> 0 < l \<longrightarrow> left t' < left t)"
proof -
  obtain d r where t: "t = (d, r)" by (cases t)
  obtain b e d' r' where n: "dot_read ReadByte unread l [] (d, r) = Some ((b, e), d', r')" "wf r'"
    "dot_read ev_rd ev_unrd l [] (d, events r) = Some ((b, e), d', events r')"
    using buf.dot_read_sim [of r l "[]" d] assms by (metis surj_pair snd_conv t)
  have "e = None \<longrightarrow> length b = l"
    using dot_read_undot [OF n(3)] by (auto split: option.splits)
  then show ?thesis
    using n dot_read_size [OF n(3)] by (cases b) (auto simp: DotReader_Read_def t left_def)
qed

lemma skip_loop_ends:
  "wf (snd t) \<Longrightarrow> \<exists>h e' t'. skip_loop nl b e t = Some ((h, e'), t') \<and> wf (snd t') \<and> left t' \<le> left t \<and>
     (e' = None \<longrightarrow> B h \<noteq> None)"
proof (induction "(if e = None then Suc (left t) else 0, length b)" arbitrary: nl b e t
    rule: wf_induct_rule [OF wf_lex_prod [OF wf_less_than wf_less_than]])
  case (1 b e t)
  show ?case
  proof (cases b)
    case (Cons c b')
    show ?thesis
    proof (cases "c = LF \<and> nl")
      case True
      then show ?thesis using 1(2) by (subst skip_loop.simps) (simp add: Cons)
    next
      case False
      then have "skip_loop nl b e t = skip_loop (c = LF) b' e t" by (subst skip_loop.simps) (auto simp: Cons)
      moreover have "\<exists>h e' t'. skip_loop (c = LF) b' e t = Some ((h, e'), t') \<and> wf (snd t') \<and> left t' \<le> left t \<and>
          (e' = None \<longrightarrow> B h \<noteq> None)"
        using 1(2) by (intro 1(1)) (auto simp: Cons)
      ultimately show ?thesis by simp
    qed
  next
    case Nil
    show ?thesis
    proof (cases e)
      case (Some x)
      then show ?thesis using 1(2) by (subst skip_loop.simps) (simp add: Nil)
    next
      case None
      obtain b1 e1 t1 where r: "DotReader_Read headBufSize t = Some ((b1, e1), t1)" "wf (snd t1)"
        "left t1 \<le> left t" "e1 = None \<longrightarrow> left t1 < left t"
        using DotReader_Read_ends [OF 1(2), of headBufSize] by (auto simp: headBufSize_def)
      have "\<exists>h e' t'. skip_loop nl b1 e1 t1 = Some ((h, e'), t') \<and> wf (snd t') \<and> left t' \<le> left t1 \<and>
          (e' = None \<longrightarrow> B h \<noteq> None)"
        using r by (intro 1(1)) (auto simp: None)
      then show ?thesis using r(1,3) by (subst skip_loop.simps) (auto simp: Nil None)
    qed
  qed
qed

lemma discard_rest_ends:
  "wf (snd t) \<Longrightarrow> \<exists>t'. discard_rest e t = Some t' \<and> wf (snd t') \<and> left t' \<le> left t"
proof (induction "if e = None then Suc (left t) else 0" arbitrary: e t rule: less_induct)
  case less
  show ?case
  proof (cases e)
    case (Some x)
    then show ?thesis using less.prems by (subst discard_rest.simps) simp
  next
    case None
    obtain b1 e1 t1 where r: "DotReader_Read headBufSize t = Some ((b1, e1), t1)" "wf (snd t1)"
      "left t1 \<le> left t" "e1 = None \<longrightarrow> left t1 < left t"
      using DotReader_Read_ends [OF less.prems, of headBufSize] by (auto simp: headBufSize_def)
    have "\<exists>t'. discard_rest e1 t1 = Some t' \<and> wf (snd t') \<and> left t' \<le> left t1"
      using r by (intro less.hyps) (auto simp: None)
    then show ?thesis using r(1,3) by (subst discard_rest.simps) (auto simp: None)
  qed
qed

subsection \<open>The interface\<close>

locale head_reader =
  fixes RH :: "source \<Rightarrow> ((MessageHead \<times> hdr_err option) \<times> source) option"
  assumes head_ends: "wf (snd t) \<Longrightarrow> \<exists>h e t'. RH t = Some ((h, e), t') \<and> wf (snd t') \<and> left t' \<le> left t \<and>
     (e = None \<longrightarrow> B h \<noteq> None)"

lemma skip_loop_error: "skip_loop nl b e t = Some y \<Longrightarrow> snd (fst y) \<noteq> None \<longrightarrow> B (fst (fst y)) = None"
proof -
  define ok :: "(MessageHead \<times> hdr_err option) \<times> source \<Rightarrow> bool"
    where "ok y \<longleftrightarrow> (snd (fst y) \<noteq> None \<longrightarrow> B (fst (fst y)) = None)" for y
  have "ok ((h, None), t)" "B h = None \<Longrightarrow> ok ((h, e), t)" for h e t by (simp_all add: ok_def)
  then have "skip_loop nl b e t = Some y \<Longrightarrow> ok y"
    by (elim skip_loop.raw_induct [where P = "\<lambda>_ _ _ _. ok", rotated]) (auto split: list.splits if_splits option.splits Option.bind_splits)
  then show "skip_loop nl b e t = Some y \<Longrightarrow> snd (fst y) \<noteq> None \<longrightarrow> B (fst (fst y)) = None"
    by (simp add: ok_def)
qed

lemma SkipHeaders_error: "SkipHeaders t = Some ((h, Some e), t') \<Longrightarrow> B h = None"
  using skip_loop_error [of True "[]" None t] by (auto simp: SkipHeaders_def)

interpretation skip: head_reader SkipHeaders
  by unfold_locales (unfold SkipHeaders_def, rule skip_loop_ends)

text \<open>
  A dot reader is a source of the bytes of its block, with \<open>EOF\<close> behind them if the block is complete.
\<close>

definition block_of :: "source \<Rightarrow> bytes \<times> io_err" where
  "block_of t = fst (undot (fst t, events (snd t)))"

lemma DotReader_Read_data:
  assumes "wf (snd t)"
  shows "\<exists>b e t'. DotReader_Read l t = Some ((b, e), t') \<and> wf (snd t') \<and> left t' \<le> left t \<and>
    (e = None \<and> 0 < l \<longrightarrow> left t' < left t) \<and> length b \<le> l \<and>
    (case e of None \<Rightarrow> block_of t = (b @ fst (block_of t'), snd (block_of t')) | Some x \<Rightarrow> block_of t = (b, x))"
proof -
  obtain d r where t: "t = (d, r)" by (cases t)
  obtain b e d' r' where n: "dot_read ReadByte unread l [] (d, r) = Some ((b, e), d', r')" "wf r'"
    "dot_read ev_rd ev_unrd l [] (d, events r) = Some ((b, e), d', events r')"
    using buf.dot_read_sim [of r l "[]" d] assms by (metis surj_pair snd_conv t)
  have "length b \<le> l \<and> (case e of None \<Rightarrow> block_of t = (b @ fst (block_of (d', r')), snd (block_of (d', r')))
      | Some x \<Rightarrow> block_of t = (b, x))"
    using dot_read_undot [OF n(3)] by (auto simp: block_of_def t split: option.splits prod.splits)
  moreover obtain b1 e1 t1 where "DotReader_Read l t = Some ((b1, e1), t1)" "wf (snd t1)" "left t1 \<le> left t"
    "e1 = None \<and> 0 < l \<longrightarrow> left t1 < left t"
    using DotReader_Read_ends [OF assms, of l] by blast
  ultimately show ?thesis using n by (auto simp: DotReader_Read_def t)
qed

interpretation dot: io_source DotReader_Read "\<lambda>t. wf (snd t)" left "\<lambda>_. True" block_of
proof
  fix s :: source and n
  assume "wf (snd s)"
  from DotReader_Read_data [OF this, of n]
  show "\<exists>x q s'. DotReader_Read n s = Some ((x, q), s') \<and> wf (snd s') \<and> length x \<le> n \<and> left s' \<le> left s \<and>
      (q = None \<and> 0 < n \<longrightarrow> left s' < left s)"
    by blast
next
  fix s n x q and s' :: source
  assume "wf (snd s)" "DotReader_Read n s = Some ((x, q), s')"
  then show "case q of None \<Rightarrow> True \<and> block_of s = (x @ fst (block_of s'), snd (block_of s')) | Some e \<Rightarrow> block_of s = (x, e)"
    using DotReader_Read_data [of s n] by (auto split: option.splits)
qed

definition ReadHead :: "nat \<Rightarrow> source \<Rightarrow> ((MessageHead \<times> hdr_err option) \<times> source) option" where
  "ReadHead k = ReadHeaders DotReader_Read k"

interpretation read: head_reader "ReadHead k" for k
proof
  fix t :: source
  assume "wf (snd t)"
  from dot.ReadHeaders_ends [OF this, of k]
  show "\<exists>h e t'. ReadHead k t = Some ((h, e), t') \<and> wf (snd t') \<and> left t' \<le> left t \<and> (e = None \<longrightarrow> B h \<noteq> None)"
    unfolding ReadHead_def by blast
qed

lemma ReadHead_error:
  assumes "wf (snd t)" and "ReadHead k t = Some ((h, Some e), t')"
  shows "B h = None"
  using dot.ReadHeaders_ends [OF assms(1), of k] assms(2) unfolding ReadHead_def by fastforce

end
