(* ===== verification/NntpTestsrv.thy ===== *)
theory NntpTestsrv
  imports NntpLoop MailHead
begin

text \<open>
  \<open>nntp/testsrv\<close>: a read-only article store in memory, the repository's test provider. Its data is a
  value of type \<open>server\<close>; the order of \<open>articles\<close> stands for the (unspecified) order in which Go
  iterates over the map. \<open>SelectGroup\<close> keeps a string that shares the connection's input buffer: what
  it holds at a later call is the parameter \<open>inbuf\<close>. The reader of message heads is a parameter of
  the posting handlers.
\<close>

subsection \<open>Data\<close>

record overview =
  subject :: bytes
  hfrom :: bytes
  date :: bytes
  ov_msgid :: bytes
  references :: bytes
  ov_bytes :: bytes
  ov_lines :: bytes
  xref :: bytes
  hto :: bytes
  cc :: bytes

definition GetByHdr :: "bytes \<Rightarrow> overview \<Rightarrow> bytes \<times> bool" where
  "GetByHdr b ov =
     (let s = ToLowerASCII b in
      if s = bs ''subject'' then (subject ov, True)
      else if s = bs ''from'' then (hfrom ov, True)
      else if s = bs ''date'' then (date ov, True)
      else if s = bs ''message-id'' then (ov_msgid ov, True)
      else if s = bs ''references'' then (references ov, True)
      else if s = bs ''bytes'' \<or> s = bs '':bytes'' then (ov_bytes ov, True)
      else if s = bs ''lines'' \<or> s = bs '':lines'' then (ov_lines ov, True)
      else if s = bs ''xref'' then (xref ov, True)
      else if s = bs ''to'' then (hto ov, True)
      else if s = bs ''cc'' then (cc ov, True)
      else ([], False))"

text \<open>A \<open>time.Time\<close> in UTC is its number of seconds from 1970 (\<open>time.Date\<close> for months from 1 to 12).\<close>

definition time_Date :: "civil \<Rightarrow> int" where
  "time_Date t =
     (case t of (Y, M, D, h, m, s) \<Rightarrow>
        let y = (if M \<le> 2 then Y - 1 else Y);
            era = y div 400;
            yoe = y mod 400;
            doy = (153 * (M + (if M > 2 then - 3 else 9)) + 2) div 5;
            doe = yoe * 365 + yoe div 4 - yoe div 100 + doy;
            days = era * 146097 + doe - 719468 + (D - 1)
        in ((days * 24 + h) * 60 + m) * 60 + s)"

record article =
  msgid :: bytes
  agroup :: bytes
  number :: u64
  posted :: int
  over :: overview
  head :: bytes
  body :: bytes

record grp =
  gname :: bytes
  info :: bytes
  created :: int
  status :: byte
  garticles :: "(u64 \<times> article) list"
  articlesSort :: "u64 list"

record server =
  sname :: bytes
  groups :: "(bytes \<times> grp) list"
  groupsSort :: "bytes list"
  articles :: "(bytes \<times> article) list"

definition sortArticles :: "grp \<Rightarrow> grp" where
  "sortArticles g = g\<lparr>articlesSort := sort (map fst (garticles g))\<rparr>"

definition sortGroups :: "server \<Rightarrow> server" where
  "sortGroups s = s\<lparr>groupsSort := sort (map fst (groups s))\<rparr>"

definition numlines :: "bytes \<Rightarrow> nat" where
  "numlines b = length (filter (\<lambda>c. c = LF) b)"

text \<open>
  \<open>None\<close> is the panic for a head that does not parse. \<open>EOF\<close> is expected: there is no empty line behind
  the headers. The loop over the groups of the global \<open>s1\<close> is a loop over those of the server it is
  called with. Every article of a group is entered under its message id.
\<close>

definition makeOverview :: "server \<Rightarrow> article \<Rightarrow> article option" where
  "makeOverview s a =
     (case ReadHeaders uread_rd 0 [(head a, None)] of
        None \<Rightarrow> None
      | Some ((h, e), _) \<Rightarrow>
          if e \<noteq> None \<and> e \<noteq> Some (HRead EOF) then None
          else
            let first = (\<lambda>n. GetFirst (H h) (bs n)) in
            Some (a\<lparr>over := \<lparr>subject = first ''Subject'', hfrom = first ''From'', date = first ''Date'',
              ov_msgid = first ''Message-ID'', references = first ''References'',
              ov_bytes = dec (length (body a)), ov_lines = dec (numlines (body a)),
              xref = sname s @ [SP] @ agroup a @ [58] @ num (number a), hto = first ''To'', cc = first ''Cc''\<rparr>\<rparr>))"

definition prepareGroup :: "server \<Rightarrow> grp \<Rightarrow> grp option" where
  "prepareGroup s g =
     map_option (\<lambda>as. sortArticles (g\<lparr>garticles := as\<rparr>))
       (those (map (\<lambda>(k, a). map_option (Pair k) (makeOverview s a)) (garticles g)))"

definition prepareServer :: "server \<Rightarrow> server option" where
  "prepareServer s =
     (let s = sortGroups s in
      map_option (\<lambda>gs. s\<lparr>groups := gs,
           articles := concat (map (\<lambda>(n, g). map (\<lambda>(k, a). (msgid a, a)) (garticles g)) gs) @ articles s\<rparr>)
        (those (map (\<lambda>(n, g). map_option (Pair n) (prepareGroup s g)) (groups s))))"

definition noover :: overview where
  "noover = \<lparr>subject = [], hfrom = [], date = [], ov_msgid = [], references = [], ov_bytes = [],
     ov_lines = [], xref = [], hto = [], cc = []\<rparr>"

definition a1msgid :: bytes where "a1msgid = bs ''nekosnekosnekosnekos@void.neko.test''"

definition a1 :: article where
  "a1 = \<lparr>msgid = a1msgid, agroup = bs ''nekos'', number = 9000,
     posted = time_Date (2000, 10, 6, 1, 23, 45), over = noover,
     head = line ''Message-ID: <nekosnekosnekosnekos@void.neko.test>'' @ line ''Subject: nekos'' @
       line ''Newsgroups: nekos'' @ line ''From: <neko@void.neko.test>'' @
       line ''Date: 6 Oct 2000 01:23:45 -0000'' @ line ''Path: void.neko.test'',
     body = line ''Nekos are Love.'' @ line ''Nekos are Life.''\<rparr>"

definition g1 :: grp where
  "g1 = \<lparr>gname = bs ''nekos'', info = bs ''group about nekos'',
     created = time_Date (2000, 1, 23, 12, 34, 56), status = 121,
     garticles = [(9000, a1)], articlesSort = []\<rparr>"

definition s1 :: server where
  "s1 = \<lparr>sname = bs ''void.neko.test'', groups = [(bs ''nekos'', g1)], groupsSort = [], articles = []\<rparr>"

subsection \<open>The provider\<close>

datatype gname = Own bytes | InBuf

text \<open>\<open>gsg\<close> is the pointer \<open>g\<close>, nil until a group is selected.\<close>

record groupState =
  gsgroup :: gname
  gsnumber :: u64
  gsg :: "grp option"

type_synonym tconn = "(groupState, unit) conn"

record TestSrv =
  SupportNewNews :: bool
  SupportOverByMsgID :: bool
  SupportHdr :: bool
  SupportIHave :: bool
  SupportPost :: bool
  SupportStream :: bool
  PostingPermit :: bool
  PostingAccept :: bool
  TransferPermit :: bool
  TransferAccept :: bool
  inbuf :: "tconn \<Rightarrow> bytes"
  data :: server

definition group_name :: "TestSrv \<Rightarrow> tconn \<Rightarrow> gname \<Rightarrow> bytes" where
  "group_name p c n = (case n of Own s \<Rightarrow> s | InBuf \<Rightarrow> inbuf p c)"

definition artnumInGroup :: "TestSrv \<Rightarrow> tconn \<Rightarrow> bytes \<Rightarrow> u64 \<Rightarrow> u64" where
  "artnumInGroup p c gn n =
     (case CurrentGroup c of
        Some cg \<Rightarrow> if group_name p c (gsgroup cg) = gn then n else 0
      | None \<Rightarrow> 0)"

text \<open>A response whose error the provider ignores.\<close>

definition put :: "(tconn \<Rightarrow> io_err option \<times> tconn) \<Rightarrow> tconn \<Rightarrow> tconn" where
  "put f c = snd (f c)"

definition newline :: bytes where "newline = [LF]"

text \<open>The response of \<open>ARTICLE\<close>, \<open>HEAD\<close>, \<open>BODY\<close> or \<open>STAT\<close> for an article under a number.\<close>

definition send_article :: "art_kind \<Rightarrow> u64 \<Rightarrow> bytes \<Rightarrow> article \<Rightarrow> tconn \<Rightarrow> tconn" where
  "send_article k n i a c =
     (case k of
        articleFull \<Rightarrow> put (DotBlock (head a @ newline @ body a)) (put (ResArticleFollows n i) c)
      | articleHead \<Rightarrow> put (DotBlock (head a)) (put (ResHeadFollows n i) c)
      | articleBody \<Rightarrow> put (DotBlock (body a)) (put (ResBodyFollows n i) c)
      | articleStat \<Rightarrow> put (ResArticleFound n i) c)"

definition GetByMsgID :: "TestSrv \<Rightarrow> art_kind \<Rightarrow> bytes \<Rightarrow> tconn \<Rightarrow> tconn outcome" where
  "GetByMsgID p k sid c =
     (case map_of (articles (data p)) sid of
        None \<Rightarrow> Ret False c
      | Some a \<Rightarrow> Ret True (send_article k (artnumInGroup p c (agroup a) (number a)) (msgid a) a c))"

text \<open>
  \<open>gs.g.articles[num]\<close> with a nil \<open>g\<close> is a nil dereference. \<open>GetArticleHeadByNum\<close> sends the message id
  of the first article.
\<close>

definition GetByNum :: "TestSrv \<Rightarrow> art_kind \<Rightarrow> u64 \<Rightarrow> tconn \<Rightarrow> tconn outcome" where
  "GetByNum p k n c =
     (case CurrentGroup c of
        None \<Rightarrow> Ret True (put ResNoNewsgroupSelected c)
      | Some gs \<Rightarrow>
          (case gsg gs of
             None \<Rightarrow> Panic c
           | Some g \<Rightarrow>
               (case map_of (garticles g) n of
                  None \<Rightarrow> Ret False c
                | Some a \<Rightarrow>
                    let c = c\<lparr>CurrentGroup := Some (gs\<lparr>gsnumber := n\<rparr>)\<rparr>
                    in Ret True (send_article k n (if k = articleHead then a1msgid else msgid a) a c))))"

definition GetByCurr :: "TestSrv \<Rightarrow> art_kind \<Rightarrow> tconn \<Rightarrow> tconn outcome" where
  "GetByCurr p k c =
     (case CurrentGroup c of
        None \<Rightarrow> Ret True (put ResNoNewsgroupSelected c)
      | Some gs \<Rightarrow>
          (case gsg gs of
             None \<Rightarrow> Panic c
           | Some g \<Rightarrow>
               (case map_of (garticles g) (gsnumber gs) of
                  None \<Rightarrow> Ret False c
                | Some a \<Rightarrow> Ret True (send_article k (number a) (msgid a) a c))))"

definition nilstate :: groupState where
  "nilstate = \<lparr>gsgroup = Own [], gsnumber = 0, gsg = None\<rparr>"

definition getGroupState :: "tconn \<Rightarrow> groupState option" where
  "getGroupState c = CurrentGroup c"

definition TSelectGroup :: "TestSrv \<Rightarrow> bytes \<Rightarrow> tconn \<Rightarrow> tconn outcome" where
  "TSelectGroup p sgroup c =
     (case map_of (groups (data p)) sgroup of
        None \<Rightarrow> Ret False c
      | Some g \<Rightarrow>
          let gs = (case getGroupState c of None \<Rightarrow> nilstate | Some gs \<Rightarrow> gs);
              gs = gs\<lparr>gsgroup := InBuf, gsg := Some g\<rparr>
          in case articlesSort g of
               lo # _ \<Rightarrow>
                 let hi = last (articlesSort g)
                 in Ret True (put (ResGroupSuccessfullySelected (hi - lo + 1) lo hi sgroup)
                      (c\<lparr>CurrentGroup := Some (gs\<lparr>gsnumber := lo\<rparr>)\<rparr>))
             | [] \<Rightarrow>
                 Ret True (put (ResGroupSuccessfullySelected 0 0 0 sgroup)
                   (c\<lparr>CurrentGroup := Some (gs\<lparr>gsnumber := 0\<rparr>)\<rparr>)))"

definition in_range :: "int \<Rightarrow> int \<Rightarrow> u64 \<Rightarrow> bool" where
  "in_range rmin rmax n \<longleftrightarrow> n \<ge> of_int rmin \<and> (rmax < 0 \<or> n \<le> of_int rmax)"

definition TSelectAndListGroup :: "TestSrv \<Rightarrow> bytes \<Rightarrow> int \<Rightarrow> int \<Rightarrow> tconn \<Rightarrow> tconn outcome" where
  "TSelectAndListGroup p gn rmin rmax c =
     (if getGroupState c = None \<and> length gn = 0 then Ret True (put ResNoNewsgroupSelected c)
      else
        let gs = (case getGroupState c of None \<Rightarrow> nilstate | Some gs \<Rightarrow> gs);
            c = c\<lparr>CurrentGroup := Some gs\<rparr>;
            sgroup = (if length gn \<noteq> 0 then gn else group_name p c (gsgroup gs))
        in case map_of (groups (data p)) sgroup of
             None \<Rightarrow> Ret False c
           | Some g \<Rightarrow>
               let gs = gs\<lparr>gsgroup := Own (gname g), gsg := Some g\<rparr>;
                   ls = concat (map (\<lambda>n. num n @ [LF]) (filter (in_range rmin rmax) (articlesSort g)))
               in case articlesSort g of
                    lo # _ \<Rightarrow>
                      let hi = last (articlesSort g)
                      in Ret True (put (DotBlock ls) (put (ResArticleNumbersFollow (hi - lo + 1) lo hi (gname g))
                           (c\<lparr>CurrentGroup := Some (gs\<lparr>gsnumber := lo\<rparr>)\<rparr>)))
                  | [] \<Rightarrow>
                      Ret True (put (DotBlock ls) (put (ResArticleNumbersFollow 0 0 0 (gname g))
                        (c\<lparr>CurrentGroup := Some (gs\<lparr>gsnumber := 0\<rparr>)\<rparr>))))"

text \<open>A number without an article is a nil article: reading its number panics.\<close>

definition select_found :: "groupState \<Rightarrow> grp \<Rightarrow> u64 \<Rightarrow> tconn \<Rightarrow> tconn outcome" where
  "select_found gs g n c =
     (let c = c\<lparr>CurrentGroup := Some (gs\<lparr>gsnumber := n\<rparr>)\<rparr> in
      case map_of (garticles g) n of
        None \<Rightarrow> Panic c
      | Some a \<Rightarrow> Ret True (put (ResArticleFound (number a) (msgid a)) c))"

definition TSelectNextArticle :: "tconn \<Rightarrow> tconn outcome" where
  "TSelectNextArticle c =
     (case getGroupState c of
        None \<Rightarrow> Ret True (put ResNoNewsgroupSelected c)
      | Some gs \<Rightarrow>
          let x = gsnumber gs in
          if x = 0 then Ret True (put ResCurrentArticleNumberIsInvalid c)
          else case gsg gs of
                 None \<Rightarrow> Panic c
               | Some g \<Rightarrow>
                   (case find (\<lambda>n. n > x) (articlesSort g) of
                      Some n \<Rightarrow> select_found gs g n c
                    | None \<Rightarrow> Ret True (put ResNoNextArticleInThisGroup c)))"

definition TSelectPrevArticle :: "tconn \<Rightarrow> tconn outcome" where
  "TSelectPrevArticle c =
     (case getGroupState c of
        None \<Rightarrow> Ret True (put ResNoNewsgroupSelected c)
      | Some gs \<Rightarrow>
          let x = gsnumber gs in
          if x = 0 then Ret True (put ResCurrentArticleNumberIsInvalid c)
          else case gsg gs of
                 None \<Rightarrow> Panic c
               | Some g \<Rightarrow>
                   (case find (\<lambda>n. n < x) (rev (articlesSort g)) of
                      Some n \<Rightarrow> select_found gs g n c
                    | None \<Rightarrow> Ret True (put ResNoPrevArticleInThisGroup c)))"

subsection \<open>Lists of groups and articles\<close>

text \<open>
  What a listing writes before it ends or panics (an empty group has no first article; a wildmat may
  not compile). The deferred \<open>Close\<close> ends the block either way.
\<close>

definition listing :: "opener \<Rightarrow> bytes \<times> bool \<Rightarrow> tconn \<Rightarrow> tconn outcome" where
  "listing aw r c =
     (case r of (text, fine) \<Rightarrow>
        AbortOnErr (OpenDotWriter aw c)
          (\<lambda>c. if fine then Ret True (put (DotBlock text) c) else Panic (put (DotBlock text) c)))"

definition emptyWildmat :: "bytes \<Rightarrow> bool" where
  "emptyWildmat w \<longleftrightarrow> length w = 0 \<or> (length w = 1 \<and> w ! 0 = 42)"

definition chk :: "bytes \<Rightarrow> (bytes \<Rightarrow> bool) option" where
  "chk w =
     (if emptyWildmat w then Some (\<lambda>_. True)
      else if ValidGroupSlice w then Some (\<lambda>g. g = w)
      else (case CompileWildmat w of None \<Rightarrow> None | Some wm \<Rightarrow> Some (CheckString wm)))"

text \<open>A group name without a group is a nil group: reading it panics.\<close>

fun group_lines ::
  "(bytes \<Rightarrow> grp \<Rightarrow> bytes option) \<Rightarrow> server \<Rightarrow> bytes list \<Rightarrow> bytes \<times> bool" where
  "group_lines f s [] = ([], True)"
| "group_lines f s (gn # gns) =
     (case map_of (groups s) gn of
        None \<Rightarrow> ([], False)
      | Some g \<Rightarrow>
          (case f gn g of
             None \<Rightarrow> ([], False)
           | Some l \<Rightarrow> (case group_lines f s gns of (t, fine) \<Rightarrow> (l @ t, fine))))"

definition active_line :: "bytes \<Rightarrow> grp \<Rightarrow> bytes option" where
  "active_line gn g =
     (case articlesSort g of
        [] \<Rightarrow> None
      | lo # _ \<Rightarrow> Some (gn @ [SP] @ num (last (articlesSort g)) @ [SP] @ num lo @ [SP, status g, LF]))"

definition TListNewGroups :: "TestSrv \<Rightarrow> opener \<Rightarrow> civil \<Rightarrow> tconn \<Rightarrow> tconn outcome" where
  "TListNewGroups p aw qt =
     listing aw (group_lines
       (\<lambda>gn g. if \<not> time_Date qt > created g then active_line gn g else Some []) (data p) (groupsSort (data p)))"

definition TListNewNews :: "TestSrv \<Rightarrow> opener \<Rightarrow> bytes \<Rightarrow> civil \<Rightarrow> tconn \<Rightarrow> tconn outcome" where
  "TListNewNews p aw w qt =
     listing aw
       (case chk w of
          None \<Rightarrow> ([], False)
        | Some f \<Rightarrow>
            (concat (map (\<lambda>(i, a). if \<not> time_Date qt > posted a \<and> f (agroup a) then [60] @ i @ [62, LF] else [])
               (articles (data p))), True))"

definition TListActiveGroups :: "TestSrv \<Rightarrow> opener \<Rightarrow> bytes \<Rightarrow> tconn \<Rightarrow> tconn outcome" where
  "TListActiveGroups p aw w =
     listing aw
       (case chk w of
          None \<Rightarrow> ([], False)
        | Some f \<Rightarrow> group_lines active_line (data p) (filter f (groupsSort (data p))))"

definition TListNewsgroups :: "TestSrv \<Rightarrow> opener \<Rightarrow> bytes \<Rightarrow> tconn \<Rightarrow> tconn outcome" where
  "TListNewsgroups p aw w =
     listing aw
       (case chk w of
          None \<Rightarrow> ([], False)
        | Some f \<Rightarrow> group_lines (\<lambda>gn g. Some (gn @ [TAB] @ info g @ [LF])) (data p)
                     (filter f (groupsSort (data p))))"

subsection \<open>Overviews and headers\<close>

definition printOver :: "u64 \<Rightarrow> article \<Rightarrow> bytes" where
  "printOver n a =
     num n @ [TAB] @ subject (over a) @ [TAB] @ hfrom (over a) @ [TAB] @ date (over a) @ [TAB] @
     ov_msgid (over a) @ [TAB] @ references (over a) @ [TAB] @ ov_bytes (over a) @ [TAB] @
     ov_lines (over a) @ [TAB] @ bs ''Xref: '' @ xref (over a) @ [LF]"

definition TGetOverByMsgID :: "TestSrv \<Rightarrow> bytes \<Rightarrow> tconn \<Rightarrow> tconn outcome" where
  "TGetOverByMsgID p sid c =
     (case map_of (articles (data p)) sid of
        None \<Rightarrow> Ret False c
      | Some a \<Rightarrow>
          Ret True (put (DotBlock (printOver (artnumInGroup p c (agroup a) (number a)) a))
                        (put ResOverviewInformationFollows c)))"

text \<open>
  The lines for the numbers in a range (\<open>None\<close> when there are none), or a panic at a number without an
  article.
\<close>

definition TGetOverByRange :: "int \<Rightarrow> int \<Rightarrow> tconn \<Rightarrow> tconn outcome" where
  "TGetOverByRange rmin rmax c =
     (case getGroupState c of
        None \<Rightarrow> Ret True (put ResNoNewsgroupSelected c)
      | Some gs \<Rightarrow>
          (case gsg gs of
             None \<Rightarrow> Panic c
           | Some g \<Rightarrow>
               let ns = filter (in_range rmin rmax) (articlesSort g) in
               if ns = [] then Ret False c
               else let c = put ResOverviewInformationFollows c in
                 if list_all (\<lambda>n. map_of (garticles g) n \<noteq> None) ns
                 then Ret True (put (DotBlock (concat (map (\<lambda>n. let a = the (map_of (garticles g) n)
                                                            in printOver (number a) a) ns))) c)
                 else Panic c))"

definition TGetXOverByRange :: "int \<Rightarrow> int \<Rightarrow> tconn \<Rightarrow> tconn outcome" where
  "TGetXOverByRange = TGetOverByRange"

definition TGetOverByCurr :: "tconn \<Rightarrow> tconn outcome" where
  "TGetOverByCurr c =
     (case getGroupState c of
        None \<Rightarrow> Ret True (put ResNoNewsgroupSelected c)
      | Some gs \<Rightarrow>
          (case gsg gs of
             None \<Rightarrow> Panic c
           | Some g \<Rightarrow>
               (case map_of (garticles g) (gsnumber gs) of
                  None \<Rightarrow> Ret False c
                | Some a \<Rightarrow> Ret True (put (DotBlock (printOver (number a) a)) (put ResOverviewInformationFollows c)))))"

text \<open>\<open>%q\<close> of a header name: it is printable ASCII, so quotes and backslashes are escaped.\<close>

definition quote :: "bytes \<Rightarrow> bytes" where
  "quote s = [34] @ concat (map (\<lambda>c. if c = 34 \<or> c = 92 then [92, c] else [c]) s) @ [34]"

definition unsupported :: "bytes \<Rightarrow> tconn \<Rightarrow> io_err option \<times> tconn" where
  "unsupported hdr = PrintfLine (bs ''503 '' @ quote hdr @ bs '' header unsupported'')"

text \<open>\<open>GetXHdrByMsgID\<close> passes a nil \<open>ConnState\<close>, which only the other branch would use.\<close>

definition commonGetHdrByMsgID :: "TestSrv \<Rightarrow> bytes \<Rightarrow> bytes \<Rightarrow> bool \<Rightarrow> tconn \<Rightarrow> tconn outcome" where
  "commonGetHdrByMsgID p hdr sid rfc c =
     (case map_of (articles (data p)) sid of
        None \<Rightarrow> Ret False c
      | Some a \<Rightarrow>
          (case GetByHdr hdr (over a) of (h, supported) \<Rightarrow>
             if \<not> supported then Ret True (put (unsupported hdr) c)
             else if rfc then
               Ret True (put (DotBlock (num (artnumInGroup p c (agroup a) (number a)) @ [SP] @ h @ [LF]))
                             (put ResHdrFollow c))
             else
               Ret True (put (DotBlock ([60] @ sid @ [62, SP] @ h @ [LF])) (put ResXHdrFollow c))))"

fun hdr_lines :: "bytes \<Rightarrow> grp \<Rightarrow> u64 list \<Rightarrow> bytes option" where
  "hdr_lines hdr g [] = Some []"
| "hdr_lines hdr g (an # ns) =
     (case map_of (garticles g) an of
        None \<Rightarrow> None
      | Some a \<Rightarrow> map_option ((@) (num an @ [SP] @ fst (GetByHdr hdr (over a)) @ [LF])) (hdr_lines hdr g ns))"

text \<open>Whether a header is supported does not depend on the article.\<close>

definition commonGetHdrByRange :: "bytes \<Rightarrow> int \<Rightarrow> int \<Rightarrow> bool \<Rightarrow> tconn \<Rightarrow> tconn outcome" where
  "commonGetHdrByRange hdr rmin rmax rfc c =
     (case getGroupState c of
        None \<Rightarrow> Ret True (put ResNoNewsgroupSelected c)
      | Some gs \<Rightarrow>
          (case gsg gs of
             None \<Rightarrow> Panic c
           | Some g \<Rightarrow>
               (case filter (in_range rmin rmax) (articlesSort g) of
                  [] \<Rightarrow> Ret False c
                | an # ns \<Rightarrow>
                    (case map_of (garticles g) an of
                       None \<Rightarrow> Panic c
                     | Some a \<Rightarrow>
                         if \<not> snd (GetByHdr hdr (over a)) then Ret True (put (unsupported hdr) c)
                         else
                           let c = put (if rfc then ResHdrFollow else ResXHdrFollow) c in
                           (case hdr_lines hdr g (an # ns) of
                              None \<Rightarrow> Panic c
                            | Some t \<Rightarrow> Ret True (put (DotBlock t) c))))))"

definition commonGetHdrByCurr :: "bytes \<Rightarrow> bool \<Rightarrow> tconn \<Rightarrow> tconn outcome" where
  "commonGetHdrByCurr hdr rfc c =
     (case getGroupState c of
        None \<Rightarrow> Ret True (put ResNoNewsgroupSelected c)
      | Some gs \<Rightarrow>
          (case gsg gs of
             None \<Rightarrow> Panic c
           | Some g \<Rightarrow>
               (case map_of (garticles g) (gsnumber gs) of
                  None \<Rightarrow> Ret False c
                | Some a \<Rightarrow>
                    (case GetByHdr hdr (over a) of (h, supported) \<Rightarrow>
                       if \<not> supported then Ret True (put (unsupported hdr) c)
                       else
                         Ret True (put (DotBlock (num (number a) @ [SP] @ h @ [LF]))
                           (put (if rfc then ResHdrFollow else ResXHdrFollow) c))))))"

subsection \<open>Posting\<close>

definition validMsgID :: "bytes \<Rightarrow> bool" where "validMsgID s = ValidMessageID s"

definition reservedMsgID :: "bytes \<Rightarrow> bool" where "reservedMsgID s = ReservedMessageID s"

definition cutMsgID :: "bytes \<Rightarrow> bytes" where "cutMsgID s = CutMessageID s"

definition getHdrMsgID :: "MessageHead \<Rightarrow> bytes" where
  "getHdrMsgID h = TrimWSString (GetFirst (H h) (bs ''Message-ID''))"

type_synonym head_fun = "source \<Rightarrow> ((MessageHead \<times> hdr_err option) \<times> source) option"

text \<open>\<open>mail.ReadHeaders(r, ...)\<close>, and then either draining the article or its body; \<open>h.B\<close> is nil
  after an error.\<close>

definition with_head ::
  "head_fun \<Rightarrow> tconn \<Rightarrow> (MessageHead \<Rightarrow> hdr_err option \<Rightarrow> tconn \<Rightarrow> tconn outcome) \<Rightarrow> tconn outcome" where
  "with_head RH c k =
     (case dr c of
        None \<Rightarrow> Panic c
      | Some d \<Rightarrow>
          (case RH (d, rd c) of
             None \<Rightarrow> Hang
           | Some ((h, e), d, r) \<Rightarrow> k h e (c\<lparr>dr := Some d, rd := r\<rparr>)))"

definition r_Discard :: "tconn \<Rightarrow> (tconn \<Rightarrow> tconn outcome) \<Rightarrow> tconn outcome" where
  "r_Discard c k = (case dr_Discard c of None \<Rightarrow> Hang | Some c \<Rightarrow> k c)"

definition B_Discard :: "MessageHead \<Rightarrow> tconn \<Rightarrow> (tconn \<Rightarrow> tconn outcome) \<Rightarrow> tconn outcome" where
  "B_Discard h c k =
     (case B h of
        None \<Rightarrow> Panic c
      | Some (b, e) \<Rightarrow>
          (case dr c of
             None \<Rightarrow> Panic c
           | Some d \<Rightarrow>
               (case discard_rest e (d, rd c) of
                  None \<Rightarrow> Hang
                | Some (d, r) \<Rightarrow> k (c\<lparr>dr := Some d, rd := r\<rparr>))))"

definition THandlePost :: "TestSrv \<Rightarrow> head_fun \<Rightarrow> tconn \<Rightarrow> tconn outcome" where
  "THandlePost p RH c =
     (if \<not> PostingPermit p then Ret False c
      else AbortOnErr (ResSendArticleToBePosted c) (\<lambda>c.
        with_head RH (OpenReader c) (\<lambda>h e c.
          let mid = getHdrMsgID h in
          if \<not> PostingAccept p \<or> e = None \<or>
             (length mid \<noteq> 0 \<and> (\<not> validMsgID mid \<or> reservedMsgID mid \<or>
                map_of (articles (data p)) (cutMsgID mid) \<noteq> None))
          then AbortOnErr (ResPostingFailed None c) (\<lambda>c. r_Discard c (Ret True))
          else B_Discard h c (\<lambda>c. r_Discard c (\<lambda>c. AbortOnErr (ResPostingAccepted c) (Ret True))))))"

definition transfer_bad :: "TestSrv \<Rightarrow> bytes \<Rightarrow> MessageHead \<Rightarrow> hdr_err option \<Rightarrow> bool" where
  "transfer_bad p mstr h e \<longleftrightarrow>
     (let mid = getHdrMsgID h in \<not> TransferAccept p \<or> e \<noteq> None \<or> \<not> validMsgID mid \<or> cutMsgID mid \<noteq> mstr)"

definition THandleIHave :: "TestSrv \<Rightarrow> head_fun \<Rightarrow> bytes \<Rightarrow> tconn \<Rightarrow> tconn outcome" where
  "THandleIHave p RH mstr c =
     (if \<not> TransferPermit p then AbortOnErr (ResTransferFailed c) (Ret True)
      else if map_of (articles (data p)) mstr \<noteq> None then Ret False c
      else AbortOnErr (ResSendArticleToBeTransferred c) (\<lambda>c.
        with_head RH (OpenReader c) (\<lambda>h e c.
          if transfer_bad p mstr h e
          then AbortOnErr (ResTransferRejected None c) (\<lambda>c. r_Discard c (Ret True))
          else B_Discard h c (\<lambda>c. r_Discard c (\<lambda>c. AbortOnErr (ResTransferSuccess c) (Ret True))))))"

definition THandleCheck :: "TestSrv \<Rightarrow> bytes \<Rightarrow> tconn \<Rightarrow> tconn outcome" where
  "THandleCheck p i c =
     (if \<not> TransferPermit p then AbortOnErr (ResArticleWantLater i c) (Ret True)
      else if map_of (articles (data p)) i \<noteq> None then Ret False c
      else AbortOnErr (ResArticleWanted i c) (Ret True))"

definition THandleTakeThis :: "TestSrv \<Rightarrow> head_fun \<Rightarrow> bytes \<Rightarrow> tconn \<Rightarrow> tconn outcome" where
  "THandleTakeThis p RH i c =
     with_head RH c (\<lambda>h e c.
       if transfer_bad p i h e
       then AbortOnErr (ResArticleRejected i None c) (\<lambda>c. r_Discard c (Ret True))
       else B_Discard h c (\<lambda>c. r_Discard c (\<lambda>c. AbortOnErr (ResArticleTransferedOK i c) (Ret True))))"

definition testsrv :: "TestSrv \<Rightarrow> head_fun \<Rightarrow> (groupState, unit) NNTPProvider" where
  "testsrv p RH =
     \<lparr>SupportsNewNews = SupportNewNews p, SupportsOverByMsgID = SupportOverByMsgID p,
      SupportsHdr = SupportHdr p, SupportsIHave = SupportIHave p, SupportsPost = SupportPost p,
      SupportsStream = SupportStream p, SupportsXListen = False,
      call = (\<lambda>pc c. case pc of
        GetArticleByMsgID k i \<Rightarrow> GetByMsgID p k i c
      | GetArticleByNum k n \<Rightarrow> GetByNum p k n c
      | GetArticleByCurr k \<Rightarrow> GetByCurr p k c
      | SelectGroup g \<Rightarrow> TSelectGroup p g c
      | SelectAndListGroup g a b \<Rightarrow> TSelectAndListGroup p g a b c
      | SelectNextArticle \<Rightarrow> TSelectNextArticle c
      | SelectPrevArticle \<Rightarrow> TSelectPrevArticle c
      | ListNewNews aw w t \<Rightarrow> TListNewNews p aw w t c
      | ListNewGroups aw t \<Rightarrow> TListNewGroups p aw t c
      | ListActiveGroups aw w \<Rightarrow> TListActiveGroups p aw w c
      | ListNewsgroups aw w \<Rightarrow> TListNewsgroups p aw w c
      | GetOverByMsgID i \<Rightarrow> TGetOverByMsgID p i c
      | GetOverByRange a b \<Rightarrow> TGetOverByRange a b c
      | GetXOverByRange a b \<Rightarrow> TGetXOverByRange a b c
      | GetOverByCurr \<Rightarrow> TGetOverByCurr c
      | GetHdrByMsgID h i \<Rightarrow> commonGetHdrByMsgID p h i True c
      | GetHdrByRange h a b \<Rightarrow> commonGetHdrByRange h a b True c
      | GetHdrByCurr h \<Rightarrow> commonGetHdrByCurr h True c
      | GetXHdrByMsgID h i \<Rightarrow> commonGetHdrByMsgID p h i False c
      | GetXHdrByRange h a b \<Rightarrow> commonGetHdrByRange h a b False c
      | GetXHdrByCurr h \<Rightarrow> commonGetHdrByCurr h False c
      | HandlePost \<Rightarrow> THandlePost p RH c
      | HandleIHave i \<Rightarrow> THandleIHave p RH i c
      | HandleCheck i \<Rightarrow> THandleCheck p i c
      | HandleTakeThis i \<Rightarrow> THandleTakeThis p RH i c)\<rparr>"

subsection \<open>It keeps the contract\<close>

abbreviation fits :: "bool \<Rightarrow> tconn \<Rightarrow> tconn outcome \<Rightarrow> bool" where
  "fits n c r \<equiv> ends (\<lambda>b c'. keeps c c' \<and> (if b \<or> n then answered c c' else silent c c')) (keeps c) r"

lemma printer_more:
  "printer (ResGroupSuccessfullySelected x y z g)" "printer (ResArticleNumbersFollow x y z g)"
  "printer (ResArticleFollows n i)" "printer (ResHeadFollows n i)" "printer (ResBodyFollows n i)"
  "printer (ResArticleFound n i)" "printer ResOverviewInformationFollows" "printer ResHdrFollow"
  "printer ResXHdrFollow" "printer ResNoNextArticleInThisGroup" "printer ResNoPrevArticleInThisGroup"
  "printer (unsupported h)" "printer (ResPostingFailed e)" "printer ResPostingAccepted"
  "printer ResSendArticleToBePosted" "printer ResSendArticleToBeTransferred" "printer ResTransferFailed"
  "printer (ResTransferRejected e)" "printer ResTransferSuccess" "printer (ResArticleWantLater i)"
  "printer (ResArticleWanted i)" "printer (ResArticleTransferedOK i)" "printer (OpenDotWriter aw)"
  by (simp_all add: Res_defs unsupported_def OpenDotWriter_def del: bs_Cons split: option.split opener.split)

lemmas printers = printer_intros printer_more

lemma put_keeps: "printer f \<Longrightarrow> keeps c d \<Longrightarrow> keeps c (put f d)"
proof -
  assume "printer f" and k: "keeps c d"
  then obtain x where f: "f = flush x" by (auto simp: printer_def)
  have "keeps d (put f d)"
    using keeps_wf [OF k] by (cases rule: flush_cases [of d x]) (auto simp: put_def f)
  then show ?thesis by (rule keeps_trans [OF k])
qed

lemma put_answered: "printer f \<Longrightarrow> keeps c d \<Longrightarrow> answered c (put f d)"
proof -
  assume "printer f" and k: "keeps c d"
  then obtain x where f: "f = flush x" by (auto simp: printer_def)
  have "answered d (put f d)"
    by (cases rule: flush_cases [of d x]) (auto simp: put_def f answered_def)
  then show ?thesis by (rule answered_trans2 [OF k])
qed

lemma CurrentGroup_put: "printer f \<Longrightarrow> CurrentGroup (put f c) = CurrentGroup c"
proof -
  assume "printer f"
  then obtain x where f: "f = flush x" by (auto simp: printer_def)
  show ?thesis by (cases rule: flush_cases [of c x]) (auto simp: put_def f)
qed

lemma fits_put: "printer f \<Longrightarrow> keeps c d \<Longrightarrow> fits n c (Ret True (put f d))"
  by (simp add: put_keeps put_answered)

lemma fits_silent: "wf (rd c) \<Longrightarrow> fits False c (Ret False c)"
  by (simp add: silent_def)

lemma fits_panic: "keeps c d \<Longrightarrow> fits n c (Panic d)"
  by simp

lemma keeps_group: "keeps c d \<Longrightarrow> keeps c (d\<lparr>CurrentGroup := g\<rparr>)"
  by (simp add: keeps_def reads_def)

lemma fits_send_article: "keeps c d \<Longrightarrow> fits n c (Ret True (send_article k m i a d))"
  unfolding send_article_def by (cases k; simp only: art_kind.case) (intro fits_put put_keeps printers; assumption)+

lemma fits_list:
  "(a = [] \<Longrightarrow> ends Q R x) \<Longrightarrow> (\<And>v w. a = v # w \<Longrightarrow> ends Q R (f v w)) \<Longrightarrow> ends Q R (case a of [] \<Rightarrow> x | v # w \<Rightarrow> f v w)"
  by (cases a) auto

lemmas fits_intros = ends_intros fits_list fits_put fits_silent fits_panic fits_send_article put_keeps
  keeps_group keeps_refl printers

lemmas get_defs = GetByMsgID_def GetByNum_def GetByCurr_def TGetOverByMsgID_def TGetOverByRange_def
  TGetXOverByRange_def TGetOverByCurr_def commonGetHdrByMsgID_def commonGetHdrByRange_def
  commonGetHdrByCurr_def TSelectGroup_def

lemma fits_get:
  assumes "wf (rd c)"
  shows "fits False c (GetByMsgID p k i c)" and "fits False c (GetByNum p k n c)"
    and "fits False c (GetByCurr p k c)" and "fits False c (TGetOverByMsgID p i c)"
    and "fits False c (TGetOverByRange a b c)" and "fits False c (TGetXOverByRange a b c)"
    and "fits False c (TGetOverByCurr c)" and "fits False c (commonGetHdrByMsgID p h i rfc c)"
    and "fits False c (commonGetHdrByRange h a b rfc c)" and "fits False c (commonGetHdrByCurr h rfc c)"
    and "fits False c (TSelectGroup p g c)"
  unfolding get_defs by (cases rfc; (simp only: if_True if_False)?; intro fits_intros assms)+

lemma fits_select:
  assumes "wf (rd c)"
  shows "fits False c (TSelectAndListGroup p g a b c)" and "fits True c (TSelectNextArticle c)"
    and "fits True c (TSelectPrevArticle c)"
proof -
  show "fits True c (TSelectNextArticle c)" "fits True c (TSelectPrevArticle c)"
    unfolding TSelectNextArticle_def TSelectPrevArticle_def select_found_def by (intro fits_intros assms)+
  show "fits False c (TSelectAndListGroup p g a b c)"
    unfolding TSelectAndListGroup_def
    by (intro fits_intros assms) (use assms in \<open>simp add: silent_def keeps_group\<close>)
qed

lemma fits_listing: "wf (rd c) \<Longrightarrow> fits True c (listing aw r c)"
proof -
  assume w: "wf (rd c)"
  have "fits True c (if snd r then Ret True (put (DotBlock (fst r)) d) else Panic (put (DotBlock (fst r)) d))"
    if "d = c\<lparr>out := out c @ [x], wleft := v\<rparr>" for d x v
    unfolding that by (intro fits_intros keeps_flush w)
  then show ?thesis
    unfolding listing_def case_prod_beta by (intro AbortOnErr_printer printers) (use w in auto)
qed

lemma fits_print_then:
  assumes "printer r" and "keeps c d" and "\<And>d'. keeps c d' \<Longrightarrow> answered c d' \<Longrightarrow> fits n c (k d')"
  shows "fits n c (AbortOnErr (r d) k)"
proof (rule AbortOnErr_printer [OF assms(1)])
  fix x w
  let ?d = "d\<lparr>out := out d @ [x], wleft := w\<rparr>"
  have "keeps d ?d" using keeps_wf [OF assms(2)] by simp
  then show "fits n c (k ?d)"
    using assms(2) by (intro assms(3)) (auto intro: keeps_trans answered_trans2 [of c d])
qed (rule assms(2))

lemma fits_Ret: "keeps c d \<Longrightarrow> answered c d \<Longrightarrow> fits n c (Ret True d)"
  by simp

lemma fits_r_Discard:
  assumes "keeps c d" and "\<And>d'. keeps c d' \<Longrightarrow> (answered c d \<Longrightarrow> answered c d') \<Longrightarrow> fits n c (k d')"
  shows "fits n c (r_Discard d k)"
proof -
  obtain d' where d: "dr_Discard d = Some d'" "keeps d d'" "silent d d'"
    using dr_Discard_ok [OF keeps_wf [OF assms(1)]] by blast
  have "fits n c (k d')"
    using assms(1) d by (intro assms(2)) (auto intro: keeps_trans simp: answered_def silent_def)
  then show ?thesis by (simp add: r_Discard_def d(1))
qed

lemma keeps_source:
  assumes "keeps c d" and "dr d = Some x" and "wf r" and "left (x', r) \<le> left (x, rd d)"
  shows "keeps c (d\<lparr>dr := Some x', rd := r\<rparr>)"
proof -
  have "length (events r) \<le> length (events (rd d))"
    using assms(4) by (auto simp: left_def dot_size_def split: if_splits)
  then have "keeps d (d\<lparr>dr := Some x', rd := r\<rparr>)" using assms(3) by (simp add: keeps_def reads_def)
  then show ?thesis by (rule keeps_trans [OF assms(1)])
qed

lemma fits_B_Discard:
  assumes "keeps c d" and "\<And>d'. keeps c d' \<Longrightarrow> fits n c (k d')"
  shows "fits n c (B_Discard h d k)"
proof (cases "B h")
  case None
  then show ?thesis using assms(1) by (simp add: B_Discard_def)
next
  case (Some x)
  obtain b e where x: "x = (b, e)" by force
  show ?thesis
  proof (cases "dr d")
    case None
    then show ?thesis using assms(1) Some x by (simp add: B_Discard_def)
  next
    case 2: (Some y)
    obtain y' r where t: "discard_rest e (y, rd d) = Some (y', r)" "wf r" "left (y', r) \<le> left (y, rd d)"
      using discard_rest_ends [of "(y, rd d)" e] keeps_wf [OF assms(1)] by auto
    have "fits n c (k (d\<lparr>dr := Some y', rd := r\<rparr>))"
      by (intro assms(2) keeps_source [OF assms(1) 2 t(2,3)])
    then show ?thesis by (simp add: B_Discard_def Some x 2 t(1))
  qed
qed

lemma keeps_Open: "keeps c d \<Longrightarrow> keeps c (OpenReader d)"
  by (auto simp: OpenReader_def keeps_def reads_def split: option.split)

text \<open>A connection without a group keeps none, unless a group is selected.\<close>

abbreviation free :: "tconn \<Rightarrow> bool" where
  "free c \<equiv> wf (rd c) \<and> CurrentGroup c = None"

abbreviation ungrouped :: "tconn outcome \<Rightarrow> bool" where
  "ungrouped r \<equiv> ends (\<lambda>b. free) free r"

lemma free_put: "printer f \<Longrightarrow> free c \<Longrightarrow> free (put f c)"
  using put_keeps [of f c c] CurrentGroup_put [of f c] by (auto dest: keeps_wf)

lemma free_Ret: "free c \<Longrightarrow> ungrouped (Ret b c)" and free_Panic: "free c \<Longrightarrow> ungrouped (Panic c)"
  by simp_all

lemma free_send_article: "free c \<Longrightarrow> free (send_article k n i a c)"
  unfolding send_article_def by (cases k; simp only: art_kind.case) (intro free_put printers; assumption)+

lemma free_AbortOnErr:
  assumes "printer r" and "free c" and "\<And>c. free c \<Longrightarrow> ungrouped (k c)"
  shows "ungrouped (AbortOnErr (r c) k)"
  using assms by (intro AbortOnErr_printer) auto

lemma free_r_Discard:
  "free c \<Longrightarrow> (\<And>c. free c \<Longrightarrow> ungrouped (k c)) \<Longrightarrow> ungrouped (r_Discard c k)"
  using dr_Discard_ok [of c] by (auto simp: r_Discard_def dest: keeps_wf)

lemma free_OpenReader: "free c \<Longrightarrow> free (OpenReader c)"
  by (simp add: OpenReader_def split: option.split)

lemma free_B_Discard:
  assumes "free c" and "\<And>c. free c \<Longrightarrow> ungrouped (k c)"
  shows "ungrouped (B_Discard h c k)"
proof -
  have "ungrouped (case discard_rest e (d, rd c) of None \<Rightarrow> Hang | Some (d, r) \<Rightarrow> k (c\<lparr>dr := Some d, rd := r\<rparr>))" for e d
    using discard_rest_ends [of "(d, rd c)" e] assms by auto
  then show ?thesis using assms(1) unfolding B_Discard_def
    by (cases "B h"; cases "dr c") (auto simp del: ends.simps(1,3) split: prod.split)
qed

lemmas free_intros = ends_intros fits_list free_put free_Ret free_Panic free_send_article free_AbortOnErr
  free_r_Discard free_OpenReader free_B_Discard printers

lemma free_get:
  assumes "free c"
  shows "ungrouped (GetByMsgID p k i c)" and "ungrouped (GetByNum p k n c)"
    and "ungrouped (GetByCurr p k c)" and "ungrouped (TGetOverByMsgID p i c)"
    and "ungrouped (TGetOverByRange a b c)" and "ungrouped (TGetXOverByRange a b c)"
    and "ungrouped (TGetOverByCurr c)" and "ungrouped (commonGetHdrByMsgID p h i rfc c)"
    and "ungrouped (commonGetHdrByRange h a b rfc c)" and "ungrouped (commonGetHdrByCurr h rfc c)"
    and "ungrouped (TSelectNextArticle c)" and "ungrouped (TSelectPrevArticle c)"
    and "ungrouped (listing aw r c)"
proof -
  show "ungrouped (listing aw r c)"
    unfolding listing_def by (intro free_intros assms)
  show "ungrouped (GetByMsgID p k i c)" "ungrouped (TGetOverByMsgID p i c)"
    "ungrouped (commonGetHdrByMsgID p h i rfc c)"
    unfolding GetByMsgID_def TGetOverByMsgID_def commonGetHdrByMsgID_def by (intro free_intros assms)+
qed (use assms free_put [OF printer_Res(3), of c] in \<open>simp_all add: get_defs TSelectNextArticle_def
  TSelectPrevArticle_def getGroupState_def\<close>)

context head_reader
begin

lemma fits_with_head:
  assumes "keeps c d" and "\<And>h e d'. keeps c d' \<Longrightarrow> fits n c (k h e d')"
  shows "fits n c (with_head RH d k)"
proof (cases "dr d")
  case None
  then show ?thesis using assms(1) by (simp add: with_head_def)
next
  case (Some x)
  obtain h e x' r where t: "RH (x, rd d) = Some ((h, e), x', r)" "wf r" "left (x', r) \<le> left (x, rd d)"
    using head_ends [of "(x, rd d)"] keeps_wf [OF assms(1)] by auto
  have "fits n c (k h e (d\<lparr>dr := Some x', rd := r\<rparr>))"
    by (intro assms(2) keeps_source [OF assms(1) Some t(2,3)])
  then show ?thesis by (simp add: with_head_def Some t(1))
qed

lemma fits_posting:
  assumes "wf (rd c)"
  shows "fits False c (THandlePost p RH c)" and "fits False c (THandleIHave p RH i c)"
    and "fits False c (THandleCheck p i c)" and "fits False c (THandleTakeThis p RH i c)"
  unfolding THandlePost_def THandleIHave_def THandleCheck_def THandleTakeThis_def
  by (intro ends_if ends_Let fits_silent fits_print_then fits_with_head fits_B_Discard fits_r_Discard
      keeps_Open fits_Ret keeps_refl printers assms; blast)+

lemma free_with_head:
  assumes "free c" and "\<And>h e c. free c \<Longrightarrow> ungrouped (k h e c)"
  shows "ungrouped (with_head RH c k)"
proof -
  have "ungrouped (case RH (d, rd c) of None \<Rightarrow> Hang | Some ((h, e), d, r) \<Rightarrow> k h e (c\<lparr>dr := Some d, rd := r\<rparr>))" for d
    using head_ends [of "(d, rd c)"] assms by auto
  then show ?thesis using assms(1) unfolding with_head_def by (cases "dr c") auto
qed

lemma free_posting:
  assumes "free c"
  shows "ungrouped (THandlePost p RH c)" and "ungrouped (THandleIHave p RH i c)"
    and "ungrouped (THandleCheck p i c)" and "ungrouped (THandleTakeThis p RH i c)"
  unfolding THandlePost_def THandleIHave_def THandleCheck_def THandleTakeThis_def
  by (intro free_intros free_with_head assms; blast)+

lemma testsrv_laws: "provider_laws (testsrv p RH)"
proof
  fix c :: tconn and pc
  assume w: "wf (rd c)"
  show "fits (no_result pc) c (call (testsrv p RH) pc c)"
    using fits_get [OF w] fits_select [OF w] fits_posting [OF w] fits_listing [OF w]
    by (cases pc) (simp_all add: testsrv_def TListNewNews_def TListNewGroups_def TListActiveGroups_def
        TListNewsgroups_def del: ends.simps)
  assume g: "CurrentGroup c = None" "\<not> selects pc"
  have "ungrouped (call (testsrv p RH) pc c)"
    using free_get [of c] free_posting [of c] w g
    by (cases pc) (simp_all add: testsrv_def TListNewNews_def TListNewGroups_def TListActiveGroups_def
        TListNewsgroups_def del: ends.simps)
  then show "ends (\<lambda>b c. CurrentGroup c = None) (\<lambda>c. CurrentGroup c = None) (call (testsrv p RH) pc c)"
    by (rule ends_mono) auto
qed

end

sublocale head_reader < ts: provider_laws "testsrv p RH" for p
  by (rule testsrv_laws)

text \<open>The provider as it is: heads are read with a limit of 2 MiB.\<close>

definition ReadArticleHead :: head_fun where
  "ReadArticleHead = ReadHead 2097152"

definition TestServer :: "TestSrv \<Rightarrow> (groupState, unit) NNTPProvider" where
  "TestServer p = testsrv p ReadArticleHead"

end
