(* ===== verification/NntpProps.thy ===== *)
theory NntpProps
  imports NntpTestsrv
begin

text \<open>
  The properties of the NNTP server and of its test provider. A property over all providers that
  keep the contract \<open>provider_laws\<close> is instantiated, in its witness, with the test provider.
\<close>

subsection \<open>Panics\<close>

text \<open>
  A provider whose panicking calls never return instead: a command does not return with it when one of the
  calls it makes panics.
\<close>

definition hushed :: "('g, 'p) NNTPProvider \<Rightarrow> ('g, 'p) NNTPProvider" where
  "hushed P = P\<lparr>call := (\<lambda>pc c. case call P pc c of Panic d \<Rightarrow> Hang | r \<Rightarrow> r)\<rparr>"

lemma hushed_simps [simp]:
  "call (hushed P) pc c = (case call P pc c of Panic d \<Rightarrow> Hang | r \<Rightarrow> r)"
  "SupportsNewNews (hushed P) = SupportsNewNews P" "SupportsOverByMsgID (hushed P) = SupportsOverByMsgID P"
  "SupportsHdr (hushed P) = SupportsHdr P" "SupportsIHave (hushed P) = SupportsIHave P"
  "SupportsPost (hushed P) = SupportsPost P" "SupportsStream (hushed P) = SupportsStream P"
  "SupportsXListen (hushed P) = SupportsXListen P"
  by (simp_all add: hushed_def)

text \<open>The same run with such a provider: a panic is for lack of output, or in a call.\<close>

definition quiet :: "('g, 'p) conn outcome \<Rightarrow> ('g, 'p) conn outcome \<Rightarrow> bool" where
  "quiet r s \<longleftrightarrow> (case r of Ret b c \<Rightarrow> s = r | Panic d \<Rightarrow> wleft d = Some 0 \<or> s = Hang | Hang \<Rightarrow> True)"

lemma quiet_Ret [simp]: "quiet (Ret b c) (Ret b c)"
  by (simp add: quiet_def)

lemma quiet_call: "quiet (call P pc c) (call (hushed P) pc c)"
  by (simp add: quiet_def split: outcome.split)

lemma quiet_andThen: "quiet r s \<Longrightarrow> (\<And>b c. quiet (k b c) (l b c)) \<Longrightarrow> quiet (andThen r k) (andThen s l)"
  by (cases r) (auto simp: quiet_def)

lemma quiet_Abort:
  assumes "printer r" and "\<And>c. quiet (k c) (l c)"
  shows "quiet (AbortOnErr (r c) k) (AbortOnErr (r c) l)"
proof -
  obtain x where "r = flush x" using assms(1) by (auto simp: printer_def)
  then show ?thesis using assms(2) by (cases rule: flush_cases [of c x]) (auto simp: quiet_def)
qed

lemma quiet_say: "printer r \<Longrightarrow> quiet (say r c) (say r c)"
  unfolding say_def by (rule quiet_Abort) simp_all

lemma quiet_call_or: "printer r \<Longrightarrow> quiet (call_or P pc r c) (call_or (hushed P) pc r c)"
  and quiet_call_only: "quiet (call_only P pc c) (call_only (hushed P) pc c)"
  unfolding call_or_def call_only_def by (auto intro!: quiet_andThen quiet_call quiet_say simp del: hushed_simps(1))

lemma quiet_if: "(b \<Longrightarrow> quiet x x') \<Longrightarrow> (\<not> b \<Longrightarrow> quiet y y') \<Longrightarrow> quiet (if b then x else y) (if b then x' else y')"
  and quiet_Let: "quiet (f a) (f' a) \<Longrightarrow> quiet (Let a f) (Let a f')"
  and quiet_option: "quiet x x' \<Longrightarrow> (\<And>v. quiet (g v) (g' v)) \<Longrightarrow>
    quiet (case u of None \<Rightarrow> x | Some v \<Rightarrow> g v) (case u of None \<Rightarrow> x' | Some v \<Rightarrow> g' v)"
  and quiet_prod: "(\<And>x y. quiet (h x y) (h' x y)) \<Longrightarrow> quiet (case p of (x, y) \<Rightarrow> h x y) (case p of (x, y) \<Rightarrow> h' x y)"
  and quiet_sum: "(\<And>x. quiet (i x) (i' x)) \<Longrightarrow> (\<And>y. quiet (j y) (j' y)) \<Longrightarrow> quiet (case_sum i j s) (case_sum i' j' s)"
  and quiet_parsed: "(\<And>x. quiet (k x) (k' x)) \<Longrightarrow> (\<And>x y. quiet (l x y) (l' x y)) \<Longrightarrow>
    quiet (case_parsed k l z) (case_parsed k' l' z)"
  by (simp_all split: option.split prod.split sum.split parsed.split)

lemmas quiet_intros = quiet_if quiet_Let quiet_option quiet_prod quiet_sum quiet_parsed quiet_say quiet_call_or
  quiet_call_only quiet_Ret printer_intros

lemma quiet_defer: "quiet r s \<Longrightarrow> quiet (defer_discard r) (defer_discard s)"
  by (cases r) (auto simp: quiet_def dr_Discard_def split: option.splits)

abbreviation calm :: "('g, 'p) NNTPProvider \<Rightarrow> (('g, 'p) NNTPProvider \<Rightarrow> ('g, 'p) conn outcome) \<Rightarrow> bool" where
  "calm P f \<equiv> quiet (f P) (f (hushed P))"

lemma quiet_read:
  "calm P (\<lambda>P. commonArticleHandler P kind args c)" "calm P (\<lambda>P. cmdGroup P args c)" "calm P (\<lambda>P. cmdListGroup P args c)"
  "calm P (\<lambda>P. cmdNext P c)" "calm P (\<lambda>P. cmdLast P c)" "calm P (\<lambda>P. cmdNewNews E P args c)"
  "calm P (\<lambda>P. cmdNewGroups E P args c)" "calm P (\<lambda>P. commonCmdOver P args b c)" "calm P (\<lambda>P. commonCmdHdr P args b c)"
  unfolding commonArticleHandler_def cmdGroup_def cmdListGroup_def cmdNext_def cmdLast_def cmdNewNews_def cmdNewGroups_def
    commonCmdOver_def commonCmdHdr_def hushed_simps(2-) by (intro quiet_intros)+

lemma quiet_list:
  "calm P (\<lambda>P. listCmdActive P args c)" "calm P (\<lambda>P. listCmdNewsgroups P args c)" "calm P (\<lambda>P. cmdXGTitle P args c)"
  "calm P (\<lambda>P. listCmdOverviewFmt c)"
  unfolding list_groups_def listCmdActive_def listCmdNewsgroups_def cmdXGTitle_def listCmdOverviewFmt_def
  by (intro quiet_intros quiet_Abort)+

lemma quiet_post:
  "calm P (\<lambda>P. cmdPost P c)" "calm P (\<lambda>P. cmdIHave P args c)" "calm P (\<lambda>P. cmdCheck P args c)"
  "calm P (\<lambda>P. cmdTakeThis P args c)"
  unfolding cmdPost_def cmdIHave_def cmdCheck_def cmdTakeThis_def hushed_simps(2-) by (intro quiet_intros quiet_defer)+

lemma capabilities_hushed [simp]: "capabilities E (hushed P) c = capabilities E P c"
  by (simp add: capabilities_def)

lemma quiet_base:
  "calm P (\<lambda>P. cmdVoid rest c)" "calm P (\<lambda>P. cmdCapabilities E P c)" "calm P (\<lambda>P. cmdMode P args c)"
  "calm P (\<lambda>P. cmdHelp args c)" "calm P (\<lambda>P. cmdQuit c)" "calm P (\<lambda>P. cmdSlave c)" "calm P (\<lambda>P. cmdDate E c)"
  "calm P (\<lambda>P. cmdXListen c)" "calm P (\<lambda>P. cmdXWait c)"
  unfolding cmdVoid_def cmdCapabilities_def cmdMode_def cmdHelp_def cmdQuit_def cmdSlave_def cmdDate_def cmdXListen_def
    cmdXWait_def capabilities_hushed hushed_simps(2-) by (intro quiet_intros quiet_Abort)+

lemma quiet_auth:
  "calm P (\<lambda>P. authCmdUser E args c)" "calm P (\<lambda>P. authCmdPass E args c)" "calm P (\<lambda>P. authCmdSASL args c)"
  unfolding authCmdUser_def authCmdPass_def authCmdSASL_def pullActiveLogin_def prod.case
  by (intro quiet_intros quiet_Abort)+

lemmas quiet_handlers = quiet_read quiet_list quiet_post quiet_base quiet_auth

lemma quiet_cmdList: "calm P (\<lambda>P. cmdList P rest c)"
proof -
  have "calm P (\<lambda>P. run_list f P args c)" for f args
    by (simp add: run_list_def quiet_handlers quiet_say split: cmdfunc.split)
  then show ?thesis
    unfolding cmdList_def by (intro quiet_intros quiet_andThen quiet_handlers)
qed

lemma quiet_cmdAuthInfo: "calm P (\<lambda>P. cmdAuthInfo E rest c)"
proof -
  have "calm P (\<lambda>P. run_auth f E args c)" for f args
    by (simp add: run_auth_def quiet_handlers quiet_say split: cmdfunc.split)
  then show ?thesis
    unfolding cmdAuthInfo_def by (intro quiet_intros quiet_andThen)
qed

lemma quiet_run: "f \<noteq> F_cmdStartTLS \<Longrightarrow> calm P (\<lambda>P. run f E P args rest c)"
  by (cases f) (simp_all add: run_def quiet_handlers quiet_cmdList quiet_cmdAuthInfo quiet_say)

lemma Abort_panic:
  assumes "AbortOnErr (r c) k = Panic d" and "printer r"
    and "\<And>x w. k (c\<lparr>out := out c @ [x], wleft := w\<rparr>) = Panic d \<Longrightarrow> answered c d"
  shows "answered c d"
proof -
  obtain x where "r = flush x" using assms(2) by (auto simp: printer_def)
  then show ?thesis using assms(1,3) by (cases rule: flush_cases [of c x]) (auto simp: answered_def)
qed

lemma say_panic: "say r c = Panic d \<Longrightarrow> printer r \<Longrightarrow> answered c d"
  unfolding say_def by (erule Abort_panic) simp_all

text \<open>A handshake that ends in a panic comes after the response to the command.\<close>

lemma cmdStartTLS_panic:
  assumes "cmdStartTLS E c = Panic d"
  shows "answered c d"
proof -
  have "answered c d" if "postTLS True (cfg E) certs (Cleanup (e\<lparr>rd := u\<rparr>)) = Panic d" "e = c\<lparr>out := out c @ [x], wleft := w\<rparr>"
    for certs e u x w
    using that by (auto simp: postTLS_def Cleanup_def Let_def answered_def split: if_splits list.splits option.splits)
  then show ?thesis
    using assms unfolding cmdStartTLS_def
    by (auto simp del: bs_Cons split: if_splits option.splits elim!: Abort_panic say_panic)
qed

lemma quiet_check_chars: "quiet (check_chars l c) (check_chars l c)"
  by (induction l arbitrary: c) (auto intro!: quiet_Abort)

lemma dispatch_panic:
  assumes "dispatch E P l c = Panic d"
  shows "answered c d \<or> dispatch E (hushed P) l c = Hang"
proof -
  have r: "answered c d \<or> run f E (hushed P) args rest c = Hang" if "run f E P args rest c = Panic d" for f args rest
  proof (cases "f = F_cmdStartTLS")
    case True
    then show ?thesis using cmdStartTLS_panic [of E c d] that by (simp add: run_def)
  next
    case False
    then show ?thesis using quiet_run [of f E P args rest c] that by (auto simp: quiet_def answered_def)
  qed
  then show ?thesis
    using assms unfolding dispatch_def
    by (auto split: prod.splits option.splits parsed.splits if_splits dest: say_panic)
qed

text \<open>
  A command that panics has left the client a response, or the client takes no more, or the panic is one of
  the provider.
\<close>

lemma command_line_panic:
  assumes "command_line E P l c = Panic d" and "wf (rd c)"
  shows "answered c d \<or> command_line E (hushed P) l c = Hang"
proof (cases "check_chars l c")
  case (Panic e)
  then show ?thesis using assms(1) quiet_check_chars [of l c] by (auto simp: command_line_def quiet_def answered_def)
next
  case (Ret b e)
  then have "keeps c e" using check_chars_ends [OF assms(2), of l] by simp
  then have "answered c d" if "answered e d" using answered_trans2 that by blast
  then show ?thesis using assms(1) Ret dispatch_panic [of E P l e d] by (auto simp: command_line_def)
qed (use assms(1) in \<open>simp add: command_line_def\<close>)

subsection \<open>A configuration for the witnesses\<close>

definition reader_user :: UserInfo where
  "reader_user = \<lparr>Name = bs ''neko'', Serv = [], uiPriv = \<lparr>AllowReading = True, AllowPosting = False\<rparr>\<rparr>"

definition one_user :: UserPassProvider where
  "one_user = \<lparr>NNTPUserPassByName = (\<lambda>n. if n = bs ''neko'' then (Some reader_user, bs ''secret'') else (None, [])),
     NNTPCheckPass = (\<lambda>h pw. h = pw)\<rparr>"

definition closed_env :: env where
  "closed_env = \<lparr>cfg = \<lparr>DefaultPriv = \<lparr>AllowReading = False, AllowPosting = False\<rparr>, NNTPS = False, TLSConfig = True,
       TLSPriv = \<lparr>AllowReading = False, AllowPosting = False\<rparr>,
       CertFPProvider = Some (\<lambda>_. Some (reader_user\<lparr>uiPriv := \<lparr>AllowReading = False, AllowPosting = True\<rparr>\<rparr>)),
       CertFPAutoAuth = True, userPassProvider = None, UnsafePass = True, UnsafeEarlyUserReject = False\<rparr>,
     now = (2020, 1, 2, 3, 4, 5), handshake = Some ([[1]], [])\<rparr>"

definition user_env :: env where
  "user_env = closed_env\<lparr>cfg := (cfg closed_env)\<lparr>userPassProvider := Some one_user\<rparr>\<rparr>"

definition demo_srv :: TestSrv where
  "demo_srv = \<lparr>SupportNewNews = True, SupportOverByMsgID = True, SupportHdr = True, SupportIHave = True,
     SupportPost = True, SupportStream = True, PostingPermit = True, PostingAccept = True,
     TransferPermit = True, TransferAccept = True, inbuf = (\<lambda>_. []), data = sortGroups s1\<rparr>"

definition demo_conn :: tconn where
  "demo_conn = \<lparr>rd = NewBufReader [], dr = None, out = [], wleft = None, CurrentGroup = None,
     priv = \<lparr>AllowReading = False, AllowPosting = False\<rparr>, authenticated = False, activeLogin = None,
     tlsConn = False, pst = ()\<rparr>"

lemma demo_laws: "provider_laws (TestServer demo_srv)"
  unfolding TestServer_def ReadArticleHead_def by (rule read.testsrv_laws)

lemma demo_conn_wf: "wf (rd demo_conn)"
  by (simp add: demo_conn_def NewBufReader_wf)

subsection \<open>The server\<close>

text \<open>
  C3: a connection ends: with a provider that keeps the contract, whatever the client sends and however
  the network cuts it, \<open>handleConnection\<close> returns (or the process crashes in the TLS set-up, outside
  the recovery of \<open>serveClient\<close>).
\<close>
theorem handleConnection_returns:
  assumes "provider_laws P"
  shows "handleConnection Es P u w s \<noteq> Running"
  using provider_laws.handleConnection_ends [OF assms, of Es u w s "\<lambda>_. True"]
  by (cases "handleConnection Es P u w s") auto

theorem handleConnection_returns_witness:
  "handleConnection (\<lambda>_. user_env) (TestServer demo_srv) [([65], None), ([10], None)] (Some 3) () \<noteq> Running"
  by (rule handleConnection_returns [OF demo_laws])

text \<open>
  C1: authentication is refined by its specification: the effect of every round of the loop, panics
  and broken connections included, on privileges, authentication, pending login and TLS is one step
  of \<open>auth_step\<close>, where a password is asked for only if it may be sent, and a user is logged in only
  without a password, after its check, or by certificate.
\<close>
theorem serve_refines_auth:
  assumes "provider_laws P" and "wf (rd c)"
  shows "case serve_round E P c of
      Continue d \<Rightarrow> auth_step E (login_of c) (login_of d)
    | Return b d \<Rightarrow> auth_step E (login_of c) (login_of d)
    | Blocked \<Rightarrow> False"
  using provider_laws.serve_round_ends [OF assms, of E] by (auto simp: goes_def split: round.splits)

theorem serve_refines_auth_witness:
  "case serve_round user_env (TestServer demo_srv) demo_conn of
      Continue d \<Rightarrow> auth_step user_env (login_of demo_conn) (login_of d)
    | Return b d \<Rightarrow> auth_step user_env (login_of demo_conn) (login_of d)
    | Blocked \<Rightarrow> False"
  by (rule serve_refines_auth [OF demo_laws demo_conn_wf])

text \<open>
  C2: nobody reads without being granted it: if neither the defaults, nor TLS, nor any user of the
  providers grants reading at any time, no sequence of commands ends with the privilege, or with a
  group selected.
\<close>
theorem no_reading_unless_granted:
  assumes "provider_laws P" and "\<And>n. no_reader (Es n)"
  shows "case handleConnection Es P u w s of
      Ended b d \<Rightarrow> \<not> AllowReading (priv d) \<and> CurrentGroup d = None | Crashed \<Rightarrow> True | Running \<Rightarrow> False"
proof -
  let ?I = "\<lambda>c. ginv c \<and> cannot_read (login_of c)"
  have "case handleConnection Es P u w s of Ended b d \<Rightarrow> ?I d | Crashed \<Rightarrow> True | Running \<Rightarrow> False"
  proof (rule provider_laws.handleConnection_ends [OF assms(1)])
    show "?I c" if "setup_conn (Es 0) u w s = Ret b c" for b c
      using setup_ginv [OF that] setup_cannot_read [OF that assms(2)] by blast
    show "?I d" if "?I c" "goes (Es n) c d" "ginv c \<longrightarrow> ginv d" for n c d
      using that auth_step_cannot_read [OF _ assms(2)] by (auto simp: goes_def)
  qed simp
  then show ?thesis
    by (auto simp: ginv_def cannot_read_def split: ended.splits)
qed

theorem no_reading_unless_granted_witness:
  "case handleConnection (\<lambda>_. closed_env) (TestServer demo_srv) [([65, 10], None)] None () of
      Ended b d \<Rightarrow> \<not> AllowReading (priv d) \<and> CurrentGroup d = None | Crashed \<Rightarrow> True | Running \<Rightarrow> False"
  by (rule no_reading_unless_granted [OF demo_laws]) (simp add: no_reader_def closed_env_def reader_user_def)

text \<open>
  C4: a selected group implies the reading privilege, in every round and at the end of every
  connection: the invariant the handlers of \<open>NEXT\<close> and \<open>LAST\<close> rely on without checking.
\<close>
theorem group_needs_reading:
  assumes "provider_laws P" and "wf (rd c)" and "CurrentGroup c \<noteq> None \<longrightarrow> AllowReading (priv c)"
  shows "(case serve_round E P c of
      Continue d \<Rightarrow> CurrentGroup d \<noteq> None \<longrightarrow> AllowReading (priv d)
    | Return b d \<Rightarrow> CurrentGroup d \<noteq> None \<longrightarrow> AllowReading (priv d)
    | Blocked \<Rightarrow> False) \<and>
   (case handleConnection Es P u w s of
      Ended b d \<Rightarrow> CurrentGroup d \<noteq> None \<longrightarrow> AllowReading (priv d) | Crashed \<Rightarrow> True | Running \<Rightarrow> False)"
proof
  show "case serve_round E P c of
      Continue d \<Rightarrow> CurrentGroup d \<noteq> None \<longrightarrow> AllowReading (priv d)
    | Return b d \<Rightarrow> CurrentGroup d \<noteq> None \<longrightarrow> AllowReading (priv d)
    | Blocked \<Rightarrow> False"
    using provider_laws.serve_round_ends [OF assms(1,2), of E] assms(3) by (auto simp: ginv_def split: round.splits)
  have "case handleConnection Es P u w s of Ended b d \<Rightarrow> ginv d | Crashed \<Rightarrow> True | Running \<Rightarrow> False"
  proof (rule provider_laws.handleConnection_ends [OF assms(1)])
    show "ginv c" if "setup_conn (Es 0) u w s = Ret b c" for b c
      using setup_ginv [OF that] by blast
    show "ginv d" if "ginv c" "goes (Es n) c d" "ginv c \<longrightarrow> ginv d" for n c d
      using that by blast
  qed simp
  then show "case handleConnection Es P u w s of
      Ended b d \<Rightarrow> CurrentGroup d \<noteq> None \<longrightarrow> AllowReading (priv d) | Crashed \<Rightarrow> True | Running \<Rightarrow> False"
    by (auto simp: ginv_def split: ended.splits)
qed

theorem group_needs_reading_witness:
  "case serve_round user_env (TestServer demo_srv) demo_conn of
      Continue d \<Rightarrow> CurrentGroup d \<noteq> None \<longrightarrow> AllowReading (priv d)
    | Return b d \<Rightarrow> CurrentGroup d \<noteq> None \<longrightarrow> AllowReading (priv d)
    | Blocked \<Rightarrow> False"
  by (rule group_needs_reading [OF demo_laws demo_conn_wf, THEN conjunct1]) (simp add: demo_conn_def)

text \<open>
  C6: a client without privileges does not reach the provider: what the server does with its next
  command does not depend on the provider's methods, only on the features it announces.
\<close>
theorem unprivileged_isolated:
  assumes "\<not> AllowReading (priv c)" and "\<not> AllowPosting (priv c)" and "CurrentGroup c = None"
  shows "serve_round E (P\<lparr>call := k\<rparr>) c = serve_round E P c"
  by (rule serve_round_isolated [OF assms])

theorem unprivileged_isolated_witness:
  "serve_round user_env ((TestServer demo_srv)\<lparr>call := (\<lambda>_. Panic)\<rparr>) demo_conn
   = serve_round user_env (TestServer demo_srv) demo_conn"
  by (rule unprivileged_isolated) (simp_all add: demo_conn_def)

text \<open>
  C5: every command is answered, with two exceptions. For a provider that keeps the contract and a well-formed reader
  the handler of any line ends. If the line is not blank it has sent at least one response, whether it returns or
  panics, unless the client takes no more output (\<open>wleft d = Some 0\<close>), or a method of the provider panicked
  (with panicking calls that never return, the command does not return). On every way it has only appended
  to the output and leaves the reader well-formed. \<open>serveClient\<close> recovers from a panic and ends the connection.
\<close>
theorem every_command_answered:
  assumes "provider_laws P" and "wf (rd c)"
  shows "case command_line E P l c of
      Ret b d \<Rightarrow> (length (out c) < length (out d) \<or> wleft d = Some 0 \<or> words l = []) \<and> (\<exists>r. out d = out c @ r) \<and> wf (rd d)
    | Panic d \<Rightarrow> (length (out c) < length (out d) \<or> wleft d = Some 0 \<or> command_line E (hushed P) l c = Hang) \<and>
        (\<exists>r. out d = out c @ r) \<and> wf (rd d)
    | Hang \<Rightarrow> False"
  using provider_laws.command_line_ends [OF assms, of E l] command_line_panic [OF _ assms(2), of E P l]
  by (cases "command_line E P l c") (auto simp: answered_def goes_def)

theorem every_command_answered_witness:
  "case command_line user_env (TestServer demo_srv) (bs ''QUIT'') demo_conn of
      Ret b d \<Rightarrow> (length (out demo_conn) < length (out d) \<or> wleft d = Some 0 \<or> words (bs ''QUIT'') = []) \<and> (\<exists>r. out d = out demo_conn @ r) \<and> wf (rd d)
    | Panic d \<Rightarrow> (length (out demo_conn) < length (out d) \<or> wleft d = Some 0 \<or>
          command_line user_env (hushed (TestServer demo_srv)) (bs ''QUIT'') demo_conn = Hang) \<and>
        (\<exists>r. out d = out demo_conn @ r) \<and> wf (rd d)
    | Hang \<Rightarrow> False"
  by (rule every_command_answered [OF demo_laws demo_conn_wf])

text \<open>
  C8: \<open>STARTTLS\<close> keeps what the client sent in plaintext behind it: the bytes already buffered are read
  as commands of the encrypted connection, in front of what the handshake's peer sends. The
  privileges of that connection apply to them.
\<close>
theorem starttls_keeps_plaintext:
  assumes "TLSConfig (cfg E)" and "\<not> tlsConn c" and "handshake E = Some (certs, u)"
    and "cmdStartTLS E c = Ret True d"
  shows "tlsConn d \<and> Buffered (rd d) = Buffered (rd c) \<and>
    events (rd d) = canon (map Byte (Buffered (rd c)) @ err_evs (berr (rd c)) @ uevs u)"
proof -
  obtain c1 where "postTLS True (cfg E) certs (Cleanup (c1\<lparr>rd := SetReader u (rd c1)\<rparr>)) = Ret True d" "rd c1 = rd c"
    using assms by (cases rule: flush_cases [of c "Line (bs ''382 continue with TLS negotiation'')"])
      (auto simp: cmdStartTLS_def tlsStarted_def PrintfLine_def simp del: bs_Cons)
  then show ?thesis
    by (auto simp: postTLS_def Cleanup_def Let_def SetReader_def events_def Buffered_def
        split: if_splits list.splits option.splits)
qed

theorem starttls_keeps_plaintext_witness:
  "\<exists>d. cmdStartTLS closed_env (demo_conn\<lparr>rd := \<lparr>bu = [], bb = [81, 10], bw = 2, br = 0, berr = None\<rparr>\<rparr>) = Ret True d \<and>
     Buffered (rd d) = [81, 10]"
proof -
  let ?c = "demo_conn\<lparr>rd := \<lparr>bu = [], bb = [81, 10], bw = 2, br = 0, berr = None\<rparr>\<rparr>"
  obtain d where d: "cmdStartTLS closed_env ?c = Ret True d"
    by (auto simp: cmdStartTLS_def tlsStarted_def closed_env_def demo_conn_def PrintfLine_def flush_def
        postTLS_def Cleanup_def Let_def)
  have "Buffered (rd d) = Buffered (rd ?c)"
    using starttls_keeps_plaintext [OF _ _ _ d, of "[[1]]" "[]"] by (simp add: closed_env_def demo_conn_def)
  then show ?thesis using d by (simp add: Buffered_def)
qed

text \<open>
  A login begun before \<open>STARTTLS\<close> survives it: after a certificate has authenticated the client,
  the password of the pending user authenticates it a second time and adds that user's privileges.
\<close>
theorem login_survives_starttls:
  assumes "TLSConfig (cfg E)" and "\<not> tlsConn c" and "handshake E = Some (crt # certs, r)"
    and "CertFPAutoAuth (cfg E)" and "CertFPProvider (cfg E) = Some f" and "f crt = Some v"
    and "\<not> authenticated c" and "activeLogin c = Some l" and "ui l = Some u"
    and "userPassProvider (cfg E') = Some p" and "NNTPCheckPass p (ch l) pw" and "wleft c = None"
  shows "\<exists>d e. cmdStartTLS E c = Ret True d \<and> authenticated d \<and> authCmdPass E' [pw] d = Ret True e \<and>
    priv e = MergeUserPriv (MergeUserPriv (MergeUserPriv (priv c) (TLSPriv (cfg E))) (uiPriv v)) (uiPriv u)"
  using assms
  by (auto simp: cmdStartTLS_def tlsStarted_def PrintfLine_def flush_def postTLS_def Cleanup_def Let_def
      authCmdPass_def pullActiveLogin_def loginSuccess_def simp del: bs_Cons)

theorem login_survives_starttls_witness:
  "\<exists>d e. cmdStartTLS closed_env (demo_conn\<lparr>activeLogin := Some \<lparr>ui = Some reader_user, ch = [1]\<rparr>\<rparr>) = Ret True d \<and>
     authenticated d \<and> authCmdPass user_env [[1]] d = Ret True e \<and>
     priv e = MergeUserPriv (MergeUserPriv (MergeUserPriv
       (priv (demo_conn\<lparr>activeLogin := Some \<lparr>ui = Some reader_user, ch = [1]\<rparr>\<rparr>)) (TLSPriv (cfg closed_env)))
       (uiPriv (reader_user\<lparr>uiPriv := \<lparr>AllowReading = False, AllowPosting = True\<rparr>\<rparr>))) (uiPriv reader_user)"
  by (rule login_survives_starttls [where l = "\<lparr>ui = Some reader_user, ch = [1]\<rparr>" and p = one_user
        and crt = "[1]" and certs = "[]" and r = "[]"
        and f = "\<lambda>_. Some (reader_user\<lparr>uiPriv := \<lparr>AllowReading = False, AllowPosting = True\<rparr>\<rparr>)"])
    (simp_all add: closed_env_def user_env_def demo_conn_def one_user_def)

text \<open>
  On a TLS listener with automatic certificate authentication, a client whose certificate is known
  takes the server down: the success is logged before the connection has a log, outside every recovery.
\<close>
theorem known_certificate_crashes:
  assumes "NNTPS (cfg (Es 0))" and "handshake (Es 0) = Some (crt # certs, r)"
    and "CertFPAutoAuth (cfg (Es 0))" and "CertFPProvider (cfg (Es 0)) = Some f" and "f crt = Some v"
  shows "handleConnection Es P u w s = Crashed"
  using assms by (auto simp: handleConnection_def setup_conn_def setupDefaults_def postTLS_def Let_def)

theorem known_certificate_crashes_witness:
  "handleConnection (\<lambda>_. closed_env\<lparr>cfg := (cfg closed_env)\<lparr>NNTPS := True\<rparr>\<rparr>) (TestServer demo_srv)
     [([65, 10], None)] None () = Crashed"
  by (rule known_certificate_crashes) (simp_all add: closed_env_def)

text \<open>
  A line with NUL or CR characters is still executed: the client gets one \<open>501\<close> for each of them and
  then the responses of the command.
\<close>
theorem illegal_line_runs:
  assumes "wleft c = None"
  shows "command_line E P l c = dispatch E P l (c\<lparr>out := out c @
    replicate (length (filter (\<lambda>x. x = 0 \<or> x = CR) l)) (Line (bs ''501 command contains illegal characters''))\<rparr>)"
proof -
  have "check_chars l c = Ret True (c\<lparr>out := out c @
      replicate (length (filter (\<lambda>x. x = 0 \<or> x = CR) l)) (Line (bs ''501 command contains illegal characters''))\<rparr>)"
    using assms
    by (induction l arbitrary: c) (auto simp: PrintfLine_def flush_def simp del: bs_Cons)
  then show ?thesis by (simp add: command_line_def)
qed

theorem illegal_line_runs_witness:
  "command_line user_env (TestServer demo_srv) [81, 0] demo_conn
   = dispatch user_env (TestServer demo_srv) [81, 0]
       (demo_conn\<lparr>out := [Line (bs ''501 command contains illegal characters'')]\<rparr>)"
  using illegal_line_runs [of demo_conn user_env "TestServer demo_srv" "[81, 0]"]
  by (simp add: demo_conn_def del: bs_Cons)

text \<open>
  \<open>HELP AUTHINFO\<close> with a keyword looks it up among the keywords of \<open>LIST\<close>: it finds none of those of
  \<open>AUTHINFO\<close>, and explains \<open>LIST\<close>'s in their place; \<open>HELP LIST\<close> explains its own.
\<close>
theorem help_authinfo:
  "list_all (\<lambda>k. help_text [bs ''AUTHINFO'', k] = noSuchCommand) (map fst authCommandMap) \<and>
   list_all (\<lambda>k. help_text [bs ''AUTHINFO'', k] = printCmd (bs ''AUTHINFO'') listCommandMap k \<and>
     help_text [bs ''LIST'', k] = printCmd (bs ''LIST'') listCommandMap k \<and>
     help_text [bs ''LIST'', k] \<noteq> noSuchCommand) (map fst listCommandMap)"
proof -
  have "ToUpperASCII (bs ''AUTHINFO'') = bs ''AUTHINFO''" "ToUpperASCII (bs ''LIST'') = bs ''LIST''"
   "ToUpperASCII (bs ''USER'') = bs ''USER''" "ToUpperASCII (bs ''PASS'') = bs ''PASS''"
   "ToUpperASCII (bs ''SASL'') = bs ''SASL''" "ToUpperASCII (bs ''ACTIVE'') = bs ''ACTIVE''"
   "ToUpperASCII (bs ''NEWSGROUPS'') = bs ''NEWSGROUPS''" "ToUpperASCII (bs ''OVERVIEW.FMT'') = bs ''OVERVIEW.FMT''" by code_simp+
  moreover have "bs ''LIST'' @ x \<noteq> noSuchCommand" for x
    by (simp add: noSuchCommand_def line_def of_char_byte)
  ultimately show ?thesis
    by (simp del: bs_Cons add: help_text_def authCommandMap_def commandMap_def listCommandMap_def printCmd_def Let_def)
qed

subsection \<open>The test provider\<close>

text \<open>
  \<open>LISTGROUP\<close> with an unknown group as the first selection leaves a group state without a group
  behind: the server then takes a group for selected, and every command on the current group panics.
\<close>
theorem unknown_group_panics:
  assumes "CurrentGroup c = None" and "gn \<noteq> []" and "map_of (groups (data p)) gn = None"
  shows "\<exists>d. TSelectAndListGroup p gn rmin rmax c = Ret False d \<and> CurrentGroup d \<noteq> None \<and>
    GetByNum p k n d = Panic d \<and> GetByCurr p k d = Panic d \<and> TGetOverByCurr d = Panic d"
  using assms
  by (simp add: TSelectAndListGroup_def getGroupState_def nilstate_def GetByNum_def GetByCurr_def
      TGetOverByCurr_def)

theorem unknown_group_panics_witness:
  "\<exists>d. TSelectAndListGroup demo_srv (bs ''x'') 1 (- 1) demo_conn = Ret False d \<and> CurrentGroup d \<noteq> None \<and>
    GetByNum demo_srv articleFull 1 d = Panic d \<and> GetByCurr demo_srv articleFull d = Panic d \<and>
    TGetOverByCurr d = Panic d"
  by (rule unknown_group_panics)
    (simp_all add: demo_conn_def demo_srv_def sortGroups_def s1_def Let_def)

text \<open>
  \<open>POST\<close> is never accepted: a head that parses is refused (the test of its error is inverted), and
  one that does not makes the handler use the body reader it does not have.
\<close>
theorem post_never_accepted:
  assumes "wf (rd c)" and "Line (bs ''240 article taken in'') \<notin> set (out c)"
  shows "case THandlePost p ReadArticleHead c of
      Ret b d \<Rightarrow> Line (bs ''240 article taken in'') \<notin> set (out d)
    | Panic d \<Rightarrow> Line (bs ''240 article taken in'') \<notin> set (out d) | Hang \<Rightarrow> False"
proof -
  let ?N = "\<lambda>c :: tconn. wf (rd c) \<and> Line (bs ''240 article taken in'') \<notin> set (out c)"
  let ?ok = "ends (\<lambda>b. ?N) ?N"
  have dis: "?ok (r_Discard d (Ret True))" if "?N d" for d
    using dr_Discard_ok [of d] that by (auto simp: r_Discard_def silent_def dest: keeps_wf)
  have line: "?ok (AbortOnErr (PrintfLine l d) k)"
    if "?N d" "l \<noteq> bs ''240 article taken in''" "\<And>e. ?N e \<Longrightarrow> ?ok (k e)" for l d k
    unfolding PrintfLine_def using that
    by (cases rule: flush_cases [of d "Line l"]) (simp_all del: bs_Cons)
  have body: "?ok (with_head ReadArticleHead d (\<lambda>h e c.
          let mid = getHdrMsgID h in
          if \<not> PostingAccept p \<or> e = None \<or>
             (length mid \<noteq> 0 \<and> (\<not> validMsgID mid \<or> reservedMsgID mid \<or>
                map_of (articles (data p)) (cutMsgID mid) \<noteq> None))
          then AbortOnErr (ResPostingFailed None c) (\<lambda>c. r_Discard c (Ret True))
          else B_Discard h c (\<lambda>c. r_Discard c (\<lambda>c. AbortOnErr (ResPostingAccepted c) (Ret True)))))"
    if d: "?N d" for d
  proof (cases "dr d")
    case None
    then show ?thesis using d by (simp add: with_head_def del: bs_Cons)
  next
    case (Some x)
    obtain h e x' r where t: "ReadArticleHead (x, rd d) = Some ((h, e), x', r)" "wf r"
      using read.head_ends [of "(x, rd d)" 2097152] d by (auto simp: ReadArticleHead_def)
    have n: "?N (d\<lparr>dr := Some x', rd := r\<rparr>)" using d t by simp
    have "B h = None" if "e \<noteq> None" using that ReadHead_error [of "(x, rd d)"] t(1) d by (auto simp: ReadArticleHead_def)
    then have "?ok (B_Discard h (d\<lparr>dr := Some x', rd := r\<rparr>) k)" if "e \<noteq> None" for k
      using that n by (simp add: B_Discard_def)
    then show ?thesis
      unfolding with_head_def Some option.case t(1) prod.case Let_def ResPostingFailed_def
      by (intro ends_if line dis n; simp del: bs_Cons)
  qed
  have "?ok (THandlePost p ReadArticleHead c)"
    unfolding THandlePost_def ResSendArticleToBePosted_def
  proof (intro ends_if line body)
    show "?N (OpenReader e)" if "?N e" for e
      using that by (simp add: OpenReader_def del: bs_Cons split: option.split)
  qed (simp_all add: assms del: bs_Cons)
  then show ?thesis by (cases "THandlePost p ReadArticleHead c") simp_all
qed

theorem post_never_accepted_witness:
  "case THandlePost demo_srv ReadArticleHead demo_conn of
      Ret b d \<Rightarrow> Line (bs ''240 article taken in'') \<notin> set (out d)
    | Panic d \<Rightarrow> Line (bs ''240 article taken in'') \<notin> set (out d) | Hang \<Rightarrow> False"
  by (rule post_never_accepted [OF demo_conn_wf])
    (simp_all add: demo_conn_def)

end
