(* ===== verification/MailWrite.thy ===== *)
theory MailWrite
  imports MailHeadLaws
begin

text \<open>
  Writing header maps and lists (\<open>mail/headerwriter.go\<close>, the list functions of \<open>mail/headers.go\<close>), the
  invariant of the headers the reader yields, and the round trip between the two.
\<close>

subsection \<open>Orders\<close>

definition writeHeaderOrder :: "bytes list" where
  "writeHeaderOrder = map bs [
    ''Message-ID'', ''Subject'', ''Date'', ''Control'', ''Also-Control'', ''X-Sage'', ''From'',
    ''Sender'', ''Reply-To'', ''Newsgroups'', ''Followup-To'', ''To'', ''Cc'', ''Bcc'',
    ''References'', ''In-Reply-To'', ''Distribution'', ''Expires'', ''Supersedes'', ''Approved'',
    ''Organization'', ''Keywords'', ''Summary'', ''Comments'', ''Path'', ''Injection-Date'',
    ''Injection-Info'', ''NNTP-Posting-Date'', ''NNTP-Posting-Host'', ''X-Frontend-PubKey'',
    ''X-Frontend-Signature'', ''X-Encrypted-IP'', ''X-Tor-Poster'', ''X-I2P-DestHash'',
    ''X-Antivirus'', ''X-Antivirus-Status'', ''User-Agent'', ''X-Mailer'', ''X-Newsreader'',
    ''X-Mozilla-News-Host'', ''X-PubKey-Ed25519'', ''X-Signature-Ed25519-SHA512'',
    ''Cancel-Key'', ''Cancel-Lock'', ''MIME-Version'', ''Content-Type'',
    ''Content-Transfer-Encoding'', ''Content-Disposition'', ''Content-Description'',
    ''Content-Language'', ''Bytes'', ''Lines'']"

definition writePartHeaderOrder :: "bytes list" where
  "writePartHeaderOrder = map bs [
    ''Content-ID'', ''Content-Type'', ''Content-Transfer-Encoding'', ''Content-Disposition'',
    ''Content-Description'', ''Content-Language'']"

subsection \<open>Lines\<close>

definition maxHeaderLen :: nat where "maxHeaderLen = 1000"

datatype write_err = WErr io_err | ErrHeaderLineTooLong

text \<open>
  The outcome of a write: \<open>None\<close> is the panic of a slice out of range. \<open>put\<close> is one \<open>Fprintf\<close>.
\<close>

type_synonym wres = "(write_err option \<times> writer) option"

definition put :: "bytes \<Rightarrow> writer \<Rightarrow> (writer \<Rightarrow> wres) \<Rightarrow> wres" where
  "put p w k = (case uwrite p w of (n, e, w) \<Rightarrow> (case e of Some e \<Rightarrow> Some (Some (WErr e), w) | None \<Rightarrow> k w))"

fun write_folds :: "bool \<Rightarrow> bytes \<Rightarrow> nat \<Rightarrow> u32 list \<Rightarrow> writer \<Rightarrow> wres" where
  "write_folds force v l [] w =
     (if \<not> force \<and> length v - l + 2 > maxHeaderLen then Some (Some ErrHeaderLineTooLong, w)
      else put (drop l v @ [LF]) w (\<lambda>w. Some (None, w)))"
| "write_folds force v l (s # ss) w =
     (let x = unat s in
      if \<not> force \<and> x + 2 > maxHeaderLen then Some (Some ErrHeaderLineTooLong, w)
      else if l + x > length v then None
      else put (take x (drop l v) @ [LF]) w (write_folds force v (l + x) ss))"

definition writeHeaderLine :: "bytes \<Rightarrow> bytes \<Rightarrow> u32 list \<Rightarrow> bool \<Rightarrow> writer \<Rightarrow> wres" where
  "writeHeaderLine h v s force w =
     (case s of
        s0 # ss \<Rightarrow>
          let l = unat s0 in
          if \<not> force \<and> length h + 2 + l + 2 > maxHeaderLen then Some (Some ErrHeaderLineTooLong, w)
          else if l > length v then None
          else put (h @ [58, SP] @ take l v @ [LF]) w (write_folds force v l ss)
      | [] \<Rightarrow>
          if \<not> force \<and> length h + 2 + length v + 2 > maxHeaderLen then Some (Some ErrHeaderLineTooLong, w)
          else put (h @ [58, SP] @ v @ [LF]) w (\<lambda>w. Some (None, w)))"

text \<open>Sequencing: stop at the first error.\<close>

definition and_then :: "wres \<Rightarrow> (writer \<Rightarrow> wres) \<Rightarrow> wres" where
  "and_then r k = (case r of Some (None, w) \<Rightarrow> k w | _ \<Rightarrow> r)"

definition printed_name :: "bytes \<Rightarrow> HeaderVal \<Rightarrow> bytes" where
  "printed_name h x = (if hO x \<noteq> [] then hO x else h)"

fun writeHeaderLines :: "bytes \<Rightarrow> HeaderVal list \<Rightarrow> bool \<Rightarrow> writer \<Rightarrow> wres" where
  "writeHeaderLines h [] force w = Some (None, w)"
| "writeHeaderLines h (x # v) force w =
     and_then (writeHeaderLine (printed_name h x) (hV x) (hS x) force w) (writeHeaderLines h v force)"

fun WriteHeaderList :: "HeaderList \<Rightarrow> bool \<Rightarrow> writer \<Rightarrow> wres" where
  "WriteHeaderList [] force w = Some (None, w)"
| "WriteHeaderList ((k, x) # HL) force w =
     and_then (writeHeaderLine (printed_name k x) (hV x) (hS x) force w) (WriteHeaderList HL force)"

subsection \<open>Maps\<close>

text \<open>
  \<open>addHeadersOrdered\<close> calls its function on the known names in order and then on the others, sorted: the
  names it visits. The writers stop at the first error.
\<close>

definition visited :: "bytes list \<Rightarrow> HeaderMap \<Rightarrow> bytes list" where
  "visited HO hm =
     (let known = filter (\<lambda>h. length (entries hm h) \<noteq> 0) HO in
      if length hm \<le> length known then known
      else known @ sort (filter (\<lambda>k. k \<notin> set HO) (map fst hm)))"

fun addHeadersOrdered :: "(bytes \<Rightarrow> HeaderVal list \<Rightarrow> writer \<Rightarrow> wres) \<Rightarrow> HeaderMap \<Rightarrow> bytes list \<Rightarrow> writer \<Rightarrow> wres" where
  "addHeadersOrdered F hm [] w = Some (None, w)"
| "addHeadersOrdered F hm (h # hs) w = and_then (F h (entries hm h) w) (addHeadersOrdered F hm hs)"

definition WriteMessageHeaderMap :: "HeaderMap \<Rightarrow> bool \<Rightarrow> writer \<Rightarrow> wres" where
  "WriteMessageHeaderMap hm force =
     addHeadersOrdered (\<lambda>h v. writeHeaderLines h v force) hm (visited writeHeaderOrder hm)"

definition WritePartHeaderMap :: "HeaderMap \<Rightarrow> bool \<Rightarrow> writer \<Rightarrow> wres" where
  "WritePartHeaderMap hm force =
     addHeadersOrdered (\<lambda>h v. writeHeaderLines h v force) hm (visited writePartHeaderOrder hm)"

definition toHeaderList :: "bytes list \<Rightarrow> HeaderMap \<Rightarrow> HeaderList" where
  "toHeaderList HO hm = concat (map (\<lambda>h. map (Pair h) (entries hm h)) (visited HO hm))"

definition ToMessageHeaderList :: "HeaderMap \<Rightarrow> HeaderList" where
  "ToMessageHeaderList = toHeaderList writeHeaderOrder"

definition ToPartHeaderList :: "HeaderMap \<Rightarrow> HeaderList" where
  "ToPartHeaderList = toHeaderList writePartHeaderOrder"

subsection \<open>Good headers\<close>

text \<open>
  \<open>good_entry\<close> is what the reader yields and the writer writes back unchanged: the printed name reads as
  the same canonical and original name, the value is trimmed and valid, and the split points cut it into
  lines that read as its continuations.
\<close>

fun pieces :: "nat list \<Rightarrow> bytes \<Rightarrow> bytes list" where
  "pieces [] v = [v]"
| "pieces (n # ns) v = take n v # pieces ns (drop n v)"

definition good_name :: "bytes \<Rightarrow> bytes \<Rightarrow> bool" where
  "good_name k og \<longleftrightarrow>
     (let p = if og \<noteq> [] then og else k in
      p \<noteq> [] \<and> ValidHeaderName p \<and> unsafeMapCanonicalOriginalHeaders p = (k, og))"

definition fold_piece :: "bytes \<Rightarrow> bool" where
  "fold_piece p \<longleftrightarrow> p \<noteq> [] \<and> isws (hd p) \<and> \<not> list_all isws p"

definition good_pieces :: "bytes list \<Rightarrow> bool" where
  "good_pieces ps \<longleftrightarrow>
     (ps \<noteq> [] \<and> (hd ps = [] \<longrightarrow> tl ps = []) \<and> (hd ps \<noteq> [] \<longrightarrow> \<not> isws (hd (hd ps))) \<and> list_all fold_piece (tl ps))"

definition good_value :: "HeaderVal \<Rightarrow> bool" where
  "good_value x \<longleftrightarrow>
     TrimWSBytes (hV x) = hV x \<and> validHeaderContent (hV x) \<and> sum_list (map unat (hS x)) \<le> length (hV x) \<and>
     good_pieces (pieces (map unat (hS x)) (hV x))"

definition good_entry :: "bytes \<times> HeaderVal \<Rightarrow> bool" where
  "good_entry kx \<longleftrightarrow> good_name (fst kx) (hO (snd kx)) \<and> good_value (snd kx)"

lemma headerMap_fixed:
  assumes "headerMap x = Some h"
  shows "headerMap h = Some h" and "h \<noteq> []" and "ValidHeaderName h"
proof -
  let ?vs = "commonHeadersList @ map snd overrides"
  have "list_all (\<lambda>h. h \<noteq> [] \<and> ValidHeaderName h) commonHeadersList" by code_simp
  moreover have "list_all (\<lambda>h. h \<noteq> [] \<and> ValidHeaderName h) (map snd overrides)" by code_simp
  moreover have h: "h \<in> set ?vs"
    using map_of_SomeD [OF assms [unfolded headerMap_def]] by force
  ultimately show "h \<noteq> []" "ValidHeaderName h" by (auto simp: list_all_iff)
  have self: "map_of (map (\<lambda>v. (v, v)) xs @ ys) h = Some h" if "h \<in> set xs" for xs :: "bytes list" and ys
    using that by (induction xs) auto
  have eq: "map (\<lambda>v. (v, v)) commonHeadersList @ map (\<lambda>(k, v). (v, v)) overrides @ overrides
      = map (\<lambda>v. (v, v)) ?vs @ overrides" by (simp add: case_prod_beta comp_def)
  show "headerMap h = Some h" unfolding headerMap_def eq by (rule self [OF h])
qed

lemma good_name_map:
  assumes "n \<noteq> []" and "ValidHeaderName n" and "unsafeMapCanonicalOriginalHeaders n = (k, og)"
  shows "good_name k og"
proof -
  note f = headerMap_fixed [of n k] headerMap_fixed [of "canonicaliseSlice n" k]
  have "headerMap n = Some k \<and> og = [] \<or>
      headerMap n = None \<and> headerMap (canonicaliseSlice n) = Some k \<and> og = [] \<or>
      headerMap n = None \<and> canonicaliseSlice n = n \<and> k = n \<and> og = [] \<or> og = n"
    using assms(3) by (auto simp: unsafeMapCanonicalOriginalHeaders_def Let_def split: option.splits if_splits)
  then show ?thesis
    using f assms by (elim disjE conjE) (simp_all add: good_name_def unsafeMapCanonicalOriginalHeaders_def)
qed

subsection \<open>Trimming\<close>

definition rtrim :: "bytes \<Rightarrow> bytes" where
  "rtrim b = rev (dropWhile isws (rev b))"

lemma rtrim_split: "\<exists>w. b = rtrim b @ w \<and> list_all isws w"
proof -
  have "b = rtrim b @ rev (takeWhile isws (rev b))"
    unfolding rtrim_def by (metis rev_append rev_rev_ident takeWhile_dropWhile_id)
  then show ?thesis by (metis list_all_iff set_rev set_takeWhileD)
qed

lemma rtrim_append: "\<not> list_all isws b \<Longrightarrow> rtrim (a @ b) = a @ rtrim b"
  by (auto simp: rtrim_def list_all_iff dropWhile_append)

lemma Trim_nonws: "b = [] \<or> \<not> isws (hd b) \<Longrightarrow> TrimWSBytes b = rtrim b"
  by (cases b) (auto simp: TrimWSBytes_def rtrim_def)

lemma rtrim_idem: "rtrim (rtrim b) = rtrim b"
  by (simp add: rtrim_def)

lemma rtrim_hd: "\<not> isws (hd b) \<Longrightarrow> b \<noteq> [] \<Longrightarrow> rtrim b \<noteq> [] \<and> hd (rtrim b) = hd b"
  by (cases b) (auto simp: rtrim_def dropWhile_append list_all_iff)

lemma rtrim_fold_piece: "fold_piece p \<Longrightarrow> fold_piece (rtrim p)"
proof -
  assume a: "fold_piece p"
  obtain w where w: "p = rtrim p @ w" "list_all isws w" using rtrim_split by blast
  have "\<not> list_all isws (rtrim p)" using a w by (metis fold_piece_def list_all_append)
  then have "rtrim p \<noteq> []" by auto
  then have "hd p = hd (rtrim p)" using w(1) by (metis hd_append2)
  then show ?thesis using a \<open>\<not> list_all isws (rtrim p)\<close> \<open>rtrim p \<noteq> []\<close> by (simp add: fold_piece_def)
qed

lemma ws_no_rune:
  "isws c \<Longrightarrow> \<not> cont_byte c" "isws c \<Longrightarrow> \<not> 0xA0 \<le> c" "isws c \<Longrightarrow> \<not> 0x90 \<le> c" "isws c \<Longrightarrow> \<not> 0x80 \<le> c"
  by (auto simp: isws_def cont_byte_def)

lemma rune_size_ws:
  assumes "a \<noteq> []" and "list_all isws w" and "rune_size (a @ w) \<noteq> 0"
  shows "rune_size (a @ w) = rune_size a"
proof (cases w)
  case w: (Cons c w')
  note n = ws_no_rune [of c]
  have c: "isws c" using assms(2) w by simp
  consider x where "a = [x]" | x y where "a = [x, y]" | x y z where "a = [x, y, z]"
    | x y z v a' where "a = x # y # z # v # a'"
    using assms(1) by (metis list.exhaust)
  then show ?thesis
    by cases (use assms(3) n c w in \<open>auto split: if_splits list.splits\<close>)
qed simp

lemma utf8_valid_ws: "utf8_valid (a @ w) \<Longrightarrow> list_all isws w \<Longrightarrow> utf8_valid a"
proof (induction a rule: utf8_valid.induct)
  case (1 a)
  show ?case
  proof (cases "a = []")
    case False
    have "rune_size (a @ w) \<noteq> 0" "utf8_valid (drop (rune_size (a @ w)) (a @ w))"
      using 1(2) False by (subst (asm) utf8_valid.simps, simp split: if_splits)+
    then have "rune_size a \<noteq> 0" "utf8_valid (drop (rune_size a) a @ w)"
      using rune_size_ws [OF False 1(3)] rune_size_le [of a] by simp_all
    then show ?thesis using 1(1) 1(3) False by (subst utf8_valid.simps) simp
  qed (simp add: utf8_valid.simps)
qed

lemma validHeaderContent_rtrim: "validHeaderContent b \<Longrightarrow> validHeaderContent (rtrim b)"
proof -
  assume a: "validHeaderContent b"
  obtain w where w: "b = rtrim b @ w" "list_all isws w" using rtrim_split by blast
  have "list_ex P (rtrim b) \<Longrightarrow> list_ex P b" for P using w(1) by (metis list_ex_append)
  then show ?thesis using a utf8_valid_ws [of "rtrim b" w] w by (auto simp: validHeaderContent_def)
qed

subsection \<open>The states between lines\<close>

text \<open>
  Between lines the reader has either nothing in hand (\<open>idle\<close>), or the header whose lines it has read
  (\<open>held\<close>): the text \<open>pre\<close> in front of the content, the finished pieces \<open>ps\<close> of it and the last piece \<open>q\<close>.
\<close>

definition idle :: "HeaderList \<Rightarrow> hst \<Rightarrow> bool" where
  "idle L st \<longleftrightarrow> hh st = [] \<and> currHeader st = [] \<and> splits st = [] \<and> start st = 0 \<and> lastStart st = 0 \<and>
     \<not> currFrag st \<and> found st = L"

definition held :: "bytes \<Rightarrow> bytes \<Rightarrow> bytes \<Rightarrow> bytes list \<Rightarrow> bytes \<Rightarrow> HeaderList \<Rightarrow> hst" where
  "held pre k og ps q L = \<lparr>hh = pre @ concat ps @ q, currHeader = k, origHeader = og,
     splits = map (\<lambda>p. of_nat (length p)) ps, start = length pre + length (concat ps) + length q,
     contStart = length pre, lastStart = length pre + length (concat ps), currFrag = False, found = L\<rparr>"

definition value_of :: "bytes \<Rightarrow> bytes list \<Rightarrow> bytes \<Rightarrow> HeaderVal" where
  "value_of og ps q = \<lparr>hV = TrimWSBytes (concat ps @ q), hO = og, hS = map (\<lambda>p. of_nat (length p)) ps\<rparr>"

lemma finish_idle: "idle L st \<Longrightarrow> \<exists>st'. finishCurrent st = (None, st') \<and> idle L st'"
  by (simp add: idle_def finishCurrent_def)

lemma finish_held:
  "k \<noteq> [] \<Longrightarrow>
   (if validHeaderContent (concat ps @ q)
    then \<exists>st'. finishCurrent (held pre k og ps q L) = (None, st') \<and> idle (L @ [(k, value_of og ps q)]) st'
    else \<exists>e st'. finishCurrent (held pre k og ps q L) = (Some e, st') \<and> found st' = L)"
  by (simp add: held_def idle_def finishCurrent_def value_of_def)

definition no_nl :: "bytes \<Rightarrow> bool" where
  "no_nl p \<longleftrightarrow> LF \<notin> set p \<and> CR \<notin> set p"

lemma validHeaderContent_nl: "validHeaderContent b \<Longrightarrow> no_nl b"
  by (auto simp: validHeaderContent_def no_nl_def list_ex_iff)

text \<open>What a line adds to the header in hand.\<close>

lemma strip_cr_id: "no_nl x \<Longrightarrow> strip_cr x = x"
  using last_in_set by (fastforce simp: strip_cr_def no_nl_def)

lemma strip_cr_length: "length (strip_cr x) \<le> length x"
  by (simp add: strip_cr_def)

lemma strip_cr_ws: "x \<noteq> [] \<Longrightarrow> isws (hd x) \<Longrightarrow> strip_cr x \<noteq> [] \<and> isws (hd (strip_cr x))"
  by (cases x rule: rev_cases) (auto simp: strip_cr_def isws_def hd_append split: if_splits)

lemma take_strip_cr: "take (length (strip_cr x)) x = strip_cr x"
  by (simp add: strip_cr_def butlast_conv_take)

lemma hdr_line_held:
  assumes "k \<noteq> []" and "x = [] \<or> isws (hd x)"
  shows "hdr_line (held pre k og ps q L\<lparr>hh := hh (held pre k og ps q L) @ x\<rparr>) =
    (if x = [] then Inr None
     else if q = [] \<or> \<not> fold_piece (strip_cr x) then Inl errEmptyFold
     else Inr (Some (held pre k og (ps @ [q]) (strip_cr x) L)))"
proof (cases "x = []")
  case True
  then show ?thesis by (simp add: hdr_line_def held_def strip_cr_def)
next
  case False
  define y where "y = strip_cr x"
  have y: "y \<noteq> []" "isws (hd y)" "take (length y) x = y"
    using strip_cr_ws [of x] take_strip_cr [of x] assms(2) False by (auto simp: y_def)
  have ws: "dropWhile isws y = [] \<longleftrightarrow> \<not> fold_piece y"
    using y by (auto simp: fold_piece_def list_all_iff)
  show ?thesis
    using False assms(1) y ws
    unfolding y_def [symmetric] hdr_line_def held_def
    by (simp add: Let_def TrimLeftWSBytes_def hd_conv_nth flip: y_def)
qed

lemma canonicalise_length [simp]: "length (canonicalise_from u b) = length b"
  by (induction b arbitrary: u) auto

lemma unsafeMap_ne: "unsafeMapCanonicalOriginalHeaders n = (k, og) \<Longrightarrow> n \<noteq> [] \<Longrightarrow> k \<noteq> []"
proof -
  have "canonicaliseSlice n \<noteq> []" if "n \<noteq> []"
    using that canonicalise_length [of True n] by (metis canonicaliseSlice_def length_0_conv)
  then show "unsafeMapCanonicalOriginalHeaders n = (k, og) \<Longrightarrow> n \<noteq> [] \<Longrightarrow> k \<noteq> []"
    using headerMap_fixed(2) [of n k] headerMap_fixed(2) [of "canonicaliseSlice n" k]
    by (auto simp: unsafeMapCanonicalOriginalHeaders_def Let_def split: option.splits if_splits)
qed

lemma hdr_line_idle:
  fixes x
  assumes "idle L st"
  defines "y \<equiv> strip_cr x"
  shows "hdr_line (st\<lparr>hh := x\<rparr>) =
    (if y = [] then Inr None
     else if isws (hd y) then Inl errInvalidContinuation
     else
       (case index_byte y 58 of
          None \<Rightarrow> Inl errMissingColon
        | Some nn \<Rightarrow>
            let name = rtrim (take nn y) in
            if name = [] then Inl errEmptyHeaderName
            else if \<not> ValidHeaderName name then Inl (errInvalidHeaderName name)
            else
              let (k, og) = unsafeMapCanonicalOriginalHeaders name;
                  n = nn + 1 + length (takeWhile isws (drop (nn + 1) y))
              in Inr (Some (held (take n y) k og [] (drop n y) L))))"
proof -
  have y: "take (length y) x = y" "strip_cr x = y"
    using take_strip_cr [of x] by (simp_all add: y_def)
  have n: "min (length y) (nn + 1 + length (takeWhile isws (drop (nn + 1) y)))
      = nn + 1 + length (takeWhile isws (drop (nn + 1) y))" if "index_byte y 58 = Some nn" for nn
    using index_byte_Some [OF that] length_takeWhile_le [of isws "drop (nn + 1) y"]
    by (auto simp: min_def)
  have st: "start st = 0" "currHeader st = []" "lastStart st = 0" "splits st = []" "\<not> currFrag st" "found st = L"
    using assms(1) by (simp_all add: idle_def)
  have hd: "y ! 0 = hd y" if "y \<noteq> []" using that by (simp add: hd_conv_nth)
  have h: "hdr_line (st\<lparr>hh := x\<rparr>) =
     (if y = [] then Inr None
      else if isws (hd y) then Inl errInvalidContinuation
      else (case index_byte y 58 of
              None \<Rightarrow> Inl errMissingColon
            | Some nn \<Rightarrow>
                let name = rtrim (take nn y) in
                if name = [] then Inl errEmptyHeaderName
                else if \<not> ValidHeaderName name then Inl (errInvalidHeaderName name)
                else let (k, og) = unsafeMapCanonicalOriginalHeaders name;
                         n = nn + 1 + length (takeWhile isws (drop (nn + 1) y))
                  in Inr (Some (st\<lparr>hh := y, currHeader := k, origHeader := og, contStart := n, lastStart := n,
                                   start := length y\<rparr>))))"
    unfolding hdr_line_def rtrim_def [symmetric]
    using hd by (cases "y = []") (simp_all add: Let_def st y split: option.split)
  have e: "st\<lparr>hh := y, currHeader := k, origHeader := og, contStart := n, lastStart := n, start := length y\<rparr>
      = held (take n y) k og [] (drop n y) L" if "n \<le> length y" for k og n
    using that st by (simp add: held_def)
  have le: "nn + 1 + length (takeWhile isws (drop (nn + 1) y)) \<le> length y" if "index_byte y 58 = Some nn" for nn
    using n [OF that] by linarith
  show ?thesis
    unfolding h using e [OF le] by (simp add: Let_def case_prod_beta split: option.split)
qed

lemma hdr_line_idle_ok:
  assumes "idle L st" and "hdr_line (st\<lparr>hh := x\<rparr>) = Inr (Some st')"
  shows "\<exists>pre k og q. st' = held pre k og [] q L \<and> good_name k og \<and> k \<noteq> [] \<and> strip_cr x = pre @ q \<and>
    (q = [] \<or> \<not> isws (hd q))"
proof -
  define y where "y = strip_cr x"
  obtain nn where nn: "index_byte y 58 = Some nn" "rtrim (take nn y) \<noteq> []" "ValidHeaderName (rtrim (take nn y))"
    and s: "(let (k, og) = unsafeMapCanonicalOriginalHeaders (rtrim (take nn y));
              n = nn + 1 + length (takeWhile isws (drop (nn + 1) y))
          in held (take n y) k og [] (drop n y) L) = st'"
    using assms(2) unfolding hdr_line_idle [OF assms(1)] y_def [symmetric]
    by (auto simp: Let_def case_prod_beta split: if_splits option.splits)
  obtain k og where k: "unsafeMapCanonicalOriginalHeaders (rtrim (take nn y)) = (k, og)" by force
  define n where "n = nn + 1 + length (takeWhile isws (drop (nn + 1) y))"
  have "drop n y = dropWhile isws (drop (nn + 1) y)"
    by (simp add: n_def dropWhile_eq_drop add.commute)
  then have "drop n y = [] \<or> \<not> isws (hd (drop n y))" using hd_dropWhile by metis
  moreover have "st' = held (take n y) k og [] (drop n y) L" using s k by (simp add: n_def Let_def)
  ultimately show ?thesis
    using good_name_map [OF nn(2,3) k] unsafeMap_ne [OF k nn(2)] by (metis append_take_drop_id y_def)
qed

subsection \<open>Everything the reader finds is good\<close>

lemma pieces_concat: "pieces (map length ps) (concat ps @ q) = ps @ [q]"
  by (induction ps) auto

lemma unat_lengths:
  "length (concat ps) < 2 ^ 32 \<Longrightarrow> map (unat \<circ> (\<lambda>p. of_nat (length p) :: u32)) ps = map length ps"
proof (induction ps)
  case (Cons p ps)
  then show ?case by (simp add: unsigned_of_nat take_bit_nat_eq_self)
qed simp

lemma good_pieces_snoc:
  "good_pieces (ps @ [q]) \<Longrightarrow> q \<noteq> [] \<Longrightarrow> fold_piece y \<Longrightarrow> good_pieces ((ps @ [q]) @ [y])"
  by (cases ps) (auto simp: good_pieces_def)

lemma good_pieces_rtrim: "good_pieces (ps @ [q]) \<Longrightarrow> good_pieces (ps @ [rtrim q])"
  using rtrim_fold_piece rtrim_hd [of q]
  by (cases ps; cases "q = []") (auto simp: good_pieces_def rtrim_def)

lemma Trim_pieces: "good_pieces (ps @ [q]) \<Longrightarrow> TrimWSBytes (concat ps @ q) = concat ps @ rtrim q"
proof (cases ps)
  case Nil
  then show "good_pieces (ps @ [q]) \<Longrightarrow> ?thesis" by (auto simp: good_pieces_def intro: Trim_nonws)
next
  case (Cons p ps')
  assume "good_pieces (ps @ [q])"
  then have p: "p \<noteq> []" "\<not> isws (hd p)" and q: "fold_piece q" by (auto simp: good_pieces_def Cons)
  then have "\<not> isws (hd (concat ps @ q))" by (simp add: Cons)
  then have "TrimWSBytes (concat ps @ q) = rtrim (concat ps @ q)" using Trim_nonws by blast
  also have "\<dots> = concat ps @ rtrim q" using q by (intro rtrim_append) (simp add: fold_piece_def)
  finally show ?thesis .
qed

lemma good_value_of:
  assumes "good_pieces (ps @ [q])" and "validHeaderContent (concat ps @ q)" and "length (concat ps) < 2 ^ 32"
  shows "good_value (value_of og ps q)"
proof -
  have t: "TrimWSBytes (concat ps @ q) = concat ps @ rtrim q" by (rule Trim_pieces [OF assms(1)])
  have r: "good_pieces (ps @ [rtrim q])" by (rule good_pieces_rtrim [OF assms(1)])
  have tt: "TrimWSBytes (concat ps @ rtrim q) = concat ps @ rtrim q"
    using Trim_pieces [OF r] by (simp add: rtrim_idem)
  have "validHeaderContent (concat ps @ rtrim q)"
  proof (cases ps)
    case Nil
    then show ?thesis using assms(2) validHeaderContent_rtrim by simp
  next
    case (Cons p ps')
    then have "\<not> list_all isws q" using assms(1) by (auto simp: good_pieces_def fold_piece_def)
    then show ?thesis using validHeaderContent_rtrim [OF assms(2)] by (simp add: rtrim_append)
  qed
  moreover have "sum_list (map length ps) \<le> length (concat ps @ rtrim q)" by (simp add: length_concat)
  ultimately show ?thesis
    using r tt unat_lengths [OF assms(3)]
    by (simp add: good_value_def value_of_def t pieces_concat del: map_eq_conv)
qed

definition hinv :: "HeaderList \<Rightarrow> hst \<Rightarrow> bool" where
  "hinv L st \<longleftrightarrow> list_all good_entry L \<and>
     (idle L st \<or> (\<exists>pre k og ps q. st = held pre k og ps q L \<and> good_name k og \<and> k \<noteq> [] \<and> good_pieces (ps @ [q])))"

lemma hinv_held:
  "list_all good_entry L \<Longrightarrow> good_name k og \<Longrightarrow> k \<noteq> [] \<Longrightarrow> good_pieces (ps @ [q]) \<Longrightarrow> hinv L (held pre k og ps q L)"
  unfolding hinv_def by blast

lemma hinv_found: "hinv L st \<Longrightarrow> found st = L \<and> list_all good_entry L \<and> \<not> currFrag st"
  by (auto simp: hinv_def idle_def held_def)

lemma hinv_finish:
  assumes "hinv L st" and "length (hh st) < 2 ^ 32" and "finishCurrent st = (e, st')"
  shows "list_all good_entry (found st') \<and> (e = None \<longrightarrow> idle (found st') st' \<and> hinv (found st') st')"
  using assms(1) [unfolded hinv_def]
proof (elim conjE disjE exE)
  assume "list_all good_entry L" "idle L st"
  then show ?thesis using finish_idle [of L st] assms(3) by (auto simp: hinv_def idle_def)
next
  fix pre k og ps q
  assume L: "list_all good_entry L" and h: "st = held pre k og ps q L" "good_name k og" "k \<noteq> []" "good_pieces (ps @ [q])"
  have len: "length (concat ps) < 2 ^ 32" using assms(2) by (simp add: h held_def)
  show ?thesis
  proof (cases "validHeaderContent (concat ps @ q)")
    case True
    have g: "good_value (value_of og ps q)" by (rule good_value_of [OF h(4) True len])
    then have "good_entry (k, value_of og ps q)" using h by (simp add: good_entry_def value_of_def)
    moreover have "e = None \<and> idle (L @ [(k, value_of og ps q)]) st'"
      using finish_held [OF h(3), of ps q pre og L] True assms(3) by (auto simp: h)
    ultimately show ?thesis using L by (auto simp: hinv_def idle_def)
  next
    case False
    then show ?thesis using finish_held [OF h(3), of ps q pre og L] assms(3) L by (auto simp: h)
  qed
qed

text \<open>A complete line, from a state with the finished header put away or with it in hand.\<close>

lemma hinv_line:
  assumes "hinv L st" and "x = [] \<or> isws (hd x) \<or> idle L st" and "hdr_line (st\<lparr>hh := hh st @ x\<rparr>) = Inr (Some st')"
  shows "hinv L st' \<and> length (hh st') \<le> length (hh st) + length x"
proof (cases "idle L st")
  case True
  then have "hh st = []" by (simp add: idle_def)
  then obtain pre k og q where "st' = held pre k og [] q L" "good_name k og" "k \<noteq> []" "strip_cr x = pre @ q"
    "q = [] \<or> \<not> isws (hd q)"
    using hdr_line_idle_ok [OF True, of x st'] assms(3) by (metis append_Nil)
  moreover have "length (strip_cr x) \<le> length x" by (rule strip_cr_length)
  ultimately show ?thesis
    using assms(1) \<open>hh st = []\<close> by (fastforce simp: hinv_def good_pieces_def held_def)
next
  case False
  then obtain pre k og ps q where h: "st = held pre k og ps q L" "good_name k og" "k \<noteq> []" "good_pieces (ps @ [q])"
    using assms(1) by (auto simp: hinv_def)
  have "x = [] \<or> isws (hd x)" using assms(2) False by simp
  then have s: "q \<noteq> []" "fold_piece (strip_cr x)" "st' = held pre k og (ps @ [q]) (strip_cr x) L"
    using hdr_line_held [OF h(3), of x pre og ps q L] assms(3) by (auto simp: h(1) split: if_splits)
  have "hinv L st'"
    unfolding s(3) using hinv_held [OF _ h(2,3) good_pieces_snoc [OF h(4) s(1,2)]] hinv_found [OF assms(1)] by blast
  then show ?thesis using strip_cr_length [of x] by (simp add: s h held_def)
qed

lemma hinv_done:
  assumes "hinv L st" and "length (hh st) < 2 ^ 32" and "x = [] \<or> isws (hd x) \<or> idle L st"
    and "hdr_line (st\<lparr>hh := hh st @ x\<rparr>) = Inr None"
  shows "list_all good_entry (found (snd (finishCurrent (st\<lparr>hh := hh st @ x\<rparr>))))"
proof (cases "idle L st")
  case True
  then show ?thesis using assms(1) by (simp add: idle_def hinv_def finishCurrent_def)
next
  case False
  then obtain pre k og ps q where h: "st = held pre k og ps q L" "k \<noteq> []"
    using assms(1) by (auto simp: hinv_def)
  have "x = []"
    using hdr_line_held [OF h(2), of x pre og ps q L] assms(3,4) False by (auto simp: h(1) split: if_splits)
  then show ?thesis
    using hinv_finish [OF assms(1,2), of "fst (finishCurrent st)" "snd (finishCurrent st)"] by simp
qed

lemma good_found:
  "hinv L st \<Longrightarrow> length (hh st) + length c < 2 ^ 32 \<Longrightarrow> list_all good_entry (fst (fst (spec_of e (hdr_chunk st c))))"
proof (induction c arbitrary: L st rule: length_induct)
  case (1 c)
  note nf = hinv_found [OF 1(2)]
  have open_ok: "list_all good_entry (found st1) \<and>
      (e1 = None \<longrightarrow> hinv (found st1) st1 \<and> length (hh st1) \<le> length (hh st) \<and>
         (x = [] \<or> isws (hd x) \<or> idle (found st1) st1))"
    if "open_line x st = (e1, st1)" for x e1 st1
    using that hinv_finish [OF 1(2), of e1 st1] 1(2,3) nf
    by (auto simp: open_line_def idle_def split: if_splits)
  show ?case
  proof (cases "LF \<in> set c")
    case True
    then obtain x b where c: "c = x @ LF # b" "LF \<notin> set x" by (metis split_list_first)
    obtain e1 st1 where o: "open_line x st = (e1, st1)" by force
    note ok = open_ok [OF o]
    show ?thesis
    proof (cases e1)
      case (Some y)
      then show ?thesis using ok by (simp add: c hdr_chunk_line o)
    next
      case None
      have "\<not> currFrag st1" using ok None hinv_found by blast
      then have f: "st1\<lparr>currFrag := False, hh := y\<rparr> = st1\<lparr>hh := y\<rparr>" for y by (cases st1) simp
      show ?thesis
      proof (cases "hdr_line (st1\<lparr>hh := hh st1 @ x\<rparr>)")
        case (Inl y)
        then show ?thesis using ok None by (simp add: c hdr_chunk_line o end_line_def f)
      next
        case (Inr r)
        show ?thesis
        proof (cases r)
          case r: None
          have "list_all good_entry (found (snd (finishCurrent (st1\<lparr>hh := hh st1 @ x\<rparr>))))"
            by (rule hinv_done) (use ok None Inr r 1(3) c in auto)
          then show ?thesis using None Inr r
            by (auto simp: c hdr_chunk_line o end_line_def f split: prod.splits)
        next
          case (Some st')
          have l: "hinv (found st1) st' \<and> length (hh st') \<le> length (hh st1) + length x"
            by (rule hinv_line) (use ok None Inr Some in auto)
          have "list_all good_entry (fst (fst (spec_of e (hdr_chunk st' b))))"
            using 1(1) l ok None 1(3) by (auto simp: c)
          then show ?thesis using None Inr Some by (simp add: c hdr_chunk_line o end_line_def f)
        qed
      qed
    qed
  next
    case False
    obtain e1 st1 where o: "open_line c st = (e1, st1)" by force
    show ?thesis
      using nf open_ok [OF o] False by (cases "c = []") (auto simp: hdr_chunk_part o split: option.split)
  qed
qed

lemma hinv_hst0: "hinv [] hst0"
  by (simp add: hinv_def idle_def hst0_def)

subsection \<open>What is written\<close>

definition entry_text :: "bytes \<times> HeaderVal \<Rightarrow> bytes" where
  "entry_text kx = printed_name (fst kx) (snd kx) @ [58, SP] @
     concat (map (\<lambda>p. p @ [LF]) (pieces (map unat (hS (snd kx))) (hV (snd kx))))"

definition list_text :: "HeaderList \<Rightarrow> bytes" where
  "list_text l = concat (map entry_text l)"

text \<open>
  \<open>wrote f s t w r\<close>: a write that succeeds has appended \<open>t\<close>; if \<open>s\<close> holds there is no panic, and if \<open>f\<close> holds
  no error from a writer without a bound.
\<close>

definition wrote :: "bool \<Rightarrow> bool \<Rightarrow> bytes \<Rightarrow> writer \<Rightarrow> wres \<Rightarrow> bool" where
  "wrote f s t w r \<longleftrightarrow>
     (case r of
        None \<Rightarrow> \<not> s
      | Some (None, w') \<Rightarrow> wout w' = wout w @ t \<and> (wroom w = None \<longrightarrow> wroom w' = None)
      | Some (Some e, w') \<Rightarrow> \<not> f \<or> wroom w \<noteq> None)"

lemma wrote_None [simp]: "wrote f s [] w (Some (None, w))"
  by (simp add: wrote_def)

lemma wrote_too_long [simp]: "\<not> f \<Longrightarrow> wrote f s t w (Some (Some e, w'))"
  by (simp add: wrote_def)

lemma wrote_put:
  assumes "\<And>w. wrote f s t w (k w)" and "u = p @ t"
  shows "wrote f s u w (put p w k)"
proof -
  obtain n e w1 where u: "uwrite p w = (n, e, w1)" by (metis prod_cases3)
  have r: "wroom w = None \<longrightarrow> e = None \<and> wroom w1 = None"
    using u by (auto simp: uwrite_def)
  show ?thesis
  proof (cases e)
    case None
    then have "wout w1 = wout w @ p" using uwrite_wout [OF u] uwrite_all [of p w n w1] u by simp
    then show ?thesis using assms(1) [of w1] None r
      by (auto simp: put_def u wrote_def assms(2) split: option.splits prod.splits)
  qed (use r in \<open>auto simp: put_def u wrote_def\<close>)
qed

lemma wrote_and_then:
  assumes "wrote f s t w r" and "\<And>w. wrote f s u w (k w)"
  shows "wrote f s (t @ u) w (and_then r k)"
proof (cases r)
  case (Some p)
  obtain e w' where p: "p = (e, w')" by force
  show ?thesis
    using assms(1) assms(2) [of w'] by (cases e) (auto simp: Some p wrote_def and_then_def split: option.splits)
qed (use assms(1) in \<open>simp add: wrote_def and_then_def\<close>)

lemma write_folds_wrote:
  "l \<le> length v \<Longrightarrow> s \<longrightarrow> l + sum_list (map unat ss) \<le> length v \<Longrightarrow>
   wrote f s (concat (map (\<lambda>p. p @ [LF]) (pieces (map unat ss) (drop l v)))) w (write_folds f v l ss w)"
proof (induction ss arbitrary: l w)
  case Nil
  show ?case by (auto intro: wrote_put [where t = "[]"])
next
  case (Cons x ss)
  show ?case
  proof (cases "l + unat x > length v")
    case True
    then show ?thesis using Cons.prems by (auto simp: Let_def wrote_def)
  next
    case False
    have "wrote f s (concat (map (\<lambda>p. p @ [LF]) (pieces (map unat ss) (drop (l + unat x) v)))) w
        (write_folds f v (l + unat x) ss w)" for w
      by (intro Cons.IH) (use Cons.prems False in auto)
    then show ?thesis
      using False by (auto simp: Let_def add.commute intro!: wrote_put)
  qed
qed

lemma writeHeaderLine_wrote:
  assumes "s \<longrightarrow> sum_list (map unat (hS x)) \<le> length (hV x)"
  shows "wrote f s (entry_text (k, x)) w (writeHeaderLine (printed_name k x) (hV x) (hS x) f w)"
proof (cases "hS x")
  case Nil
  then show ?thesis
    by (auto simp: writeHeaderLine_def entry_text_def intro!: wrote_put [where t = "[]"])
next
  case (Cons s0 ss)
  show ?thesis
  proof (cases "unat s0 > length (hV x)")
    case True
    then show ?thesis using assms by (auto simp: writeHeaderLine_def Cons Let_def wrote_def)
  next
    case False
    then have "wrote f s (concat (map (\<lambda>p. p @ [LF]) (pieces (map unat ss) (drop (unat s0) (hV x))))) w
        (write_folds f (hV x) (unat s0) ss w)" for w
      using assms by (intro write_folds_wrote) (auto simp: Cons)
    then show ?thesis
      using False by (auto simp: writeHeaderLine_def Cons Let_def entry_text_def intro!: wrote_put)
  qed
qed

lemma WriteHeaderList_wrote:
  "s \<longrightarrow> list_all (\<lambda>kx. sum_list (map unat (hS (snd kx))) \<le> length (hV (snd kx))) l \<Longrightarrow>
   wrote f s (list_text l) w (WriteHeaderList l f w)"
proof (induction l arbitrary: w)
  case (Cons kx l)
  then show ?case
    by (cases kx) (auto simp: list_text_def intro!: wrote_and_then writeHeaderLine_wrote)
qed (simp add: list_text_def)

lemma WriteHeaderList_good:
  assumes "list_all good_entry l"
  shows "WriteHeaderList l f w \<noteq> None" and
    "wroom w = None \<Longrightarrow> \<exists>w'. WriteHeaderList l True w = Some (None, w') \<and> wout w' = wout w @ list_text l"
proof -
  have w: "wrote f True (list_text l) w (WriteHeaderList l f w)" for f
    using assms by (intro WriteHeaderList_wrote) (auto simp: good_entry_def good_value_def list_all_iff)
  show "WriteHeaderList l f w \<noteq> None" using w [of f] by (cases "WriteHeaderList l f w") (simp_all add: wrote_def)
  show "\<exists>w'. WriteHeaderList l True w = Some (None, w') \<and> wout w' = wout w @ list_text l" if "wroom w = None"
    using w [of True] that by (auto simp: wrote_def split: option.splits)
qed

subsection \<open>Reading it back\<close>

definition ready :: "HeaderList \<Rightarrow> hst \<Rightarrow> bool" where
  "ready L st \<longleftrightarrow> idle L st \<or> (\<exists>pre k og ps q L0. st = held pre k og ps q L0 \<and> k \<noteq> [] \<and>
     validHeaderContent (concat ps @ q) \<and> L = L0 @ [(k, value_of og ps q)])"

lemma ready_held:
  "k \<noteq> [] \<Longrightarrow> validHeaderContent (concat ps @ q) \<Longrightarrow> ready (L @ [(k, value_of og ps q)]) (held pre k og ps q L)"
  unfolding ready_def by blast

lemma ready_finish: "ready L st \<Longrightarrow> \<exists>st'. finishCurrent st = (None, st') \<and> idle L st'"
  unfolding ready_def using finish_idle finish_held by fastforce

lemma ready_frag: "ready L st \<Longrightarrow> \<not> currFrag st"
  by (auto simp: ready_def idle_def held_def)

lemma ready_end:
  assumes "ready L st"
  shows "head_spec st (LF # b, e) = ((L, None), b)"
proof -
  have "hdr_line (st\<lparr>hh := hh st @ []\<rparr>) = Inr None"
    using assms [unfolded ready_def]
  proof (elim disjE exE conjE)
    assume "idle L st"
    then show ?thesis using hdr_line_idle [of L st "[]"] by (simp add: strip_cr_def idle_def)
  next
    fix pre k og ps q L0
    assume "st = held pre k og ps q L0" "k \<noteq> []"
    then show ?thesis using hdr_line_held [of k "[]" pre og ps q L0] by simp
  qed
  moreover have "st\<lparr>currFrag := False, hh := hh st @ []\<rparr> = st" using ready_frag [OF assms] by (cases st) simp
  ultimately have "hdr_chunk st ([] @ LF # b) = HDone st b"
    by (subst hdr_chunk_line) (simp_all add: open_line_def end_line_def)
  then show ?thesis using ready_finish [OF assms] by (auto simp: head_spec_def idle_def)
qed

lemma read_fold:
  assumes "k \<noteq> []" and "q \<noteq> []" and "fold_piece x" and "no_nl x"
  shows "hdr_chunk (held pre k og ps q L) (x @ LF # b) = hdr_chunk (held pre k og (ps @ [q]) x L) b"
proof -
  have x: "x \<noteq> []" "isws (hd x)" "LF \<notin> set x" using assms(3,4) by (auto simp: fold_piece_def no_nl_def)
  let ?st = "held pre k og ps q L"
  have f: "?st\<lparr>currFrag := False, hh := hh ?st @ x\<rparr> = ?st\<lparr>hh := hh ?st @ x\<rparr>" by (simp add: held_def)
  show ?thesis
    using x hdr_line_held [OF assms(1), of x pre og ps q L] assms
    by (simp add: hdr_chunk_line open_line_def end_line_def f strip_cr_id)
qed

lemma read_folds:
  assumes "k \<noteq> []" and "list_all fold_piece rs" and "list_all no_nl rs" and "rs \<noteq> [] \<longrightarrow> q \<noteq> []"
  shows "hdr_chunk (held pre k og ps q L) (concat (map (\<lambda>p. p @ [LF]) rs) @ b)
    = hdr_chunk (held pre k og (ps @ butlast (q # rs)) (last (q # rs)) L) b"
  using assms(2-4)
proof (induction rs arbitrary: ps q)
  case (Cons r rs)
  then have "hdr_chunk (held pre k og (ps @ [q]) r L) (concat (map (\<lambda>p. p @ [LF]) rs) @ b)
      = hdr_chunk (held pre k og ((ps @ [q]) @ butlast (r # rs)) (last (r # rs)) L) b"
    by (intro Cons.IH) (auto simp: fold_piece_def)
  then show ?case using read_fold [OF assms(1), of q r pre og ps L] Cons.prems by simp
qed simp

lemma concat_pieces: "concat (pieces ns v) = v"
  by (induction ns v rule: pieces.induct) auto

lemma pieces_Cons: "\<exists>p rs. pieces ns v = p # rs"
  by (cases ns) auto

lemma pieces_lengths: "sum_list ns \<le> length v \<Longrightarrow> map length (butlast (pieces ns v)) = ns"
proof (induction ns v rule: pieces.induct)
  case (2 n ns v)
  then show ?case using pieces_Cons [of ns "drop n v"] by auto
qed simp

lemma ValidHeaderName_chars: "ValidHeaderName n \<Longrightarrow> c \<in> set n \<Longrightarrow> \<not> isws c \<and> c \<noteq> 58 \<and> c \<noteq> LF \<and> c \<noteq> CR"
  by (auto simp: ValidHeaderName_def IsPrintableASCIISlice_def list_ex_iff isws_def)

lemma rtrim_id: "\<forall>c\<in>set b. \<not> isws c \<Longrightarrow> rtrim b = b"
  by (cases b rule: rev_cases) (auto simp: rtrim_def)

lemma read_header:
  assumes "ready L st" and "good_name k og" and "k \<noteq> []" and "no_nl q" and "q = [] \<or> \<not> isws (hd q)"
  defines "n \<equiv> (if og \<noteq> [] then og else k)"
  shows "hdr_chunk st (n @ [58, SP] @ q @ LF # b) = hdr_chunk (held (n @ [58, SP]) k og [] q L) b"
proof -
  have n: "n \<noteq> []" "ValidHeaderName n" "unsafeMapCanonicalOriginalHeaders n = (k, og)"
    using assms(2) by (auto simp: good_name_def n_def Let_def)
  note ch = ValidHeaderName_chars [OF n(2)]
  let ?x = "n @ [58, SP] @ q"
  have x: "no_nl ?x" "?x \<noteq> []" "\<not> isws (hd ?x)" using ch n(1) assms(4) by (auto simp: no_nl_def)
  obtain st1 where o: "open_line ?x st = (None, st1)" and i: "idle L st1"
    using ready_finish [OF assms(1)] ready_frag [OF assms(1)] x by (auto simp: open_line_def)
  have f: "st1\<lparr>currFrag := False, hh := hh st1 @ ?x\<rparr> = st1\<lparr>hh := ?x\<rparr>"
    using i by (cases st1) (simp add: idle_def)
  have ix: "index_byte ?x 58 = Some (length n)" using index_byte_at [of 58 n "SP # q"] ch by auto
  have tw: "takeWhile isws (SP # q) = [SP]" using assms(5) by (cases q) (auto simp: isws_def)
  have "hdr_line (st1\<lparr>hh := ?x\<rparr>) = Inr (Some (held (n @ [58, SP]) k og [] q L))"
    unfolding hdr_line_idle [OF i] strip_cr_id [OF x(1)] ix
    using x n tw rtrim_id [of n] ch by (simp add: Let_def)
  then have "hdr_chunk st (?x @ LF # b) = hdr_chunk (held (n @ [58, SP]) k og [] q L) b"
    using x(1) o f by (subst hdr_chunk_line) (auto simp: no_nl_def end_line_def)
  then show ?thesis by simp
qed

lemma ready_entry:
  assumes "ready L st" and "good_entry kx"
  shows "\<exists>st'. (\<forall>b. hdr_chunk st (entry_text kx @ b) = hdr_chunk st' b) \<and> ready (L @ [kx]) st'"
proof -
  obtain k x where kx: "kx = (k, x)" by force
  have g: "good_name k (hO x)" "good_value x" using assms(2) by (simp_all add: good_entry_def kx)
  have k: "k \<noteq> []" using g(1) unsafeMap_ne by (fastforce simp: good_name_def Let_def split: if_splits)
  obtain p rs where ps: "pieces (map unat (hS x)) (hV x) = p # rs" using pieces_Cons by blast
  have v: "concat (p # rs) = hV x" using concat_pieces [of "map unat (hS x)" "hV x"] ps by simp
  have nl: "list_all no_nl (p # rs)"
    using validHeaderContent_nl [of "hV x"] g(2) by (auto simp: good_value_def no_nl_def list_all_iff simp flip: v)
  have gp: "good_pieces (p # rs)" using g(2) by (simp add: good_value_def ps)
  let ?n = "printed_name k x"
  let ?st' = "held (?n @ [58, SP]) k (hO x) (butlast (p # rs)) (last (p # rs)) L"
  have "hdr_chunk st (entry_text kx @ b) = hdr_chunk ?st' b" for b
  proof -
    have "hdr_chunk st (entry_text kx @ b)
        = hdr_chunk (held (?n @ [58, SP]) k (hO x) [] p L) (concat (map (\<lambda>p. p @ [LF]) rs) @ b)"
      using read_header [OF assms(1) g(1) k, of p] nl gp
      by (auto simp: entry_text_def kx ps printed_name_def good_pieces_def)
    also have "\<dots> = hdr_chunk ?st' b"
      using read_folds [OF k, of rs p _ _ "[]"] nl gp by (auto simp: good_pieces_def)
    finally show ?thesis .
  qed
  moreover have "ready (L @ [kx]) ?st'"
  proof -
    have c: "concat (butlast (p # rs)) @ last (p # rs) = hV x"
      using v arg_cong [OF append_butlast_last_id [of "p # rs"], of concat] by simp
    have "map length (butlast (p # rs)) = map unat (hS x)"
      using pieces_lengths [of "map unat (hS x)" "hV x"] g(2) by (simp only: good_value_def ps)
    then have "map (of_nat :: nat \<Rightarrow> u32) (map length (butlast (p # rs))) = map of_nat (map unat (hS x))"
      by (rule arg_cong)
    also have "\<dots> = hS x" by (induction "hS x") (simp_all add: map_idI)
    finally have s: "map (\<lambda>p. of_nat (length p)) (butlast (p # rs)) = hS x" unfolding map_map comp_def .
    have "value_of (hO x) (butlast (p # rs)) (last (p # rs)) = x"
      using g(2) by (simp only: value_of_def c s) (simp add: good_value_def)
    moreover have "validHeaderContent (concat (butlast (p # rs)) @ last (p # rs))"
      using g(2) by (simp only: c good_value_def)
    ultimately show ?thesis using ready_held [OF k, of "butlast (p # rs)" "last (p # rs)" L "hO x"] by (simp only: kx)
  qed
  ultimately show ?thesis by blast
qed

lemma ready_list:
  "ready L st \<Longrightarrow> list_all good_entry l \<Longrightarrow>
   \<exists>st'. (\<forall>b. hdr_chunk st (list_text l @ b) = hdr_chunk st' b) \<and> ready (L @ l) st'"
proof (induction l arbitrary: L st)
  case (Cons kx l)
  obtain st1 where 1: "\<forall>b. hdr_chunk st (entry_text kx @ b) = hdr_chunk st1 b" "ready (L @ [kx]) st1"
    using ready_entry [of L st kx] Cons.prems by auto
  obtain st2 where "\<forall>b. hdr_chunk st1 (list_text l @ b) = hdr_chunk st2 b" "ready ((L @ [kx]) @ l) st2"
    using Cons.IH [OF 1(2)] Cons.prems by auto
  then show ?case using 1(1) by (auto simp: list_text_def)
qed (auto simp: list_text_def)

lemma read_list:
  assumes "list_all good_entry l"
  shows "head_spec hst0 (list_text l @ LF # b, e) = ((l, None), b)"
proof -
  have "ready [] hst0" by (simp add: ready_def idle_def hst0_def)
  then obtain st where "\<forall>b. hdr_chunk hst0 (list_text l @ b) = hdr_chunk st b" "ready l st"
    using ready_list [of "[]" hst0 l] assms by auto
  then show ?thesis using ready_end [of l st b e] by (simp add: head_spec_def)
qed

subsection \<open>Maps\<close>

lemma entries_add: "entries (add_value kx hm) h = entries hm h @ (if fst kx = h then [snd kx] else [])"
  by (simp add: entries_def add_value_def update_conv' split: option.split)

lemma entries_fold: "entries (fold add_value l hm) h = entries hm h @ map snd (filter (\<lambda>kx. fst kx = h) l)"
  by (induction l arbitrary: hm) (simp_all add: entries_add)

lemma entries_ToHeaderMap: "entries (ToHeaderMap l) h = map snd (filter (\<lambda>kx. fst kx = h) l)"
  by (simp add: ToHeaderMap_def entries_fold) (simp add: entries_def)

lemma distinct_ToHeaderMap: "distinct (map fst (ToHeaderMap l))"
proof -
  have "distinct (map fst hm) \<Longrightarrow> distinct (map fst (fold add_value l hm))" for hm
    by (induction l arbitrary: hm) (simp_all add: add_value_def distinct_update)
  then show ?thesis by (simp add: ToHeaderMap_def)
qed

definition good_map :: "HeaderMap \<Rightarrow> bool" where
  "good_map hm \<longleftrightarrow> distinct (map fst hm) \<and> (\<forall>k. \<forall>x\<in>set (entries hm k). good_entry (k, x))"

lemma good_ToHeaderMap: "list_all good_entry l \<Longrightarrow> good_map (ToHeaderMap l)"
  by (auto simp: good_map_def distinct_ToHeaderMap entries_ToHeaderMap list_all_iff)

lemma entries_dom: "entries hm h \<noteq> [] \<Longrightarrow> h \<in> set (map fst hm)"
  by (auto simp: entries_def split: option.splits dest!: map_of_SomeD intro: rev_image_eqI)

lemma visited_all:
  assumes "distinct (map fst hm)" and "distinct HO"
  shows "distinct (visited HO hm) \<and> (\<forall>h. entries hm h \<noteq> [] \<longrightarrow> h \<in> set (visited HO hm))"
proof -
  define known where "known = filter (\<lambda>h. length (entries hm h) \<noteq> 0) HO"
  have k: "distinct known" "set known \<subseteq> set (map fst hm)"
    using assms(2) entries_dom by (auto simp: known_def)
  show ?thesis
  proof (cases "length hm \<le> length known")
    case True
    have "card (set (map fst hm)) \<le> card (set known)"
      using True distinct_card [OF k(1)] distinct_card [OF assms(1)] by simp
    then have "set known = set (map fst hm)" using k(2) by (intro card_seteq) auto
    then show ?thesis using k(1) True entries_dom by (auto simp: visited_def known_def Let_def)
  next
    case False
    then show ?thesis using assms k(1) entries_dom [of hm]
      by (auto simp: visited_def Let_def known_def distinct_filter)
  qed
qed

lemma entries_toHeaderList:
  assumes "distinct (map fst hm)" and "distinct HO"
  shows "entries (ToHeaderMap (toHeaderList HO hm)) h = entries hm h"
proof -
  have e: "map snd (filter (\<lambda>kx. fst kx = h) (concat (map (\<lambda>h. map (Pair h) (entries hm h)) hs)))
      = (if h \<in> set hs then entries hm h else [])" if "distinct hs" for hs
    using that
  proof (induction hs)
    case (Cons a hs)
    then show ?case by (cases "a = h") (simp_all add: filter_map comp_def)
  qed simp
  note v = visited_all [OF assms]
  have "entries (ToHeaderMap (toHeaderList HO hm)) h = (if h \<in> set (visited HO hm) then entries hm h else [])"
    unfolding entries_ToHeaderMap toHeaderList_def by (rule e) (simp add: v)
  also have "\<dots> = entries hm h" using v by metis
  finally show ?thesis .
qed

lemma good_toHeaderList: "good_map hm \<Longrightarrow> list_all good_entry (toHeaderList HO hm)"
  by (auto simp: good_map_def toHeaderList_def list_all_iff)

lemma and_then_assoc: "and_then (and_then r k) l = and_then r (\<lambda>w. and_then (k w) l)"
  by (auto simp: and_then_def split: option.splits)

lemma and_then_done [simp]: "and_then (Some (None, w)) k = k w"
  by (simp add: and_then_def)

lemma and_then_id [simp]: "and_then r (\<lambda>w. Some (None, w)) = r"
  by (auto simp: and_then_def split: option.splits)

lemma WriteHeaderList_append:
  "WriteHeaderList (a @ b) force w = and_then (WriteHeaderList a force w) (WriteHeaderList b force)"
proof (induction a arbitrary: w)
  case (Cons kx a)
  then have "WriteHeaderList (a @ b) force = (\<lambda>w. and_then (WriteHeaderList a force w) (WriteHeaderList b force))"
    by (intro ext)
  then show ?case by (cases kx) (simp add: and_then_assoc)
qed simp

lemma writeHeaderLines_list: "writeHeaderLines h v force w = WriteHeaderList (map (Pair h) v) force w"
proof (induction v arbitrary: w)
  case (Cons x v)
  then have "writeHeaderLines h v force = WriteHeaderList (map (Pair h) v) force" by (intro ext)
  then show ?case by simp
qed simp

lemma addHeadersOrdered_list:
  "addHeadersOrdered (\<lambda>h v. writeHeaderLines h v force) hm hs w
   = WriteHeaderList (concat (map (\<lambda>h. map (Pair h) (entries hm h)) hs)) force w"
proof (induction hs arbitrary: w)
  case (Cons h hs)
  then have "addHeadersOrdered (\<lambda>h v. writeHeaderLines h v force) hm hs
      = WriteHeaderList (concat (map (\<lambda>h. map (Pair h) (entries hm h)) hs)) force" by (intro ext)
  then show ?case by (simp add: WriteHeaderList_append writeHeaderLines_list [of h])
qed simp

lemma WriteMessageHeaderMap_list:
  "WriteMessageHeaderMap hm force w = WriteHeaderList (ToMessageHeaderList hm) force w"
  by (simp add: WriteMessageHeaderMap_def addHeadersOrdered_list ToMessageHeaderList_def toHeaderList_def)

lemma WritePartHeaderMap_list:
  "WritePartHeaderMap hm force w = WriteHeaderList (ToPartHeaderList hm) force w"
  by (simp add: WritePartHeaderMap_def addHeadersOrdered_list ToPartHeaderList_def toHeaderList_def)

lemma distinct_orders: "distinct writeHeaderOrder" "distinct writePartHeaderOrder"
  unfolding writeHeaderOrder_def writePartHeaderOrder_def
  by (simp_all add: distinct_map inj_on_def)

lemma map_text:
  assumes "good_map hm"
  shows "WriteMessageHeaderMap hm f w \<noteq> None" and
    "wroom w = None \<Longrightarrow> \<exists>w'. WriteMessageHeaderMap hm True w = Some (None, w') \<and>
       wout w' = wout w @ list_text (ToMessageHeaderList hm)"
proof -
  have g: "list_all good_entry (ToMessageHeaderList hm)"
    using good_toHeaderList [OF assms] by (simp add: ToMessageHeaderList_def)
  show "WriteMessageHeaderMap hm f w \<noteq> None"
    unfolding WriteMessageHeaderMap_list by (rule WriteHeaderList_good(1) [OF g])
  show "wroom w = None \<Longrightarrow> \<exists>w'. WriteMessageHeaderMap hm True w = Some (None, w') \<and>
       wout w' = wout w @ list_text (ToMessageHeaderList hm)"
    unfolding WriteMessageHeaderMap_list by (rule WriteHeaderList_good(2) [OF g])
qed

lemma read_map:
  assumes "good_map hm" and "udata u = (list_text (ToMessageHeaderList hm) @ LF # body, x)" and "x \<noteq> errHeadLimitReached"
  shows "\<exists>h u' b q. ReadHeaders uread_rd 0 u = Some ((h, None), u') \<and> (\<forall>k. entries (H h) k = entries hm k) \<and>
    B h = Some (b, q) \<and> rest_of udata (b, q, u') = (body, x)"
proof -
  have g: "list_all good_entry (ToMessageHeaderList hm)"
    using good_toHeaderList [OF assms(1)] by (simp add: ToMessageHeaderList_def)
  obtain h e u' where r: "ReadHeaders uread_rd 0 u = Some ((h, e), u')"
    using plain.ReadHeaders_ends [of 0 u] by blast
  have "distinct (map fst hm)" using assms(1) by (simp add: good_map_def)
  then have m: "entries (ToHeaderMap (ToMessageHeaderList hm)) k = entries hm k" for k
    unfolding ToMessageHeaderList_def by (rule entries_toHeaderList [OF _ distinct_orders(1)])
  show ?thesis
    using plain.ReadHeaders_data [OF _ _ assms(2) r _ assms(3)] r m
    by (auto simp: read_list [OF g] split: option.splits)
qed

end
