(* ===== verification/MailProps.thy ===== *)
theory MailProps
  imports MailWrite MailHead
begin

text \<open>The properties of message heads.\<close>

text \<open>
  C32: reading a head does not depend on how the input is cut: for every network reader \<open>ReadHeaders\<close>
  returns, and its headers, its error and the body left are those of the state machine run once over
  all the bytes in front of the reader's error. A limit below these bytes is as if the input ended there.
\<close>
theorem ReadHeaders_correct:
  assumes "udata u = (c, x)" and "k = 0 \<or> length c \<noteq> k" and "x \<noteq> errHeadLimitReached"
  shows "\<exists>h e u'. ReadHeaders uread_rd k u = Some ((h, e), u') \<and>
    (let sp = head_spec hst0 (if k = 0 \<or> length c < k then (c, x) else (take k c, errHeadLimitReached))
     in H h = ToHeaderMap (fst (fst sp)) \<and> e = snd (fst sp) \<and>
        (case B h of
           None \<Rightarrow> e \<noteq> None
         | Some (b, q) \<Rightarrow> e = None \<and> (if k = 0 \<or> length c < k then rest_of udata (b, q, u') = (snd sp, x) else True)))"
proof -
  obtain h e u' where r: "ReadHeaders uread_rd k u = Some ((h, e), u')" and b: "e = None \<longleftrightarrow> B h \<noteq> None"
    using plain.ReadHeaders_ends [of k u] by blast
  show ?thesis
  proof (cases "k = 0 \<or> length c < k")
    case True
    then show ?thesis using plain.ReadHeaders_data [OF _ _ assms(1) r True assms(3)] r
      by (auto simp: Let_def split: option.splits)
  next
    case False
    then have "0 < k" "k < length c" using assms(2) by auto
    from plain.ReadHeaders_limit [OF _ _ assms(1) r this]
    show ?thesis using r b False by (auto simp: Let_def split: option.splits)
  qed
qed

theorem ReadHeaders_correct_witness:
  "\<exists>h e u'. ReadHeaders uread_rd 0 [([65], None), ([58, 32, 66, 10], None), ([10, 67], Some EOF)] = Some ((h, e), u') \<and>
     e = None \<and> GetFirst (H h) [65] = [66] \<and> rest_of udata (fst (the (B h)), snd (the (B h)), u') = ([67], EOF)"
proof -
  let ?u = "[([65], None), ([58, 32, 66, 10], None), ([10, 67], Some EOF)]"
  have d: "udata ?u = ([65, 58, 32, 66, 10, 10, 67], EOF)" by simp
  have s: "head_spec hst0 ([65, 58, 32, 66, 10, 10, 67], EOF) = (([([65], \<lparr>hV = [66], hO = [], hS = []\<rparr>)], None), [67])"
    by code_simp
  have g: "GetFirst (ToHeaderMap [([65], \<lparr>hV = [66], hO = [], hS = []\<rparr>)]) [65] = [66]" by code_simp
  show ?thesis
    using ReadHeaders_correct [OF d, of 0] g by (auto simp: s split: option.splits)
qed

text \<open>
  C31: every head that is read can be written: the names are canonical, the values trimmed and valid, and
  the split points lie inside the values, so that the writer never slices out of range, whatever the
  limit and the writer.
\<close>
theorem read_heads_writable:
  assumes "ReadHeaders uread_rd k u = Some ((h, e), u')" and "length (fst (udata u)) < 2 ^ 32"
    and "k = 0 \<or> length (fst (udata u)) \<noteq> k" and "snd (udata u) \<noteq> errHeadLimitReached"
  shows "good_map (H h) \<and> WriteMessageHeaderMap (H h) force w \<noteq> None"
proof -
  obtain c x where d: "udata u = (c, x)" by force
  let ?d = "if k = 0 \<or> length c < k then (c, x) else (take k c, errHeadLimitReached)"
  have h: "H h = ToHeaderMap (fst (fst (head_spec hst0 ?d)))"
  proof (cases "k = 0 \<or> length c < k")
    case True
    then show ?thesis using plain.ReadHeaders_data [OF _ _ d assms(1)] assms(4) d by simp
  next
    case False
    then show ?thesis using plain.ReadHeaders_limit [OF _ _ d assms(1)] assms(3) d by simp
  qed
  have "length (fst ?d) < 2 ^ 32" using assms(2) d by (auto simp: min_def)
  then have "list_all good_entry (fst (fst (head_spec hst0 ?d)))"
    unfolding head_spec_def by (intro good_found [OF hinv_hst0]) (simp add: hst0_def)
  then have "good_map (H h)" unfolding h by (rule good_ToHeaderMap)
  then show ?thesis using map_text(1) by simp
qed

theorem read_heads_writable_witness:
  "\<exists>h e u'. ReadHeaders uread_rd 0 [([65, 58, 10, 10], None)] = Some ((h, e), u') \<and>
     good_map (H h) \<and> WriteMessageHeaderMap (H h) False \<lparr>wout = [], wroom = Some 3\<rparr> \<noteq> None"
proof -
  obtain h e u' where r: "ReadHeaders uread_rd 0 [([65, 58, 10, 10], None)] = Some ((h, e), u')"
    using plain.ReadHeaders_ends [of 0 "[([65, 58, 10, 10], None)]"] by blast
  show ?thesis using read_heads_writable [OF r, of False "\<lparr>wout = [], wroom = Some 3\<rparr>"] r by simp
qed

text \<open>
  C30: writing and reading are inverse: a header map of good entries is written in full, and any reader that
  delivers what was written, an empty line and a body, cut in any way, is read as the same headers with
  the body left.
\<close>
theorem head_roundtrip:
  assumes "good_map hm"
  shows "\<exists>w. WriteMessageHeaderMap hm True \<lparr>wout = [], wroom = None\<rparr> = Some (None, w) \<and>
    (\<forall>u body x. udata u = (wout w @ LF # body, x) \<and> x \<noteq> errHeadLimitReached \<longrightarrow>
       (\<exists>h u' b q. ReadHeaders uread_rd 0 u = Some ((h, None), u') \<and> (\<forall>k. entries (H h) k = entries hm k) \<and>
          B h = Some (b, q) \<and> rest_of udata (b, q, u') = (body, x)))"
  using map_text(2) [OF assms, of "\<lparr>wout = [], wroom = None\<rparr>"] read_map [OF assms] by fastforce

definition demo_map :: HeaderMap where
  "demo_map = [(bs ''Subject'', [\<lparr>hV = bs ''a b'', hO = [], hS = [1]\<rparr>])]"

lemma demo_map_good: "good_map demo_map"
proof -
  have n: "good_name (bs ''Subject'') []"
    using headerMap_fixed [of "bs ''Subject''" "bs ''Subject''"]
    by (simp add: good_name_def unsafeMapCanonicalOriginalHeaders_def headerMap_def commonHeadersList_def del: bs_Cons)
  have v: "good_value \<lparr>hV = bs ''a b'', hO = [], hS = [1]\<rparr>" by code_simp
  have "good_entry (bs ''Subject'', \<lparr>hV = bs ''a b'', hO = [], hS = [1]\<rparr>)"
    using n v by (simp add: good_entry_def del: bs_Cons)
  then show ?thesis
    by (auto simp: good_map_def entries_def demo_map_def simp del: bs_Cons split: if_splits)
qed

theorem head_roundtrip_witness:
  "\<exists>w. WriteMessageHeaderMap demo_map True \<lparr>wout = [], wroom = None\<rparr> = Some (None, w) \<and>
    (\<forall>u body x. udata u = (wout w @ LF # body, x) \<and> x \<noteq> errHeadLimitReached \<longrightarrow>
       (\<exists>h u' b q. ReadHeaders uread_rd 0 u = Some ((h, None), u') \<and> (\<forall>k. entries (H h) k = entries demo_map k) \<and>
          B h = Some (b, q) \<and> rest_of udata (b, q, u') = (body, x)))"
  by (rule head_roundtrip [OF demo_map_good])

text \<open>
  A head that was read is read again: whatever head is accepted, writing its headers and reading them
  gives the same headers, so rewriting a message does not change them a second time.
\<close>
theorem head_rewrite:
  assumes "ReadHeaders uread_rd 0 u = Some ((h, None), u')" and "length (fst (udata u)) < 2 ^ 32"
    and "snd (udata u) \<noteq> errHeadLimitReached"
  shows "\<exists>w. WriteMessageHeaderMap (H h) True \<lparr>wout = [], wroom = None\<rparr> = Some (None, w) \<and>
    (\<forall>v body. udata v = (wout w @ LF # body, EOF) \<longrightarrow>
       (\<exists>h2 v'. ReadHeaders uread_rd 0 v = Some ((h2, None), v') \<and> (\<forall>k. entries (H h2) k = entries (H h) k)))"
proof -
  obtain c x where d: "udata u = (c, x)" by force
  have h: "H h = ToHeaderMap (fst (fst (head_spec hst0 (c, x))))"
    using plain.ReadHeaders_data [OF _ _ d assms(1)] assms(3) d by simp
  have "list_all good_entry (fst (fst (head_spec hst0 (c, x))))"
    unfolding head_spec_def using assms(2) d by (intro good_found [OF hinv_hst0]) (simp add: hst0_def)
  then have g: "good_map (H h)" unfolding h by (rule good_ToHeaderMap)
  show ?thesis
    using map_text(2) [OF g, of "\<lparr>wout = [], wroom = None\<rparr>"] read_map [OF g] by fastforce
qed

theorem head_rewrite_witness:
  "\<exists>h u'. ReadHeaders uread_rd 0 [([97, 58, 66, 10, 9, 67, 10, 10], None)] = Some ((h, None), u') \<and>
    (\<exists>w. WriteMessageHeaderMap (H h) True \<lparr>wout = [], wroom = None\<rparr> = Some (None, w) \<and>
    (\<forall>v body. udata v = (wout w @ LF # body, EOF) \<longrightarrow>
       (\<exists>h2 v'. ReadHeaders uread_rd 0 v = Some ((h2, None), v') \<and> (\<forall>k. entries (H h2) k = entries (H h) k))))"
proof -
  let ?u = "[([97, 58, 66, 10, 9, 67, 10, 10], None)]"
  obtain h e u' where r: "ReadHeaders uread_rd 0 ?u = Some ((h, e), u')"
    using plain.ReadHeaders_ends [of 0 ?u] by blast
  have "snd (fst (head_spec hst0 ([97, 58, 66, 10, 9, 67, 10, 10], EOF))) = None" by code_simp
  then have "e = None" using plain.ReadHeaders_data [OF _ _ _ r, of "[97, 58, 66, 10, 9, 67, 10, 10]" EOF] by simp
  then show ?thesis using head_rewrite [of ?u h u'] r by auto
qed

end
