(* ===== verification/NntpClient.thy ===== *)
theory NntpClient
  imports NntpUtil DotReader
begin

text \<open>
  The client side of NNTP: the connection of a client and the reading of responses
  (\<open>nntp/client_common.go\<close>), and the parsers of the puller (\<open>nntp/client_puller_utils.go\<close>), with the
  reference finder of \<open>mail/tools.go\<close> one of them uses.

  The scratch buffer \<open>inbuf\<close> is only a bound here: the slices of it that the code hands out are used
  before the buffer is filled again. The slice \<open>args\<close> is emptied before each use and is local.
\<close>

subsection \<open>Errors\<close>

text \<open>
  The errors the code tells apart, by value, are those of the readers; others are a text with what it
  quotes, or a text wrapped around another error.
\<close>

datatype cerr =
    IoErr io_err
  | errTooLargeResponse
  | Errorf bytes bytes
  | ErrCode bytes u64 bytes
  | ErrWrap bytes cerr
  | DbErr nat

subsection \<open>The state of a client\<close>

record clientState =
  initialResponseUnderstod :: bool
  initialResponseAllowPost :: bool
  badActiveList :: bool
  badNewsgroupsList :: bool
  badCapabilities :: bool
  badHdr :: bool
  badXHdr :: bool
  badOver :: bool
  badXOver :: bool
  capHdr :: bool
  capOver :: bool
  capReader :: bool
  allowLargeOver :: bool
  workaroundStupidActiveList :: bool

definition zeroState :: clientState where
  "zeroState = \<lparr>initialResponseUnderstod = False, initialResponseAllowPost = False,
     badActiveList = False, badNewsgroupsList = False, badCapabilities = False, badHdr = False,
     badXHdr = False, badOver = False, badXOver = False, capHdr = False, capOver = False,
     capReader = False, allowLargeOver = False, workaroundStupidActiveList = False\<rparr>"

definition canHdr :: "clientState \<Rightarrow> bool" where
  "canHdr s \<longleftrightarrow> capHdr s \<and> \<not> badHdr s"

definition canXHdr :: "clientState \<Rightarrow> bool" where
  "canXHdr s \<longleftrightarrow> \<not> badXHdr s"

definition canOver :: "clientState \<Rightarrow> bool" where
  "canOver s \<longleftrightarrow> capOver s \<and> \<not> badOver s"

definition canXOver :: "clientState \<Rightarrow> bool" where
  "canXOver s \<longleftrightarrow> \<not> badXOver s"

text \<open>
  \<open>sent\<close> are the lines written to the server; \<open>sroom\<close> is how many more it will take before writing
  fails.
\<close>

record NNTPClient =
  cr :: BufReader
  cdr :: "DotReader option"
  sent :: "bytes list"
  sroom :: "nat option"
  cs :: clientState

definition SendLine :: "bytes \<Rightarrow> 'a NNTPClient_scheme \<Rightarrow> io_err option \<times> 'a NNTPClient_scheme" where
  "SendLine l c =
     (case sroom c of
        None \<Rightarrow> (None, c\<lparr>sent := sent c @ [l]\<rparr>)
      | Some 0 \<Rightarrow> (Some ErrShort, c)
      | Some (Suc n) \<Rightarrow> (None, c\<lparr>sent := sent c @ [l], sroom := Some n\<rparr>))"

definition openDotReader :: "'a NNTPClient_scheme \<Rightarrow> 'a NNTPClient_scheme" where
  "openDotReader c =
     (case cdr c of None \<Rightarrow> c\<lparr>cdr := Some NewDotReader\<rparr> | Some d \<Rightarrow> c\<lparr>cdr := Some (Reset d)\<rparr>)"

subsection \<open>Responses\<close>

definition readLine ::
  "'a NNTPClient_scheme \<Rightarrow> ((cerr + bytes) \<times> 'a NNTPClient_scheme) option" where
  "readLine c = do {
     ((p, e), r) \<leftarrow> ReadUntil 512 LF (cr c);
     Some (case e of
             Some e \<Rightarrow> Inl (if e = ErrDelimNotFound then errTooLargeResponse else IoErr e)
           | None \<Rightarrow> Inr (let i = length p in
                           if i > 1 \<and> p ! (i - 2) = CR then take (i - 2) p else take (i - 1) p),
           c\<lparr>cr := r\<rparr>)
   }"

definition parseResponseCode :: "bytes \<Rightarrow> u64 \<times> bytes \<times> cerr option" where
  "parseResponseCode line =
     (if length line < 3 \<or> \<not> isNumberSlice (take 3 line) \<or> (length line > 3 \<and> line ! 3 \<noteq> SP)
      then (0, line, Some (Errorf (bs ''response not understod'') line))
      else let code = stoi (take 3 line) in
           (code, drop 3 line,
            if code < 100 \<or> code \<ge> 600 then Some (ErrCode (bs ''response code out of range'') code []) else None))"

text \<open>A negative count is no limit.\<close>

function resp_args :: "bytes \<Rightarrow> int \<Rightarrow> bytes list \<Rightarrow> bytes list \<times> bytes" where
  "resp_args l n args =
     (if l = [] \<or> n = 0 then (args, l)
      else let l = dropWhile (\<lambda>c. c = SP) l;
               f = takeWhile (\<lambda>c. c \<noteq> SP) l;
               l = dropWhile (\<lambda>c. c \<noteq> SP) l
           in if f = [] then (args, l) else resp_args l (n - 1) (args @ [f]))"
  by pat_completeness auto
termination
proof (relation "measure (\<lambda>(l, n, args). length l)", goal_cases)
  case (2 l n args l1 f l2)
  have "length f + length l2 = length l1"
    unfolding 2(3,4) by (metis length_append takeWhile_dropWhile_id)
  moreover have "f \<noteq> []" using 2 by simp
  moreover have "length l1 \<le> length l" unfolding 2(2) by (rule length_dropWhile_le)
  ultimately show ?case by (cases f) auto
qed simp

declare resp_args.simps [simp del]

definition parseResponseArguments :: "bytes \<Rightarrow> int \<Rightarrow> bytes list \<Rightarrow> bytes list \<times> bytes" where
  "parseResponseArguments line n args =
     (if line = [] \<or> n = 0 then (args, []) else resp_args (drop 1 line) n args)"

definition readResponse ::
  "'a NNTPClient_scheme \<Rightarrow> ((u64 \<times> bytes \<times> cerr option \<times> bool) \<times> 'a NNTPClient_scheme) option" where
  "readResponse c = do {
     (l, c) \<leftarrow> readLine c;
     Some (case l of
             Inl e \<Rightarrow> (0, [], Some e, True)
           | Inr incmd \<Rightarrow> (case parseResponseCode incmd of (code, rest, e) \<Rightarrow> (code, rest, e, False)),
           c)
   }"

definition handleInitial ::
  "'a NNTPClient_scheme \<Rightarrow> (cerr option \<times> 'a NNTPClient_scheme) option" where
  "handleInitial c = do {
     ((code, rest, e, _), c) \<leftarrow> readResponse c;
     Some (case e of
             Some e \<Rightarrow> (Some (ErrWrap (bs ''error reading initial response'') e), c)
           | None \<Rightarrow>
               if code = 200 then (None, c\<lparr>cs := (cs c)\<lparr>initialResponseAllowPost := True\<rparr>\<rparr>)
               else if code = 201 then (None, c\<lparr>cs := (cs c)\<lparr>initialResponseAllowPost := False\<rparr>\<rparr>)
               else (Some (ErrCode (bs ''bad initial response'') code (TrimWSBytes rest)), c))
   }"

subsection \<open>Lines of a block\<close>

text \<open>
  A block is read byte by byte from the dot reader over the connection, here a pair. \<open>b\<close> is the part
  of \<open>inbuf\<close> filled so far.
\<close>

type_synonym block = "DotReader \<times> BufReader"

partial_function (option) dot_line :: "bytes \<Rightarrow> block \<Rightarrow> ((bytes \<times> cerr option) \<times> block) option" where
  "dot_line b t = do {
     (r, t) \<leftarrow> DotReader_ReadByte t;
     case r of
       Inl e \<Rightarrow> Some ((b, Some (IoErr e)), t)
     | Inr x \<Rightarrow>
         if x = LF then Some ((b, None), t)
         else if length b \<ge> 512 then Some ((b, Some errTooLargeResponse), t)
         else dot_line (b @ [x]) t
   }"

definition readDotLine :: "block \<Rightarrow> ((bytes \<times> cerr option) \<times> block) option" where
  "readDotLine = dot_line []"

text \<open>\<open>en\<close> is the end of the group name, zero while it is not known.\<close>

partial_function (option) group_line ::
  "bytes \<Rightarrow> nat \<Rightarrow> block \<Rightarrow> ((bytes \<times> cerr option) \<times> block) option" where
  "group_line b en t = do {
     (r, t) \<leftarrow> DotReader_ReadByte t;
     case r of
       Inl e \<Rightarrow> Some ((take en b, Some (IoErr e)), t)
     | Inr x \<Rightarrow>
         if x = LF then
           (let en = (if en = 0 then length b else en) in
            if en = 0 \<or> \<not> FullValidGroupSlice (take en b)
            then Some (([], Some (Errorf (bs ''bad group'') (take en b))), t)
            else Some ((take en b, None), t))
         else if en = 0 then
           (if x = SP \<or> x = TAB then group_line b (length b) t
            else if length b \<ge> 512 then Some (([], Some errTooLargeResponse), t)
            else group_line (b @ [x]) en t)
         else group_line b en t
   }"

definition readOnlyNewsgroup :: "block \<Rightarrow> ((bytes \<times> cerr option) \<times> block) option" where
  "readOnlyNewsgroup = group_line [] 0"

text \<open>The results an error leaves half set are not used by the caller.\<close>

abbreviation nonws :: "bytes \<Rightarrow> bytes" where
  "nonws l \<equiv> takeWhile (\<lambda>c. \<not> isws c) l"

abbreviation skipNonWS :: "bytes \<Rightarrow> bytes" where
  "skipNonWS l \<equiv> dropWhile (\<lambda>c. \<not> isws c) l"

abbreviation skipWS :: "bytes \<Rightarrow> bytes" where
  "skipWS l \<equiv> dropWhile isws l"

definition parseListActiveLine :: "bytes \<Rightarrow> cerr + bytes \<times> u64 \<times> u64 \<times> bytes" where
  "parseListActiveLine line =
     (let name = nonws line; l = skipWS (skipNonWS line) in
      if name = [] \<or> \<not> FullValidGroupSlice name then Inl (Errorf (bs ''bad group'') name)
      else let hi = nonws l; l = skipWS (skipNonWS l) in
      if hi = [] \<or> \<not> isNumberSlice hi then Inl (Errorf (bs ''bad hiwm'') hi)
      else let lo = nonws l; l = skipWS (skipNonWS l) in
      if lo = [] \<or> \<not> isNumberSlice lo then Inl (Errorf (bs ''bad lowm'') lo)
      else let status = nonws l; l = skipWS (skipNonWS l) in
      if l \<noteq> [] then Inl (Errorf (bs ''unknown extra data'') l)
      else Inr (name, stoi64 hi, stoi64 lo, status))"

subsection \<open>References\<close>

text \<open>The rest after a comment; \<open>q\<close> is whether the byte before was a backslash.\<close>

fun skip_comment :: "bytes \<Rightarrow> int \<Rightarrow> bool \<Rightarrow> bytes" where
  "skip_comment [] clvl q = []"
| "skip_comment (cc # s) clvl q =
     (let clvl = (if cc = 41 \<and> \<not> q then clvl - 1 else clvl) in
      if cc = 41 \<and> \<not> q \<and> clvl \<le> 0 then s
      else skip_comment s (if cc = 40 \<and> \<not> q then clvl + 1 else clvl) (cc = 92))"

lemma skip_comment_length: "length (skip_comment s l q) \<le> length s"
  by (induction s l q rule: skip_comment.induct) (auto simp: Let_def le_SucI)

definition ValidMessageIDStr :: "bytes \<Rightarrow> bool" where
  "ValidMessageIDStr i \<longleftrightarrow> length i \<ge> 3 \<and> i ! 0 = 60 \<and> i ! (length i - 1) = 62 \<and>
     length i \<le> 250 \<and> IsPrintableASCIIStr (take (length i - 1 - 1) (drop 1 i)) 62"

function NextValidReference :: "bytes \<Rightarrow> bytes \<times> bytes" where
  "NextValidReference [] = ([], [])"
| "NextValidReference (c # s) =
     (if c = SP \<or> c = TAB then NextValidReference s
      else if c = 40 then NextValidReference (skip_comment s 1 False)
      else let x = c # takeWhile (\<lambda>c. c \<noteq> SP \<and> c \<noteq> TAB \<and> c \<noteq> 40) s;
               s = dropWhile (\<lambda>c. c \<noteq> SP \<and> c \<noteq> TAB \<and> c \<noteq> 40) s
           in if ValidMessageIDStr x then (x, s) else NextValidReference s)"
  by pat_completeness auto
termination
  by (relation "measure length") (auto simp: le_imp_less_Suc skip_comment_length length_dropWhile_le)

definition ExtractFirstValidReference :: "bytes \<Rightarrow> bytes" where
  "ExtractFirstValidReference s = fst (NextValidReference s)"

lemma NextValidReference_length:
  "NextValidReference s = (x, r) \<Longrightarrow> x \<noteq> [] \<Longrightarrow> length r < length s"
proof (induction s rule: NextValidReference.induct)
  case (2 c s)
  have "length (skip_comment s 1 False) \<le> length s" by (rule skip_comment_length)
  moreover have "length (dropWhile (\<lambda>c. c \<noteq> SP \<and> c \<noteq> TAB \<and> c \<noteq> 40) s) \<le> length s" by (rule length_dropWhile_le)
  ultimately show ?case using 2 by (fastforce simp: Let_def split: if_splits)
qed simp

lemma NextValidReference_end: "NextValidReference s = ([], r) \<Longrightarrow> r = []"
proof (induction s rule: NextValidReference.induct)
  case (2 c s)
  then show ?case by (auto simp: Let_def split: if_splits)
qed simp

function ExtractAllValidReferences :: "bytes list \<Rightarrow> bytes \<Rightarrow> bytes list" where
  "ExtractAllValidReferences refs s =
     (let (x, s) = NextValidReference s;
          refs = (if x \<noteq> [] then refs @ [x] else refs)
      in if s = [] then refs else ExtractAllValidReferences refs s)"
  by pat_completeness auto
termination
  by (relation "measure (\<lambda>(refs, s). length s)")
    (auto dest: NextValidReference_end [OF sym] NextValidReference_length [OF sym] split: if_splits)

declare ExtractAllValidReferences.simps [simp del]

subsection \<open>Overview and header lines\<close>

text \<open>
  One field of an overview line: the bytes, the error, whether the line is over (\<open>nomore\<close>) and how much
  of \<open>inbuf\<close> is filled. The fields of a line share the buffer.
\<close>

partial_function (option) eat_field ::
  "bytes \<Rightarrow> nat \<Rightarrow> block \<Rightarrow> ((bytes \<times> cerr option \<times> bool \<times> nat) \<times> block) option" where
  "eat_field f i t = do {
     (r, t) \<leftarrow> DotReader_ReadByte t;
     case r of
       Inl e \<Rightarrow> Some (([], Some (IoErr e), False, i), t)
     | Inr x \<Rightarrow>
         if x = LF then Some ((f, None, True, i), t)
         else if x = TAB then Some ((f, None, False, i), t)
         else if i \<ge> 512 then Some (([], Some errTooLargeResponse, False, i), t)
         else eat_field (f @ [x]) (i + 1) t
   }"

definition eatField ::
  "bool \<Rightarrow> nat \<Rightarrow> block \<Rightarrow> ((bytes \<times> cerr option \<times> bool \<times> nat) \<times> block) option" where
  "eatField nomore i t = (if nomore then Some (([], None, nomore, i), t) else eat_field [] i t)"

partial_function (option) ignore_field :: "block \<Rightarrow> ((cerr option \<times> bool) \<times> block) option" where
  "ignore_field t = do {
     (r, t) \<leftarrow> DotReader_ReadByte t;
     case r of
       Inl e \<Rightarrow> Some ((Some (IoErr e), False), t)
     | Inr x \<Rightarrow>
         if x = LF then Some ((None, True), t)
         else if x = TAB then Some ((None, False), t)
         else ignore_field t
   }"

fun ignore_fields :: "nat \<Rightarrow> block \<Rightarrow> ((cerr option \<times> bool) \<times> block) option" where
  "ignore_fields 0 t = Some ((None, False), t)"
| "ignore_fields (Suc n) t = do {
     ((e, nomore), t) \<leftarrow> ignore_field t;
     if e \<noteq> None then Some ((e, nomore), t)
     else if nomore then Some ((Some (Errorf (bs ''wanted more fields'') []), nomore), t)
     else ignore_fields n t
   }"

type_synonym over_info = "u64 \<times> bytes \<times> bytes"

definition over_fields :: "block \<Rightarrow> ((over_info \<times> cerr option \<times> bool) \<times> block) option" where
  "over_fields t = do {
     ((snum, e, nomore, i), t) \<leftarrow> eatField False 0 t;
     if e \<noteq> None \<or> nomore then Some (((0, [], []), e, nomore), t)
     else let snum = TrimWSBytes snum in
     if snum = [] \<or> \<not> isNumberSlice snum
     then Some (((0, [], []), Some (Errorf (bs ''bad id'') snum), nomore), t)
     else let ident = stoi64 snum in do {
     ((e, nomore), t) \<leftarrow> ignore_fields 3 t;
     if e \<noteq> None then Some (((ident, [], []), e, nomore), t)
     else do {
     ((smsgid, e, nomore, i), t) \<leftarrow> eatField nomore i t;
     if e \<noteq> None then Some (((ident, [], []), e, nomore), t)
     else let msgid = TrimWSBytes smsgid in
     if \<not> ValidMessageID msgid
     then Some (((ident, msgid, []), Some (Errorf (bs ''invalid msg-id'') msgid), nomore), t)
     else do {
     ((xref, e, nomore, i), t) \<leftarrow> eatField nomore i t;
     if e \<noteq> None then Some (((ident, msgid, []), e, nomore), t)
     else Some (((ident, msgid, ExtractFirstValidReference xref), None, nomore), t)
   }}}}"

partial_function (option) skip_line :: "block \<Rightarrow> (io_err option \<times> block) option" where
  "skip_line t = do {
     (r, t) \<leftarrow> DotReader_ReadByte t;
     case r of
       Inl e \<Rightarrow> Some (Some e, t)
     | Inr x \<Rightarrow> if x = LF then Some (None, t) else skip_line t
   }"

text \<open>An error of the reader other than the end of the block is fatal.\<close>

definition fatal_err :: "cerr option \<Rightarrow> bool" where
  "fatal_err e = (case e of Some (IoErr x) \<Rightarrow> x \<noteq> EOF | _ \<Rightarrow> False)"

definition getOverLineInfo :: "block \<Rightarrow> ((over_info \<times> cerr option \<times> bool) \<times> block) option" where
  "getOverLineInfo t = do {
     ((oi, err, nomore), t) \<leftarrow> over_fields t;
     if nomore then Some ((oi, err, fatal_err err), t)
     else do {
       (e, t) \<leftarrow> skip_line t;
       Some ((oi, if err = None then map_option IoErr e else err,
              fatal_err err \<or> fatal_err (map_option IoErr e)), t)
     }
   }"

definition hdr_msgid :: "bytes \<Rightarrow> u64 \<times> bytes \<times> cerr option" where
  "hdr_msgid line =
     (let l = skipWS line; snum = nonws l; l = skipNonWS l in
      if snum = [] then (0, [], None)
      else if EqualFoldString snum (bs ''(none)'') then (0, [], None)
      else if \<not> isNumberSlice snum then (0, [], Some (Errorf (bs ''bad id'') snum))
      else let ident = stoi64 snum; l = skipWS l; msgid = nonws l; l = skipNonWS l in
      if \<not> ValidMessageID msgid then (ident, msgid, Some (Errorf (bs ''invalid msg-id'') msgid))
      else if skipWS l \<noteq> [] then (ident, msgid, Some (Errorf (bs ''extra data in HDR output'') []))
      else (ident, msgid, None))"

definition eatHdrMsgIDLine :: "block \<Rightarrow> ((u64 \<times> bytes \<times> cerr option) \<times> block) option" where
  "eatHdrMsgIDLine t = do {
     ((line, e), t) \<leftarrow> readDotLine t;
     Some (case e of Some e \<Rightarrow> (0, [], Some e) | None \<Rightarrow> hdr_msgid line, t)
   }"

definition parseGroupResponse :: "bytes \<Rightarrow> cerr + u64 \<times> u64 \<times> u64" where
  "parseGroupResponse rest =
     (let args = fst (parseResponseArguments rest 4 []) in
      if length args < 3 \<or> \<not> isNumberSlice (args ! 0) \<or> \<not> isNumberSlice (args ! 1) \<or>
         \<not> isNumberSlice (args ! 2)
      then Inl (Errorf (bs ''bad successful group response'') (TrimWSBytes rest))
      else Inr (stoi64 (args ! 0), stoi64 (args ! 1), stoi64 (args ! 2)))"

end
