(* ===== verification/NntpPuller.thy ===== *)
theory NntpPuller
  imports NntpClient
begin

text \<open>
  The puller (\<open>nntp/client_puller.go\<close>): a client that fetches the groups of a server, lists the new
  articles of each and requests the ones its database wants.

  The database is the interface \<open>PullerDatabase\<close>, a record of functions on a state of its own. What the
  server sends is the input of the reader. \<open>processTODOList\<close> runs two goroutines; the choices of the Go
  scheduler, and of \<open>select\<close> where two cases are ready, are an unbounded supply of coins in the state,
  so that every function here is a function, and a statement for all states covers all schedules.
\<close>

subsection \<open>The database and the state\<close>

text \<open>
  A function that is given an \<open>io.Reader\<close>: it is done, or calls \<open>Read\<close> with room for some bytes and goes
  on with what that returns. It returns for whatever it reads.
\<close>

datatype 'r reading = Done 'r | Reading nat "bytes \<times> io_err option \<Rightarrow> 'r reading"

primrec run_reading :: "'r reading \<Rightarrow> block \<Rightarrow> ('r \<times> block) option" where
  "run_reading (Done r) t = Some (r, t)"
| "run_reading (Reading n k) t = Option.bind (DotReader_Read n t) (\<lambda>(x, t). run_reading (k x) t)"

text \<open>
  The results of \<open>ReadArticle\<close> are the error, whether that was unexpected, and the root the article
  misses. Numbers the code has as \<open>int64\<close> are words read with \<open>sint\<close>.
\<close>

record ('d, 'w) PullerDatabase =
  GetGroupID :: "bytes \<Rightarrow> 'd \<Rightarrow> (cerr + u64) \<times> 'd"
  UpdateGroupID :: "bytes \<Rightarrow> u64 \<Rightarrow> 'd \<Rightarrow> cerr option \<times> 'd"
  StartTempGroups :: "'d \<Rightarrow> cerr option \<times> 'd"
  CancelTempGroups :: "'d \<Rightarrow> cerr option \<times> 'd"
  FinishTempGroups :: "bool \<Rightarrow> 'd \<Rightarrow> cerr option \<times> 'd"
  DoneTempGroups :: "'d \<Rightarrow> cerr option \<times> 'd"
  StoreTempGroupID :: "bytes \<Rightarrow> u64 \<Rightarrow> 'd \<Rightarrow> cerr option \<times> 'd"
  StoreTempGroup :: "bytes \<Rightarrow> 'd \<Rightarrow> cerr option \<times> 'd"
  LoadTempGroup :: "'d \<Rightarrow> (cerr + bytes \<times> u64 \<times> u64) \<times> 'd"
  IsArticleWanted :: "bytes \<Rightarrow> bytes \<Rightarrow> 'd \<Rightarrow> (cerr + bool \<times> 'w) \<times> 'd"
  DoesReferenceExist :: "bytes \<Rightarrow> 'd \<Rightarrow> (cerr + bool) \<times> 'd"
  ReadArticle :: "bytes \<Rightarrow> bytes \<Rightarrow> 'w option \<Rightarrow> 'd \<Rightarrow>
     ((cerr option \<times> bool \<times> bytes) \<times> 'd) reading"

record todoArticle =
  ta_id :: u64
  ta_msgid :: bytes
  ta_ref :: bytes

definition smallSliceSize :: u64 where "smallSliceSize = 800"
definition largeSliceSize :: u64 where "largeSliceSize = 2048"
definition maxListSize :: nat where "maxListSize = 2048"

record 'd NNTPPuller = NNTPClient +
  db :: 'd
  todoList :: "todoArticle list"
  coins :: "nat \<Rightarrow> bool"

text \<open>The current block of a client, and \<open>Discard(-1)\<close> on it; there is one after \<open>openDotReader\<close>.\<close>

definition on_block ::
  "(block \<Rightarrow> ('r \<times> block) option) \<Rightarrow> 'a NNTPClient_scheme \<Rightarrow> ('r \<times> 'a NNTPClient_scheme) option" where
  "on_block f c =
     (case cdr c of
        None \<Rightarrow> None
      | Some d \<Rightarrow> do { (r, (d, b)) \<leftarrow> f (d, cr c); Some (r, c\<lparr>cdr := Some d, cr := b\<rparr>) })"

definition discard_rest :: "'a NNTPClient_scheme \<Rightarrow> 'a NNTPClient_scheme option" where
  "discard_rest c = do { (_, c) \<leftarrow> on_block (DotReader_Discard (- 1)) c; Some c }"

text \<open>A call of the database.\<close>

definition on_db :: "('d \<Rightarrow> 'r \<times> 'd) \<Rightarrow> 'd NNTPPuller \<Rightarrow> 'r \<times> 'd NNTPPuller" where
  "on_db f c = (let (r, d) = f (db c) in (r, c\<lparr>db := d\<rparr>))"

subsection \<open>The list of groups\<close>

definition maxInt64 :: u64 where "maxInt64 = 2 ^ 63 - 1"

text \<open>The high watermark to store; negative is unknown.\<close>

definition list_hiwm :: "bool \<Rightarrow> u64 \<Rightarrow> u64 \<Rightarrow> u64" where
  "list_hiwm stupid xhiwm lowm =
     (if xhiwm < lowm then (if stupid then - 1 else 0)
      else if sint xhiwm < 0 then maxInt64 else xhiwm)"

partial_function (option) active_loop ::
  "('d, 'w) PullerDatabase \<Rightarrow> 'd NNTPPuller \<Rightarrow> (cerr option \<times> 'd NNTPPuller) option" where
  "active_loop D c = do {
     ((line, e), c) \<leftarrow> on_block readDotLine c;
     case e of
       Some e \<Rightarrow>
         if e = IoErr EOF then Some (None, c)
         else Some (Some (ErrWrap (bs ''failed reading list line'') e),
                    c\<lparr>cs := (cs c)\<lparr>badActiveList := True\<rparr>\<rparr>)
     | None \<Rightarrow>
       (case parseListActiveLine line of
          Inl e \<Rightarrow> Some (Some (ErrWrap (bs ''failed parsing list line'') e),
                         c\<lparr>cs := (cs c)\<lparr>badActiveList := True\<rparr>\<rparr>)
        | Inr (gname, xhiwm, lowm, _) \<Rightarrow>
          (let hiwm = list_hiwm (workaroundStupidActiveList (cs c)) xhiwm lowm;
               (r, c) = on_db (GetGroupID D gname) c
           in case r of
                Inl e \<Rightarrow> Some (Some (ErrWrap (bs ''GetGroupID() failed'') e), c)
              | Inr old_id \<Rightarrow>
                if sint old_id < 0 then active_loop D c
                else
                  (let (e, c) = (if sint hiwm \<ge> 0 then on_db (StoreTempGroupID D gname hiwm) c
                                 else on_db (StoreTempGroup D gname) c)
                   in case e of
                        Some e \<Rightarrow> Some (Some (ErrWrap (bs ''StoreTempGroup() failed'') e), c)
                      | None \<Rightarrow> active_loop D c)))
   }"

partial_function (option) newsgroups_loop ::
  "('d, 'w) PullerDatabase \<Rightarrow> 'd NNTPPuller \<Rightarrow> (cerr option \<times> 'd NNTPPuller) option" where
  "newsgroups_loop D c = do {
     ((gname, e), c) \<leftarrow> on_block readOnlyNewsgroup c;
     case e of
       Some e \<Rightarrow>
         if e = IoErr EOF then Some (None, c)
         else Some (Some (ErrWrap (bs ''failed reading list line'') e),
                    c\<lparr>cs := (cs c)\<lparr>badNewsgroupsList := True\<rparr>\<rparr>)
     | None \<Rightarrow>
       (let (r, c) = on_db (GetGroupID D gname) c in
        case r of
          Inl e \<Rightarrow> Some (Some (ErrWrap (bs ''GetGroupID() failed'') e), c)
        | Inr old_id \<Rightarrow>
          if sint old_id < 0 then newsgroups_loop D c
          else
            (let (e, c) = on_db (StoreTempGroup D gname) c in
             case e of
               Some e \<Rightarrow> Some (Some (ErrWrap (bs ''StoreTempGroup() failed'') e), c)
             | None \<Rightarrow> newsgroups_loop D c))
   }"

text \<open>
  What both lists do around their loop: open the block, start the temporary groups, run the loop, then
  the deferred functions in reverse order: finish or cancel the temporary groups, and after an error
  read the block to its end.
\<close>

definition temp_groups ::
  "('d, 'w) PullerDatabase \<Rightarrow> ('d NNTPPuller \<Rightarrow> (cerr option \<times> 'd NNTPPuller) option) \<Rightarrow>
   'd NNTPPuller \<Rightarrow> ((cerr option \<times> bool) \<times> 'd NNTPPuller) option" where
  "temp_groups D body c =
     (let c = openDotReader c; (e, c) = on_db (StartTempGroups D) c in
      case e of
        Some e \<Rightarrow> do {
          c \<leftarrow> discard_rest c;
          Some ((Some (ErrWrap (bs ''StartTempGroups() failed'') e), False), c)
        }
      | None \<Rightarrow> do {
          (e, c) \<leftarrow> body c;
          let (e, c) =
            (case e of
               None \<Rightarrow> (let (e, c) = on_db (FinishTempGroups D False) c
                         in (map_option (ErrWrap (bs ''FinishTempGroups() failed'')) e, c))
             | Some e \<Rightarrow> (Some e, snd (on_db (CancelTempGroups D) c)));
          if e = None then Some ((None, False), c)
          else do { c \<leftarrow> discard_rest c; Some ((e, False), c) }
        })"

definition doActiveList ::
  "('d, 'w) PullerDatabase \<Rightarrow> 'd NNTPPuller \<Rightarrow> ((cerr option \<times> bool) \<times> 'd NNTPPuller) option" where
  "doActiveList D c =
     (case SendLine (bs ''LIST'') c of
        (Some e, c) \<Rightarrow> Some ((Some (IoErr e), True), c)
      | (None, c) \<Rightarrow> do {
          ((code, rest, e, fatal), c) \<leftarrow> readResponse c;
          if e \<noteq> None then Some ((e, fatal), c)
          else if code \<noteq> 215
          then Some ((Some (ErrCode (bs ''bad response from list'') code (TrimWSBytes rest)), fatal),
                     c\<lparr>cs := (cs c)\<lparr>badActiveList := True\<rparr>\<rparr>)
          else temp_groups D (active_loop D) c
        })"

definition doNewsgroupsList ::
  "('d, 'w) PullerDatabase \<Rightarrow> 'd NNTPPuller \<Rightarrow> ((cerr option \<times> bool) \<times> 'd NNTPPuller) option" where
  "doNewsgroupsList D c =
     (case SendLine (bs ''LIST NEWSGROUPS'') c of
        (Some e, c) \<Rightarrow> Some ((Some (IoErr e), True), c)
      | (None, c) \<Rightarrow> do {
          ((code, rest, e, fatal), c) \<leftarrow> readResponse c;
          if e \<noteq> None then Some ((e, fatal), c)
          else if code \<noteq> 215
          then Some ((Some (ErrCode (bs ''bad response from list'') code (TrimWSBytes rest)), fatal),
                     c\<lparr>cs := (cs c)\<lparr>badNewsgroupsList := True\<rparr>\<rparr>)
          else temp_groups D (newsgroups_loop D) c
        })"

subsection \<open>Capabilities\<close>

definition capability :: "bytes \<Rightarrow> clientState \<Rightarrow> clientState" where
  "capability line s =
     (let (x, line) = parseKeyword line; cap = take x line in
      if cap = bs ''HDR'' then s\<lparr>capHdr := True\<rparr>
      else if cap = bs ''OVER'' then s\<lparr>capOver := True\<rparr>
      else if cap = bs ''READER'' then s\<lparr>capReader := True\<rparr>
      else if cap = bs ''IMPLEMENTATION'' then
        (case fst (parseResponseArguments (drop x line) 6 []) of
           [] \<Rightarrow> s
         | impl # _ \<Rightarrow>
             if EqualFoldString impl (bs ''srndv2'')
             then s\<lparr>workaroundStupidActiveList := True, allowLargeOver := True\<rparr>
             else if EqualFoldString impl (bs ''CNTPD'') then s\<lparr>allowLargeOver := True\<rparr>
             else s)
      else s)"

partial_function (option) caps_loop :: "'d NNTPPuller \<Rightarrow> (cerr option \<times> 'd NNTPPuller) option" where
  "caps_loop c = do {
     ((line, e), c) \<leftarrow> on_block readDotLine c;
     case e of
       Some e \<Rightarrow>
         if e = IoErr EOF then Some (None, c)
         else do { c \<leftarrow> discard_rest c; Some (Some (ErrWrap (bs ''failed reading list line'') e), c) }
     | None \<Rightarrow> caps_loop (c\<lparr>cs := capability line (cs c)\<rparr>)
   }"

definition doCapabilities :: "'d NNTPPuller \<Rightarrow> ((cerr option \<times> bool) \<times> 'd NNTPPuller) option" where
  "doCapabilities c =
     (case SendLine (bs ''CAPABILITIES'') c of
        (Some e, c) \<Rightarrow> Some ((Some (IoErr e), True), c)
      | (None, c) \<Rightarrow> do {
          ((code, _, e, fatal), c) \<leftarrow> readResponse c;
          if e \<noteq> None then Some ((e, fatal), c)
          else if code \<noteq> 101
          then Some ((None, fatal), c\<lparr>cs := (cs c)\<lparr>badCapabilities := True\<rparr>\<rparr>)
          else do { (e, c) \<leftarrow> caps_loop (openDotReader c); Some ((e, False), c) }
        })"

subsection \<open>A group and an article\<close>

definition group_hi :: "u64 \<Rightarrow> u64 \<Rightarrow> u64 \<Rightarrow> u64" where
  "group_hi n lo hi =
     (let hi = (if lo > hi \<or> n = 0 then 0 else hi) in if sint hi < 0 then maxInt64 else hi)"

text \<open>The new id, the error, whether the group does not exist, whether the error is fatal.\<close>

definition doGroup ::
  "bytes \<Rightarrow> 'd NNTPPuller \<Rightarrow> ((u64 \<times> cerr option \<times> bool \<times> bool) \<times> 'd NNTPPuller) option" where
  "doGroup gname c =
     (case SendLine (bs ''GROUP '' @ gname) c of
        (Some e, c) \<Rightarrow> Some ((0, Some (IoErr e), False, True), c)
      | (None, c) \<Rightarrow> do {
          ((code, rest, e, fatal), c) \<leftarrow> readResponse c;
          Some (if e \<noteq> None then (0, e, False, fatal)
                else if code = 211 then
                  (case parseGroupResponse rest of
                     Inl e \<Rightarrow> (0, Some e, False, fatal)
                   | Inr (n, lo, hi) \<Rightarrow> (group_hi n lo hi, None, False, fatal))
                else if code = 411 then (- 1, Some (Errorf (bs ''no such newsgroup'') []), True, False)
                else (- 1, Some (ErrCode (bs ''bad GROUP err'') code (TrimWSBytes rest)), False, False), c)
        })"

text \<open>\<open>CutMsgIDStr\<close> of an id shorter than two bytes is out of range: a panic, outside this model's values.\<close>

definition eatArticle ::
  "('d, 'w) PullerDatabase \<Rightarrow> bytes \<Rightarrow> bytes \<Rightarrow> 'w option \<Rightarrow> 'd NNTPPuller \<Rightarrow>
   ((cerr option \<times> bool \<times> bytes) \<times> 'd NNTPPuller) option" where
  "eatArticle D msgid ingroup wdata c =
     (if length msgid < 2 then None
      else do {
        ((r, s), c) \<leftarrow> on_block (run_reading (ReadArticle D (CutMsgIDStr msgid) ingroup wdata (db c)))
                        (openDotReader c);
        let c = c\<lparr>db := s\<rparr>;
        if fst r = None then Some (r, c) else do { c \<leftarrow> discard_rest c; Some (r, c) }
      })"

text \<open>Whether the response was as expected, the error, whether it is fatal, the missing root.\<close>

definition handleArticleResponse ::
  "('d, 'w) PullerDatabase \<Rightarrow> bytes \<Rightarrow> bytes \<Rightarrow> 'w option \<Rightarrow> 'd NNTPPuller \<Rightarrow>
   ((bool \<times> cerr option \<times> bool \<times> bytes) \<times> 'd NNTPPuller) option" where
  "handleArticleResponse D msgid grp wdata c = do {
     ((code, rest, e, fatal), c) \<leftarrow> readResponse c;
     if e \<noteq> None then Some ((False, e, fatal, []), c)
     else if code = 220 then do {
       ((e, fatal, root), c) \<leftarrow> eatArticle D msgid grp wdata c;
       if e \<noteq> None then
         if fatal then Some ((False, e, fatal, root), c) else Some ((True, None, fatal, root), c)
       else Some ((True, None, fatal, root), c)
     }
     else if code = 221 \<or> code = 222 then do {
       c \<leftarrow> discard_rest (openDotReader c);
       Some ((False, None, fatal, []), c)
     }
     else if code \<ge> 420 \<and> code < 440 then Some ((True, None, fatal, []), c)
     else Some ((False, None, fatal, []), c)
   }"

end
