(* ===== verification/NntpPipe.thy ===== *)
theory NntpPipe
  imports NntpPuller
begin

text \<open>
  \<open>processTODOList\<close> (\<open>nntp/client_puller.go\<close>): the sender asks for the wanted articles of the list, one
  after another, and a second goroutine reads the responses. They share the queue \<open>todochan\<close> of
  requests not yet answered (at most 32), the unbuffered channel \<open>finishchan\<close>, on which the worker
  reports a fatal error and which it closes at its end, and \<open>new_maxid\<close>.

  The state holds both program counters. A step is one stretch of code between two operations on
  channels: of the sender, its polls of \<open>finishchan\<close> with what follows them, its \<open>select\<close> on the queue,
  and the wait at the end; of the worker, the receipt and handling of one response, and the closing of
  \<open>finishchan\<close>. \<open>asked\<close> and \<open>answered\<close> only record which requests were sent and handled.
\<close>

text \<open>\<open>todoLoopArticle\<close>\<close>

record 'w tla =
  tl_msgid :: bytes
  tl_id :: u64
  tl_wdata :: "'w option"

text \<open>
  The worker waits on the queue, or is blocked sending its error on \<open>finishchan\<close>, or has closed
  \<open>finishchan\<close>, or its error was received.
\<close>

datatype worker = WLoop | WFail cerr | WClosed | WGone

text \<open>
  The sender is at the top of the loop for an index, at the check of the reference, at the request, at
  the \<open>select\<close> that queues it; in \<open>errCloseLoop\<close> with the results it will return; at the final wait;
  or has returned its error and whether that is fatal.
\<close>

datatype 'w sender =
    STop nat
  | SRef nat "'w option"
  | SAsk nat "'w option"
  | SQueue nat "'w tla"
  | SClose "cerr option" bool
  | SWait
  | SDone "cerr option" bool

record ('d, 'w) pipe =
  pc :: "'d NNTPPuller"
  todochan :: "'w tla list"
  closed :: bool
  wk :: worker
  sn :: "'w sender"
  new_maxid :: u64
  asked :: "'w tla list"
  answered :: "'w tla list"

definition queueSize :: nat where "queueSize = 32"

definition raise_max :: "u64 \<Rightarrow> ('d, 'w) pipe \<Rightarrow> ('d, 'w) pipe" where
  "raise_max i s = (if sint i > sint (new_maxid s) then s\<lparr>new_maxid := i\<rparr> else s)"

subsection \<open>The worker\<close>

definition worker_ready :: "('d, 'w) pipe \<Rightarrow> bool" where
  "worker_ready s \<longleftrightarrow> wk s = WLoop \<and> (todochan s \<noteq> [] \<or> closed s)"

definition worker_step ::
  "('d, 'w) PullerDatabase \<Rightarrow> bytes \<Rightarrow> ('d, 'w) pipe \<Rightarrow> ('d, 'w) pipe option" where
  "worker_step D grp s =
     (case todochan s of
        [] \<Rightarrow> Some (s\<lparr>wk := WClosed\<rparr>)
      | a # q \<Rightarrow> do {
          ((normalok, e, fatal, _), c) \<leftarrow> handleArticleResponse D (tl_msgid a) grp (tl_wdata a) (pc s);
          let s = s\<lparr>todochan := q, answered := answered s @ [a], pc := c\<rparr>;
          Some (case e of
                  Some e \<Rightarrow> if fatal then s\<lparr>wk := WFail e\<rparr> else s
                | None \<Rightarrow> if normalok then raise_max (tl_id a) s else s)
        })"

subsection \<open>The sender\<close>

text \<open>A receive on \<open>finishchan\<close>: not possible, or a value (\<open>nil\<close> when closed) and the worker after it.\<close>

definition finish :: "('d, 'w) pipe \<Rightarrow> (cerr option \<times> ('d, 'w) pipe) option" where
  "finish s =
     (case wk s of
        WFail e \<Rightarrow> Some (Some e, s\<lparr>wk := WGone\<rparr>)
      | WClosed \<Rightarrow> Some (None, s)
      | _ \<Rightarrow> None)"

definition handleFinishCase :: "cerr option \<Rightarrow> ('d, 'w) pipe \<Rightarrow> ('d, 'w) pipe" where
  "handleFinishCase e s =
     (case e of
        Some e \<Rightarrow> s\<lparr>sn := SDone (Some e) True\<rparr>
      | None \<Rightarrow> s\<lparr>sn := SDone (Some (Errorf (bs ''unexpected worker quit'') [])) False\<rparr>)"

text \<open>The poll with a \<open>default\<close> case that precedes each part of the loop body.\<close>

definition poll :: "(('d, 'w) pipe \<Rightarrow> ('d, 'w) pipe) \<Rightarrow> ('d, 'w) pipe \<Rightarrow> ('d, 'w) pipe" where
  "poll k s = (case finish s of Some (e, s) \<Rightarrow> handleFinishCase e s | None \<Rightarrow> k s)"

definition errCloseLoop :: "cerr \<Rightarrow> bool \<Rightarrow> ('d, 'w) pipe \<Rightarrow> ('d, 'w) pipe" where
  "errCloseLoop e fatal s = s\<lparr>closed := True, sn := SClose (Some e) fatal\<rparr>"

definition queuedRef :: "bytes \<Rightarrow> nat \<Rightarrow> todoArticle list \<Rightarrow> bool" where
  "queuedRef ref x l \<longleftrightarrow> list_ex (\<lambda>a. ta_msgid a = ref) (take x l)"

definition pipe_db :: "('d \<Rightarrow> 'r \<times> 'd) \<Rightarrow> ('d, 'w) pipe \<Rightarrow> 'r \<times> ('d, 'w) pipe" where
  "pipe_db f s = (let (r, c) = on_db f (pc s) in (r, s\<lparr>pc := c\<rparr>))"

definition check_wanted ::
  "('d, 'w) PullerDatabase \<Rightarrow> bytes \<Rightarrow> nat \<Rightarrow> ('d, 'w) pipe \<Rightarrow> ('d, 'w) pipe" where
  "check_wanted D grp i s =
     (let a = todoList (pc s) ! i;
          (r, s) = (if ta_msgid a \<noteq> [] then
                      (case pipe_db (IsArticleWanted D (ta_msgid a) grp) s of
                         (Inl e, s) \<Rightarrow> (Inl e, s)
                       | (Inr (wanted, wdata), s) \<Rightarrow> (Inr (wanted, Some wdata), s))
                    else (Inr (True, None), s))
      in case r of
           Inl e \<Rightarrow> errCloseLoop e False s
         | Inr (wanted, wdata) \<Rightarrow>
             if \<not> wanted then (raise_max (ta_id a) s)\<lparr>sn := STop (i + 1)\<rparr>
             else s\<lparr>sn := SRef i wdata\<rparr>)"

text \<open>A missing reference is only logged.\<close>

definition check_ref ::
  "('d, 'w) PullerDatabase \<Rightarrow> nat \<Rightarrow> 'w option \<Rightarrow> ('d, 'w) pipe \<Rightarrow> ('d, 'w) pipe" where
  "check_ref D i wdata s =
     (let a = todoList (pc s) ! i in
      if ta_ref a \<noteq> [] \<and> ta_ref a \<noteq> ta_msgid a then
        (case pipe_db (DoesReferenceExist D (ta_ref a)) s of
           (Inl e, s) \<Rightarrow> errCloseLoop e False s
         | (Inr _, s) \<Rightarrow> s\<lparr>sn := SAsk i wdata\<rparr>)
      else s\<lparr>sn := SAsk i wdata\<rparr>)"

definition article_line :: "u64 \<Rightarrow> bytes" where
  "article_line n = bs ''ARTICLE '' @ dec (unat n)"

definition ask :: "nat \<Rightarrow> 'w option \<Rightarrow> ('d, 'w) pipe \<Rightarrow> ('d, 'w) pipe" where
  "ask i wdata s =
     (let a = todoList (pc s) ! i in
      case SendLine (article_line (ta_id a)) (pc s) of
        (Some e, c) \<Rightarrow> errCloseLoop (IoErr e) True (s\<lparr>pc := c\<rparr>)
      | (None, c) \<Rightarrow>
          (let t = \<lparr>tl_msgid = ta_msgid a, tl_id = ta_id a, tl_wdata = wdata\<rparr>
           in s\<lparr>pc := c, asked := asked s @ [t], sn := SQueue i t\<rparr>))"

definition enqueue :: "nat \<Rightarrow> 'w tla \<Rightarrow> ('d, 'w) pipe \<Rightarrow> ('d, 'w) pipe" where
  "enqueue i t s = s\<lparr>todochan := todochan s @ [t], sn := STop (i + 1)\<rparr>"

definition sender_ready :: "('d, 'w) pipe \<Rightarrow> bool" where
  "sender_ready s =
     (case sn s of
        SQueue _ _ \<Rightarrow> length (todochan s) < queueSize \<or> finish s \<noteq> None
      | SClose _ _ \<Rightarrow> finish s \<noteq> None
      | SWait \<Rightarrow> finish s \<noteq> None
      | SDone _ _ \<Rightarrow> False
      | _ \<Rightarrow> True)"

text \<open>
  \<open>coin\<close> chooses in the \<open>select\<close> when both of its cases are ready. The poll before the reference is
  checked is followed by a third one only when there was a reference to check.
\<close>

definition has_ref :: "nat \<Rightarrow> ('d, 'w) pipe \<Rightarrow> bool" where
  "has_ref i s = (let a = todoList (pc s) ! i in ta_ref a \<noteq> [] \<and> ta_ref a \<noteq> ta_msgid a)"

definition sender_step ::
  "('d, 'w) PullerDatabase \<Rightarrow> bytes \<Rightarrow> bool \<Rightarrow> ('d, 'w) pipe \<Rightarrow> ('d, 'w) pipe" where
  "sender_step D grp coin s =
     (case sn s of
        STop i \<Rightarrow>
          if i < length (todoList (pc s)) then poll (check_wanted D grp i) s
          else s\<lparr>closed := True, sn := SWait\<rparr>
      | SRef i wdata \<Rightarrow> poll (check_ref D i wdata) s
      | SAsk i wdata \<Rightarrow> if has_ref i s then poll (ask i wdata) s else ask i wdata s
      | SQueue i t \<Rightarrow>
          (case finish s of
             None \<Rightarrow> enqueue i t s
           | Some (e, s') \<Rightarrow>
               if length (todochan s) < queueSize \<and> coin then enqueue i t s else handleFinishCase e s')
      | SClose e fatal \<Rightarrow> (case finish s of Some (_, s) \<Rightarrow> s\<lparr>sn := SDone e fatal\<rparr> | None \<Rightarrow> s)
      | SWait \<Rightarrow>
          (case finish s of
             Some (e, s) \<Rightarrow> s\<lparr>sn := SDone e (e \<noteq> None)\<rparr>
           | None \<Rightarrow> s)
      | SDone _ _ \<Rightarrow> s)"

subsection \<open>Runs\<close>

definition two_coins :: "('d, 'w) pipe \<Rightarrow> bool \<times> bool \<times> ('d, 'w) pipe" where
  "two_coins s = (coins (pc s) 0, coins (pc s) 1, s\<lparr>pc := (pc s)\<lparr>coins := (\<lambda>n. coins (pc s) (n + 2))\<rparr>\<rparr>)"

text \<open>One of the goroutines that are ready takes a step; the value is \<open>None\<close> when neither is.\<close>

definition pipe_step ::
  "('d, 'w) PullerDatabase \<Rightarrow> bytes \<Rightarrow> ('d, 'w) pipe \<Rightarrow> ('d, 'w) pipe option" where
  "pipe_step D grp s =
     (let (a, b, s) = two_coins s in
      if sender_ready s \<and> (a \<or> \<not> worker_ready s) then Some (sender_step D grp b s)
      else if worker_ready s then worker_step D grp s
      else None)"

partial_function (option) pipe_run ::
  "('d, 'w) PullerDatabase \<Rightarrow> bytes \<Rightarrow> ('d, 'w) pipe \<Rightarrow> ('d, 'w) pipe option" where
  "pipe_run D grp s =
     (case sn s of
        SDone e fatal \<Rightarrow> Some s
      | _ \<Rightarrow> do { s \<leftarrow> pipe_step D grp s; pipe_run D grp s })"

definition pipe_start :: "'d NNTPPuller \<Rightarrow> ('d, 'w) pipe" where
  "pipe_start c = \<lparr>pc = c, todochan = [], closed = False, wk = WLoop, sn = STop 0, new_maxid = - 1,
     asked = [], answered = []\<rparr>"

text \<open>The result is the new maximum, the error and whether it is fatal; the deferred update may not fail the call.\<close>

definition processTODOList ::
  "('d, 'w) PullerDatabase \<Rightarrow> bytes \<Rightarrow> u64 \<Rightarrow> 'd NNTPPuller \<Rightarrow>
   ((u64 \<times> cerr option \<times> bool) \<times> 'd NNTPPuller) option" where
  "processTODOList D grp maxid c = do {
     s \<leftarrow> pipe_run D grp (pipe_start c);
     let (e, fatal) = (case sn s of SDone e fatal \<Rightarrow> (e, fatal) | _ \<Rightarrow> (None, False));
     let c = (if sint (new_maxid s) \<ge> 0 \<and> sint (new_maxid s) > sint maxid
              then snd (on_db (UpdateGroupID D grp (new_maxid s)) (pc s)) else pc s);
     Some ((new_maxid s, e, fatal), c)
   }"

end
