(* ===== verification/NntpScan.thy ===== *)
theory NntpScan
  imports NntpPipe
begin

text \<open>
  The puller's scan of the groups (\<open>nntp/client_puller.go\<close>): the lists of articles from \<open>HDR\<close>, \<open>XHDR\<close>,
  \<open>OVER\<close> or \<open>XOVER\<close>, the slices of a group, the loop over the groups, and a session of the puller.
\<close>

subsection \<open>Lists of articles\<close>

text \<open>What the server lists and was not asked for.\<close>

definition outside :: "u64 \<Rightarrow> u64 \<Rightarrow> u64 \<Rightarrow> bool" where
  "outside r_begin r_end i \<longleftrightarrow>
     i = 0 \<or> i < r_begin \<or> (sint r_end \<ge> 0 \<and> i > r_end) \<or>
     (sint r_end < 0 \<and> i \<ge> r_begin + of_nat maxListSize)"

definition add_todo :: "u64 \<Rightarrow> u64 \<Rightarrow> todoArticle \<Rightarrow> 'd NNTPPuller \<Rightarrow> 'd NNTPPuller" where
  "add_todo r_begin r_end a c =
     (if outside r_begin r_end (ta_id a) then c
      else if length (todoList c) \<ge> maxListSize then c
      else c\<lparr>todoList := todoList c @ [a]\<rparr>)"

partial_function (option) hdr_loop ::
  "u64 \<Rightarrow> u64 \<Rightarrow> 'd NNTPPuller \<Rightarrow> (cerr option \<times> 'd NNTPPuller) option" where
  "hdr_loop r_begin r_end c = do {
     ((ident, msgid, e), c) \<leftarrow> on_block eatHdrMsgIDLine c;
     case e of
       Some e \<Rightarrow>
         if e = IoErr EOF then Some (None, c)
         else do { c \<leftarrow> discard_rest c; Some (Some e, c) }
     | None \<Rightarrow>
         hdr_loop r_begin r_end
           (add_todo r_begin r_end \<lparr>ta_id = ident, ta_msgid = msgid, ta_ref = []\<rparr> c)
   }"

definition eatHdrOutput ::
  "u64 \<Rightarrow> u64 \<Rightarrow> 'd NNTPPuller \<Rightarrow> (cerr option \<times> 'd NNTPPuller) option" where
  "eatHdrOutput r_begin r_end c = hdr_loop r_begin r_end ((openDotReader c)\<lparr>todoList := []\<rparr>)"

partial_function (option) over_loop ::
  "u64 \<Rightarrow> u64 \<Rightarrow> 'd NNTPPuller \<Rightarrow> (cerr option \<times> 'd NNTPPuller) option" where
  "over_loop r_begin r_end c = do {
     (((ident, msgid, ref), e, fatal), c) \<leftarrow> on_block getOverLineInfo c;
     case e of
       Some e \<Rightarrow>
         if e = IoErr EOF then Some (None, c)
         else if \<not> fatal then over_loop r_begin r_end c
         else do { c \<leftarrow> discard_rest c; Some (Some e, c) }
     | None \<Rightarrow>
         over_loop r_begin r_end
           (add_todo r_begin r_end \<lparr>ta_id = ident, ta_msgid = msgid, ta_ref = ref\<rparr> c)
   }"

definition eatOverOutput ::
  "u64 \<Rightarrow> u64 \<Rightarrow> 'd NNTPPuller \<Rightarrow> (cerr option \<times> 'd NNTPPuller) option" where
  "eatOverOutput r_begin r_end c = over_loop r_begin r_end ((openDotReader c)\<lparr>todoList := []\<rparr>)"

subsection \<open>A slice of a group\<close>

text \<open>\<open>%d\<close> of an \<open>int64\<close>\<close>

definition dec_int :: "u64 \<Rightarrow> bytes" where
  "dec_int w = (if sint w < 0 then 45 # dec (nat (- sint w)) else dec (nat (sint w)))"

definition printLine :: "bytes \<Rightarrow> u64 \<Rightarrow> u64 \<Rightarrow> bytes" where
  "printLine cmd r_begin r_end =
     (if sint r_end \<ge> 0 then
        if r_begin \<noteq> r_end then cmd @ bs '' '' @ dec_int r_begin @ bs ''-'' @ dec_int r_end
        else cmd @ bs '' '' @ dec_int r_begin
      else cmd @ bs '' '' @ dec_int r_begin @ bs ''-'')"

text \<open>
  One attempt to list: the results \<open>eatGroupSlice\<close> returns at once, or whether the list follows. \<open>bad\<close>
  notes a command the server does not know.
\<close>

definition try_list ::
  "bytes \<Rightarrow> (u64 \<Rightarrow> bool) \<Rightarrow> (clientState \<Rightarrow> clientState) \<Rightarrow> 'd NNTPPuller \<Rightarrow>
   (((cerr option \<times> bool) + bool) \<times> 'd NNTPPuller) option" where
  "try_list line good bad c =
     (case SendLine line c of
        (Some e, c) \<Rightarrow> Some (Inl (Some (IoErr e), True), c)
      | (None, c) \<Rightarrow> do {
          ((code, rest, e, fatal), c) \<leftarrow> readResponse c;
          Some (if e \<noteq> None then (Inl (e, fatal), c)
                else if good code then (Inr True, c)
                else if code = 423 \<or> code = 420 then (Inl (None, fatal), c)
                else (Inr False, c\<lparr>cs := bad (cs c)\<rparr>))
        })"

definition next_try ::
  "bool \<Rightarrow> bytes \<Rightarrow> (u64 \<Rightarrow> bool) \<Rightarrow> (clientState \<Rightarrow> clientState) \<Rightarrow> 'd NNTPPuller \<Rightarrow>
   (((cerr option \<times> bool) + bool) \<times> 'd NNTPPuller) option" where
  "next_try can line good bad c = (if can then try_list line good bad c else Some (Inr False, c))"

definition list_over ::
  "('d, 'w) PullerDatabase \<Rightarrow> bytes \<Rightarrow> u64 \<Rightarrow> u64 \<Rightarrow> u64 \<Rightarrow> 'd NNTPPuller \<Rightarrow>
   ((u64 \<times> cerr option \<times> bool) \<times> 'd NNTPPuller) option" where
  "list_over D grp r_begin r_end maxid c = do {
     (e, c) \<leftarrow> eatOverOutput r_begin r_end c;
     if e \<noteq> None then Some ((0, e, False), c) else processTODOList D grp maxid c
   }"

definition list_hdr ::
  "('d, 'w) PullerDatabase \<Rightarrow> bytes \<Rightarrow> u64 \<Rightarrow> u64 \<Rightarrow> u64 \<Rightarrow> 'd NNTPPuller \<Rightarrow>
   ((u64 \<times> cerr option \<times> bool) \<times> 'd NNTPPuller) option" where
  "list_hdr D grp r_begin r_end maxid c = do {
     (e, c) \<leftarrow> eatHdrOutput r_begin r_end c;
     if e \<noteq> None then Some ((0, e, False), c) else processTODOList D grp maxid c
   }"

definition slice_over ::
  "('d, 'w) PullerDatabase \<Rightarrow> bytes \<Rightarrow> u64 \<Rightarrow> u64 \<Rightarrow> u64 \<Rightarrow> 'd NNTPPuller \<Rightarrow>
   ((u64 \<times> cerr option \<times> bool) \<times> 'd NNTPPuller) option" where
  "slice_over D grp r_begin r_end maxid c = do {
     (r, c) \<leftarrow> next_try (canOver (cs c)) (printLine (bs ''OVER'') r_begin r_end) (\<lambda>code. code = 224)
                (\<lambda>s. s\<lparr>badOver := True\<rparr>) c;
     case r of
       Inl (e, fatal) \<Rightarrow> Some ((0, e, fatal), c)
     | Inr True \<Rightarrow> list_over D grp r_begin r_end maxid c
     | Inr False \<Rightarrow> do {
         (r, c) \<leftarrow> next_try (canXOver (cs c)) (printLine (bs ''XOVER'') r_begin r_end) (\<lambda>code. code = 224)
                    (\<lambda>s. s\<lparr>badXOver := True\<rparr>) c;
         case r of
           Inl (e, fatal) \<Rightarrow> Some ((0, e, fatal), c)
         | Inr True \<Rightarrow> list_over D grp r_begin r_end maxid c
         | Inr False \<Rightarrow>
             Some ((0, Some (Errorf (bs ''can't list group slice (tried HDR/XHDR/OVER/XOVER)'') []), False), c)
       }
   }"

definition eatGroupSlice ::
  "('d, 'w) PullerDatabase \<Rightarrow> bytes \<Rightarrow> u64 \<Rightarrow> u64 \<Rightarrow> u64 \<Rightarrow> 'd NNTPPuller \<Rightarrow>
   ((u64 \<times> cerr option \<times> bool) \<times> 'd NNTPPuller) option" where
  "eatGroupSlice D grp r_begin r_end maxid c = do {
     (r, c) \<leftarrow> next_try (canHdr (cs c)) (printLine (bs ''HDR Message-ID'') r_begin r_end)
                (\<lambda>code. code = 225 \<or> code = 221) (\<lambda>s. s\<lparr>badHdr := True\<rparr>) c;
     case r of
       Inl (e, fatal) \<Rightarrow> Some ((0, e, fatal), c)
     | Inr True \<Rightarrow> list_hdr D grp r_begin r_end maxid c
     | Inr False \<Rightarrow> do {
         (r, c) \<leftarrow> next_try (canXHdr (cs c)) (printLine (bs ''XHDR Message-ID'') r_begin r_end)
                    (\<lambda>code. code = 225 \<or> code = 221) (\<lambda>s. s\<lparr>badXHdr := True\<rparr>) c;
         case r of
           Inl (e, fatal) \<Rightarrow> Some ((0, e, fatal), c)
         | Inr True \<Rightarrow> list_hdr D grp r_begin r_end maxid c
         | Inr False \<Rightarrow> slice_over D grp r_begin r_end maxid c
       }
   }"

subsection \<open>A group\<close>

definition slice_end :: "u64 \<Rightarrow> u64 \<Rightarrow> u64 \<Rightarrow> u64" where
  "slice_end new_id sz r_begin =
     (if new_id > r_begin + sz - 1 then r_begin + sz - 1 else - 1)"

partial_function (option) group_loop ::
  "('d, 'w) PullerDatabase \<Rightarrow> bytes \<Rightarrow> u64 \<Rightarrow> u64 \<Rightarrow> u64 \<Rightarrow> u64 \<Rightarrow> u64 \<Rightarrow> 'd NNTPPuller \<Rightarrow>
   ((cerr option \<times> bool) \<times> 'd NNTPPuller) option" where
  "group_loop D grp new_id sz r_begin r_end maxid c = do {
     ((maxid, e, fatal), c) \<leftarrow> eatGroupSlice D grp r_begin r_end maxid c;
     if e \<noteq> None then Some ((e, fatal), c)
     else if sint r_end < 0 then Some ((e, fatal), c)
     else let r_end = (if sint maxid > sint r_end then maxid else r_end);
              r_begin = r_end + 1
          in if r_begin > new_id then Some ((e, fatal), c)
             else group_loop D grp new_id sz r_begin (slice_end new_id sz r_begin) maxid c
   }"

definition eatGroup ::
  "('d, 'w) PullerDatabase \<Rightarrow> bytes \<Rightarrow> u64 \<Rightarrow> u64 \<Rightarrow> 'd NNTPPuller \<Rightarrow>
   ((cerr option \<times> bool) \<times> 'd NNTPPuller) option" where
  "eatGroup D grp old_id new_id c =
     (let r_begin = old_id + 1;
          sz = (if allowLargeOver (cs c) then largeSliceSize else smallSliceSize)
      in group_loop D grp new_id sz r_begin (slice_end new_id sz r_begin) old_id c)"

subsection \<open>All groups\<close>

text \<open>
  What the loop does for one group: it returns a fatal error, or goes on. \<open>old_id\<close> is corrected twice
  when the server's number went down.
\<close>

definition lower_id ::
  "('d, 'w) PullerDatabase \<Rightarrow> bytes \<Rightarrow> u64 \<Rightarrow> u64 \<Rightarrow> 'd NNTPPuller \<Rightarrow> u64 \<times> 'd NNTPPuller" where
  "lower_id D grp old_id new_id c =
     (if old_id > new_id then (0, snd (on_db (UpdateGroupID D grp 0) c)) else (old_id, c))"

definition eat_new ::
  "('d, 'w) PullerDatabase \<Rightarrow> bytes \<Rightarrow> u64 \<Rightarrow> u64 \<Rightarrow> 'd NNTPPuller \<Rightarrow> (cerr option \<times> 'd NNTPPuller) option" where
  "eat_new D grp old_id new_id c =
     (if old_id = new_id then Some (None, c)
      else do {
        ((e, fatal), c) \<leftarrow> eatGroup D grp old_id new_id c;
        Some (case e of
                Some e \<Rightarrow> if fatal then (Some (ErrWrap (bs ''eatGroup failed'') e), c) else (None, c)
              | None \<Rightarrow> (None, c))
      })"

definition ask_group ::
  "('d, 'w) PullerDatabase \<Rightarrow> bytes \<Rightarrow> u64 \<Rightarrow> u64 \<Rightarrow> 'd NNTPPuller \<Rightarrow> (cerr option \<times> 'd NNTPPuller) option" where
  "ask_group D grp new_id old_id c = do {
     ((g_id, e, notexists, fatal), c) \<leftarrow> doGroup grp c;
     if e \<noteq> None \<and> \<not> notexists then
       Some (if fatal then (map_option (ErrWrap (bs ''doGroup failed'')) e, c) else (None, c))
     else if notexists then Some (None, snd (on_db (UpdateGroupID D grp 0) c))
     else if sint new_id < 0 \<or> sint g_id > sint new_id then
       (if old_id = g_id then Some (None, c)
        else (let (old_id, c) = lower_id D grp old_id g_id c in eat_new D grp old_id g_id c))
     else eat_new D grp old_id new_id c
   }"

definition scan_group ::
  "('d, 'w) PullerDatabase \<Rightarrow> bytes \<Rightarrow> u64 \<Rightarrow> u64 \<Rightarrow> 'd NNTPPuller \<Rightarrow> (cerr option \<times> 'd NNTPPuller) option" where
  "scan_group D grp new_id old_id c =
     (if sint new_id \<ge> 0 then
        (if old_id = new_id then Some (None, c)
         else (let (old_id, c) = lower_id D grp old_id new_id c in ask_group D grp new_id old_id c))
      else ask_group D grp new_id old_id c)"

partial_function (option) scan_loop ::
  "('d, 'w) PullerDatabase \<Rightarrow> 'd NNTPPuller \<Rightarrow> (cerr option \<times> 'd NNTPPuller) option" where
  "scan_loop D c =
     (let (r, c) = on_db (LoadTempGroup D) c in
      case r of
        Inl e \<Rightarrow> Some (None, snd (on_db (DoneTempGroups D) c))
      | Inr (grp, new_id, old_id) \<Rightarrow> do {
          (e, c) \<leftarrow> scan_group D grp new_id old_id c;
          case e of Some e \<Rightarrow> Some (Some e, c) | None \<Rightarrow> scan_loop D c
        })"

text \<open>One method of getting the group list: not used, failed for good, failed, or done.\<close>

definition list_method ::
  "bool \<Rightarrow> bytes \<Rightarrow> ('d NNTPPuller \<Rightarrow> ((cerr option \<times> bool) \<times> 'd NNTPPuller) option) \<Rightarrow>
   'd NNTPPuller \<Rightarrow> ((cerr + bool) \<times> 'd NNTPPuller) option" where
  "list_method use what f c =
     (if \<not> use then Some (Inr False, c)
      else do {
        ((e, fatal), c) \<leftarrow> f c;
        Some (case e of
                Some e \<Rightarrow> if fatal then (Inl (ErrWrap what e), c) else (Inr False, c)
              | None \<Rightarrow> (Inr True, c))
      })"

definition groupScanLoop ::
  "('d, 'w) PullerDatabase \<Rightarrow> 'd NNTPPuller \<Rightarrow> (cerr option \<times> 'd NNTPPuller) option" where
  "groupScanLoop D c = do {
     (r, c) \<leftarrow> list_method (\<not> badActiveList (cs c)) (bs ''doActiveList method failed'') (doActiveList D) c;
     case r of
       Inl e \<Rightarrow> Some (Some e, c)
     | Inr True \<Rightarrow> scan_loop D c
     | Inr False \<Rightarrow> do {
         (r, c) \<leftarrow> list_method (\<not> badNewsgroupsList (cs c)) (bs ''doNewsgroupsList method failed'')
                    (doNewsgroupsList D) c;
         case r of
           Inl e \<Rightarrow> Some (Some e, c)
         | Inr True \<Rightarrow> scan_loop D c
         | Inr False \<Rightarrow> Some (Some (Errorf (bs ''no methods left to get group list'') []), c)
       }
   }"

subsection \<open>A session\<close>

definition modeReader :: "'d NNTPPuller \<Rightarrow> (cerr option \<times> 'd NNTPPuller) option" where
  "modeReader c =
     (case SendLine (bs ''MODE READER'') c of
        (Some e, c) \<Rightarrow> Some (Some (ErrWrap (bs ''error writing mode-reader command'') (IoErr e)), c)
      | (None, c) \<Rightarrow> do {
          ((code, rest, e, fatal), c) \<leftarrow> readResponse c;
          Some (case e of
                  None \<Rightarrow>
                    if code = 200 then (None, c\<lparr>cs := (cs c)\<lparr>initialResponseAllowPost := True\<rparr>\<rparr>)
                    else if code > 200 \<and> code < 300
                    then (None, c\<lparr>cs := (cs c)\<lparr>initialResponseAllowPost := False\<rparr>\<rparr>)
                    else if code = 502
                    then (Some (ErrCode (bs ''bad mode-reader response'') code (TrimWSBytes rest)), c)
                    else (None, c)
                | Some e \<Rightarrow>
                    if fatal then (Some (ErrWrap (bs ''error reading mode-reader response'') e), c)
                    else (None, c))
        })"

text \<open>The scan is repeated, with a pause, until it fails.\<close>

partial_function (option) main_loop ::
  "('d, 'w) PullerDatabase \<Rightarrow> 'd NNTPPuller \<Rightarrow> (cerr \<times> 'd NNTPPuller) option" where
  "main_loop D c = do {
     (e, c) \<leftarrow> groupScanLoop D c;
     case e of Some e \<Rightarrow> Some (e, c) | None \<Rightarrow> main_loop D c
   }"

definition main ::
  "('d, 'w) PullerDatabase \<Rightarrow> 'd NNTPPuller \<Rightarrow> (cerr \<times> 'd NNTPPuller) option" where
  "main D c = do {
     (e, c) \<leftarrow> handleInitial c;
     case e of
       Some e \<Rightarrow> Some (e, c)
     | None \<Rightarrow> do {
         ((e, fatal), c) \<leftarrow> doCapabilities c;
         case (e, fatal) of
           (Some e, True) \<Rightarrow> Some (ErrWrap (bs ''doCapabilities() failed'') e, c)
         | _ \<Rightarrow> do {
             (e, c) \<leftarrow> (if \<not> capReader (cs c) then modeReader c else Some (None, c));
             case e of Some e \<Rightarrow> Some (e, c) | None \<Rightarrow> main_loop D c
           }
       }
   }"

text \<open>One turn of \<open>Run\<close> after dialing: \<open>u\<close> is what the server will send, \<open>w\<close> how many lines it takes.\<close>

definition session ::
  "('d, 'w) PullerDatabase \<Rightarrow> reader \<Rightarrow> nat option \<Rightarrow> 'd NNTPPuller \<Rightarrow> (cerr \<times> 'd NNTPPuller) option" where
  "session D u w c =
     main D (c\<lparr>cs := zeroState, sent := [], sroom := w, cr := NewBufReader u, cdr := None\<rparr>)"

end
