(* ===== verification/NntpClientLaws.thy ===== *)
theory NntpClientLaws
  imports NntpScan
begin

text \<open>
  Every read of the client returns and only moves forward in what the server sent: the totality of the
  block readers, the response reader and the loops over blocks.

  The measure of a block is \<open>dot_size\<close> of its sequence of bytes and errors. \<open>reads f P\<close> says that \<open>f\<close>
  returns on every well-formed block, does not grow the measure, and makes it smaller when its result
  satisfies \<open>P\<close>.
\<close>

definition bsz :: "block \<Rightarrow> nat" where
  "bsz t = dot_size (fst t, events (snd t))"

definition reads :: "(block \<Rightarrow> ('r \<times> block) option) \<Rightarrow> ('r \<Rightarrow> bool) \<Rightarrow> bool" where
  "reads f P \<longleftrightarrow> (\<forall>t. wf (snd t) \<longrightarrow>
     (\<exists>r t'. f t = Some (r, t') \<and> wf (snd t') \<and> bsz t' \<le> bsz t \<and> (P r \<longrightarrow> bsz t' < bsz t)))"

lemma readsD:
  assumes "reads f P" and "wf (snd t)"
  obtains r t' where "f t = Some (r, t')" "wf (snd t')" "bsz t' \<le> bsz t" "P r \<Longrightarrow> bsz t' < bsz t"
  using assms unfolding reads_def by blast

lemma reads_mono: "reads f P \<Longrightarrow> (\<And>r. Q r \<Longrightarrow> P r) \<Longrightarrow> reads f Q"
  unfolding reads_def by blast

lemma ReadByte_reads: "reads DotReader_ReadByte (\<lambda>r. \<exists>x. r = Inr x)"
  unfolding reads_def
proof (intro allI impI)
  fix t :: block
  assume ok: "wf (snd t)"
  obtain d b where t: "t = (d, b)" by (cases t)
  obtain r d' b' where s: "dot_byte ReadByte unread (d, b) = Some (r, d', b')" "wf b'"
    "dot_byte ev_rd ev_unrd (d, events b) = Some (r, d', events b')"
    using buf.dot_byte_sim [of b d] ok by (auto simp: t)
  show "\<exists>r t'. DotReader_ReadByte t = Some (r, t') \<and> wf (snd t') \<and> bsz t' \<le> bsz t \<and>
          ((\<exists>x. r = Inr x) \<longrightarrow> bsz t' < bsz t)"
    using s(1,2) dot_byte_size [OF s(3)] by (simp add: DotReader_ReadByte_def t bsz_def)
qed

lemma Discard_reads: "reads (DotReader_Discard k) (\<lambda>_. False)"
  unfolding reads_def
proof (intro allI impI)
  fix t :: block
  assume ok: "wf (snd t)"
  obtain d b where t: "t = (d, b)" by (cases t)
  obtain r d' b' where s: "dot_discard ReadByte unread k 0 (d, b) = Some (r, d', b')" "wf b'"
    "dot_discard ev_rd ev_unrd k 0 (d, events b) = Some (r, d', events b')"
    using buf.dot_discard_sim [of b k 0 d] ok by (auto simp: t)
  show "\<exists>r t'. DotReader_Discard k t = Some (r, t') \<and> wf (snd t') \<and> bsz t' \<le> bsz t \<and>
          (False \<longrightarrow> bsz t' < bsz t)"
    using s(1,2) dot_discard_size [OF s(3)] by (simp add: DotReader_Discard_def t bsz_def)
qed

text \<open>
  The loops over the bytes of a line all have the same shape: read a byte, and for a byte stop or go on
  with a new state.
\<close>

lemma byte_loop_reads:
  assumes step: "\<And>s t. f s t = Option.bind (DotReader_ReadByte t) (\<lambda>(r, t). case r of
      Inl e \<Rightarrow> Some (stop_err s e, t)
    | Inr x \<Rightarrow> (case go s x of Inl s' \<Rightarrow> f s' t | Inr r \<Rightarrow> Some (r, t)))"
    and err: "\<And>s e. P (stop_err s e) \<Longrightarrow> False"
  shows "reads (f s) P"
  unfolding reads_def
proof (intro allI impI)
  fix t :: block
  assume "wf (snd t)"
  then show "\<exists>r t'. f s t = Some (r, t') \<and> wf (snd t') \<and> bsz t' \<le> bsz t \<and> (P r \<longrightarrow> bsz t' < bsz t)"
  proof (induction "bsz t" arbitrary: s t rule: less_induct)
    case less
    obtain r t1 where r: "DotReader_ReadByte t = Some (r, t1)" "wf (snd t1)" "bsz t1 \<le> bsz t"
      "(\<exists>x. r = Inr x) \<Longrightarrow> bsz t1 < bsz t"
      using readsD [OF ReadByte_reads less.prems] by blast
    show ?case
    proof (cases r)
      case (Inl e)
      then show ?thesis using r err by (subst step) (auto split: prod.splits)
    next
      case (Inr x)
      then have lt: "bsz t1 < bsz t" using r(4) by blast
      show ?thesis
      proof (cases "go s x")
        case (Inl s')
        obtain r' t' where t': "f s' t1 = Some (r', t')" "wf (snd t')" "bsz t' \<le> bsz t1"
          using less.hyps [OF lt r(2)] by blast
        then show ?thesis using r(1) Inr Inl lt by (subst step) auto
      next
        case (Inr y)
        then show ?thesis using r(1,2) \<open>r = Inr x\<close> lt by (subst step) auto
      qed
    qed
  qed
qed

text \<open>A result that is an error of the reader is the only one that need not have moved forward.\<close>

abbreviation no_io :: "cerr option \<Rightarrow> bool" where
  "no_io e \<equiv> \<forall>x. e \<noteq> Some (IoErr x)"

lemma dot_line_reads: "reads (dot_line s) (\<lambda>(p, e). no_io e)"
  by (rule byte_loop_reads [where stop_err = "\<lambda>p e. (p, Some (IoErr e))" and
        go = "\<lambda>p x. if x = LF then Inr (p, None)
                    else if length p \<ge> 512 then Inr (p, Some errTooLargeResponse) else Inl (p @ [x])"])
    (subst dot_line.simps, auto intro!: Option.bind_cong split: sum.splits)

lemma readDotLine_reads: "reads readDotLine (\<lambda>(p, e). no_io e)"
  unfolding readDotLine_def by (rule dot_line_reads)

lemma group_line_reads: "reads (\<lambda>t. group_line p en t) (\<lambda>(p, e). no_io e)"
proof -
  have "reads ((\<lambda>(p, en) t. group_line p en t) (p, en)) (\<lambda>(p, e). no_io e)"
    by (rule byte_loop_reads [where stop_err = "\<lambda>(p, en) e. (take en p, Some (IoErr e))" and
        go = "\<lambda>(p, en) x. if x = LF then
            (let en = (if en = 0 then length p else en) in
             Inr (if en = 0 \<or> \<not> FullValidGroupSlice (take en p)
                  then ([], Some (Errorf (bs ''bad group'') (take en p))) else (take en p, None)))
          else if en = 0 then (if x = SP \<or> x = TAB then Inl (p, length p)
            else if length p \<ge> 512 then Inr ([], Some errTooLargeResponse) else Inl (p @ [x], en))
          else Inl (p, en)"])
      ((simp only: split_paired_all prod.case, subst group_line.simps,
        auto intro!: Option.bind_cong simp: Let_def split: sum.splits)[1], auto)
  then show ?thesis by simp
qed

lemma readOnlyNewsgroup_reads: "reads readOnlyNewsgroup (\<lambda>(p, e). no_io e)"
  unfolding readOnlyNewsgroup_def by (rule group_line_reads)

lemma eat_field_reads: "reads (\<lambda>t. eat_field p i t) (\<lambda>(p, e, m, i). no_io e)"
proof -
  have "reads ((\<lambda>(p, i) t. eat_field p i t) (p, i)) (\<lambda>(p, e, m, i). no_io e)"
    by (rule byte_loop_reads [where stop_err = "\<lambda>(p, i) e. ([], Some (IoErr e), False, i)" and
        go = "\<lambda>(p, i) x. if x = LF then Inr (p, None, True, i) else if x = TAB then Inr (p, None, False, i)
          else if i \<ge> 512 then Inr ([], Some errTooLargeResponse, False, i) else Inl (p @ [x], i + 1)"])
      (clarsimp, subst eat_field.simps, auto intro!: Option.bind_cong split: sum.splits)
  then show ?thesis by simp
qed

lemma ignore_field_reads: "reads ignore_field (\<lambda>(e, m). no_io e)"
proof -
  have "reads ((\<lambda>_ :: unit. ignore_field) ()) (\<lambda>(e, m). no_io e)"
    by (rule byte_loop_reads [where stop_err = "\<lambda>_ e. (Some (IoErr e), False)" and
        go = "\<lambda>_ x. if x = LF then Inr (None, True) else if x = TAB then Inr (None, False) else Inl ()"])
      (subst ignore_field.simps, auto intro!: Option.bind_cong split: sum.splits)
  then show ?thesis by simp
qed

lemma skip_line_reads: "reads skip_line (\<lambda>e. e = None)"
proof -
  have "reads ((\<lambda>_ :: unit. skip_line) ()) (\<lambda>e. e = None)"
    by (rule byte_loop_reads [where stop_err = "\<lambda>_ e. Some e" and
        go = "\<lambda>_ x. if x = LF then Inr None else Inl ()"])
      (subst skip_line.simps, auto intro!: Option.bind_cong split: sum.splits)
  then show ?thesis by simp
qed

subsection \<open>Composition\<close>

lemma reads_return: "\<not> P r \<Longrightarrow> reads (\<lambda>t. Some (r, t)) P"
  by (simp add: reads_def)

lemma reads_bind:
  assumes f: "reads f P" and g: "\<And>r. reads (g r) (\<lambda>r'. Q r' \<and> \<not> P r)"
  shows "reads (\<lambda>t. Option.bind (f t) (case_prod g)) Q"
  unfolding reads_def
proof (intro allI impI)
  fix t :: block
  assume "wf (snd t)"
  then obtain r t1 where r: "f t = Some (r, t1)" "wf (snd t1)" "bsz t1 \<le> bsz t" "P r \<Longrightarrow> bsz t1 < bsz t"
    by (rule readsD [OF f]) blast
  obtain r' t2 where r': "g r t1 = Some (r', t2)" "wf (snd t2)" "bsz t2 \<le> bsz t1"
    "Q r' \<and> \<not> P r \<Longrightarrow> bsz t2 < bsz t1"
    by (rule readsD [OF g r(2)]) blast
  show "\<exists>r' t'. Option.bind (f t) (case_prod g) = Some (r', t') \<and> wf (snd t') \<and> bsz t' \<le> bsz t \<and>
      (Q r' \<longrightarrow> bsz t' < bsz t)"
    using r r' by fastforce
qed

lemma reads_if: "(b \<Longrightarrow> reads f P) \<Longrightarrow> (\<not> b \<Longrightarrow> reads g P) \<Longrightarrow> reads (\<lambda>t. if b then f t else g t) P"
  by (cases b) auto

lemma reads_weaken: "reads f P \<Longrightarrow> (\<And>r. \<not> Q r) \<Longrightarrow> reads f Q"
  by (erule reads_mono) simp

lemma eatField_reads: "reads (eatField m i) (\<lambda>(p, e, m', i'). no_io e \<and> \<not> m)"
proof (cases m)
  case True
  then show ?thesis by (simp add: eatField_def [abs_def] reads_return)
next
  case False
  then show ?thesis using eat_field_reads [of "[]" i] by (simp add: eatField_def [abs_def])
qed

lemma ignore_fields_reads: "reads (ignore_fields n) (\<lambda>_. False)"
proof (induction n)
  case 0
  then show ?case by (simp add: reads_return)
next
  case (Suc n)
  show ?case
    unfolding ignore_fields.simps
    by (rule reads_bind [OF ignore_field_reads])
      (auto intro!: reads_if reads_return reads_weaken [OF Suc])
qed

lemma over_fields_reads: "reads over_fields (\<lambda>(oi, e, m). no_io e)"
  unfolding over_fields_def Let_def
  by (rule reads_bind [OF eatField_reads])
    (auto intro!: reads_if reads_return reads_bind [OF eatField_reads] reads_bind [OF ignore_fields_reads])

lemma getOverLineInfo_reads: "reads getOverLineInfo (\<lambda>(oi, e, m). no_io e)"
  unfolding getOverLineInfo_def
  by (rule reads_bind [OF over_fields_reads])
    (auto intro!: reads_if reads_return reads_bind [OF skip_line_reads] simp: case_prod_beta)

text \<open>An error that is not fatal and not the end of the block leaves the reader past the line.\<close>

lemma getOverLineInfo_fatal:
  "getOverLineInfo t = Some ((oi, Some (IoErr x), fatal), t') \<Longrightarrow> x \<noteq> EOF \<Longrightarrow> fatal"
  by (auto simp: getOverLineInfo_def fatal_err_def bind_eq_Some_conv split: if_splits option.splits cerr.splits)

lemma eatHdrMsgIDLine_reads: "reads eatHdrMsgIDLine (\<lambda>(i, m, e). no_io e)"
  unfolding eatHdrMsgIDLine_def
  by (rule reads_bind [OF readDotLine_reads]) (auto intro!: reads_return)

end
