(* ===== verification/NntpPullLaws.thy ===== *)
theory NntpPullLaws
  imports NntpClientLaws
begin

text \<open>
  Every operation of the puller returns: whatever the server sends, whatever the schedule and whatever
  the database answers. The interface \<open>puller_db\<close> has what the scan needs of a database: the groups it
  hands out run out, and no other call brings more.

  \<open>fwd op K n f P\<close> says that \<open>f\<close>, started where less than \<open>n\<close> of the input is left (\<open>csz\<close>) and, if \<open>op\<close>,
  with an open block, returns without growing what is left, makes it smaller when its result satisfies
  \<open>P\<close>, and keeps \<open>K\<close>, a property of the database and the list of articles.
\<close>

definition csz :: "'a NNTPClient_scheme \<Rightarrow> nat" where
  "csz c = bsz (case cdr c of Some d \<Rightarrow> d | None \<Rightarrow> NewDotReader, cr c)"

definition fwd ::
  "bool \<Rightarrow> ('d \<Rightarrow> todoArticle list \<Rightarrow> bool) \<Rightarrow> nat \<Rightarrow> ('d NNTPPuller \<Rightarrow> ('r \<times> 'd NNTPPuller) option) \<Rightarrow>
   ('r \<Rightarrow> bool) \<Rightarrow> bool" where
  "fwd op K n f P \<longleftrightarrow>
     (\<forall>c. wf (cr c) \<longrightarrow> (op \<longrightarrow> cdr c \<noteq> None) \<longrightarrow> K (db c) (todoList c) \<longrightarrow> csz c < n \<longrightarrow>
        (\<exists>r c'. f c = Some (r, c') \<and> wf (cr c') \<and> (cdr c \<noteq> None \<longrightarrow> cdr c' \<noteq> None) \<and>
           K (db c') (todoList c') \<and> csz c' \<le> csz c \<and> (P r \<longrightarrow> csz c' < csz c)))"

lemma fwdI:
  assumes "\<And>c. wf (cr c) \<Longrightarrow> op \<longrightarrow> cdr c \<noteq> None \<Longrightarrow> K (db c) (todoList c) \<Longrightarrow> csz c < n \<Longrightarrow>
    \<exists>r c'. f c = Some (r, c') \<and> wf (cr c') \<and> (cdr c \<noteq> None \<longrightarrow> cdr c' \<noteq> None) \<and>
           K (db c') (todoList c') \<and> csz c' \<le> csz c \<and> (P r \<longrightarrow> csz c' < csz c)"
  shows "fwd op K n f P"
  using assms by (simp add: fwd_def)

lemma fwdD:
  assumes "fwd op K n f P" and "wf (cr c)" and "op \<longrightarrow> cdr c \<noteq> None" and "K (db c) (todoList c)"
    and "csz c < n"
  obtains r c' where "f c = Some (r, c')" "wf (cr c')" "cdr c \<noteq> None \<longrightarrow> cdr c' \<noteq> None"
    "K (db c') (todoList c')" "csz c' \<le> csz c" "P r \<Longrightarrow> csz c' < csz c"
  using assms unfolding fwd_def by blast

subsection \<open>Rules\<close>

lemma fwd_mono: "fwd op K n f P \<Longrightarrow> (\<And>r. Q r \<Longrightarrow> P r) \<Longrightarrow> fwd op K n f Q"
  by (rule fwdI, erule fwdD) auto

lemma fwd_open: "fwd False K n f P \<Longrightarrow> fwd op K n f P"
  by (rule fwdI, erule fwdD) auto

lemma fwd_le: "fwd op K n f P \<Longrightarrow> m \<le> n \<Longrightarrow> fwd op K m f P"
  by (rule fwdI, erule fwdD) auto

lemma fwd_0: "fwd op K 0 f P"
  by (simp add: fwd_def)

lemma fwd_return: "\<not> P r \<Longrightarrow> fwd op K n (\<lambda>c. Some (r, c)) P"
  by (rule fwdI) simp

lemma fwd_bind:
  fixes K :: "'d \<Rightarrow> todoArticle list \<Rightarrow> bool"
  assumes f: "fwd op K n f P" and R: "\<And>c r c'. f c = Some (r, c') \<Longrightarrow> R r"
    and P: "\<And>r. P r \<Longrightarrow> R r \<Longrightarrow> fwd op K (n - 1) (g r) (\<lambda>_. False)"
    and NP: "\<And>r. \<not> P r \<Longrightarrow> R r \<Longrightarrow> fwd op K n (g r) Q"
  shows "fwd op K n (\<lambda>c. Option.bind (f c) (case_prod g)) Q"
proof (rule fwdI)
  fix c :: "'d NNTPPuller"
  assume c: "wf (cr c)" "op \<longrightarrow> cdr c \<noteq> None" "K (db c) (todoList c)" "csz c < n"
  obtain r c1 where r: "f c = Some (r, c1)" "wf (cr c1)" "cdr c \<noteq> None \<longrightarrow> cdr c1 \<noteq> None"
    "K (db c1) (todoList c1)" "csz c1 \<le> csz c" "P r \<Longrightarrow> csz c1 < csz c"
    using fwdD [OF f c] by blast
  have o1: "op \<longrightarrow> cdr c1 \<noteq> None" using c(2) r(3) by blast
  show "\<exists>r c'. Option.bind (f c) (case_prod g) = Some (r, c') \<and> wf (cr c') \<and>
      (cdr c \<noteq> None \<longrightarrow> cdr c' \<noteq> None) \<and> K (db c') (todoList c') \<and> csz c' \<le> csz c \<and> (Q r \<longrightarrow> csz c' < csz c)"
  proof (cases "P r")
    case True
    then have lt: "csz c1 < csz c" "csz c1 < n - 1" using r(6) c(4) by auto
    show ?thesis
      by (rule fwdD [OF P [OF True R [OF r(1)]] r(2) o1 r(4) lt(2)]) (use r lt in auto)
  next
    case False
    have lt: "csz c1 < n" using r(5) c(4) by linarith
    show ?thesis
      by (rule fwdD [OF NP [OF False R [OF r(1)]] r(2) o1 r(4) lt]) (use r in auto)
  qed
qed

lemmas fwd_seq = fwd_bind [where R = "\<lambda>_. True", simplified]

lemma fwd_loop:
  assumes "\<And>n s. (\<And>s. fwd op K n (f s) (\<lambda>_. False)) \<Longrightarrow> fwd op K (Suc n) (f s) P"
  shows "fwd op K n (f s) P"
proof (cases n)
  case 0
  then show ?thesis by (simp add: fwd_0)
next
  case (Suc m)
  have "fwd op K m (f s) (\<lambda>_. False)" for m s
    by (induction m arbitrary: s) (auto intro: fwd_0 fwd_mono [OF assms])
  then show ?thesis unfolding Suc by (rule assms)
qed

lemma fwd_loop1:
  assumes "\<And>n. fwd op K n f (\<lambda>_. False) \<Longrightarrow> fwd op K (Suc n) f P"
  shows "fwd op K n f P"
  using fwd_loop [of op K "\<lambda>_ :: unit. f" P] assms by blast

lemma fwd_dep: "(\<And>x. fwd op K n (F x) P) \<Longrightarrow> fwd op K n (\<lambda>c. F (h c) c) P"
  unfolding fwd_def by blast

lemma fwd_if:
  "(b \<Longrightarrow> fwd op K n f P) \<Longrightarrow> (\<not> b \<Longrightarrow> fwd op K n g P) \<Longrightarrow> fwd op K n (\<lambda>c. if b then f c else g c) P"
  by (cases b) auto

lemma fwd_case_option:
  "(x = None \<Longrightarrow> fwd op K n f P) \<Longrightarrow> (\<And>e. x = Some e \<Longrightarrow> fwd op K n (g e) P) \<Longrightarrow>
   fwd op K n (\<lambda>c. case x of None \<Rightarrow> f c | Some e \<Rightarrow> g e c) P"
  by (cases x) auto

lemma fwd_case_sum:
  "(\<And>e. x = Inl e \<Longrightarrow> fwd op K n (f e) P) \<Longrightarrow> (\<And>e. x = Inr e \<Longrightarrow> fwd op K n (g e) P) \<Longrightarrow>
   fwd op K n (\<lambda>c. case x of Inl e \<Rightarrow> f e c | Inr e \<Rightarrow> g e c) P"
  by (cases x) auto

lemma fwd_case_bool:
  "(x \<Longrightarrow> fwd op K n f P) \<Longrightarrow> (\<not> x \<Longrightarrow> fwd op K n g P) \<Longrightarrow>
   fwd op K n (\<lambda>c. case x of True \<Rightarrow> f c | False \<Rightarrow> g c) P"
  by (cases x) auto

lemma csz_cs [simp]: "csz (c\<lparr>cs := s\<rparr>) = csz c" "csz (c\<lparr>sent := x\<rparr>) = csz c" "csz (c\<lparr>sroom := y\<rparr>) = csz c"
  by (simp_all add: csz_def)

lemma csz_puller [simp]:
  "csz ((c :: 'd NNTPPuller)\<lparr>db := d\<rparr>) = csz c" "csz (c\<lparr>todoList := l\<rparr>) = csz c" "csz (c\<lparr>coins := k\<rparr>) = csz c"
  by (simp_all add: csz_def)

lemma fwd_cs: "fwd op K n f P \<Longrightarrow> fwd op K n (\<lambda>c. f (c\<lparr>cs := h c\<rparr>)) P"
  by (rule fwdI, erule_tac c = "c\<lparr>cs := h c\<rparr>" in fwdD) auto

lemma fwd_return_cs: "\<not> P r \<Longrightarrow> fwd op K n (\<lambda>c. Some (r, c\<lparr>cs := h c\<rparr>)) P"
  by (rule fwdI) simp

lemma openDotReader_simps [simp]:
  "cr (openDotReader c) = cr c" "cdr (openDotReader c) \<noteq> None" "csz (openDotReader c) \<le> csz c"
  by (auto simp: openDotReader_def csz_def bsz_def dot_size_def Reset_def NewDotReader_def split: option.splits)

lemma openDotReader_puller [simp]:
  "db (openDotReader c) = db c" "todoList (openDotReader c) = todoList c" "cs (openDotReader c) = cs c"
  "coins (openDotReader c) = coins c" "sent (openDotReader c) = sent c"
  by (auto simp: openDotReader_def split: option.splits)

lemma fwd_opened: "fwd True K n f P \<Longrightarrow> fwd op K n (\<lambda>c. f (openDotReader c)) P"
  by (rule fwdI, erule_tac c = "openDotReader c" in fwdD)
    (auto intro: le_less_trans [OF openDotReader_simps(3)] order_trans [OF _ openDotReader_simps(3)]
      less_le_trans [OF _ openDotReader_simps(3)])

lemma SendLine_cases:
  obtains e where "SendLine l c = (Some e, c)"
  | m where "SendLine l c = (None, c\<lparr>sent := sent c @ [l], sroom := m\<rparr>)"
proof (cases "sroom c")
  case None
  then have "SendLine l c = (None, c\<lparr>sent := sent c @ [l], sroom := None\<rparr>)" by (simp add: SendLine_def)
  then show ?thesis by (rule that(2))
next
  case (Some k)
  then show ?thesis using that by (cases k) (auto simp: SendLine_def)
qed

lemma fwd_send:
  fixes K :: "'d \<Rightarrow> todoArticle list \<Rightarrow> bool"
  assumes "\<And>e. fwd op K n (A e) P" and "fwd op K n B P"
  shows "fwd op K n (\<lambda>c. case SendLine l c of (x, c) \<Rightarrow> (case x of None \<Rightarrow> B c | Some e \<Rightarrow> A e c)) P"
proof (rule fwdI)
  fix c :: "'d NNTPPuller"
  assume c: "wf (cr c)" "op \<longrightarrow> cdr c \<noteq> None" "K (db c) (todoList c)" "csz c < n"
  show "\<exists>r c'. (case SendLine l c of (x, c) \<Rightarrow> (case x of None \<Rightarrow> B c | Some e \<Rightarrow> A e c)) = Some (r, c') \<and>
      wf (cr c') \<and> (cdr c \<noteq> None \<longrightarrow> cdr c' \<noteq> None) \<and> K (db c') (todoList c') \<and> csz c' \<le> csz c \<and>
      (P r \<longrightarrow> csz c' < csz c)"
  proof (cases rule: SendLine_cases [of l c])
    case (1 e)
    show ?thesis unfolding 1 prod.case option.case by (rule fwdD [OF assms(1) c]) blast
  next
    case (2 m)
    show ?thesis unfolding 2 prod.case option.case
      by (rule fwdD [OF assms(2), of "c\<lparr>sent := sent c @ [l], sroom := m\<rparr>"]) (use c in auto)
  qed
qed

lemma fwd_db:
  fixes K :: "'d \<Rightarrow> todoArticle list \<Rightarrow> bool"
  assumes "\<And>d l. K d l \<Longrightarrow> K (snd (g d)) l" and "\<And>r. fwd op K n (F r) P"
  shows "fwd op K n (\<lambda>c. case on_db g c of (r, c) \<Rightarrow> F r c) P"
proof (rule fwdI)
  fix c :: "'d NNTPPuller"
  assume c: "wf (cr c)" "op \<longrightarrow> cdr c \<noteq> None" "K (db c) (todoList c)" "csz c < n"
  obtain r d where r: "g (db c) = (r, d)" by (cases "g (db c)")
  then show "\<exists>x c'. (case on_db g c of (r, c) \<Rightarrow> F r c) = Some (x, c') \<and> wf (cr c') \<and>
      (cdr c \<noteq> None \<longrightarrow> cdr c' \<noteq> None) \<and> K (db c') (todoList c') \<and> csz c' \<le> csz c \<and> (P x \<longrightarrow> csz c' < csz c)"
    using fwdD [OF assms(2) [of r], of "c\<lparr>db := d\<rparr>"] c assms(1) [OF c(3)] by (simp add: on_db_def) blast
qed

lemma fwd_return_db:
  assumes "\<And>d l. K d l \<Longrightarrow> K (snd (g d)) l" and "\<not> P r"
  shows "fwd op K n (\<lambda>c. Some (r, snd (on_db g c))) P"
  using fwd_db [of K g op n "\<lambda>_ c. Some (r, c)" P, OF assms(1) fwd_return, OF _ assms(2)]
  by (simp add: case_prod_beta)

lemma fwd_block:
  fixes K :: "'d \<Rightarrow> todoArticle list \<Rightarrow> bool"
  assumes "reads f P"
  shows "fwd True K n (on_block f) P"
proof (rule fwdI)
  fix c :: "'d NNTPPuller"
  assume c: "wf (cr c)" "True \<longrightarrow> cdr c \<noteq> None" "K (db c) (todoList c)" "csz c < n"
  then obtain d where d: "cdr c = Some d" by blast
  obtain r t' where r: "f (d, cr c) = Some (r, t')" "wf (snd t')" "bsz t' \<le> bsz (d, cr c)"
    "P r \<Longrightarrow> bsz t' < bsz (d, cr c)"
    using readsD [OF assms, of "(d, cr c)"] c(1) by auto
  then show "\<exists>r c'. on_block f c = Some (r, c') \<and> wf (cr c') \<and> (cdr c \<noteq> None \<longrightarrow> cdr c' \<noteq> None) \<and>
      K (db c') (todoList c') \<and> csz c' \<le> csz c \<and> (P r \<longrightarrow> csz c' < csz c)"
    using c(3) d by (cases t') (simp add: on_block_def csz_def)
qed

lemma fwd_discard:
  assumes "fwd True K n F P"
  shows "fwd True K n (\<lambda>c. Option.bind (discard_rest c) F) P"
proof -
  have "fwd True K n (\<lambda>c. Option.bind (on_block (DotReader_Discard (- 1)) c) (case_prod (\<lambda>_. F))) P"
    by (rule fwd_seq [OF fwd_block [OF Discard_reads]]) (use assms in auto)
  moreover have "Option.bind (discard_rest c) F =
      Option.bind (on_block (DotReader_Discard (- 1)) c) (case_prod (\<lambda>_. F))" for c
    by (cases "on_block (DotReader_Discard (- 1)) c") (auto simp: discard_rest_def)
  ultimately show ?thesis by simp
qed

subsection \<open>Responses\<close>

lemma until_spec_length:
  "until_spec n q es = ((p, e), es') \<Longrightarrow> length es' + length p \<le> length es \<and> (e = None \<longrightarrow> p \<noteq> [])"
  by (induction n q es arbitrary: p rule: until_spec.induct) (auto split: if_splits prod.splits)

lemma readLine_fwd:
  fixes K :: "'d \<Rightarrow> todoArticle list \<Rightarrow> bool"
  shows "fwd op K n readLine (\<lambda>l. \<exists>x. l = Inr x)"
proof (rule fwdI)
  fix c :: "'d NNTPPuller"
  assume c: "wf (cr c)" "op \<longrightarrow> cdr c \<noteq> None" "K (db c) (todoList c)" "csz c < n"
  obtain p e r where u: "ReadUntil 512 LF (cr c) = Some ((p, e), r)" "wf r"
    "until_spec 512 LF (events (cr c)) = ((p, e), events r)"
    using ReadUntil_spec [OF c(1)] by blast
  have "length (events r) \<le> length (events (cr c))" "e = None \<longrightarrow> length (events r) < length (events (cr c))"
    using until_spec_length [OF u(3)] by (cases p; auto)+
  then have "csz (c\<lparr>cr := r\<rparr>) \<le> csz c" "e = None \<longrightarrow> csz (c\<lparr>cr := r\<rparr>) < csz c"
    unfolding csz_def bsz_def dot_size_def by auto
  then show "\<exists>l c'. readLine c = Some (l, c') \<and> wf (cr c') \<and> (cdr c \<noteq> None \<longrightarrow> cdr c' \<noteq> None) \<and>
      K (db c') (todoList c') \<and> csz c' \<le> csz c \<and> ((\<exists>x. l = Inr x) \<longrightarrow> csz c' < csz c)"
    using u(1,2) c(3) by (simp add: readLine_def split: option.split)
qed

lemma readResponse_fwd:
  fixes K :: "'d \<Rightarrow> todoArticle list \<Rightarrow> bool"
  shows "fwd op K n readResponse (\<lambda>(code, rest, e, fatal). \<not> fatal)"
proof (rule fwdI)
  fix c :: "'d NNTPPuller"
  assume c: "wf (cr c)" "op \<longrightarrow> cdr c \<noteq> None" "K (db c) (todoList c)" "csz c < n"
  obtain l c1 where l: "readLine c = Some (l, c1)" "wf (cr c1)" "cdr c \<noteq> None \<longrightarrow> cdr c1 \<noteq> None"
    "K (db c1) (todoList c1)" "csz c1 \<le> csz c" "\<exists>x. l = Inr x \<Longrightarrow> csz c1 < csz c"
    by (rule fwdD [OF readLine_fwd, of c op K n, OF c]) blast
  then show "\<exists>l c'. readResponse c = Some (l, c') \<and> wf (cr c') \<and> (cdr c \<noteq> None \<longrightarrow> cdr c' \<noteq> None) \<and>
      K (db c') (todoList c') \<and> csz c' \<le> csz c \<and>
      ((case l of (code, rest, e, fatal) \<Rightarrow> \<not> fatal) \<longrightarrow> csz c' < csz c)"
    by (cases l) (auto simp: readResponse_def split: prod.splits)
qed

text \<open>A response that was not understood or out of range is not fatal; a broken connection is.\<close>

lemma readResponse_fatal: "readResponse c = Some ((code, rest, e, True), c') \<Longrightarrow> e \<noteq> None"
  by (cases "readLine c") (auto simp: readResponse_def split: sum.splits prod.splits)

lemma response_seq:
  "(\<And>code rest e. fwd op K (n - 1) (g (code, rest, e, False)) (\<lambda>_. False)) \<Longrightarrow>
   (\<And>code rest e. fwd op K n (g (code, rest, Some e, True)) P) \<Longrightarrow>
   fwd op K n (\<lambda>c. Option.bind (readResponse c) (case_prod g)) P"
  by (rule fwd_bind [OF readResponse_fwd, where R = "\<lambda>(code, rest, e, fatal). fatal \<longrightarrow> e \<noteq> None"])
    (auto dest: readResponse_fatal)

lemma fwd_Some_if:
  "(b \<Longrightarrow> fwd op K n (\<lambda>c. Some (f c)) P) \<Longrightarrow> (\<not> b \<Longrightarrow> fwd op K n (\<lambda>c. Some (g c)) P) \<Longrightarrow>
   fwd op K n (\<lambda>c. Some (if b then f c else g c)) P"
  by (cases b) auto

lemma fwd_Some_option:
  "(x = None \<Longrightarrow> fwd op K n (\<lambda>c. Some (f c)) P) \<Longrightarrow>
   (\<And>e. x = Some e \<Longrightarrow> fwd op K n (\<lambda>c. Some (g e c)) P) \<Longrightarrow>
   fwd op K n (\<lambda>c. Some (case x of None \<Rightarrow> f c | Some e \<Rightarrow> g e c)) P"
  by (cases x) auto

lemmas fwd_rules = fwd_if fwd_case_option fwd_case_sum fwd_case_bool fwd_return fwd_return_cs
  fwd_Some_if fwd_Some_option

lemma handleInitial_fwd: "fwd op K n handleInitial (\<lambda>_. False)"
  unfolding handleInitial_def
  by (rule fwd_seq [OF readResponse_fwd]) (auto intro!: fwd_rules)

lemma modeReader_fwd: "fwd op K n modeReader (\<lambda>_. False)"
  unfolding modeReader_def
  by (intro fwd_send fwd_return fwd_seq [OF readResponse_fwd]) (auto intro!: fwd_rules)

lemma doGroup_fwd: "fwd op K n (doGroup g) (\<lambda>_. False)"
  unfolding doGroup_def
  by (intro fwd_send fwd_return fwd_seq [OF readResponse_fwd])
    (auto intro!: fwd_return)

lemma caps_loop_fwd: "fwd True K n caps_loop (\<lambda>_. False)"
proof (rule fwd_loop1)
  fix n
  assume IH: "fwd True K n caps_loop (\<lambda>_. False)"
  show "fwd True K (Suc n) caps_loop (\<lambda>_. False)"
    by (subst caps_loop.simps [abs_def], rule fwd_seq [OF fwd_block [OF readDotLine_reads]])
      (auto intro!: fwd_rules fwd_discard fwd_cs IH)
qed

lemma doCapabilities_fwd: "fwd op K n doCapabilities (\<lambda>_. False)"
proof -
  have body: "fwd op K n (\<lambda>c. Option.bind (caps_loop (openDotReader c)) (\<lambda>(e, c). Some ((e, False), c))) (\<lambda>_. False)"
    for n by (rule fwd_opened, rule fwd_seq [OF caps_loop_fwd]) (auto intro!: fwd_return)
  show ?thesis
    unfolding doCapabilities_def
    by (intro fwd_send fwd_return fwd_seq [OF readResponse_fwd]) (auto intro!: fwd_rules body)
qed

subsection \<open>The database\<close>

text \<open>
  \<open>rows d\<close> bounds how many more groups \<open>LoadTempGroup\<close> will hand out.
\<close>

locale puller_db =
  fixes D :: "('d, 'w) PullerDatabase"
    and rows :: "'d \<Rightarrow> nat"
  assumes load: "LoadTempGroup D d = (Inr g, d') \<Longrightarrow> rows d' < rows d"
    and update: "rows (snd (UpdateGroupID D gn i d)) \<le> rows d"
    and wanted: "rows (snd (IsArticleWanted D m gn d)) \<le> rows d"
    and exists_: "rows (snd (DoesReferenceExist D m d)) \<le> rows d"
    and article: "(r, d') \<in> set_reading (ReadArticle D m gn w d) \<Longrightarrow> rows d' \<le> rows d"

subsection \<open>The list of groups\<close>

abbreviation any :: "'d \<Rightarrow> todoArticle list \<Rightarrow> bool" where
  "any \<equiv> \<lambda>_ _. True"

lemma store_split:
  "(case if b then on_db f c else on_db g c of (e, c) \<Rightarrow> F e c) =
   (if b then (case on_db f c of (e, c) \<Rightarrow> F e c) else (case on_db g c of (e, c) \<Rightarrow> F e c))"
  by simp

lemma active_loop_fwd: "fwd True any n (active_loop D) (\<lambda>_. False)"
proof (rule fwd_loop1)
  fix n
  assume IH: "fwd True any n (active_loop D) (\<lambda>_. False)"
  have body: "fwd True any n (\<lambda>c. let hiwm = list_hiwm (workaroundStupidActiveList (cs c)) xhiwm lowm;
               (r, c) = on_db (GetGroupID D gname) c
           in case r of
                Inl e \<Rightarrow> Some (Some (ErrWrap (bs ''GetGroupID() failed'') e), c)
              | Inr old_id \<Rightarrow>
                if sint old_id < 0 then active_loop D c
                else
                  (let (e, c) = (if sint hiwm \<ge> 0 then on_db (StoreTempGroupID D gname hiwm) c
                                 else on_db (StoreTempGroup D gname) c)
                   in case e of
                        Some e \<Rightarrow> Some (Some (ErrWrap (bs ''StoreTempGroup() failed'') e), c)
                      | None \<Rightarrow> active_loop D c)) (\<lambda>_. False)" for gname xhiwm lowm
    unfolding Let_def store_split
    by (rule fwd_dep [where h = "\<lambda>c. workaroundStupidActiveList (cs c)"], intro fwd_db fwd_rules IH) auto
  show "fwd True any (Suc n) (active_loop D) (\<lambda>_. False)"
    by (subst active_loop.simps [abs_def], rule fwd_seq [OF fwd_block [OF readDotLine_reads]])
      (auto intro!: fwd_rules body)
qed

lemma newsgroups_loop_fwd: "fwd True any n (newsgroups_loop D) (\<lambda>_. False)"
proof (rule fwd_loop1)
  fix n
  assume IH: "fwd True any n (newsgroups_loop D) (\<lambda>_. False)"
  have body: "fwd True any n (\<lambda>c. let (r, c) = on_db (GetGroupID D gname) c in
        case r of
          Inl e \<Rightarrow> Some (Some (ErrWrap (bs ''GetGroupID() failed'') e), c)
        | Inr old_id \<Rightarrow>
          if sint old_id < 0 then newsgroups_loop D c
          else
            (let (e, c) = on_db (StoreTempGroup D gname) c in
             case e of
               Some e \<Rightarrow> Some (Some (ErrWrap (bs ''StoreTempGroup() failed'') e), c)
             | None \<Rightarrow> newsgroups_loop D c)) (\<lambda>_. False)" for gname
    unfolding Let_def by (intro fwd_db fwd_rules IH) auto
  show "fwd True any (Suc n) (newsgroups_loop D) (\<lambda>_. False)"
    by (subst newsgroups_loop.simps [abs_def], rule fwd_seq [OF fwd_block [OF readOnlyNewsgroup_reads]])
      (auto intro!: fwd_rules body)
qed

lemma temp_groups_fwd:
  assumes "fwd True any n f (\<lambda>_. False)"
  shows "fwd op any n (temp_groups D f) (\<lambda>_. False)"
proof -
  have fin: "fwd True any n (\<lambda>c. Option.bind (discard_rest c) (\<lambda>c. Some ((e, False), c))) (\<lambda>_. False)" for e
    by (intro fwd_discard fwd_return) simp
  have tail: "fwd True any n (\<lambda>c. case (case e of
               None \<Rightarrow> (case on_db (FinishTempGroups D False) c of
                  (e, c) \<Rightarrow> (map_option (ErrWrap (bs ''FinishTempGroups() failed'')) e, c))
             | Some e \<Rightarrow> (Some e, snd (on_db (CancelTempGroups D) c))) of
           (e, c) \<Rightarrow> if e = None then Some ((None, False), c)
             else Option.bind (discard_rest c) (\<lambda>c. Some ((e, False), c))) (\<lambda>_. False)" for e
  proof (cases e)
    case None
    have "fwd True any n (\<lambda>c. case on_db (FinishTempGroups D False) c of (e, c) \<Rightarrow>
        if map_option (ErrWrap (bs ''FinishTempGroups() failed'')) e = None then Some ((None, False), c)
        else Option.bind (discard_rest c)
          (\<lambda>c. Some ((map_option (ErrWrap (bs ''FinishTempGroups() failed'')) e, False), c))) (\<lambda>_. False)"
      by (intro fwd_db fwd_if fwd_return fin) auto
    then show ?thesis unfolding None by (simp add: case_prod_beta del: bs_Cons cong: if_cong)
  next
    case (Some x)
    have "fwd True any n (\<lambda>c. case on_db (CancelTempGroups D) c of (_, c) \<Rightarrow>
        Option.bind (discard_rest c) (\<lambda>c. Some ((Some x, False), c))) (\<lambda>_. False)"
      by (intro fwd_db fin) auto
    then show ?thesis unfolding Some by (simp add: case_prod_beta)
  qed
  show ?thesis
    unfolding temp_groups_def Let_def
    by (rule fwd_opened, intro fwd_db fwd_case_option fwd_discard fwd_return fwd_seq [OF assms] tail) auto
qed

text \<open>A successful list took at least the response off the input.\<close>

lemma doActiveList_fwd: "fwd op any n (doActiveList D) (\<lambda>(e, fatal). e = None)"
  unfolding doActiveList_def
  by (intro fwd_send fwd_return response_seq)
    (auto intro!: fwd_rules temp_groups_fwd active_loop_fwd)

lemma doNewsgroupsList_fwd: "fwd op any n (doNewsgroupsList D) (\<lambda>(e, fatal). e = None)"
  unfolding doNewsgroupsList_def
  by (intro fwd_send fwd_return response_seq)
    (auto intro!: fwd_rules temp_groups_fwd newsgroups_loop_fwd)

subsection \<open>An article\<close>

lemma block_read_size:
  "dot_read ev_rd ev_unrd l p t = Some (r, t') \<Longrightarrow> dot_size t' \<le> dot_size t"
proof (induction "dot_size t" arbitrary: p t rule: less_induct)
  case less
  obtain d es where t: "t = (d, es)" by (cases t)
  obtain x es1 where x: "next_ev es = (x, es1)" by (cases "next_ev es")
  have le: "length es1 \<le> length es" using x by (cases es rule: next_ev.cases) auto
  show ?case
  proof (cases "length p < l \<and> ds d \<noteq> sEOF")
    case False
    then show ?thesis using less(2) by (subst (asm) dot_read.simps) (auto simp: t)
  next
    case True
    show ?thesis
    proof (cases x)
      case (Inl e)
      then show ?thesis using less(2) True x le
        by (subst (asm) dot_read.simps) (auto simp: t dot_size_def)
    next
      case (Inr c)
      obtain c' v t1 where st: "process ev_unrd c (d, es1) = ((c', v), t1)" by (metis surj_pair)
      have lt: "dot_size t1 < dot_size t"
        unfolding t by (rule undot_size [of d c es1 es "(c', v)"]) (use True x Inr st in simp_all)
      have "dot_read ev_rd ev_unrd l (if v then p @ [c'] else p) t1 = Some (r, t')"
        using less(2) True x Inr st by (subst (asm) dot_read.simps) (auto simp: t split: if_splits)
      then show ?thesis using less(1) [OF lt] lt by fastforce
    qed
  qed
qed

lemma Read_reads: "reads (DotReader_Read k) (\<lambda>_. False)"
  unfolding reads_def
proof (intro allI impI)
  fix t :: block
  assume ok: "wf (snd t)"
  obtain d b where t: "t = (d, b)" by (cases t)
  obtain r d' b' where s: "dot_read ReadByte unread k [] (d, b) = Some (r, d', b')" "wf b'"
    "dot_read ev_rd ev_unrd k [] (d, events b) = Some (r, d', events b')"
    using buf.dot_read_sim [of b k "[]" d] ok by (auto simp: t)
  show "\<exists>r t'. DotReader_Read k t = Some (r, t') \<and> wf (snd t') \<and> bsz t' \<le> bsz t \<and>
          (False \<longrightarrow> bsz t' < bsz t)"
    using s(1,2) block_read_size [OF s(3)] by (simp add: DotReader_Read_def t bsz_def)
qed

lemma run_reading_reads: "reads (run_reading p) (\<lambda>_. False)"
proof (induction p)
  case (Done r)
  then show ?case by (simp add: reads_return)
next
  case (Reading n k)
  show ?case
    unfolding run_reading.simps by (rule reads_bind [OF Read_reads]) (auto intro: reads_weaken [OF Reading] rangeI)
qed

lemma run_reading_set: "run_reading p t = Some (r, t') \<Longrightarrow> r \<in> set_reading p"
proof (induction p arbitrary: t)
  case (Reading n k)
  then obtain x t1 where "run_reading (k x) t1 = Some (r, t')" by (auto simp: bind_eq_Some_conv)
  then have "r \<in> set_reading (k x)" by (rule Reading.IH [OF rangeI])
  then show ?case by (cases x) auto
qed simp

lemma eatArticle_fwd:
  fixes K :: "'d \<Rightarrow> todoArticle list \<Rightarrow> bool"
  assumes K: "\<And>d l r d' m w. K d l \<Longrightarrow> (r, d') \<in> set_reading (ReadArticle D m grp w d) \<Longrightarrow> K d' l"
    and m: "2 \<le> length msgid"
  shows "fwd op K n (eatArticle D msgid grp wdata) (\<lambda>_. False)"
proof (rule fwdI)
  fix c0 :: "'d NNTPPuller"
  assume c0: "wf (cr c0)" "op \<longrightarrow> cdr c0 \<noteq> None" "K (db c0) (todoList c0)" "csz c0 < n"
  define c where "c = openDotReader c0"
  have c: "wf (cr c)" "cdr c \<noteq> None" "K (db c) (todoList c)" "csz c \<le> csz c0" "db c = db c0"
    using c0 by (simp_all add: c_def)
  let ?p = "ReadArticle D (CutMsgIDStr msgid) grp wdata (db c0)"
  obtain d where d: "cdr c = Some d" using c(2) by blast
  obtain r s t' where r: "run_reading ?p (d, cr c) = Some ((r, s), t')" "wf (snd t')"
    "bsz t' \<le> bsz (d, cr c)"
    by (rule readsD [OF run_reading_reads, of "(d, cr c)" ?p]) (use c(1) in auto)
  let ?c = "c\<lparr>cdr := Some (fst t'), cr := snd t', db := s\<rparr>"
  have "K s (todoList c)" using K [OF c(3)] run_reading_set [OF r(1)] c(5) by simp
  then have c': "wf (cr ?c)" "True \<longrightarrow> cdr ?c \<noteq> None" "K (db ?c) (todoList ?c)" "csz ?c \<le> csz c0"
    using r(2,3) c(4) by (simp_all add: csz_def d)
  have e: "eatArticle D msgid grp wdata c0 =
      (if fst r = None then Some (r, ?c) else Option.bind (discard_rest ?c) (\<lambda>c. Some (r, c)))"
    using m r(1) d by (simp add: eatArticle_def on_block_def c_def [symmetric] case_prod_beta Let_def split: prod.split)
  have dis: "fwd True K (Suc (csz c0)) (\<lambda>c. Option.bind (discard_rest c) (\<lambda>c. Some (r, c))) (\<lambda>_. False)"
    by (intro fwd_discard fwd_return) simp
  show "\<exists>x c'. eatArticle D msgid grp wdata c0 = Some (x, c') \<and> wf (cr c') \<and>
      (cdr c0 \<noteq> None \<longrightarrow> cdr c' \<noteq> None) \<and> K (db c') (todoList c') \<and> csz c' \<le> csz c0 \<and> (False \<longrightarrow> csz c' < csz c0)"
  proof (cases "fst r = None")
    case True
    then show ?thesis unfolding e using c' by (cases r) simp
  next
    case False
    have "csz ?c < Suc (csz c0)" using c'(4) by simp
    from fwdD [OF dis c'(1-3) this] obtain x c2 where
      "Option.bind (discard_rest ?c) (\<lambda>c. Some (r, c)) = Some (x, c2)" "wf (cr c2)" "cdr c2 \<noteq> None"
      "K (db c2) (todoList c2)" "csz c2 \<le> csz ?c" using c'(2) by blast
    then show ?thesis unfolding e using False c'(4) by (cases x) (auto intro: order_trans)
  qed
qed

lemma handleArticleResponse_fwd:
  fixes K :: "'d \<Rightarrow> todoArticle list \<Rightarrow> bool"
  assumes "\<And>d l r d' m w. K d l \<Longrightarrow> (r, d') \<in> set_reading (ReadArticle D m grp w d) \<Longrightarrow> K d' l"
    and "2 \<le> length msgid"
  shows "fwd op K n (handleArticleResponse D msgid grp wdata) (\<lambda>_. False)"
proof -
  have dis: "fwd op K n (\<lambda>c. Option.bind (discard_rest (openDotReader c)) (\<lambda>c. Some (r, c))) (\<lambda>_. False)"
    for n and r :: "bool \<times> cerr option \<times> bool \<times> bytes" by (rule fwd_opened, intro fwd_discard fwd_return) simp
  show ?thesis
    unfolding handleArticleResponse_def
    by (rule fwd_seq [OF readResponse_fwd])
      (auto intro!: fwd_rules dis fwd_seq [OF eatArticle_fwd [OF assms]])
qed

end
