(* ===== verification/NntpPipeLaws.thy ===== *)
theory NntpPipeLaws
  imports NntpPullLaws "HOL-Library.Sublist"
begin

text \<open>
  The two goroutines of \<open>processTODOList\<close>: an invariant of the states they reach together, with the
  requests in flight, and from it that no state before the end is a deadlock, that every schedule ends,
  and that at the end the worker is gone.
\<close>

subsection \<open>What a response leaves alone\<close>

definition same :: "'d NNTPPuller \<Rightarrow> 'd NNTPPuller \<Rightarrow> bool" where
  "same c c' \<longleftrightarrow> sent c' = sent c \<and> sroom c' = sroom c \<and> cs c' = cs c \<and> todoList c' = todoList c \<and>
     coins c' = coins c"

lemma same_refl [simp]: "same c c" and same_trans: "same a c \<Longrightarrow> same c e \<Longrightarrow> same a e"
  by (simp_all add: same_def)

lemma same_upd [simp]: "same c (openDotReader c)" "same c (c\<lparr>db := d\<rparr>)"
  by (simp_all add: same_def openDotReader_def split: option.split)

lemma readResponse_same: "readResponse c = Some (r, c') \<Longrightarrow> same c c'"
  by (auto simp: readResponse_def readLine_def same_def bind_eq_Some_conv split: option.splits)

lemma on_block_same: "on_block f c = Some (r, c') \<Longrightarrow> same c c'"
  by (auto simp: on_block_def same_def bind_eq_Some_conv split: option.splits)

lemma discard_rest_same: "discard_rest c = Some c' \<Longrightarrow> same c c'"
  by (auto simp: discard_rest_def bind_eq_Some_conv dest: on_block_same)

lemma eatArticle_same:
  assumes "eatArticle D m g w c = Some (r, c')"
  shows "same c c'"
proof -
  obtain x s c1 where c1: "on_block (run_reading (ReadArticle D (CutMsgIDStr m) g w (db c))) (openDotReader c)
      = Some ((x, s), c1)"
    and c': "c' = c1\<lparr>db := s\<rparr> \<or> discard_rest (c1\<lparr>db := s\<rparr>) = Some c'"
    using assms by (auto simp: eatArticle_def bind_eq_Some_conv Let_def split: if_splits)
  have "same c c1" using same_trans [OF same_upd(1) on_block_same [OF c1]] .
  then have "same c (c1\<lparr>db := s\<rparr>)" by (rule same_trans) simp
  then show ?thesis using c' discard_rest_same same_trans by blast
qed

lemma handleArticleResponse_same:
  assumes "handleArticleResponse D m g w c = Some (r, c')"
  shows "same c c'"
proof -
  obtain y c1 where r: "readResponse c = Some (y, c1)"
    and k: "c' = c1 \<or> (\<exists>x. eatArticle D m g w c1 = Some (x, c')) \<or> discard_rest (openDotReader c1) = Some c'"
    using assms by (auto simp: handleArticleResponse_def bind_eq_Some_conv split: if_splits)
  have "same c1 c'" using k
    by (elim disjE exE) (auto intro: eatArticle_same same_trans [OF same_upd(1) discard_rest_same])
  then show ?thesis by (rule same_trans [OF readResponse_same [OF r]])
qed

subsection \<open>The invariant\<close>

definition request :: "todoArticle \<Rightarrow> u64 \<times> bytes" where
  "request a = (ta_id a, ta_msgid a)"

definition tla_request :: "'w tla \<Rightarrow> u64 \<times> bytes" where
  "tla_request t = (tl_id t, tl_msgid t)"

text \<open>The entries of the list the sender has dealt with, and the request it holds.\<close>

definition pos :: "('d, 'w) pipe \<Rightarrow> nat" where
  "pos s =
     (case sn s of STop i \<Rightarrow> i | SRef i _ \<Rightarrow> i | SAsk i _ \<Rightarrow> i | SQueue i _ \<Rightarrow> Suc i
      | _ \<Rightarrow> length (todoList (pc s)))"

definition in_hand :: "('d, 'w) pipe \<Rightarrow> 'w tla list" where
  "in_hand s = (case sn s of SQueue _ t \<Rightarrow> [t] | _ \<Rightarrow> [])"

fun phase_ok :: "nat \<Rightarrow> 'w sender \<Rightarrow> bool \<Rightarrow> worker \<Rightarrow> bool" where
  "phase_ok n (SDone e fatal) cl w \<longleftrightarrow> w = WGone \<or> w = WClosed"
| "phase_ok n (SClose e fatal) cl w \<longleftrightarrow> cl \<and> w \<noteq> WGone"
| "phase_ok n SWait cl w \<longleftrightarrow> cl \<and> w \<noteq> WGone"
| "phase_ok n (STop i) cl w \<longleftrightarrow> \<not> cl \<and> w \<noteq> WGone \<and> w \<noteq> WClosed \<and> i \<le> n"
| "phase_ok n (SRef i wd) cl w \<longleftrightarrow> \<not> cl \<and> w \<noteq> WGone \<and> w \<noteq> WClosed \<and> i < n"
| "phase_ok n (SAsk i wd) cl w \<longleftrightarrow> \<not> cl \<and> w \<noteq> WGone \<and> w \<noteq> WClosed \<and> i < n"
| "phase_ok n (SQueue i t) cl w \<longleftrightarrow> \<not> cl \<and> w \<noteq> WGone \<and> w \<noteq> WClosed \<and> i < n"

text \<open>
  The queue is bounded; what was asked is what was answered, then the queue, then what the sender holds;
  requests follow the list, and went out as lines; the maximum is an id of the list.
\<close>

definition flight_ok :: "('d, 'w) pipe \<Rightarrow> bool" where
  "flight_ok s \<longleftrightarrow> length (todochan s) \<le> queueSize \<and>
     (\<exists>x. asked s = answered s @ todochan s @ x \<and> length x \<le> 1 \<and>
        ((\<exists>e fatal. sn s = SDone e fatal) \<or> x = in_hand s)) \<and>
     subseq (map tla_request (asked s)) (map request (take (pos s) (todoList (pc s)))) \<and>
     (new_maxid s = - 1 \<or> new_maxid s \<in> ta_id ` set (todoList (pc s)))"

definition pipe_ok :: "'d NNTPPuller \<Rightarrow> ('d, 'w) pipe \<Rightarrow> bool" where
  "pipe_ok c0 s \<longleftrightarrow> flight_ok s \<and> phase_ok (length (todoList c0)) (sn s) (closed s) (wk s) \<and>
     todoList (pc s) = todoList c0 \<and>
     sent (pc s) = sent c0 @ map (\<lambda>t. article_line (tl_id t)) (asked s)"

lemma pipe_start_ok: "pipe_ok c (pipe_start c)"
  by (simp add: pipe_ok_def pipe_start_def flight_ok_def in_hand_def pos_def)

lemma finish_None: "finish s = None \<longleftrightarrow> wk s = WLoop \<or> wk s = WGone"
  by (simp add: finish_def split: worker.split)

theorem no_deadlock:
  assumes "pipe_ok c0 s" and "\<And>e fatal. sn s \<noteq> SDone e fatal"
  shows "sender_ready s \<or> worker_ready s"
proof (cases "finish s = None")
  case False
  then show ?thesis using assms(2) by (auto simp: sender_ready_def split: sender.split)
next
  case True
  have ph: "phase_ok (length (todoList c0)) (sn s) (closed s) (wk s)" using assms(1) by (simp add: pipe_ok_def)
  have w: "wk s = WLoop" using True ph assms(2) by (cases "sn s") (auto simp: finish_None)
  show ?thesis
    using w ph assms(2)
    by (cases "sn s") (auto simp: sender_ready_def worker_ready_def queueSize_def)
qed

definition sender_rank :: "nat \<Rightarrow> 'w sender \<Rightarrow> nat" where
  "sender_rank n s =
     (case s of STop i \<Rightarrow> 10 * (n - i) + 8 | SRef i _ \<Rightarrow> 10 * (n - i) + 7 | SAsk i _ \<Rightarrow> 10 * (n - i) + 6
      | SQueue i _ \<Rightarrow> 10 * (n - i) + 5 | SClose _ _ \<Rightarrow> 1 | SWait \<Rightarrow> 1 | SDone _ _ \<Rightarrow> 0)"

definition pipe_rank :: "('d, 'w) pipe \<Rightarrow> nat" where
  "pipe_rank s = sender_rank (length (todoList (pc s))) (sn s) + 2 * length (todochan s) +
     (if wk s = WLoop then 1 else 0)"

subsection \<open>Steps of the sender\<close>

lemma subseq_take:
  assumes "subseq xs (map f (take i l))" and "i \<le> j"
  shows "subseq xs (map f (take j l))"
proof -
  have "take j l = take i l @ take (j - i) (drop i l)" using assms(2) by (simp add: take_drop_split)
  then show ?thesis using assms(1) by (simp add: list_emb_prefix)
qed

text \<open>The sender moves on, without a new request and with the list and the requests as they were.\<close>

lemma flight_move:
  assumes "flight_ok s" and "todochan s' = todochan s" "asked s' = asked s" "answered s' = answered s"
    and "todoList (pc s') = todoList (pc s)"
    and "new_maxid s' = new_maxid s \<or> new_maxid s' \<in> ta_id ` set (todoList (pc s))"
    and "pos s \<le> pos s'" and "in_hand s = in_hand s' \<or> (\<exists>e f. sn s' = SDone e f)" and "\<nexists>e f. sn s = SDone e f"
  shows "flight_ok s'"
proof -
  have "subseq (map tla_request (asked s)) (map request (take (pos s) (todoList (pc s))))"
    using assms(1) by (simp add: flight_ok_def)
  from subseq_take [OF this assms(7)] show ?thesis
    using assms unfolding flight_ok_def by auto
qed

lemma pos_le: "pipe_ok c0 s \<Longrightarrow> pos s \<le> length (todoList (pc s))"
  by (auto simp: pipe_ok_def pos_def split: sender.splits)

lemma handleFinish_ok:
  assumes "pipe_ok c0 s" and "finish s = Some (e, s')" and "\<nexists>e f. sn s = SDone e f"
  shows "pipe_ok c0 (handleFinishCase e s') \<and> pc (handleFinishCase e s') = pc s"
proof -
  obtain w x f where s': "handleFinishCase e s' = s\<lparr>wk := w, sn := SDone x f\<rparr>" and w: "w = WGone \<or> w = WClosed"
  proof (cases "wk s")
    case (WFail y)
    then show ?thesis using assms(2) that [of "Some y" True WGone] by (auto simp: finish_def handleFinishCase_def)
  next
    case WClosed
    then have "s\<lparr>wk := WClosed\<rparr> = s" by simp
    then show ?thesis using assms(2) WClosed that [of "Some (Errorf (bs ''unexpected worker quit'') [])" False WClosed]
      by (auto simp: finish_def handleFinishCase_def)
  qed (use assms(2) in \<open>simp_all add: finish_def\<close>)
  have "flight_ok (s\<lparr>wk := w, sn := SDone x f\<rparr>)"
    by (rule flight_move [of s]) (use assms(1,3) pos_le [OF assms(1)] in \<open>simp_all add: pipe_ok_def pos_def\<close>)
  then show ?thesis using assms(1) w unfolding s' by (auto simp: pipe_ok_def)
qed

lemma pipe_move:
  assumes "pipe_ok c0 s" and "todochan s' = todochan s" "asked s' = asked s" "answered s' = answered s"
    and "todoList (pc s') = todoList (pc s)" "sent (pc s') = sent (pc s)"
    and "new_maxid s' = new_maxid s \<or> new_maxid s' \<in> ta_id ` set (todoList (pc s))"
    and "pos s \<le> pos s'" and "in_hand s = in_hand s' \<or> (\<exists>e f. sn s' = SDone e f)" and "\<nexists>e f. sn s = SDone e f"
    and "phase_ok (length (todoList c0)) (sn s') (closed s') (wk s')"
  shows "pipe_ok c0 s'"
  using flight_move [of s s'] assms unfolding pipe_ok_def by auto

lemma pipe_ok_phase: "pipe_ok c0 s \<Longrightarrow> phase_ok (length (todoList (pc s))) (sn s) (closed s) (wk s)"
  by (simp add: pipe_ok_def)

lemma pipe_ok_list: "pipe_ok c0 s \<Longrightarrow> todoList (pc s) = todoList c0"
  by (simp add: pipe_ok_def)

lemma pipe_db_eq:
  obtains r d where "f (db (pc s)) = (r, d)" "pipe_db f s = (r, s\<lparr>pc := (pc s)\<lparr>db := d\<rparr>\<rparr>)"
  by (cases "f (db (pc s))") (auto simp: pipe_db_def on_db_def)

text \<open>What a step of the sender may do to the client: write, or let the database answer a query.\<close>

definition sender_io ::
  "('d, 'w) PullerDatabase \<Rightarrow> bytes \<Rightarrow> 'd NNTPPuller \<Rightarrow> 'd NNTPPuller \<Rightarrow> bool" where
  "sender_io D grp c c' \<longleftrightarrow> cr c' = cr c \<and> cdr c' = cdr c \<and>
     (db c' = db c \<or> (\<exists>m. db c' = snd (IsArticleWanted D m grp (db c))) \<or>
      (\<exists>m. db c' = snd (DoesReferenceExist D m (db c))))"

definition better :: "('d, 'w) PullerDatabase \<Rightarrow> bytes \<Rightarrow> 'd NNTPPuller \<Rightarrow> ('d, 'w) pipe \<Rightarrow> ('d, 'w) pipe \<Rightarrow> bool" where
  "better D grp c0 s s' \<longleftrightarrow> pipe_ok c0 s' \<and> pipe_rank s' < pipe_rank s \<and> sender_io D grp (pc s) (pc s')"

lemma errCloseLoop_better:
  assumes "pipe_ok c0 s" and "sn s = SRef i wd \<or> sn s = STop i \<and> i < length (todoList (pc s)) \<or> sn s = SAsk i wd"
    and "todoList c = todoList (pc s)" "sent c = sent (pc s)" "sender_io D grp (pc s) c"
  shows "better D grp c0 s (errCloseLoop e f (s\<lparr>pc := c\<rparr>))"
proof -
  have "pipe_ok c0 (errCloseLoop e f (s\<lparr>pc := c\<rparr>))"
    by (rule pipe_move [OF assms(1)])
      (use assms pipe_ok_phase [OF assms(1)] in \<open>auto simp: errCloseLoop_def pos_def in_hand_def\<close>)
  then show ?thesis using assms
    by (auto simp: better_def errCloseLoop_def pipe_rank_def sender_rank_def)
qed

lemma check_wanted_better:
  assumes ok: "pipe_ok c0 s" and top: "sn s = STop i" "i < length (todoList (pc s))"
  shows "better D grp c0 s (check_wanted D grp i s)"
proof -
  let ?a = "todoList (pc s) ! i"
  have mem: "?a \<in> set (todoList (pc s))" using top(2) by simp
  have go: "better D grp c0 s (if \<not> w then (raise_max (ta_id ?a) (s\<lparr>pc := c\<rparr>))\<lparr>sn := STop (i + 1)\<rparr>
        else s\<lparr>pc := c, sn := SRef i wd\<rparr>)"
    if c: "todoList c = todoList (pc s)" "sent c = sent (pc s)" "sender_io D grp (pc s) c" for c w wd
  proof -
    have "pipe_ok c0 (if \<not> w then (raise_max (ta_id ?a) (s\<lparr>pc := c\<rparr>))\<lparr>sn := STop (i + 1)\<rparr>
        else s\<lparr>pc := c, sn := SRef i wd\<rparr>)"
      by (rule pipe_move [OF ok])
        (use top c mem pipe_ok_phase [OF ok] pipe_ok_list [OF ok] in \<open>auto simp: raise_max_def pos_def in_hand_def\<close>)
    then show ?thesis using top c
      by (auto simp: better_def pipe_rank_def sender_rank_def raise_max_def)
  qed
  show ?thesis
  proof (cases "ta_msgid ?a = []")
    case True
    then show ?thesis using go [of "pc s" True] by (simp add: check_wanted_def sender_io_def)
  next
    case False
    obtain r d where r: "IsArticleWanted D (ta_msgid ?a) grp (db (pc s)) = (r, d)"
      "pipe_db (IsArticleWanted D (ta_msgid ?a) grp) s = (r, s\<lparr>pc := (pc s)\<lparr>db := d\<rparr>\<rparr>)"
      by (rule pipe_db_eq [of "IsArticleWanted D (ta_msgid ?a) grp" s])
    have c: "sender_io D grp (pc s) ((pc s)\<lparr>db := d\<rparr>)"
      unfolding sender_io_def by (simp, metis r(1) snd_conv)
    show ?thesis
    proof (cases r)
      case (Inl e)
      then show ?thesis using False r c top errCloseLoop_better [OF ok, of i undefined "(pc s)\<lparr>db := d\<rparr>"]
        by (simp add: check_wanted_def Let_def)
    next
      case (Inr x)
      obtain w wd where x: "x = (w, wd)" by (cases x)
      show ?thesis using False r c go [of "(pc s)\<lparr>db := d\<rparr>" w "Some wd"] unfolding Inr x
        by (simp add: check_wanted_def Let_def split: if_splits)
    qed
  qed
qed

lemma check_ref_better:
  assumes ok: "pipe_ok c0 s" and sr: "sn s = SRef i wd"
  shows "better D grp c0 s (check_ref D i wd s)"
proof -
  let ?a = "todoList (pc s) ! i"
  have go: "better D grp c0 s (s\<lparr>pc := c, sn := SAsk i wd\<rparr>)"
    if c: "todoList c = todoList (pc s)" "sent c = sent (pc s)" "sender_io D grp (pc s) c" for c
  proof -
    have "pipe_ok c0 (s\<lparr>pc := c, sn := SAsk i wd\<rparr>)"
      by (rule pipe_move [OF ok])
        (use sr c pipe_ok_phase [OF ok] pipe_ok_list [OF ok] in \<open>auto simp: pos_def in_hand_def\<close>)
    then show ?thesis using sr c by (simp add: better_def pipe_rank_def sender_rank_def)
  qed
  show ?thesis
  proof (cases "ta_ref ?a \<noteq> [] \<and> ta_ref ?a \<noteq> ta_msgid ?a")
    case False
    then have "check_ref D i wd s = s\<lparr>pc := pc s, sn := SAsk i wd\<rparr>" by (auto simp: check_ref_def Let_def)
    then show ?thesis using go [of "pc s"] by (simp add: sender_io_def)
  next
    case True
    obtain r d where r: "DoesReferenceExist D (ta_ref ?a) (db (pc s)) = (r, d)"
      "pipe_db (DoesReferenceExist D (ta_ref ?a)) s = (r, s\<lparr>pc := (pc s)\<lparr>db := d\<rparr>\<rparr>)"
      by (rule pipe_db_eq [of "DoesReferenceExist D (ta_ref ?a)" s])
    have c: "sender_io D grp (pc s) ((pc s)\<lparr>db := d\<rparr>)"
      unfolding sender_io_def by (simp, metis r(1) snd_conv)
    show ?thesis
      using True r c go [of "(pc s)\<lparr>db := d\<rparr>"] sr errCloseLoop_better [OF ok, of i wd "(pc s)\<lparr>db := d\<rparr>" D grp]
      by (cases r) (simp_all add: check_ref_def Let_def)
  qed
qed

lemma subseq_snoc:
  assumes "subseq xs (map f (take i l))" and "i < length l"
  shows "subseq (xs @ [f (l ! i)]) (map f (take (Suc i) l))"
  using assms by (simp add: take_Suc_conv_app_nth list_emb_append_mono)

lemma ask_better:
  assumes ok: "pipe_ok c0 s" and sr: "sn s = SAsk i wd"
  shows "better D grp c0 s (ask i wd s)"
proof -
  let ?a = "todoList (pc s) ! i"
  let ?t = "\<lparr>tl_msgid = ta_msgid ?a, tl_id = ta_id ?a, tl_wdata = wd\<rparr>"
  have i: "i < length (todoList (pc s))" using pipe_ok_phase [OF ok] sr by simp
  show ?thesis
  proof (cases rule: SendLine_cases [of "article_line (ta_id ?a)" "pc s"])
    case (1 e)
    have "sender_io D grp (pc s) (pc s)" by (simp add: sender_io_def)
    then show ?thesis using 1 errCloseLoop_better [OF ok, of i wd "pc s" D grp] sr
      by (simp add: ask_def Let_def)
  next
    case (2 m)
    let ?c = "(pc s)\<lparr>sent := sent (pc s) @ [article_line (ta_id ?a)], sroom := m\<rparr>"
    let ?s = "s\<lparr>pc := ?c, asked := asked s @ [?t], sn := SQueue i ?t\<rparr>"
    have s': "ask i wd s = ?s" using 2 by (simp add: ask_def Let_def)
    have "asked s = answered s @ todochan s"
      and sub: "subseq (map tla_request (asked s)) (map request (take i (todoList (pc s))))"
      using ok sr by (auto simp: pipe_ok_def flight_ok_def in_hand_def pos_def)
    moreover have "subseq (map tla_request (asked s) @ [tla_request ?t]) (map request (take (Suc i) (todoList (pc s))))"
      using subseq_snoc [OF sub i] by (simp add: request_def tla_request_def)
    ultimately have "flight_ok ?s" using ok
      by (auto simp: pipe_ok_def flight_ok_def in_hand_def pos_def)
    then have "pipe_ok c0 ?s" using ok sr by (simp add: pipe_ok_def)
    then show ?thesis using i sr unfolding s'
      by (simp add: better_def sender_io_def pipe_rank_def sender_rank_def)
  qed
qed

lemma enqueue_better:
  assumes ok: "pipe_ok c0 s" and sr: "sn s = SQueue i t" and room: "length (todochan s) < queueSize"
  shows "better D grp c0 s (enqueue i t s)"
proof -
  have i: "i < length (todoList (pc s))" using pipe_ok_phase [OF ok] sr by simp
  have "flight_ok (enqueue i t s)"
    using ok sr room by (auto simp: pipe_ok_def flight_ok_def in_hand_def pos_def enqueue_def)
  then have "pipe_ok c0 (enqueue i t s)" using ok sr by (simp add: pipe_ok_def enqueue_def)
  moreover have "10 * (length (todoList (pc s)) - Suc i) + 10 = 10 * (length (todoList (pc s)) - i)"
    using i by simp
  ultimately show ?thesis using sr
    by (simp add: better_def sender_io_def pipe_rank_def sender_rank_def enqueue_def)
qed

lemma handleFinish_rank:
  "finish s = Some (e, s') \<Longrightarrow> 0 < sender_rank (length (todoList (pc s))) (sn s) \<Longrightarrow>
   pipe_rank (handleFinishCase e s') < pipe_rank s"
  by (auto simp: finish_def handleFinishCase_def pipe_rank_def sender_rank_def split: worker.splits option.splits)

lemma handleFinish_better:
  assumes "pipe_ok c0 s" and "finish s = Some (e, s')" and "0 < sender_rank (length (todoList (pc s))) (sn s)"
  shows "better D grp c0 s (handleFinishCase e s')"
proof -
  have "\<nexists>e f. sn s = SDone e f" using assms(3) by (auto simp: sender_rank_def)
  then show ?thesis using handleFinish_ok [OF assms(1,2)] handleFinish_rank [OF assms(2,3)]
    by (simp add: better_def sender_io_def)
qed

lemma poll_better:
  assumes "pipe_ok c0 s" and "0 < sender_rank (length (todoList (pc s))) (sn s)" and "better D grp c0 s (k s)"
  shows "better D grp c0 s (poll k s)"
  using handleFinish_better [OF assms(1) _ assms(2)] assms(3) by (auto simp: poll_def split: option.split)

lemma last_finish_better:
  assumes ok: "pipe_ok c0 s" and fin: "finish s = Some (x, s')" and "sn s = SWait \<or> (\<exists>e f. sn s = SClose e f)"
  shows "better D grp c0 s (s'\<lparr>sn := SDone e f\<rparr>)"
proof -
  have s': "s' = s\<lparr>wk := wk s'\<rparr>" "wk s' = WGone \<or> wk s' = WClosed" "wk s \<noteq> WLoop"
    using fin by (auto simp: finish_def split: worker.splits)
  have "pipe_ok c0 (s\<lparr>wk := wk s', sn := SDone e f\<rparr>)"
    by (rule pipe_move [OF ok]) (use assms(3) s'(2) pos_le [OF ok] in \<open>auto simp: pos_def in_hand_def\<close>)
  moreover have "pipe_rank (s\<lparr>wk := wk s', sn := SDone e f\<rparr>) < pipe_rank s"
    using assms(3) s'(2) by (auto simp: pipe_rank_def sender_rank_def)
  moreover have "s'\<lparr>sn := SDone e f\<rparr> = s\<lparr>wk := wk s', sn := SDone e f\<rparr>" by (subst s'(1)) simp
  ultimately show ?thesis by (simp add: better_def sender_io_def)
qed

lemma sender_step_better:
  assumes ok: "pipe_ok c0 s" and ready: "sender_ready s"
  shows "better D grp c0 s (sender_step D grp coin s)"
proof (cases "sn s")
  case (STop i)
  show ?thesis
  proof (cases "i < length (todoList (pc s))")
    case True
    then show ?thesis using STop poll_better [where k = "check_wanted D grp i", OF ok _ check_wanted_better [OF ok STop True]]
      by (simp add: sender_step_def sender_rank_def)
  next
    case False
    then have "i = length (todoList (pc s))" using pipe_ok_phase [OF ok] STop by simp
    then have "pipe_ok c0 (s\<lparr>closed := True, sn := SWait\<rparr>)"
      by (intro pipe_move [OF ok])
        (use STop pipe_ok_phase [OF ok] pipe_ok_list [OF ok] in \<open>auto simp: pos_def in_hand_def\<close>)
    then show ?thesis using False STop
      by (simp add: sender_step_def better_def sender_io_def pipe_rank_def sender_rank_def)
  qed
next
  case (SRef i wd)
  then show ?thesis using poll_better [where k = "check_ref D i wd", OF ok _ check_ref_better [OF ok SRef]]
    by (simp add: sender_step_def sender_rank_def)
next
  case (SAsk i wd)
  then show ?thesis using poll_better [where k = "ask i wd", OF ok _ ask_better [OF ok SAsk]] ask_better [OF ok SAsk]
    by (simp add: sender_step_def sender_rank_def)
next
  case (SQueue i t)
  have r: "0 < sender_rank (length (todoList (pc s))) (sn s)" using SQueue by (simp add: sender_rank_def)
  show ?thesis
    using ready SQueue enqueue_better [OF ok SQueue] handleFinish_better [OF ok _ r]
    by (cases "finish s") (auto simp: sender_step_def sender_ready_def)
next
  case (SClose e f)
  then show ?thesis using ready last_finish_better [OF ok]
    by (auto simp: sender_step_def sender_ready_def split: option.split)
next
  case SWait
  then show ?thesis using ready last_finish_better [OF ok]
    by (auto simp: sender_step_def sender_ready_def split: option.split)
next
  case (SDone e f)
  then show ?thesis using ready by (simp add: sender_ready_def)
qed

subsection \<open>Steps of the worker\<close>

lemma raise_max_simps [simp]:
  "pc (raise_max i s) = pc s" "todochan (raise_max i s) = todochan s" "closed (raise_max i s) = closed s"
  "wk (raise_max i s) = wk s" "sn (raise_max i s) = sn s" "asked (raise_max i s) = asked s"
  "answered (raise_max i s) = answered s"
  by (simp_all add: raise_max_def)

text \<open>Only the worker reads from the server, one response for the request at the front of the queue.\<close>

lemma worker_step_ok:
  assumes ok: "pipe_ok c0 s" and ready: "worker_ready s" and st: "worker_step D grp s = Some s'"
  shows "pipe_ok c0 s'" and "pipe_rank s' < pipe_rank s"
    and "todochan s = [] \<and> pc s' = pc s \<or>
         (\<exists>a q x. todochan s = a # q \<and> answered s' = answered s @ [a] \<and>
            handleArticleResponse D (tl_msgid a) grp (tl_wdata a) (pc s) = Some (x, pc s'))"
proof -
  have w: "wk s = WLoop" using ready by (simp add: worker_ready_def)
  have nd: "\<nexists>e f. sn s = SDone e f" using pipe_ok_phase [OF ok] w by auto
  have "pipe_ok c0 s' \<and> pipe_rank s' < pipe_rank s \<and> (todochan s = [] \<and> pc s' = pc s \<or>
         (\<exists>a q x. todochan s = a # q \<and> answered s' = answered s @ [a] \<and>
            handleArticleResponse D (tl_msgid a) grp (tl_wdata a) (pc s) = Some (x, pc s')))"
  proof (cases "todochan s")
    case Nil
    then have cl: "closed s" and s': "s' = s\<lparr>wk := WClosed\<rparr>"
      using ready st by (auto simp: worker_ready_def worker_step_def)
    have "pipe_ok c0 s'" unfolding s'
      by (rule pipe_move [OF ok])
        (use pipe_ok_phase [OF ok] pipe_ok_list [OF ok] cl nd w in \<open>cases "sn s"; auto simp: pos_def in_hand_def\<close>)+
    then show ?thesis using Nil w by (simp add: s' pipe_rank_def)
  next
    case (Cons a q)
    obtain n e fatal r c where h: "handleArticleResponse D (tl_msgid a) grp (tl_wdata a) (pc s) = Some ((n, e, fatal, r), c)"
      and s': "s' = (let s = s\<lparr>todochan := q, answered := answered s @ [a], pc := c\<rparr> in
          case e of Some e \<Rightarrow> if fatal then s\<lparr>wk := WFail e\<rparr> else s
                | None \<Rightarrow> if n then raise_max (tl_id a) s else s)"
      using st Cons by (auto simp: worker_step_def bind_eq_Some_conv Let_def)
    have same: "sent c = sent (pc s)" "todoList c = todoList (pc s)"
      using handleArticleResponse_same [OF h] by (auto simp: same_def)
    have fl: "flight_ok s" using ok by (simp add: pipe_ok_def)
    have a: "tla_request a \<in> set (map tla_request (asked s))"
      and sub: "subseq (map tla_request (asked s)) (map request (take (pos s) (todoList (pc s))))"
      using fl Cons by (auto simp: flight_ok_def)
    have "tla_request a \<in> set (map request (take (pos s) (todoList (pc s))))"
      using list_emb_set [OF sub a] by blast
    then have "tla_request a \<in> set (map request (todoList (pc s)))" by (auto dest: in_set_takeD)
    then have mem: "tl_id a \<in> ta_id ` set (todoList (pc s))" by (auto simp: tla_request_def request_def)
    have fields: "todochan s' = q" "answered s' = answered s @ [a]" "pc s' = c" "asked s' = asked s" "sn s' = sn s"
      "closed s' = closed s" "wk s' = WLoop \<or> (\<exists>e. wk s' = WFail e)"
      "new_maxid s' = new_maxid s \<or> new_maxid s' \<in> ta_id ` set (todoList (pc s))"
      using w mem unfolding s' Let_def by (auto simp: raise_max_def split: option.split)
    have l: "todoList (pc s') = todoList (pc s)" using fields(3) same(2) by simp
    have eqs: "in_hand s' = in_hand s" "pos s' = pos s"
      unfolding in_hand_def pos_def fields(5) l by simp_all
    have "flight_ok s'"
      using fl Cons fields same eqs unfolding flight_ok_def by auto
    moreover have "phase_ok (length (todoList c0)) (sn s') (closed s') (wk s')"
      using pipe_ok_phase [OF ok] pipe_ok_list [OF ok] nd fields(5-7) by (cases "sn s") auto
    ultimately have "pipe_ok c0 s'" using ok fields same by (simp add: pipe_ok_def)
    moreover have "pipe_rank s' < pipe_rank s"
      using Cons fields same w by (auto simp: pipe_rank_def)
    ultimately show ?thesis using Cons fields h by blast
  qed
  then show "pipe_ok c0 s'" "pipe_rank s' < pipe_rank s" "todochan s = [] \<and> pc s' = pc s \<or>
         (\<exists>a q x. todochan s = a # q \<and> answered s' = answered s @ [a] \<and>
            handleArticleResponse D (tl_msgid a) grp (tl_wdata a) (pc s) = Some (x, pc s'))"
    by blast+
qed

subsection \<open>Runs\<close>

text \<open>
  \<open>K\<close> is any property of the database and the list that the calls made here keep and that excludes ids
  too short to cut.
\<close>

definition pipe_keeps :: "('d, 'w) PullerDatabase \<Rightarrow> bytes \<Rightarrow> ('d \<Rightarrow> todoArticle list \<Rightarrow> bool) \<Rightarrow> bool" where
  "pipe_keeps D grp K \<longleftrightarrow>
     (\<forall>d l. K d l \<longrightarrow>
        (\<forall>m. K (snd (IsArticleWanted D m grp d)) l) \<and> (\<forall>m. K (snd (DoesReferenceExist D m d)) l) \<and>
        (\<forall>m w r d'. (r, d') \<in> set_reading (ReadArticle D m grp w d) \<longrightarrow> K d' l) \<and>
        (\<forall>a\<in>set l. 2 \<le> length (ta_msgid a)))"

definition pipe_base :: "('d \<Rightarrow> todoArticle list \<Rightarrow> bool) \<Rightarrow> 'd NNTPPuller \<Rightarrow> 'd NNTPPuller \<Rightarrow> bool" where
  "pipe_base K c0 c \<longleftrightarrow> wf (cr c) \<and> (cdr c0 \<noteq> None \<longrightarrow> cdr c \<noteq> None) \<and> K (db c) (todoList c) \<and>
     csz c \<le> csz c0"

lemma two_coins_ok:
  "two_coins s = (a, e, s') \<Longrightarrow>
   pipe_ok c0 s' = pipe_ok c0 s \<and> pipe_rank s' = pipe_rank s \<and> pipe_base K c0 (pc s') = pipe_base K c0 (pc s) \<and>
   sender_ready s' = sender_ready s \<and> worker_ready s' = worker_ready s \<and> sn s' = sn s \<and> asked s' = asked s \<and>
   answered s' = answered s \<and> todochan s' = todochan s"
proof -
  assume "two_coins s = (a, e, s')"
  then obtain k where s': "s' = s\<lparr>pc := (pc s)\<lparr>coins := k\<rparr>\<rparr>" by (auto simp: two_coins_def)
  have "pos s' = pos s" "in_hand s' = in_hand s" by (simp_all add: s' pos_def in_hand_def split: sender.split)
  moreover have "finish s' = None \<longleftrightarrow> finish s = None" by (simp add: s' finish_None)
  ultimately show ?thesis
    by (simp add: s' pipe_ok_def flight_ok_def pipe_rank_def pipe_base_def sender_ready_def worker_ready_def
        split: sender.split)
qed

lemma worker_step_total:
  assumes "pipe_keeps D grp K" and "pipe_ok c0 s" and "pipe_base K c0 (pc s)" and "worker_ready s"
  shows "\<exists>s'. worker_step D grp s = Some s' \<and> pipe_base K c0 (pc s')"
proof (cases "todochan s")
  case Nil
  then show ?thesis using assms(3) by (simp add: worker_step_def)
next
  case (Cons a q)
  have fl: "flight_ok s" using assms(2) by (simp add: pipe_ok_def)
  have a: "tla_request a \<in> set (map tla_request (asked s))"
    and sub: "subseq (map tla_request (asked s)) (map request (take (pos s) (todoList (pc s))))"
    using fl Cons by (auto simp: flight_ok_def)
  have "tla_request a \<in> set (map request (take (pos s) (todoList (pc s))))"
    using list_emb_set [OF sub a] by blast
  then obtain t where t: "t \<in> set (todoList (pc s))" "ta_msgid t = tl_msgid a"
    by (auto simp: request_def tla_request_def dest: in_set_takeD)
  have K: "K (db (pc s)) (todoList (pc s))" using assms(3) by (simp add: pipe_base_def)
  then have two: "2 \<le> length (tl_msgid a)" using assms(1) t unfolding pipe_keeps_def by metis
  have art: "K d l \<Longrightarrow> (r, d') \<in> set_reading (ReadArticle D m grp w d) \<Longrightarrow> K d' l" for d l r d' m w
    using assms(1) unfolding pipe_keeps_def by blast
  have h: "fwd False K (Suc (csz (pc s))) (handleArticleResponse D (tl_msgid a) grp (tl_wdata a)) (\<lambda>_. False)"
    by (rule handleArticleResponse_fwd [OF art two])
  have "\<exists>x c'. handleArticleResponse D (tl_msgid a) grp (tl_wdata a) (pc s) = Some (x, c') \<and> pipe_base K c0 c'"
    by (rule fwdD [OF h, of "pc s"]) (use assms(3) K in \<open>auto simp: pipe_base_def\<close>)
  then obtain x c' where "handleArticleResponse D (tl_msgid a) grp (tl_wdata a) (pc s) = Some (x, c')"
    "pipe_base K c0 c'" by blast
  then show ?thesis using Cons by (cases x) (auto simp: worker_step_def Let_def raise_max_def split: option.split)
qed

lemma pipe_step_ok:
  assumes "pipe_keeps D grp K" and "pipe_ok c0 s" and "pipe_base K c0 (pc s)" and "\<And>e f. sn s \<noteq> SDone e f"
  shows "\<exists>s'. pipe_step D grp s = Some s' \<and> pipe_ok c0 s' \<and> pipe_base K c0 (pc s') \<and> pipe_rank s' < pipe_rank s"
proof -
  obtain a e s1 where tc: "two_coins s = (a, e, s1)" by (cases "two_coins s")
  have s1: "pipe_ok c0 s1" "pipe_base K c0 (pc s1)" "pipe_rank s1 = pipe_rank s"
    "sender_ready s1 \<or> worker_ready s1"
    using two_coins_ok [OF tc] assms no_deadlock [OF assms(2,4)] by auto
  show ?thesis
  proof (cases "sender_ready s1 \<and> (a \<or> \<not> worker_ready s1)")
    case True
    then have bet: "better D grp c0 s1 (sender_step D grp e s1)" using sender_step_better [OF s1(1)] by blast
    have "pipe_base K c0 (pc (sender_step D grp e s1))"
    proof -
      have p: "todoList (pc (sender_step D grp e s1)) = todoList (pc s1)"
        using bet s1(1) by (simp add: better_def pipe_ok_def)
      have io: "sender_io D grp (pc s1) (pc (sender_step D grp e s1))" using bet by (simp add: better_def)
      then have "K (db (pc (sender_step D grp e s1))) (todoList (pc s1))"
        using assms(1) s1(2) unfolding sender_io_def pipe_base_def pipe_keeps_def by auto
      then show ?thesis using io s1(2) p by (auto simp: sender_io_def pipe_base_def csz_def)
    qed
    then show ?thesis using True bet s1(3) tc by (simp add: pipe_step_def better_def)
  next
    case False
    then have w: "worker_ready s1" using s1(4) by blast
    obtain s' where s': "worker_step D grp s1 = Some s'" "pipe_base K c0 (pc s')"
      using worker_step_total [OF assms(1) s1(1,2) w] by blast
    then show ?thesis using worker_step_ok [OF s1(1) w s'(1)] False w tc s1(3)
      by (auto simp: pipe_step_def)
  qed
qed

lemma pipe_run_total:
  "pipe_keeps D grp K \<Longrightarrow> pipe_ok c0 s \<Longrightarrow> pipe_base K c0 (pc s) \<Longrightarrow>
   \<exists>s' e f. pipe_run D grp s = Some s' \<and> sn s' = SDone e f \<and> pipe_ok c0 s' \<and> pipe_base K c0 (pc s')"
proof (induction "pipe_rank s" arbitrary: s rule: less_induct)
  case less
  show ?case
  proof (cases "\<exists>e f. sn s = SDone e f")
    case True
    then show ?thesis using less.prems by (subst pipe_run.simps) auto
  next
    case False
    then obtain s' where s': "pipe_step D grp s = Some s'" "pipe_ok c0 s'" "pipe_base K c0 (pc s')"
      "pipe_rank s' < pipe_rank s"
      using pipe_step_ok [OF less.prems] by blast
    have "pipe_run D grp s = pipe_run D grp s'"
      using False s'(1) by (subst pipe_run.simps) (auto split: sender.split)
    then show ?thesis using less.hyps [OF s'(4) less.prems(1) s'(2,3)] by simp
  qed
qed

end
