(* ===== verification/NntpScanLaws.thy ===== *)
theory NntpScanLaws
  imports NntpPipeLaws
begin

text \<open>
  The scan: the lists of articles are well formed, and for every database with the contract \<open>puller_db\<close>
  slices, groups, the loop over the groups and whole sessions return.
\<close>

lemma processTODOList_fwd:
  fixes K :: "'d \<Rightarrow> todoArticle list \<Rightarrow> bool"
  assumes keep: "pipe_keeps D grp K" and upd: "\<And>d l i. K d l \<Longrightarrow> K (snd (UpdateGroupID D grp i d)) l"
  shows "fwd op K n (processTODOList D grp maxid) (\<lambda>_. False)"
proof (rule fwdI)
  fix c :: "'d NNTPPuller"
  assume c: "wf (cr c)" "op \<longrightarrow> cdr c \<noteq> None" "K (db c) (todoList c)" "csz c < n"
  have base: "pipe_base K c (pc (pipe_start c))" using c by (simp add: pipe_base_def pipe_start_def)
  obtain s e f where s: "pipe_run D grp (pipe_start c) = Some s" "sn s = SDone e f" "pipe_base K c (pc s)"
    using pipe_run_total [OF keep pipe_start_ok base] by blast
  let ?c = "if sint (new_maxid s) \<ge> 0 \<and> sint (new_maxid s) > sint maxid
              then snd (on_db (UpdateGroupID D grp (new_maxid s)) (pc s)) else pc s"
  have "processTODOList D grp maxid c = Some ((new_maxid s, e, f), ?c)"
    using s(1,2) by (simp add: processTODOList_def)
  moreover have "pipe_base K c ?c"
    using s(3) upd by (auto simp: pipe_base_def on_db_def case_prod_beta)
  ultimately show "\<exists>r c'. processTODOList D grp maxid c = Some (r, c') \<and> wf (cr c') \<and>
      (cdr c \<noteq> None \<longrightarrow> cdr c' \<noteq> None) \<and> K (db c') (todoList c') \<and> csz c' \<le> csz c \<and> (False \<longrightarrow> csz c' < csz c)"
    by (auto simp: pipe_base_def)
qed

subsection \<open>Lists of articles\<close>

text \<open>
  What a list holds after \<open>eatHdrOutput\<close> or \<open>eatOverOutput\<close>: at most \<open>maxListSize\<close> entries, each with a
  number that was asked for and a valid id.
\<close>

definition todo_wf :: "u64 \<Rightarrow> u64 \<Rightarrow> todoArticle list \<Rightarrow> bool" where
  "todo_wf r_begin r_end l \<longleftrightarrow> length l \<le> maxListSize \<and>
     (\<forall>a\<in>set l. \<not> outside r_begin r_end (ta_id a) \<and> ValidMessageID (ta_msgid a))"

lemma todo_wf_Nil [simp]: "todo_wf r_begin r_end []"
  by (simp add: todo_wf_def)

lemma outside_0 [simp]: "outside r_begin r_end 0"
  by (simp add: outside_def)

text \<open>The line readers give an entry a valid id unless its number is zero.\<close>

lemma hdr_msgid_valid:
  assumes "hdr_msgid line = (i, m, None)" and "i \<noteq> 0"
  shows "ValidMessageID m"
proof -
  have pick: "V m"
    if "(if a then (0, [], None) else if b then (0, [], None) else if c then (0, [], Some e1)
         else if \<not> V M then (I, M, Some e2) else if d then (I, M, Some e3) else (I, M, None)) = (i, m, None)"
    for V :: "bytes \<Rightarrow> bool" and a b c d M I and e1 e2 e3 :: cerr
    using that assms(2) by (simp split: if_splits)
  show ?thesis using assms(1) unfolding hdr_msgid_def Let_def by (rule pick)
qed

lemma eatHdrMsgIDLine_valid:
  "eatHdrMsgIDLine t = Some ((i, m, None), t') \<Longrightarrow> i \<noteq> 0 \<Longrightarrow> ValidMessageID m"
  by (auto simp: eatHdrMsgIDLine_def bind_eq_Some_conv split: option.splits dest: hdr_msgid_valid)

definition gives :: "(block \<Rightarrow> ('r \<times> block) option) \<Rightarrow> ('r \<Rightarrow> bool) \<Rightarrow> bool" where
  "gives f R \<longleftrightarrow> (\<forall>t r t'. f t = Some (r, t') \<longrightarrow> R r)"

lemma gives_bind: "(\<And>r. gives (g r) R) \<Longrightarrow> gives (\<lambda>t. Option.bind (f t) (case_prod g)) R"
  by (fastforce simp: gives_def bind_eq_Some_conv)

lemma gives_if: "(x \<Longrightarrow> gives f R) \<Longrightarrow> (\<not> x \<Longrightarrow> gives g R) \<Longrightarrow> gives (\<lambda>t. if x then f t else g t) R"
  by (cases x) auto

lemma gives_return: "R r \<Longrightarrow> gives (\<lambda>t. Some (r, t)) R"
  by (simp add: gives_def)

lemma over_fields_valid: "gives over_fields (\<lambda>((i, m, r), e, nomore). e = None \<and> i \<noteq> 0 \<longrightarrow> ValidMessageID m)"
  unfolding over_fields_def Let_def
  by (rule gives_bind) (auto intro!: gives_bind gives_if gives_return)

lemma getOverLineInfo_valid:
  "getOverLineInfo t = Some (((i, m, r), None, f), t') \<Longrightarrow> i \<noteq> 0 \<Longrightarrow> ValidMessageID m"
proof -
  assume g: "getOverLineInfo t = Some (((i, m, r), None, f), t')" and i: "i \<noteq> 0"
  obtain nm t1 where o: "over_fields t = Some (((i, m, r), None, nm), t1)"
    using g by (cases "over_fields t")
      (auto simp: getOverLineInfo_def bind_eq_Some_conv split: if_splits option.splits prod.splits)
  have *: "\<And>R t x t'. gives over_fields R \<Longrightarrow> over_fields t = Some (x, t') \<Longrightarrow> R x"
    unfolding gives_def by blast
  show "ValidMessageID m" using * [OF over_fields_valid o] i by simp
qed

lemma on_block_result: "on_block f c = Some (r, c') \<Longrightarrow> \<exists>t t'. f t = Some (r, t')"
  by (auto simp: on_block_def bind_eq_Some_conv split: option.splits)

abbreviation with_list :: "('d \<Rightarrow> bool) \<Rightarrow> u64 \<Rightarrow> u64 \<Rightarrow> 'd \<Rightarrow> todoArticle list \<Rightarrow> bool" where
  "with_list Q r_begin r_end d l \<equiv> Q d \<and> todo_wf r_begin r_end l"

lemma fwd_add:
  fixes Q :: "'d \<Rightarrow> bool"
  assumes f: "fwd op (with_list Q rb re) n f P" and a: "ta_id a \<noteq> 0 \<Longrightarrow> ValidMessageID (ta_msgid a)"
  shows "fwd op (with_list Q rb re) n (\<lambda>c. f (add_todo rb re a c)) P"
proof (rule fwdI)
  fix c :: "'d NNTPPuller"
  assume c: "wf (cr c)" "op \<longrightarrow> cdr c \<noteq> None" "with_list Q rb re (db c) (todoList c)" "csz c < n"
  let ?c = "add_todo rb re a c"
  have same: "cr ?c = cr c" "cdr ?c = cdr c" "db ?c = db c" "csz ?c = csz c"
    by (simp_all add: add_todo_def)
  have "todo_wf rb re (todoList ?c)"
    using c(3) a by (cases "ta_id a = 0") (auto simp: add_todo_def todo_wf_def)
  then have c': "wf (cr ?c)" "op \<longrightarrow> cdr ?c \<noteq> None" "with_list Q rb re (db ?c) (todoList ?c)" "csz ?c < n"
    using c same by auto
  show "\<exists>r c'. f (add_todo rb re a c) = Some (r, c') \<and> wf (cr c') \<and> (cdr c \<noteq> None \<longrightarrow> cdr c' \<noteq> None) \<and>
      with_list Q rb re (db c') (todoList c') \<and> csz c' \<le> csz c \<and> (P r \<longrightarrow> csz c' < csz c)"
    by (rule fwdD [OF f c']) (use same in auto)
qed

lemma hdr_loop_fwd: "fwd True (with_list Q rb re) n (hdr_loop rb re) (\<lambda>_. False)"
proof (rule fwd_loop1)
  fix n
  assume IH: "fwd True (with_list Q rb re) n (hdr_loop rb re) (\<lambda>_. False)"
  show "fwd True (with_list Q rb re) (Suc n) (hdr_loop rb re) (\<lambda>_. False)"
    by (subst hdr_loop.simps [abs_def],
        rule fwd_bind [OF fwd_block [OF eatHdrMsgIDLine_reads],
          where R = "\<lambda>(i, m, e). e = None \<longrightarrow> i \<noteq> 0 \<longrightarrow> ValidMessageID m"])
      (auto intro!: fwd_rules fwd_discard fwd_add IH dest!: on_block_result eatHdrMsgIDLine_valid)
qed

lemma over_loop_fwd: "fwd True (with_list Q rb re) n (over_loop rb re) (\<lambda>_. False)"
proof (rule fwd_loop1)
  fix n
  assume IH: "fwd True (with_list Q rb re) n (over_loop rb re) (\<lambda>_. False)"
  show "fwd True (with_list Q rb re) (Suc n) (over_loop rb re) (\<lambda>_. False)"
    by (subst over_loop.simps [abs_def],
        rule fwd_bind [OF fwd_block [OF getOverLineInfo_reads],
          where R = "\<lambda>((i, m, r), e, f). (e = None \<longrightarrow> i \<noteq> 0 \<longrightarrow> ValidMessageID m) \<and>
             (\<forall>x. e = Some (IoErr x) \<longrightarrow> x \<noteq> EOF \<longrightarrow> f)"])
      (auto intro!: fwd_rules fwd_discard fwd_add IH dest!: on_block_result
         dest: getOverLineInfo_valid getOverLineInfo_fatal)
qed

text \<open>The list starts empty.\<close>

lemma fwd_new_list:
  fixes K :: "'d \<Rightarrow> todoArticle list \<Rightarrow> bool"
  assumes f: "fwd True (with_list Q rb re) n f P" and Q: "\<And>d l. K d l \<Longrightarrow> Q d"
    and K: "\<And>d l. with_list Q rb re d l \<Longrightarrow> K d l"
  shows "fwd op K n (\<lambda>c. f ((openDotReader c)\<lparr>todoList := []\<rparr>)) P"
proof (rule fwdI)
  fix c :: "'d NNTPPuller"
  assume c: "wf (cr c)" "op \<longrightarrow> cdr c \<noteq> None" "K (db c) (todoList c)" "csz c < n"
  let ?c = "(openDotReader c)\<lparr>todoList := []\<rparr>"
  have le: "csz ?c \<le> csz c" by simp
  have c': "wf (cr ?c)" "True \<longrightarrow> cdr ?c \<noteq> None" "with_list Q rb re (db ?c) (todoList ?c)" "csz ?c < n"
    using c(1) Q [OF c(3)] le_less_trans [OF le c(4)] by auto
  show "\<exists>r c'. f ?c = Some (r, c') \<and> wf (cr c') \<and> (cdr c \<noteq> None \<longrightarrow> cdr c' \<noteq> None) \<and>
      K (db c') (todoList c') \<and> csz c' \<le> csz c \<and> (P r \<longrightarrow> csz c' < csz c)"
    by (rule fwdD [OF f c']) (use c'(2) K in \<open>auto intro: order_trans [OF _ openDotReader_simps(3)]
        less_le_trans [OF _ openDotReader_simps(3)]\<close>)
qed

subsection \<open>Slices and groups\<close>

lemma ValidMessageID_length: "ValidMessageID m \<Longrightarrow> 2 \<le> length m"
  by (simp add: ValidMessageID_def)

lemma next_try_fwd:
  fixes K :: "'d \<Rightarrow> todoArticle list \<Rightarrow> bool"
  shows "fwd op K n (next_try can line good bad) (\<lambda>r. r = Inr True \<or> (\<exists>fatal. r = Inl (None, fatal)))"
  unfolding next_try_def [abs_def] try_list_def
  by (intro fwd_if fwd_send fwd_return response_seq) (auto intro!: fwd_rules)

lemma try_then_fwd:
  fixes K :: "'d \<Rightarrow> todoArticle list \<Rightarrow> bool"
  assumes yes: "\<And>n. fwd op K n yes (\<lambda>_. False)" and no: "\<And>n. fwd op K n no (\<lambda>(i, e, fatal). e = None)"
  shows "fwd op K n (\<lambda>c. Option.bind (next_try (can c) line good bad c) (\<lambda>(r, c). case r of
       Inl (e, fatal) \<Rightarrow> Some ((0 :: u64, e, fatal), c) | Inr True \<Rightarrow> yes c | Inr False \<Rightarrow> no c))
     (\<lambda>(i, e, fatal). e = None)"
proof -
  let ?g = "\<lambda>r c. case r of Inl (e, fatal) \<Rightarrow> Some ((0 :: u64, e, fatal), c) | Inr True \<Rightarrow> yes c | Inr False \<Rightarrow> no c"
  have A: "fwd op K (n - Suc 0) (?g r) (\<lambda>_. False)" if "r = Inr True \<or> (\<exists>fatal. r = Inl (None, fatal))" for r
    using that by (auto intro: yes fwd_return)
  have B: "fwd op K n (?g r) (\<lambda>(i, e, fatal). e = None)" if "\<not> (r = Inr True \<or> (\<exists>fatal. r = Inl (None, fatal)))" for r
    using that by (cases r) (auto intro!: no fwd_return split: bool.split)
  show ?thesis
    by (rule fwd_dep [where h = can], rule fwd_seq [OF next_try_fwd]) (erule A, erule B)
qed

context puller_db
begin

definition few :: "nat \<Rightarrow> 'd \<Rightarrow> todoArticle list \<Rightarrow> bool" where
  "few m d l \<longleftrightarrow> rows d \<le> m"

lemma few_keeps: "pipe_keeps D grp (with_list (\<lambda>d. rows d \<le> m) rb re)"
  unfolding pipe_keeps_def
proof (intro allI impI conjI ballI)
  fix d l a
  assume k: "rows d \<le> m \<and> todo_wf rb re l"
  show "rows (snd (IsArticleWanted D x grp d)) \<le> m" for x using k wanted [of x grp d] by linarith
  show "rows (snd (DoesReferenceExist D x d)) \<le> m" for x using k exists_ [of x d] by linarith
  show "rows d' \<le> m" if "(r, d') \<in> set_reading (ReadArticle D x grp w d)" for x w r d'
    using k article [OF that] by linarith
  show "2 \<le> length (ta_msgid a)" if "a \<in> set l" using k that by (auto simp: todo_wf_def ValidMessageID_length)
qed simp_all

lemma list_then_process_fwd:
  assumes "fwd True (with_list (\<lambda>d. rows d \<le> m) rb re) n f (\<lambda>_. False)"
  shows "fwd op (few m) n (\<lambda>c. Option.bind (f ((openDotReader c)\<lparr>todoList := []\<rparr>)) (\<lambda>(e, c).
     if e \<noteq> None then Some ((0, e, False), c) else processTODOList D grp maxid c)) (\<lambda>_. False)"
proof (rule fwd_new_list)
  have upd: "with_list (\<lambda>d. rows d \<le> m) rb re d l \<Longrightarrow>
      with_list (\<lambda>d. rows d \<le> m) rb re (snd (UpdateGroupID D grp i d)) l" for d l i
    using update [of grp i d] by auto
  show "fwd True (with_list (\<lambda>d. rows d \<le> m) rb re) n (\<lambda>c. Option.bind (f c) (\<lambda>(e, c).
     if e \<noteq> None then Some ((0, e, False), c) else processTODOList D grp maxid c)) (\<lambda>_. False)"
    by (rule fwd_seq [OF assms])
      (auto intro!: fwd_rules processTODOList_fwd [OF few_keeps upd])
qed (simp_all add: few_def)

lemma list_hdr_fwd: "fwd op (few m) n (list_hdr D grp rb re maxid) (\<lambda>_. False)"
  using list_then_process_fwd [OF hdr_loop_fwd] by (simp add: list_hdr_def [abs_def] eatHdrOutput_def)

lemma list_over_fwd: "fwd op (few m) n (list_over D grp rb re maxid) (\<lambda>_. False)"
  using list_then_process_fwd [OF over_loop_fwd] by (simp add: list_over_def [abs_def] eatOverOutput_def)

text \<open>A slice that does not fail takes at least one response off the input.\<close>

lemma slice_over_fwd: "fwd op (few m) n (slice_over D grp rb re maxid) (\<lambda>(i, e, fatal). e = None)"
  unfolding slice_over_def [abs_def]
  by (intro try_then_fwd list_over_fwd fwd_return) simp

lemma eatGroupSlice_fwd: "fwd op (few m) n (eatGroupSlice D grp rb re maxid) (\<lambda>(i, e, fatal). e = None)"
  unfolding eatGroupSlice_def [abs_def]
  by (intro try_then_fwd list_hdr_fwd slice_over_fwd)

lemma group_loop_fwd: "fwd op (few m) n (group_loop D grp new_id sz rb re maxid) (\<lambda>(e, fatal). e = None)"
proof -
  have "fwd op (few m) n ((\<lambda>(rb, re, maxid). group_loop D grp new_id sz rb re maxid) (rb, re, maxid))
     (\<lambda>(e, fatal). e = None)"
  proof (rule fwd_loop)
    fix n :: nat and s :: "u64 \<times> u64 \<times> u64"
    assume IH: "\<And>s. fwd op (few m) n ((\<lambda>(rb, re, maxid). group_loop D grp new_id sz rb re maxid) s) (\<lambda>_. False)"
    obtain rb re maxid where s: "s = (rb, re, maxid)" by (cases s)
    have IH': "fwd op (few m) n (group_loop D grp new_id sz rb re maxid) (\<lambda>_. False)" for rb re maxid
      using IH [of "(rb, re, maxid)"] by simp
    show "fwd op (few m) (Suc n) ((\<lambda>(rb, re, maxid). group_loop D grp new_id sz rb re maxid) s) (\<lambda>(e, fatal). e = None)"
      unfolding s prod.case
      by (subst group_loop.simps [abs_def], rule fwd_seq [OF eatGroupSlice_fwd])
        (auto simp: Let_def intro!: fwd_rules IH')
  qed
  then show ?thesis by simp
qed

lemma eatGroup_fwd: "fwd op (few m) n (eatGroup D grp old_id new_id) (\<lambda>(e, fatal). e = None)"
  unfolding eatGroup_def [abs_def] Let_def
  by (rule fwd_dep [where h = "\<lambda>c. allowLargeOver (cs c)"]) (rule group_loop_fwd)

lemma few_update: "few m d l \<Longrightarrow> few m (snd (UpdateGroupID D grp i d)) l"
  using update [of grp i d] by (simp add: few_def)

lemma eat_new_fwd: "fwd op (few m) n (eat_new D grp old_id new_id) (\<lambda>_. False)"
  unfolding eat_new_def [abs_def]
  by (intro fwd_if fwd_return fwd_seq [OF eatGroup_fwd]) (auto intro!: fwd_rules)

lemma lower_id_fwd:
  assumes "\<And>i. fwd op (few m) n (f i) P"
  shows "fwd op (few m) n (\<lambda>c. case lower_id D grp old_id new_id c of (i, c) \<Rightarrow> f i c) P"
proof (cases "old_id > new_id")
  case True
  have "fwd op (few m) n (\<lambda>c. case on_db (UpdateGroupID D grp 0) c of (_, c) \<Rightarrow> f 0 c) P"
    by (intro fwd_db few_update assms)
  then show ?thesis using True by (simp add: lower_id_def case_prod_beta)
next
  case False
  then show ?thesis using assms by (simp add: lower_id_def)
qed

lemma ask_group_fwd: "fwd op (few m) n (ask_group D grp new_id old_id) (\<lambda>_. False)"
  unfolding ask_group_def [abs_def] Let_def
  by (rule fwd_seq [OF doGroup_fwd])
    (auto intro!: fwd_rules fwd_return_db few_update lower_id_fwd eat_new_fwd)

lemma scan_group_fwd: "fwd op (few m) n (scan_group D grp new_id old_id) (\<lambda>_. False)"
  unfolding scan_group_def [abs_def] Let_def
  by (intro fwd_if fwd_return lower_id_fwd ask_group_fwd) simp

text \<open>The loop over the groups ends because the groups run out.\<close>

lemma scan_loop_fwd: "fwd op any n (scan_loop D) (\<lambda>_. False)"
proof (rule fwdI)
  fix c :: "'d NNTPPuller"
  assume "wf (cr c)" "op \<longrightarrow> cdr c \<noteq> None" "True" "csz c < n"
  then show "\<exists>r c'. scan_loop D c = Some (r, c') \<and> wf (cr c') \<and> (cdr c \<noteq> None \<longrightarrow> cdr c' \<noteq> None) \<and>
      True \<and> csz c' \<le> csz c \<and> (False \<longrightarrow> csz c' < csz c)"
  proof (induction "rows (db c)" arbitrary: c rule: less_induct)
    case less
    obtain r d where r: "LoadTempGroup D (db c) = (r, d)" by (cases "LoadTempGroup D (db c)")
    show ?case
    proof (cases r)
      case (Inl e)
      then show ?thesis using r less.prems by (subst scan_loop.simps) (simp add: on_db_def case_prod_beta)
    next
      case (Inr g)
      obtain grp new_id old_id where g: "g = (grp, new_id, old_id)" by (cases g)
      let ?c = "c\<lparr>db := d\<rparr>"
      have lt: "rows d < rows (db c)" using load [of "db c" g d] r Inr by simp
      have ok: "wf (cr ?c)" "op \<longrightarrow> cdr ?c \<noteq> None" "few (rows d) (db ?c) (todoList ?c)" "csz ?c < n"
        using less.prems by (simp_all add: few_def)
      obtain e c2 where c2: "scan_group D grp new_id old_id ?c = Some (e, c2)" "wf (cr c2)"
        "cdr c \<noteq> None \<longrightarrow> cdr c2 \<noteq> None" "rows (db c2) \<le> rows d" "csz c2 \<le> csz c"
        by (rule fwdD [OF scan_group_fwd ok]) (simp add: few_def)
      have unf: "scan_loop D c = (case e of Some e \<Rightarrow> Some (Some e, c2) | None \<Rightarrow> scan_loop D c2)"
        using r Inr g c2(1) by (subst scan_loop.simps) (simp add: on_db_def)
      show ?thesis
      proof (cases e)
        case (Some x)
        then show ?thesis unfolding unf using c2 by simp
      next
        case None
        have "rows (db c2) < rows (db c)" "op \<longrightarrow> cdr c2 \<noteq> None" "csz c2 < n"
          using lt c2 less.prems by auto
        from less.hyps [OF this(1) c2(2) this(2) TrueI this(3)] show ?thesis
          unfolding unf None using c2 by (auto intro: order_trans)
      qed
    qed
  qed
qed

subsection \<open>Sessions\<close>

lemma list_method_fwd:
  assumes "fwd op any n f (\<lambda>(e, fatal). e = None)"
  shows "fwd op any n (list_method use what f) (\<lambda>r. r = Inr True)"
  unfolding list_method_def [abs_def]
  by (intro fwd_if fwd_return fwd_seq [OF assms]) (auto intro!: fwd_rules)

text \<open>A scan that does not fail read the list of groups.\<close>

lemma groupScanLoop_fwd: "fwd op any n (groupScanLoop D) (\<lambda>e. e = None)"
proof -
  have second: "fwd op any n (\<lambda>c. Option.bind (list_method (\<not> badNewsgroupsList (cs c))
       (bs ''doNewsgroupsList method failed'') (doNewsgroupsList D) c) (\<lambda>(r, c). case r of
         Inl e \<Rightarrow> Some (Some e, c)
       | Inr True \<Rightarrow> scan_loop D c
       | Inr False \<Rightarrow> Some (Some (Errorf (bs ''no methods left to get group list'') []), c))) (\<lambda>e. e = None)" for n
    by (rule fwd_dep [where h = "\<lambda>c. \<not> badNewsgroupsList (cs c)"],
        rule fwd_seq [OF list_method_fwd [OF doNewsgroupsList_fwd]])
      (auto intro!: fwd_case_sum fwd_case_bool fwd_return scan_loop_fwd)
  show ?thesis
    unfolding groupScanLoop_def [abs_def]
    by (rule fwd_dep [where h = "\<lambda>c. \<not> badActiveList (cs c)"],
        rule fwd_seq [OF list_method_fwd [OF doActiveList_fwd]])
      (auto intro!: fwd_case_sum fwd_case_bool fwd_return scan_loop_fwd second)
qed

lemma main_loop_fwd: "fwd op any n (main_loop D) (\<lambda>_. False)"
proof (rule fwd_loop1)
  fix n
  assume IH: "fwd op any n (main_loop D) (\<lambda>_. False)"
  show "fwd op any (Suc n) (main_loop D) (\<lambda>_. False)"
    by (subst main_loop.simps [abs_def], rule fwd_seq [OF groupScanLoop_fwd]) (auto intro!: fwd_rules IH)
qed

lemma main_fwd: "fwd op any n (main D) (\<lambda>_. False)"
proof -
  have mode: "fwd op any n (\<lambda>c. Option.bind (if \<not> capReader (cs c) then modeReader c else Some (None, c))
      (\<lambda>(e, c). case e of Some e \<Rightarrow> Some (e, c) | None \<Rightarrow> main_loop D c)) (\<lambda>_. False)" for n
    by (rule fwd_dep [where h = "\<lambda>c. capReader (cs c)"], rule fwd_seq [where P = "\<lambda>_. False"])
      (auto intro!: fwd_if fwd_return fwd_case_option modeReader_fwd main_loop_fwd)
  have caps: "fwd op any n (\<lambda>c. Option.bind (doCapabilities c) (\<lambda>((e, fatal), c). case (e, fatal) of
           (Some e, True) \<Rightarrow> Some (ErrWrap (bs ''doCapabilities() failed'') e, c)
         | _ \<Rightarrow> Option.bind (if \<not> capReader (cs c) then modeReader c else Some (None, c))
             (\<lambda>(e, c). case e of Some e \<Rightarrow> Some (e, c) | None \<Rightarrow> main_loop D c))) (\<lambda>_. False)" for n
    by (rule fwd_seq [OF doCapabilities_fwd])
      (auto intro!: fwd_return fwd_case_option fwd_case_bool mode)
  show ?thesis
    unfolding main_def [abs_def]
    by (rule fwd_seq [OF handleInitial_fwd]) (simp, intro fwd_case_option fwd_return caps, simp)
qed

lemma session_returns: "\<exists>e c'. session D u w c = Some (e, c')"
proof -
  let ?c = "c\<lparr>cs := zeroState, sent := [], sroom := w, cr := NewBufReader u, cdr := None\<rparr>"
  have "wf (cr ?c)" "False \<longrightarrow> cdr ?c \<noteq> None" "any (db ?c) (todoList ?c)" "csz ?c < Suc (csz ?c)"
    using NewBufReader_wf(1) [of u] by simp_all
  from fwdD [OF main_fwd this] show ?thesis unfolding session_def by blast
qed

end

end
