(* ===== verification/GroupPolicy.thy ===== *)
theory GroupPolicy
  imports Wildmat
begin

text \<open>
  \<open>app/psqlib/internal/pigpolicy/grouppolicy.go\<close>: which groups may be added automatically. A policy is a
  wildmat with implicit patterns for the control group and for a reserved kind of name; a group must
  also have a plausible name. What \<open>unicode.IsPrint\<close> says of an encoded rune is the parameter \<open>pr\<close>.
\<close>

record NewGroupPolicy =
  check :: wildmat
  permissive :: bool
  allowUTF8 :: bool

text \<open>\<open>strings.Join(ss, ",")\<close>\<close>

fun join_commas :: "bytes list \<Rightarrow> bytes" where
  "join_commas [] = []"
| "join_commas [s] = s"
| "join_commas (s # t # ss) = s @ 44 # join_commas (t # ss)"

text \<open>\<open>None\<close> is the panic of a wildmat that does not compile.\<close>

definition MakeNewGroupPolicy :: "bytes \<Rightarrow> (bytes + NewGroupPolicy) option" where
  "MakeNewGroupPolicy s =
     (if s = [] then Some (Inr \<lparr>check = [], permissive = False, allowUTF8 = False\<rparr>)
      else if \<not> ValidWildmat s then Some (Inl (bs ''invalid wildmat''))
      else let ss = filter (\<lambda>x. x \<noteq> bs ''ctl'') (commas s);
               allowall = (ss = [bs ''*'']);
               ss = (if \<not> allowall then ss @ [bs ''ctl''] else ss);
               ss = ss @ [bs ''!*._*'']
           in (case CompileWildmat (join_commas ss) of
                 None \<Rightarrow> None
               | Some w \<Rightarrow> Some (Inr \<lparr>check = w, permissive = False, allowUTF8 = True\<rparr>)))"

subsection \<open>Names\<close>

definition groupFirstCompEq :: "bytes \<Rightarrow> bytes \<Rightarrow> bool" where
  "groupFirstCompEq grp cp \<longleftrightarrow> take (length cp) grp = cp \<and>
     (length grp = length cp \<or> grp ! length cp = 46)"

text \<open>\<open>strings.Index\<close>\<close>

fun str_index :: "bytes \<Rightarrow> bytes \<Rightarrow> nat option" where
  "str_index s sub =
     (if take (length sub) s = sub then Some 0
      else (case s of [] \<Rightarrow> None | _ # t \<Rightarrow> map_option Suc (str_index t sub)))"

declare str_index.simps [simp del]

text \<open>The slice \<open>grp[off:]\<close> is in range for a component that is not empty.\<close>

function any_loop :: "bytes \<Rightarrow> bytes \<Rightarrow> nat \<Rightarrow> bool" where
  "any_loop grp cp off =
     (if off > length grp then False
      else case str_index (drop off grp) cp of
        None \<Rightarrow> False
      | Some i \<Rightarrow>
          let i = i + off in
          if (i = 0 \<or> grp ! (i - 1) = 46) \<and>
             (i + length cp = length grp \<or> grp ! (i + length cp) = 46)
          then True else any_loop grp cp (i + 1))"
  by pat_completeness auto
termination by (relation "measure (\<lambda>(grp, cp, off). length grp + 1 - off)") auto

declare any_loop.simps [simp del]

definition groupAnyCompEq :: "bytes \<Rightarrow> bytes \<Rightarrow> bool" where
  "groupAnyCompEq grp cp = any_loop grp cp 0"

definition net_char :: "byte \<Rightarrow> bool" where
  "net_char c \<longleftrightarrow> (48 \<le> c \<and> c \<le> 57) \<or> (65 \<le> c \<and> c \<le> 90) \<or> (97 \<le> c \<and> c \<le> 122) \<or> c = 43 \<or> c = 45 \<or> c = 95"

text \<open>The loop over the runes; \<open>prev\<close> is the byte in front of the rest.\<close>

function net_loop :: "(bytes \<Rightarrow> bool) \<Rightarrow> bool \<Rightarrow> byte option \<Rightarrow> bytes \<Rightarrow> bool" where
  "net_loop pr u prev [] = True"
| "net_loop pr u prev (c # s) =
     (if c = 46 then
        (if prev = None \<or> prev = Some 46 \<or> s = [] then False else net_loop pr u (Some c) s)
      else if net_char c then net_loop pr u (Some c) s
      else if c \<ge> 0x80 \<and> u \<and> pr (take (rune_width (c # s)) (c # s))
      then net_loop pr u (Some ((c # s) ! (rune_width (c # s) - 1))) (drop (rune_width (c # s)) (c # s))
      else False)"
  by pat_completeness auto
termination
  by (relation "measure (\<lambda>(pr, u, prev, s). length s)") (auto simp: rune_width_pos)

definition validNetNewsGroup :: "(bytes \<Rightarrow> bool) \<Rightarrow> bytes \<Rightarrow> bool \<Rightarrow> bool" where
  "validNetNewsGroup pr s u =
     (if \<not> net_loop pr u None s then False
      else if groupFirstCompEq s (bs ''example'') \<or> s = bs ''poster'' then False
      else if groupFirstCompEq s (bs ''to'') then False
      else if groupAnyCompEq s (bs ''any'') then False
      else True)"

function fucky_loop :: "(bytes \<Rightarrow> bool) \<Rightarrow> bool \<Rightarrow> bytes \<Rightarrow> bool" where
  "fucky_loop pr u [] = True"
| "fucky_loop pr u (c # s) =
     (if c < 0x80 then fucky_loop pr u s
      else if \<not> u \<or> \<not> pr (take (rune_width (c # s)) (c # s)) then False
      else fucky_loop pr u (drop (rune_width (c # s)) (c # s)))"
  by pat_completeness auto
termination
  by (relation "measure (\<lambda>(pr, u, s). length s)") (auto simp: rune_width_pos)

definition validFuckyGroup :: "(bytes \<Rightarrow> bool) \<Rightarrow> bytes \<Rightarrow> bool \<Rightarrow> bool" where
  "validFuckyGroup pr s u = fucky_loop pr u s"

definition CheckGroup :: "(bytes \<Rightarrow> bool) \<Rightarrow> NewGroupPolicy \<Rightarrow> bytes \<Rightarrow> bool" where
  "CheckGroup pr ngp grp =
     (if \<not> CheckString (check ngp) grp then False
      else if \<not> permissive ngp then validNetNewsGroup pr grp (allowUTF8 ngp)
      else validFuckyGroup pr grp (allowUTF8 ngp))"

subsection \<open>Components of a name\<close>

text \<open>The components between the dots.\<close>

fun components :: "bytes \<Rightarrow> bytes list" where
  "components [] = [[]]"
| "components (c # s) =
     (if c = 46 then [] # components s
      else (case components s of p # ps \<Rightarrow> (c # p) # ps | [] \<Rightarrow> [[c]]))"

lemma components_ne [simp]: "components s \<noteq> []"
  by (induction s) (auto split: list.splits)

lemma components_append_dot: "46 \<notin> set p \<Longrightarrow> components (p @ 46 # s) = p # components s"
  by (induction p) auto

lemma components_nodot: "46 \<notin> set p \<Longrightarrow> components p = [p]"
  by (induction p) auto

lemma components_dot: "components (a @ 46 # s) = components a @ components s"
proof (induction a)
  case (Cons c a)
  then show ?case by (cases "components a") auto
qed simp

lemma components_split:
  obtains p where "46 \<notin> set p" "s = p" "components s = [p]"
  | p t where "46 \<notin> set p" "s = p @ 46 # t" "components s = p # components t"
proof (cases "46 \<in> set s")
  case True
  then obtain p t where "s = p @ 46 # t" "46 \<notin> set p" using split_list_first [OF True] by blast
  then show ?thesis using that(2) components_append_dot by blast
next
  case False
  then show ?thesis using that(1) components_nodot by blast
qed

text \<open>A component that occurs is cut out by dots or the ends.\<close>

lemma component_iff:
  "46 \<notin> set w \<Longrightarrow> w \<in> set (components s) \<longleftrightarrow>
     (\<exists>a z. s = a @ w @ z \<and> (a = [] \<or> last a = 46) \<and> (z = [] \<or> hd z = 46))"
proof
  assume w: "46 \<notin> set w"
  show "w \<in> set (components s) \<Longrightarrow>
     \<exists>a z. s = a @ w @ z \<and> (a = [] \<or> last a = 46) \<and> (z = [] \<or> hd z = 46)"
  proof (induction "length s" arbitrary: s rule: less_induct)
    case less
    show ?case
    proof (rule components_split [of s])
      fix p assume "46 \<notin> set p" "s = p" "components s = [p]"
      then show ?thesis using less.prems by (intro exI [of _ "[]"]) simp
    next
      fix p t assume p: "46 \<notin> set p" "s = p @ 46 # t" "components s = p # components t"
      show ?thesis
      proof (cases "w = p")
        case True
        then show ?thesis using p(2) by (intro exI [of _ "[]"] exI [of _ "46 # t"]) simp
      next
        case False
        then have "w \<in> set (components t)" using less.prems p(3) by simp
        then obtain a z where "t = a @ w @ z" "a = [] \<or> last a = 46" "z = [] \<or> hd z = 46"
          using less.hyps [of t] p(2) by auto
        then show ?thesis using p(2) by (intro exI [of _ "p @ 46 # a"] exI [of _ z]) auto
      qed
    qed
  qed
next
  assume w: "46 \<notin> set w"
  assume "\<exists>a z. s = a @ w @ z \<and> (a = [] \<or> last a = 46) \<and> (z = [] \<or> hd z = 46)"
  then obtain a z where s: "s = a @ w @ z" "a = [] \<or> last a = 46" "z = [] \<or> hd z = 46" by blast
  have wz: "w \<in> set (components (w @ z))"
    using s(3) w by (cases z) (auto simp: components_nodot components_append_dot)
  show "w \<in> set (components s)"
  proof (cases "a = []")
    case True
    then show ?thesis using wz s(1) by simp
  next
    case False
    then have "a = butlast a @ [46]" using s(2) by (metis append_butlast_last_id)
    then have "s = butlast a @ 46 # w @ z" using s(1) by simp
    then show ?thesis using wz by (simp add: components_dot)
  qed
qed

subsection \<open>The loops against the components\<close>

abbreviation occurs :: "bytes \<Rightarrow> bytes \<Rightarrow> nat \<Rightarrow> bool" where
  "occurs s w i \<equiv> take (length w) (drop i s) = w"

lemma str_index_Some: "str_index s w = Some i \<Longrightarrow> i \<le> length s \<and> occurs s w i \<and> (\<forall>j<i. \<not> occurs s w j)"
proof (induction s arbitrary: i)
  case Nil
  then show ?case by (simp add: str_index.simps [of "[]"] split: if_splits)
next
  case (Cons c s)
  show ?case
  proof (cases "take (length w) (c # s) = w")
    case True
    then show ?thesis using Cons.prems by (simp add: str_index.simps [of "c # s"])
  next
    case False
    then obtain k where k: "str_index s w = Some k" "i = Suc k"
      using Cons.prems by (auto simp: str_index.simps [of "c # s"])
    show ?thesis
    proof (intro conjI allI impI)
      fix j assume "j < i"
      then show "\<not> occurs (c # s) w j" using False Cons.IH [OF k(1)] k(2) by (cases j) auto
    qed (use Cons.IH [OF k(1)] k(2) in auto)
  qed
qed

lemma str_index_None: "str_index s w = None \<Longrightarrow> \<not> occurs s w i"
proof (induction s arbitrary: i)
  case Nil
  then show ?case by (simp add: str_index.simps [of "[]"] split: if_splits)
next
  case (Cons c s)
  then have "take (length w) (c # s) \<noteq> w" "str_index s w = None"
    by (auto simp: str_index.simps [of "c # s"] split: if_splits)
  then show ?case using Cons.IH by (cases i) auto
qed

abbreviation cut_out :: "bytes \<Rightarrow> bytes \<Rightarrow> nat \<Rightarrow> bool" where
  "cut_out s w i \<equiv> occurs s w i \<and> (i = 0 \<or> s ! (i - 1) = 46) \<and>
     (i + length w = length s \<or> s ! (i + length w) = 46)"

lemma any_loop_iff:
  assumes "w \<noteq> []"
  shows "any_loop s w off \<longleftrightarrow> (\<exists>i\<ge>off. cut_out s w i)"
proof (induction "length s + 1 - off" arbitrary: off rule: less_induct)
  case less
  have in_range: "occurs s w i \<Longrightarrow> i < length s" for i using assms by (cases "i < length s") auto
  show ?case
  proof (cases "off > length s")
    case True
    then show ?thesis using in_range by (subst any_loop.simps) force
  next
    case off: False
    show ?thesis
    proof (cases "str_index (drop off s) w")
      case None
      have "\<not> occurs s w i" if "off \<le> i" for i
        using str_index_None [OF None, of "i - off"] that by simp
      then show ?thesis using off None by (subst any_loop.simps) auto
    next
      case (Some k)
      note k = str_index_Some [OF Some]
      have occ: "occurs s w (k + off)" using k by (simp add: add.commute)
      have no: "\<not> occurs s w i" if "off \<le> i" "i < k + off" for i
      proof -
        have "i - off < k" using that by linarith
        then have "\<not> occurs (drop off s) w (i - off)" using k by blast
        then show ?thesis using that by simp
      qed
      have rec: "any_loop s w (k + off + 1) \<longleftrightarrow> (\<exists>i\<ge>k + off + 1. cut_out s w i)"
        by (rule less.hyps) (use off in linarith)
      have unf: "any_loop s w off \<longleftrightarrow>
          (k + off = 0 \<or> s ! (k + off - 1) = 46) \<and> (k + off + length w = length s \<or> s ! (k + off + length w) = 46)
          \<or> any_loop s w (k + off + 1)"
        using off Some by (subst any_loop.simps) (auto simp: Let_def)
      have "(\<exists>i\<ge>off. cut_out s w i) \<longleftrightarrow> cut_out s w (k + off) \<or> (\<exists>i\<ge>k + off + 1. cut_out s w i)"
      proof
        assume "\<exists>i\<ge>off. cut_out s w i"
        then obtain i where i: "off \<le> i" "cut_out s w i" by blast
        then have "k + off \<le> i" using no [of i] by (meson not_le)
        then show "cut_out s w (k + off) \<or> (\<exists>i\<ge>k + off + 1. cut_out s w i)"
          using i by (cases "i = k + off") (auto intro!: exI [of _ i])
      next
        assume A: "cut_out s w (k + off) \<or> (\<exists>i\<ge>k + off + 1. cut_out s w i)"
        show "\<exists>i\<ge>off. cut_out s w i"
        proof (cases "cut_out s w (k + off)")
          case True
          then show ?thesis by (intro exI [of _ "k + off"]) simp
        next
          case False
          then obtain i where "k + off + 1 \<le> i" "cut_out s w i" using A by blast
          then show ?thesis by (intro exI [of _ i]) simp
        qed
      qed
      then show ?thesis unfolding unf rec using occ by blast
    qed
  qed
qed

lemma groupAnyCompEq_iff:
  assumes "w \<noteq> []" and "46 \<notin> set w"
  shows "groupAnyCompEq s w \<longleftrightarrow> w \<in> set (components s)"
proof -
  have eq: "cut_out s w i \<longleftrightarrow>
      (\<exists>a z. s = a @ w @ z \<and> length a = i \<and> (a = [] \<or> last a = 46) \<and> (z = [] \<or> hd z = 46))" for i
  proof
    assume c: "cut_out s w i"
    then have "length (take (length w) (drop i s)) = length w" by simp
    then have "length w \<le> length s - i" by simp
    moreover have "0 < length w" using assms(1) by simp
    ultimately have i: "i + length w \<le> length s" by linarith
    let ?a = "take i s" and ?z = "drop (i + length w) s"
    have "s = ?a @ w @ ?z" using c by (metis append.assoc append_take_drop_id add.commute drop_drop take_add)
    moreover have "?a = [] \<or> last ?a = 46"
      using c i by (cases i) (auto simp: last_conv_nth take_Suc_conv_app_nth)
    moreover have "?z = [] \<or> hd ?z = 46"
      using c i by (cases "i + length w = length s") (auto simp: hd_drop_conv_nth)
    moreover have "length ?a = i" using i by simp
    ultimately show "\<exists>a z. s = a @ w @ z \<and> length a = i \<and> (a = [] \<or> last a = 46) \<and> (z = [] \<or> hd z = 46)" by blast
  next
    assume "\<exists>a z. s = a @ w @ z \<and> length a = i \<and> (a = [] \<or> last a = 46) \<and> (z = [] \<or> hd z = 46)"
    then obtain a z where s: "s = a @ w @ z" "length a = i" "a = [] \<or> last a = 46" "z = [] \<or> hd z = 46" by blast
    have "i = 0 \<or> s ! (i - 1) = 46" using s by (cases "a = []") (auto simp: nth_append last_conv_nth)
    moreover have "i + length w = length s \<or> s ! (i + length w) = 46"
      using s by (cases z) (auto simp: nth_append)
    ultimately show "cut_out s w i" using s(1,2) by auto
  qed
  have "(\<exists>i\<ge>0. cut_out s w i) \<longleftrightarrow> (\<exists>a z. s = a @ w @ z \<and> (a = [] \<or> last a = 46) \<and> (z = [] \<or> hd z = 46))"
    unfolding eq by auto
  then show ?thesis
    unfolding groupAnyCompEq_def any_loop_iff [OF assms(1)] component_iff [OF assms(2)] .
qed

lemma groupFirstCompEq_iff:
  assumes "46 \<notin> set w"
  shows "groupFirstCompEq s w \<longleftrightarrow> hd (components s) = w"
proof (rule components_split [of s])
  fix p assume p: "46 \<notin> set p" "s = p" "components s = [p]"
  show ?thesis
  proof
    assume f: "groupFirstCompEq s w"
    then have "length p = length w"
    proof (cases "length p = length w")
      case False
      then have "p ! length w = 46" "length w < length p"
        using f p(2) by (auto simp: groupFirstCompEq_def) (metis length_take min.absorb2 nat_neq_iff not_less take_all)
      then show ?thesis using p(1) nth_mem by metis
    qed
    then show "hd (components s) = w" using f p by (simp add: groupFirstCompEq_def)
  qed (use p in \<open>simp add: groupFirstCompEq_def\<close>)
next
  fix p t assume p: "46 \<notin> set p" "s = p @ 46 # t" "components s = p # components t"
  show ?thesis
  proof
    assume f: "groupFirstCompEq s w"
    have len: "length w \<le> length s" using f by (metis groupFirstCompEq_def length_take min.absorb_iff2 min.commute)
    have "\<not> length w < length p"
      using f p(1,2) nth_mem [of "length w" p] by (auto simp: groupFirstCompEq_def nth_append simp del: nth_mem)
    moreover have "\<not> length p < length w"
    proof
      assume lt: "length p < length w"
      then have "w ! length p = s ! length p" using f len by (metis groupFirstCompEq_def nth_take)
      then have "w ! length p = 46" using p(2) by simp
      then show False using assms lt nth_mem by metis
    qed
    ultimately have "length w = length p" by linarith
    then show "hd (components s) = w" using f p by (simp add: groupFirstCompEq_def)
  qed (use p in \<open>auto simp: groupFirstCompEq_def nth_append\<close>)
qed

text \<open>A good component: not empty, of the characters RFC 5536 allows.\<close>

definition good_comp :: "bytes \<Rightarrow> bool" where
  "good_comp p \<longleftrightarrow> p \<noteq> [] \<and> list_all net_char p"

lemma good_comp_simps [simp]: "\<not> good_comp []" "good_comp (c # p) \<longleftrightarrow> net_char c \<and> list_all net_char p"
  by (simp_all add: good_comp_def)

lemma net_loop_iff:
  "ascii s \<Longrightarrow> net_loop pr u prev s \<longleftrightarrow>
     (if prev = None \<or> prev = Some 46 then s = [] \<or> list_all good_comp (components s)
      else list_all net_char (hd (components s)) \<and> list_all good_comp (tl (components s)))"
proof (induction s arbitrary: prev)
  case (Cons c s)
  have IH: "net_loop pr u (Some c) s \<longleftrightarrow>
     (if c = 46 then s = [] \<or> list_all good_comp (components s)
      else list_all net_char (hd (components s)) \<and> list_all good_comp (tl (components s)))"
    using Cons by simp
  have c: "\<not> c \<ge> 0x80" using Cons.prems by (simp add: not_le)
  obtain p ps where p: "components s = p # ps" by (cases "components s") auto
  show ?case
  proof (cases "c = 46")
    case True
    then show ?thesis using IH p by auto
  next
    case False
    then show ?thesis using IH c p by auto
  qed
qed simp

lemma validNet_components:
  assumes "ascii s" and "s \<noteq> []"
  shows "validNetNewsGroup pr s u \<longleftrightarrow>
     list_all good_comp (components s) \<and> hd (components s) \<notin> {bs ''example'', bs ''to''} \<and>
     bs ''any'' \<notin> set (components s) \<and> s \<noteq> bs ''poster''"
  using assms
  by (simp add: validNetNewsGroup_def net_loop_iff groupFirstCompEq_iff groupAnyCompEq_iff del: bs_Cons)
    (auto simp: groupFirstCompEq_iff groupAnyCompEq_iff)

subsection \<open>The wildmat of a policy\<close>

text \<open>What the last of some patterns that matches says.\<close>

definition last_match :: "bytes list \<Rightarrow> bytes \<Rightarrow> bool" where
  "last_match ps g =
     (case find (\<lambda>(neg, p). glob p g) (rev (map pattern ps)) of None \<Rightarrow> False | Some (neg, _) \<Rightarrow> \<not> neg)"

lemma last_match_snoc:
  "last_match (ps @ [p]) g =
     (if glob (snd (pattern p)) g then \<not> fst (pattern p) else last_match ps g)"
  by (simp add: last_match_def split_beta)

lemma last_match_two:
  "last_match (ps @ [p, q]) g =
     (if glob (snd (pattern q)) g then \<not> fst (pattern q)
      else if glob (snd (pattern p)) g then \<not> fst (pattern p) else last_match ps g)"
  using last_match_snoc [of "ps @ [p]" q g] by (simp add: last_match_snoc)

lemma commas_no_comma: "p \<in> set (commas x) \<Longrightarrow> 44 \<notin> set p"
  by (induction x arbitrary: p) (auto split: if_splits list.splits)

lemma commas_single: "44 \<notin> set p \<Longrightarrow> commas p = [p]"
  by (induction p) auto

lemma commas_cons: "44 \<notin> set p \<Longrightarrow> commas (p @ 44 # x) = p # commas x"
  by (induction p) auto

lemma commas_join: "ss \<noteq> [] \<Longrightarrow> \<forall>s\<in>set ss. 44 \<notin> set s \<Longrightarrow> commas (join_commas ss) = ss"
  by (induction ss rule: join_commas.induct) (auto simp: commas_single commas_cons)

lemma ascii_join: "\<forall>s\<in>set ss. ascii s \<Longrightarrow> ascii (join_commas ss)"
  by (induction ss rule: join_commas.induct) auto

lemma ascii_commas: "ascii x \<Longrightarrow> p \<in> set (commas x) \<Longrightarrow> ascii p"
  by (induction x arbitrary: p) (auto split: if_splits list.splits)

lemma compile_join:
  assumes "ss \<noteq> []" and "\<forall>s\<in>set ss. seg_ok s \<and> 44 \<notin> set s \<and> ascii s"
  shows "\<exists>w. CompileWildmat (join_commas ss) = Some w \<and> (\<forall>g. CheckString w g = last_match ss g)"
proof -
  have c: "commas (join_commas ss) = ss" using assms by (simp add: commas_join)
  have "list_all seg_ok (commas (join_commas ss))" unfolding c using assms(2) by (simp add: list_all_iff)
  from compile_segs [OF this, of "[]"] show ?thesis
    using assms(2) by (simp add: CompileWildmat_def c ascii_join CheckString_def check_pieces last_match_def)
qed

lemma implicit_patterns:
  "seg_ok (bs ''ctl'')" "seg_ok (bs ''!*._*'')" "44 \<notin> set (bs ''ctl'')" "44 \<notin> set (bs ''!*._*'')"
  "ascii (bs ''ctl'')" "ascii (bs ''!*._*'')"
  "pattern (bs ''ctl'') = (False, bs ''ctl'')" "pattern (bs ''!*._*'') = (True, bs ''*._*'')"
  by code_simp+

lemma glob_ctl: "glob (bs ''ctl'') g \<longleftrightarrow> g = bs ''ctl''"
  by (simp add: glob.simps split: list.splits)

lemma glob_star_ctl: "glob (bs ''*'') (bs ''ctl'')"
  by code_simp

text \<open>
  C19: A policy that is a valid ASCII wildmat lets a group be added exactly if its name is no reserved one
  (\<open>*._*\<close>), it is the control group or the last pattern of the policy that matches it is not
  negated (patterns that are literally \<open>ctl\<close> do not count), and the name is plausible: its components
  are not empty and of the allowed characters, the first is neither \<open>example\<close> nor \<open>to\<close>, none is \<open>any\<close>,
  and it is not \<open>poster\<close>. So every policy but the empty one admits the control group, also one with
  \<open>!ctl\<close>.
\<close>
theorem group_policy:
  assumes "ValidWildmat s" and "ascii s" and "s \<noteq> []"
  shows "\<exists>ngp. MakeNewGroupPolicy s = Some (Inr ngp) \<and>
    (\<forall>g. ascii g \<longrightarrow> g \<noteq> [] \<longrightarrow> CheckGroup pr ngp g =
       (\<not> glob (bs ''*._*'') g \<and>
        (g = bs ''ctl'' \<or> last_match (filter (\<lambda>x. x \<noteq> bs ''ctl'') (commas s)) g) \<and>
        list_all good_comp (components g) \<and> hd (components g) \<notin> {bs ''example'', bs ''to''} \<and>
        bs ''any'' \<notin> set (components g) \<and> g \<noteq> bs ''poster'')) \<and>
    CheckGroup pr ngp (bs ''ctl'')"
proof -
  let ?ss = "filter (\<lambda>x. x \<noteq> bs ''ctl'') (commas s)"
  let ?all = "?ss = [bs ''*'']"
  let ?tt = "(if \<not> ?all then ?ss @ [bs ''ctl''] else ?ss) @ [bs ''!*._*'']"
  have segs: "\<forall>p\<in>set ?ss. seg_ok p \<and> 44 \<notin> set p \<and> ascii p"
    using ValidWildmat_segs [OF assms(1)] ascii_commas [OF assms(2)] commas_no_comma
    by (auto simp: list_all_iff simp del: bs_Cons)
  have "set ((if \<not> x then xs @ [c] else xs) @ [d]) \<subseteq> set xs \<union> {c, d}" for x xs and c d :: bytes by auto
  from this [of ?all ?ss "bs ''ctl''" "bs ''!*._*''"] have "\<forall>p\<in>set ?tt. seg_ok p \<and> 44 \<notin> set p \<and> ascii p"
    using segs implicit_patterns(1-6) by blast
  then obtain w where w: "CompileWildmat (join_commas ?tt) = Some w" "\<And>g. CheckString w g = last_match ?tt g"
    using compile_join [of ?tt] by (auto simp del: bs_Cons)
  let ?ngp = "\<lparr>check = w, permissive = False, allowUTF8 = True\<rparr>"
  have mk: "MakeNewGroupPolicy s = Some (Inr ?ngp)"
    unfolding MakeNewGroupPolicy_def Let_def
    by (simp only: assms(1,3) w(1) option.case if_False not_True_eq_False)
  have lm: "last_match ?tt g \<longleftrightarrow> \<not> glob (bs ''*._*'') g \<and> (g = bs ''ctl'' \<or> last_match ?ss g)" for g
  proof (cases ?all)
    case True
    have "pattern (bs ''*'') = (False, bs ''*'')" by code_simp
    then have "last_match [bs ''*''] (bs ''ctl'')"
      using last_match_snoc [of "[]" "bs ''*''" "bs ''ctl''"] glob_star_ctl by (simp del: bs_Cons)
    moreover have "last_match [bs ''*'', bs ''!*._*''] g \<longleftrightarrow> \<not> glob (bs ''*._*'') g \<and> last_match [bs ''*''] g"
      using last_match_snoc [of "[bs ''*'']" "bs ''!*._*''" g] implicit_patterns by (simp del: bs_Cons)
    ultimately show ?thesis unfolding True by (auto simp del: bs_Cons)
  next
    case False
    then show ?thesis by (auto simp: last_match_two implicit_patterns glob_ctl simp del: bs_Cons)
  qed
  have chk: "CheckGroup pr ?ngp g =
       (\<not> glob (bs ''*._*'') g \<and> (g = bs ''ctl'' \<or> last_match ?ss g) \<and> validNetNewsGroup pr g True)" for g
    by (simp add: CheckGroup_def w(2) lm del: bs_Cons)
  have ctl: "CheckGroup pr ?ngp (bs ''ctl'')"
  proof -
    have "\<not> glob (bs ''*._*'') (bs ''ctl'')" by code_simp
    moreover have "ascii (bs ''ctl'')" "list_all good_comp (components (bs ''ctl''))"
      "components (bs ''ctl'') = [bs ''ctl'']" by code_simp+
    ultimately show ?thesis unfolding chk by (simp add: validNet_components del: bs_Cons)
  qed
  show ?thesis
    using mk ctl by (intro exI [of _ ?ngp]) (simp add: chk validNet_components conj_assoc del: bs_Cons)
qed

theorem group_policy_witness:
  "\<exists>ngp. MakeNewGroupPolicy (bs ''overchan.*,!ctl'') = Some (Inr ngp) \<and>
    (\<forall>g. ascii g \<longrightarrow> g \<noteq> [] \<longrightarrow> CheckGroup (\<lambda>_. True) ngp g =
       (\<not> glob (bs ''*._*'') g \<and>
        (g = bs ''ctl'' \<or> last_match (filter (\<lambda>x. x \<noteq> bs ''ctl'') (commas (bs ''overchan.*,!ctl''))) g) \<and>
        list_all good_comp (components g) \<and> hd (components g) \<notin> {bs ''example'', bs ''to''} \<and>
        bs ''any'' \<notin> set (components g) \<and> g \<noteq> bs ''poster'')) \<and>
    CheckGroup (\<lambda>_. True) ngp (bs ''ctl'')"
  by (rule group_policy) code_simp+

end
