(* ===== verification/NntpPullerDB.thy ===== *)
theory NntpPullerDB
  imports NntpScanLaws GroupPolicy
begin

text \<open>
  The puller's database (\<open>app/psqlib/piold/nntppullerdb.go\<close>) over the tables it uses: the boards and
  \<open>puller_group_track\<close>. The SQL statements in that file and in
  \<open>app/store/psqlib/internal/sqlcode/statements/puller.sql\<close> are functions on the tables. Any statement may
  fail: \<open>faults\<close> says which of the next ones do. The rest of the store (articles, bans) is the component
  \<open>rest\<close>, and what the code asks of it are parameters, as are the clock and the collation of names.
\<close>

subsection \<open>Tables and parameters\<close>

record track =
  tk_sid :: nat
  tk_bid :: nat
  last_use :: u64
  last_max :: u64
  next_max :: u64

text \<open>\<open>PullerDB\<close> and the tables. A board is its \<open>b_id\<close> and \<open>b_name\<close>; \<open>next_bid\<close> is the identity column.\<close>

record 'a PullerDB =
  pd_id :: nat
  nonce :: u64
  temp_rows :: "(bytes \<times> u64 \<times> u64) list option"
  boards :: "(nat \<times> bytes) list"
  next_bid :: nat
  tracks :: "track list"
  faults :: "nat \<Rightarrow> bool"
  rest :: 'a

record articlecheckinfo =
  has_real :: bool
  has_ph :: bool
  ph_ban :: bool
  ph_banpriv :: int

record 'a PSQLIB =
  ngp_global :: NewGroupPolicy
  ngp_anypuller :: NewGroupPolicy
  ngp_thispuller :: NewGroupPolicy
  notrace :: bool
  is_print :: "bytes \<Rightarrow> bool"
  NowTimeUnixMilli :: u64
  collate :: "bytes \<Rightarrow> nat"
  checkArticleForPush :: "bytes \<Rightarrow> 'a \<Rightarrow> articlecheckinfo"
  nntpCheckArticleValid :: "bytes \<Rightarrow> 'a \<Rightarrow> bool"
  handleIncoming :: "bytes \<Rightarrow> bytes \<Rightarrow> bool \<Rightarrow> 'a \<Rightarrow> ((cerr option \<times> bool \<times> bytes) \<times> 'a) reading"

text \<open>One statement: it fails, or has its effect and result.\<close>

definition sql :: "('a PullerDB \<Rightarrow> 'r \<times> 'a PullerDB) \<Rightarrow> 'a PullerDB \<Rightarrow> (cerr + 'r) \<times> 'a PullerDB" where
  "sql f d =
     (let d' = d\<lparr>faults := (\<lambda>n. faults d (n + 1))\<rparr>
      in if faults d 0 then (Inl (DbErr 0), d') else (case f d' of (r, d') \<Rightarrow> (Inr r, d')))"

definition exec :: "('a PullerDB \<Rightarrow> 'a PullerDB) \<Rightarrow> 'a PullerDB \<Rightarrow> cerr option \<times> 'a PullerDB" where
  "exec f d = (case sql (\<lambda>d. ((), f d)) d of (Inl e, d) \<Rightarrow> (Some e, d) | (Inr _, d) \<Rightarrow> (None, d))"

definition find_board :: "bytes \<Rightarrow> 'a PullerDB \<Rightarrow> nat option" where
  "find_board g d = map_option fst (find (\<lambda>(i, n). n = g) (boards d))"

definition is_track :: "nat \<Rightarrow> nat \<Rightarrow> track \<Rightarrow> bool" where
  "is_track sid bid t \<longleftrightarrow> tk_sid t = sid \<and> tk_bid t = bid"

subsection \<open>Statements\<close>

text \<open>\<open>puller_get_group_id\<close>: no row without a board, \<open>NULL\<close> (scanned as 0) without a track.\<close>

definition get_group_id :: "bytes \<Rightarrow> 'a PullerDB \<Rightarrow> u64 option" where
  "get_group_id g d =
     (case find_board g d of
        None \<Rightarrow> None
      | Some bid \<Rightarrow>
          (case find (is_track (pd_id d) bid) (tracks d) of None \<Rightarrow> Some 0 | Some t \<Rightarrow> Some (last_max t)))"

definition set_group_id :: "bytes \<Rightarrow> u64 \<Rightarrow> 'a PullerDB \<Rightarrow> 'a PullerDB" where
  "set_group_id g i d =
     (case find_board g d of
        None \<Rightarrow> d
      | Some bid \<Rightarrow>
          d\<lparr>tracks := map (\<lambda>t. if is_track (pd_id d) bid t then t\<lparr>last_max := i\<rparr> else t) (tracks d)\<rparr>)"

definition unset_group_id :: "bytes \<Rightarrow> 'a PullerDB \<Rightarrow> 'a PullerDB" where
  "unset_group_id g d =
     (case find_board g d of
        None \<Rightarrow> d
      | Some bid \<Rightarrow> d\<lparr>tracks := filter (\<lambda>t. \<not> is_track (pd_id d) bid t) (tracks d)\<rparr>)"

text \<open>The \<open>INSERT ... SELECT ... ON CONFLICT (sid,bid) DO UPDATE\<close> of the two store functions.\<close>

definition upsert_track :: "bytes \<Rightarrow> u64 \<Rightarrow> u64 \<Rightarrow> 'a PullerDB \<Rightarrow> 'a PullerDB" where
  "upsert_track g n next d =
     (case find_board g d of
        None \<Rightarrow> d
      | Some bid \<Rightarrow>
          if list_ex (is_track (pd_id d) bid) (tracks d) then
            d\<lparr>tracks := map (\<lambda>t. if is_track (pd_id d) bid t then t\<lparr>last_use := n, next_max := next\<rparr> else t)
                          (tracks d)\<rparr>
          else
            d\<lparr>tracks := tracks d @ [\<lparr>tk_sid = pd_id d, tk_bid = bid, last_use = n, last_max = 0, next_max = next\<rparr>]\<rparr>)"

definition delete_old :: "u64 \<Rightarrow> 'a PullerDB \<Rightarrow> 'a PullerDB" where
  "delete_old n d = d\<lparr>tracks := filter (\<lambda>t. \<not> (tk_sid t = pd_id d \<and> last_use t \<noteq> n)) (tracks d)\<rparr>"

text \<open>\<open>puller_load_temp_groups\<close>: the join with the boards, in the order of the names.\<close>

definition load_temp_groups :: "(bytes \<Rightarrow> nat) \<Rightarrow> 'a PullerDB \<Rightarrow> (bytes \<times> u64 \<times> u64) list" where
  "load_temp_groups coll d =
     sort_key (\<lambda>(g, _). coll g)
       (List.map_filter (\<lambda>t. if tk_sid t = pd_id d \<and> last_use t = nonce d
            then map_option (\<lambda>g. (g, next_max t, last_max t)) (map_of (boards d) (tk_bid t)) else None) (tracks d))"

text \<open>\<open>INSERT ... ON CONFLICT DO NOTHING RETURNING b_id\<close>\<close>

definition insert_board :: "bytes \<Rightarrow> 'a PullerDB \<Rightarrow> nat option \<times> 'a PullerDB" where
  "insert_board g d =
     (if find_board g d \<noteq> None then (None, d)
      else (Some (next_bid d), d\<lparr>boards := boards d @ [(next_bid d, g)], next_bid := next_bid d + 1\<rparr>))"

subsection \<open>Methods\<close>

definition autoAddGroup :: "'a PSQLIB \<Rightarrow> bytes \<Rightarrow> bool" where
  "autoAddGroup A g \<longleftrightarrow> CheckGroup (is_print A) (ngp_global A) g \<or>
     CheckGroup (is_print A) (ngp_anypuller A) g \<or> CheckGroup (is_print A) (ngp_thispuller A) g"

definition getNonce :: "'a PSQLIB \<Rightarrow> 'a PullerDB \<Rightarrow> u64 \<times> 'a PullerDB" where
  "getNonce A d =
     (let n = (if nonce d = 0 then (if NowTimeUnixMilli A = 0 then 1 else NowTimeUnixMilli A) else nonce d)
      in (n, d\<lparr>nonce := n\<rparr>))"

definition nextNonce :: "'a PSQLIB \<Rightarrow> 'a PullerDB \<Rightarrow> u64 \<times> 'a PullerDB" where
  "nextNonce A d =
     (if nonce d \<noteq> 0 then
        (let n = nonce d + 1; n = (if n = 0 then 1 else n) in (n, d\<lparr>nonce := n\<rparr>))
      else getNonce A d)"

text \<open>The error, and whether the board was there already.\<close>

definition addNewBoard :: "bytes \<Rightarrow> 'a PullerDB \<Rightarrow> (cerr option \<times> bool) \<times> 'a PullerDB" where
  "addNewBoard g d =
     (case sql (insert_board g) d of
        (Inl e, d) \<Rightarrow> ((Some e, False), d)
      | (Inr None, d) \<Rightarrow> ((Some (Errorf (bs ''such board already exists'') []), True), d)
      | (Inr (Some _), d) \<Rightarrow> ((None, False), d))"

function get_group_loop :: "'a PSQLIB \<Rightarrow> bytes \<Rightarrow> nat \<Rightarrow> 'a PullerDB \<Rightarrow> (cerr + u64) \<times> 'a PullerDB" where
  "get_group_loop A g loopn d =
     (case sql (\<lambda>d. (get_group_id g d, d)) d of
        (Inl e, d) \<Rightarrow> (Inl e, d)
      | (Inr (Some i), d) \<Rightarrow> (Inr i, d)
      | (Inr None, d) \<Rightarrow>
          if \<not> autoAddGroup A g \<or> loopn \<ge> 20 then (Inr (- 1), d)
          else (case addNewBoard g d of
                  ((Some e, False), d) \<Rightarrow> (Inl (ErrWrap (bs ''addNewBoard error'') e), d)
                | (_, d) \<Rightarrow> get_group_loop A g (loopn + 1) d))"
  by pat_completeness auto
termination by (relation "measure (\<lambda>(A, g, n, d). 21 - n)") auto

declare get_group_loop.simps [simp del]

definition UpdateGroupID_db :: "bytes \<Rightarrow> u64 \<Rightarrow> 'a PullerDB \<Rightarrow> cerr option \<times> 'a PullerDB" where
  "UpdateGroupID_db g i = exec (if i \<noteq> 0 then set_group_id g i else unset_group_id g)"

definition StartTempGroups_db :: "'a PSQLIB \<Rightarrow> 'a PullerDB \<Rightarrow> cerr option \<times> 'a PullerDB" where
  "StartTempGroups_db A d = (None, snd (nextNonce A d))"

definition FinishTempGroups_db :: "'a PSQLIB \<Rightarrow> bool \<Rightarrow> 'a PullerDB \<Rightarrow> cerr option \<times> 'a PullerDB" where
  "FinishTempGroups_db A partial d =
     (if \<not> partial then (let (n, d) = getNonce A d in exec (delete_old n) d) else (None, d))"

definition StoreTempGroupID_db ::
  "'a PSQLIB \<Rightarrow> bytes \<Rightarrow> u64 \<Rightarrow> 'a PullerDB \<Rightarrow> cerr option \<times> 'a PullerDB" where
  "StoreTempGroupID_db A g i d = (let (n, d) = getNonce A d in exec (upsert_track g n i) d)"

definition StoreTempGroup_db :: "'a PSQLIB \<Rightarrow> bytes \<Rightarrow> 'a PullerDB \<Rightarrow> cerr option \<times> 'a PullerDB" where
  "StoreTempGroup_db A g d = (let (n, d) = getNonce A d in exec (upsert_track g n (- 1)) d)"

text \<open>One step of the cursor; after an error, or the end, it is closed.\<close>

definition next_row :: "'a PullerDB \<Rightarrow> (cerr + bytes \<times> u64 \<times> u64) \<times> 'a PullerDB" where
  "next_row d =
     (case sql (\<lambda>d. (case temp_rows d of
          Some (r # rs) \<Rightarrow> (Some r, d\<lparr>temp_rows := Some rs\<rparr>) | _ \<Rightarrow> (None, d))) d of
        (Inl e, d) \<Rightarrow> (Inl e, d\<lparr>temp_rows := None\<rparr>)
      | (Inr None, d) \<Rightarrow> (Inl (IoErr EOF), d\<lparr>temp_rows := None\<rparr>)
      | (Inr (Some r), d) \<Rightarrow> (Inr r, d))"

definition LoadTempGroup_db ::
  "'a PSQLIB \<Rightarrow> 'a PullerDB \<Rightarrow> (cerr + bytes \<times> u64 \<times> u64) \<times> 'a PullerDB" where
  "LoadTempGroup_db A d =
     (if temp_rows d = None then
        (case sql (\<lambda>d. ((), d\<lparr>temp_rows := Some (load_temp_groups (collate A) d)\<rparr>)) d of
           (Inl e, d) \<Rightarrow> (Inl e, d\<lparr>temp_rows := None\<rparr>)
         | (Inr _, d) \<Rightarrow> next_row d)
      else next_row d)"

definition isGlobalCtl :: "bytes \<Rightarrow> bool" where
  "isGlobalCtl g \<longleftrightarrow> g = bs ''ctl''"

definition IsArticleWanted_db ::
  "'a PSQLIB \<Rightarrow> bytes \<Rightarrow> bytes \<Rightarrow> 'a PullerDB \<Rightarrow> (cerr + bool \<times> articlecheckinfo option) \<times> 'a PullerDB" where
  "IsArticleWanted_db A fmsgid ingroup d =
     (case sql (\<lambda>d. (checkArticleForPush A (CutMessageID fmsgid) (rest d), d)) d of
        (Inl e, d) \<Rightarrow> (Inl e, d)
      | (Inr i, d) \<Rightarrow>
          (Inr (if has_real i \<or> (ph_ban i \<and> (ph_banpriv i = 0 \<or> \<not> isGlobalCtl ingroup)) then (False, None)
                else (True, if has_ph i then Some i else None)), d))"

definition DoesReferenceExist_db :: "'a PSQLIB \<Rightarrow> bytes \<Rightarrow> 'a PullerDB \<Rightarrow> (cerr + bool) \<times> 'a PullerDB" where
  "DoesReferenceExist_db A ref = sql (\<lambda>d. (nntpCheckArticleValid A (CutMessageID ref) (rest d), d))"

definition ReadArticle_db ::
  "'a PSQLIB \<Rightarrow> bytes \<Rightarrow> bytes \<Rightarrow> articlecheckinfo option option \<Rightarrow> 'a PullerDB \<Rightarrow>
   ((cerr option \<times> bool \<times> bytes) \<times> 'a PullerDB) reading" where
  "ReadArticle_db A msgid ingroup wdata d =
     map_reading (\<lambda>(r, x). (r, d\<lparr>rest := x\<rparr>)) (handleIncoming A msgid ingroup (notrace A) (rest d))"

definition pullerDB :: "'a PSQLIB \<Rightarrow> ('a PullerDB, articlecheckinfo option) PullerDatabase" where
  "pullerDB A =
     \<lparr>GetGroupID = \<lambda>g. get_group_loop A g 0, UpdateGroupID = UpdateGroupID_db,
      StartTempGroups = StartTempGroups_db A, CancelTempGroups = \<lambda>d. (None, d),
      FinishTempGroups = FinishTempGroups_db A, DoneTempGroups = \<lambda>d. (None, d),
      StoreTempGroupID = StoreTempGroupID_db A, StoreTempGroup = StoreTempGroup_db A,
      LoadTempGroup = LoadTempGroup_db A, IsArticleWanted = IsArticleWanted_db A,
      DoesReferenceExist = DoesReferenceExist_db A, ReadArticle = ReadArticle_db A\<rparr>"

subsection \<open>The contract of the puller\<close>

definition rows :: "'a PullerDB \<Rightarrow> nat" where
  "rows d = (case temp_rows d of Some l \<Rightarrow> length l | None \<Rightarrow> Suc (length (tracks d)))"

text \<open>A statement that leaves the cursor alone and adds no track.\<close>

lemma sql_rows:
  assumes "\<And>d. rows (snd (f d)) \<le> rows d"
  shows "rows (snd (sql f d)) \<le> rows d"
proof -
  let ?d = "d\<lparr>faults := (\<lambda>n. faults d (n + 1))\<rparr>"
  have "rows ?d = rows d" by (simp add: rows_def split: option.split)
  then show ?thesis using assms [of ?d] by (auto simp: sql_def Let_def split: prod.split)
qed

lemma exec_rows: "(\<And>d. rows (f d) \<le> rows d) \<Longrightarrow> rows (snd (exec f d)) \<le> rows d"
  using sql_rows [of "\<lambda>d. ((), f d)" d] by (auto simp: exec_def split: prod.splits sum.splits)

lemma set_rows: "rows (set_group_id g i d) \<le> rows d" "rows (unset_group_id g d) \<le> rows d"
  by (auto simp: set_group_id_def unset_group_id_def rows_def split: option.split)

lemma next_row_rows:
  "next_row d = (Inr r, d') \<Longrightarrow> temp_rows d = Some l \<Longrightarrow> rows d' < length l"
  by (auto simp: next_row_def sql_def Let_def rows_def split: option.splits list.splits if_splits sum.splits)

lemma load_length: "length (load_temp_groups coll d) \<le> length (tracks d)"
proof -
  have "length (List.map_filter f xs) \<le> length xs" for f :: "track \<Rightarrow> (bytes \<times> u64 \<times> u64) option" and xs
    by (induction xs) (auto simp: List.map_filter_simps split: option.split)
  then show ?thesis by (simp add: load_temp_groups_def)
qed

interpretation pdb: puller_db "pullerDB A" rows for A :: "'a PSQLIB"
proof
  fix d d' :: "'a PullerDB" and r
  assume "LoadTempGroup (pullerDB A) d = (Inr r, d')"
  then have l: "LoadTempGroup_db A d = (Inr r, d')" by (simp add: pullerDB_def)
  show "rows d' < rows d"
  proof (cases "temp_rows d")
    case (Some l)
    then have "next_row d = (Inr r, d')" using l by (simp add: LoadTempGroup_db_def)
    then show ?thesis using next_row_rows [OF _ Some] Some by (simp add: rows_def)
  next
    case None
    let ?d = "d\<lparr>faults := (\<lambda>n. faults d (n + 1))\<rparr>"
    let ?e = "?d\<lparr>temp_rows := Some (load_temp_groups (collate A) ?d)\<rparr>"
    have "next_row ?e = (Inr r, d')"
      using l None by (auto simp: LoadTempGroup_db_def sql_def Let_def split: if_splits)
    then have "rows d' < length (load_temp_groups (collate A) ?d)" by (rule next_row_rows) simp
    also have "\<dots> \<le> length (tracks d)" using load_length [of "collate A" ?d] by simp
    finally show ?thesis using None by (simp add: rows_def)
  qed
next
  fix d :: "'a PullerDB" and g i m
  show "rows (snd (UpdateGroupID (pullerDB A) g i d)) \<le> rows d"
    unfolding pullerDB_def PullerDatabase.select_convs UpdateGroupID_db_def by (rule exec_rows) (simp add: set_rows)
  show "rows (snd (IsArticleWanted (pullerDB A) m g d)) \<le> rows d"
    using sql_rows [of "\<lambda>d. (checkArticleForPush A (CutMessageID m) (rest d), d)" d]
    by (auto simp: pullerDB_def IsArticleWanted_db_def split: prod.splits sum.splits)
  show "rows (snd (DoesReferenceExist (pullerDB A) m d)) \<le> rows d"
    unfolding pullerDB_def PullerDatabase.select_convs DoesReferenceExist_db_def by (rule sql_rows) simp
  fix r d' w
  assume "(r, d') \<in> set_reading (ReadArticle (pullerDB A) m g w d)"
  then show "rows d' \<le> rows d"
    by (auto simp: pullerDB_def ReadArticle_db_def reading.set_map rows_def split: option.split)
qed

end
