(* ===== verification/NntpTracks.thy ===== *)
theory NntpTracks
  imports NntpPullerDB
begin

text \<open>
  What the puller's tables mean: a map from the groups with a track to the nonce of their last listing,
  the last number fetched and the number listed now. The statements refine operations on that map, a scan
  loads what its list stored, and two sequences the puller runs into do not do what they should.
\<close>

subsection \<open>The map and its operations\<close>

definition tracked :: "'a PullerDB \<Rightarrow> bytes \<Rightarrow> (u64 \<times> u64 \<times> u64) option" where
  "tracked d g =
     (case find_board g d of
        None \<Rightarrow> None
      | Some bid \<Rightarrow> map_option (\<lambda>t. (last_use t, last_max t, next_max t)) (find (is_track (pd_id d) bid) (tracks d)))"

type_synonym track_map = "bytes \<Rightarrow> (u64 \<times> u64 \<times> u64) option"

definition map_update :: "bytes \<Rightarrow> u64 \<Rightarrow> track_map \<Rightarrow> track_map" where
  "map_update g i m =
     (case m g of None \<Rightarrow> m | Some (u, _, n) \<Rightarrow> m(g := if i = 0 then None else Some (u, i, n)))"

definition last_of :: "(u64 \<times> u64 \<times> u64) option \<Rightarrow> u64" where
  "last_of r = (case r of None \<Rightarrow> 0 | Some (_, l, _) \<Rightarrow> l)"

definition map_store :: "u64 \<Rightarrow> bytes \<Rightarrow> u64 \<Rightarrow> track_map \<Rightarrow> track_map" where
  "map_store n g i m = m(g \<mapsto> (n, last_of (m g), i))"

definition map_finish :: "u64 \<Rightarrow> track_map \<Rightarrow> track_map" where
  "map_finish n m = (\<lambda>g. case m g of Some (u, r) \<Rightarrow> if u = n then m g else None | None \<Rightarrow> None)"

text \<open>The keys of the schema.\<close>

definition keys_ok :: "'a PullerDB \<Rightarrow> bool" where
  "keys_ok d \<longleftrightarrow> distinct (map fst (boards d)) \<and> distinct (map snd (boards d)) \<and>
     (\<forall>b\<in>set (boards d). fst b < next_bid d) \<and>
     distinct (map (\<lambda>t. (tk_sid t, tk_bid t)) (tracks d)) \<and> tk_bid ` set (tracks d) \<subseteq> fst ` set (boards d)"

subsection \<open>Lists with keys\<close>

lemma find_map_same: "(\<And>t. P (f t) = P t) \<Longrightarrow> find P (map f xs) = map_option f (find P xs)"
  by (induction xs) auto

lemma find_map_fix: "(\<And>t. P (f t) = P t) \<Longrightarrow> (\<And>t. P t \<Longrightarrow> f t = t) \<Longrightarrow> find P (map f xs) = find P xs"
  by (induction xs) auto

lemma find_filter_fix: "(\<And>t. P t \<Longrightarrow> R t) \<Longrightarrow> find P (filter R xs) = find P xs"
  by (induction xs) auto

lemma find_filter_none: "(\<And>t. P t \<Longrightarrow> \<not> R t) \<Longrightarrow> find P (filter R xs) = None"
  by (induction xs) auto

lemma find_filter_one:
  "distinct (map k xs) \<Longrightarrow> (\<And>s t. P s \<Longrightarrow> P t \<Longrightarrow> k s = k t) \<Longrightarrow>
   find P (filter R xs) = (case find P xs of Some t \<Rightarrow> if R t then Some t else None | None \<Rightarrow> None)"
proof (induction xs)
  case (Cons x xs)
  have "find P (filter R xs) = None" if "P x"
  proof -
    have "k y \<noteq> k x" if "y \<in> set xs" for y using Cons.prems(1) imageI [OF that, of k] by auto
    then have "\<not> P y" if "y \<in> set xs" for y using Cons.prems(2) [OF _ \<open>P x\<close>, of y] that by auto
    then show ?thesis by (simp add: find_None_iff)
  qed
  moreover have "find P (filter R xs) = (case find P xs of Some t \<Rightarrow> if R t then Some t else None | None \<Rightarrow> None)"
    by (rule Cons.IH [OF _ Cons.prems(2)]) (use Cons.prems(1) in simp_all)
  ultimately show ?case by auto
qed simp

lemma find_append: "find P (xs @ ys) = (case find P xs of None \<Rightarrow> find P ys | r \<Rightarrow> r)"
  by (induction xs) auto

lemma find_in: "find P xs = Some t \<Longrightarrow> P t \<and> t \<in> set xs"
  by (auto simp: find_Some_iff)

lemma is_track_upd [simp]:
  "is_track s b (t\<lparr>last_use := x\<rparr>) = is_track s b t" "is_track s b (t\<lparr>last_max := x\<rparr>) = is_track s b t"
  "is_track s b (t\<lparr>next_max := x\<rparr>) = is_track s b t"
  by (simp_all add: is_track_def)

lemma is_track_one: "is_track s b t \<Longrightarrow> is_track s b' t \<longleftrightarrow> b' = b"
  by (auto simp: is_track_def)

lemma find_board_upd [simp]:
  "find_board g (d\<lparr>faults := x\<rparr>) = find_board g d" "find_board g (d\<lparr>tracks := y\<rparr>) = find_board g d"
  "find_board g (d\<lparr>nonce := n\<rparr>) = find_board g d" "find_board g (d\<lparr>temp_rows := r\<rparr>) = find_board g d"
  by (simp_all add: find_board_def)

lemma tracked_upd [simp]:
  "tracked (d\<lparr>faults := x\<rparr>) = tracked d" "tracked (d\<lparr>nonce := n\<rparr>) = tracked d"
  "tracked (d\<lparr>temp_rows := r\<rparr>) = tracked d"
  by (auto simp: tracked_def [abs_def] intro!: ext split: option.split)

lemma find_board_in: "find_board g d = Some b \<Longrightarrow> (b, g) \<in> set (boards d)"
  by (auto simp: find_board_def dest!: find_in)

text \<open>Two groups have two boards.\<close>

lemma find_board_inj:
  assumes "keys_ok d" and "find_board g d = Some b" and "find_board h d = Some b"
  shows "g = h"
proof -
  have "distinct (map fst (boards d))" using assms(1) by (simp add: keys_ok_def)
  then show ?thesis using find_board_in [OF assms(2)] find_board_in [OF assms(3)] by (rule eq_key_imp_eq_value)
qed

lemma find_board_iff: "keys_ok d \<Longrightarrow> find_board g d = Some b \<longleftrightarrow> (b, g) \<in> set (boards d)"
proof
  assume k: "keys_ok d" and b: "(b, g) \<in> set (boards d)"
  then obtain b' where b': "find_board g d = Some b'"
    by (cases "find_board g d") (auto simp: find_board_def find_None_iff)
  from k have "inj_on snd (set (boards d))" by (simp add: keys_ok_def distinct_map)
  then have "(b', g) = (b, g)" by (rule inj_onD [OF _ _ find_board_in [OF b'] b]) simp
  then show "find_board g d = Some b" using b' by simp
qed (rule find_board_in)

subsection \<open>Statements on the map\<close>

text \<open>A change of the tracks of one group.\<close>

lemma tracked_other:
  assumes "keys_ok d" and "find_board g d = Some b" and "h \<noteq> g"
    and "\<And>b'. b' \<noteq> b \<Longrightarrow> find (is_track (pd_id d) b') ts = find (is_track (pd_id d) b') (tracks d)"
  shows "tracked (d\<lparr>tracks := ts\<rparr>) h = tracked d h"
proof (cases "find_board h d")
  case (Some b')
  have "b' \<noteq> b"
  proof
    assume "b' = b"
    then have "h = g" using find_board_inj [OF assms(1) Some, of g] assms(2) by simp
    then show False using assms(3) by simp
  qed
  then show ?thesis using Some assms(4) by (simp add: tracked_def)
qed (simp add: tracked_def)

lemma tracked_change:
  assumes "keys_ok d" and "find_board g d = Some b"
    and "\<And>b'. b' \<noteq> b \<Longrightarrow> find (is_track (pd_id d) b') ts = find (is_track (pd_id d) b') (tracks d)"
  shows "tracked (d\<lparr>tracks := ts\<rparr>) =
     (tracked d)(g := map_option (\<lambda>t. (last_use t, last_max t, next_max t)) (find (is_track (pd_id d) b) ts))"
proof
  fix h
  show "tracked (d\<lparr>tracks := ts\<rparr>) h = ((tracked d)(g := map_option (\<lambda>t. (last_use t, last_max t, next_max t))
      (find (is_track (pd_id d) b) ts))) h"
    using tracked_other [OF assms(1,2) _ assms(3)] assms(2) by (auto simp: tracked_def)
qed

lemma set_group_tracked: "keys_ok d \<Longrightarrow> i \<noteq> 0 \<Longrightarrow> tracked (set_group_id g i d) = map_update g i (tracked d)"
proof (cases "find_board g d")
  case (Some b)
  assume k: "keys_ok d" and i: "i \<noteq> 0"
  let ?f = "\<lambda>t. if is_track (pd_id d) b t then t\<lparr>last_max := i\<rparr> else t"
  have "find (is_track (pd_id d) b') (map ?f (tracks d)) = find (is_track (pd_id d) b') (tracks d)" if "b' \<noteq> b" for b'
    by (rule find_map_fix) (use that is_track_one in auto)
  moreover have "find (is_track (pd_id d) b) (map ?f (tracks d)) =
      map_option (\<lambda>t. t\<lparr>last_max := i\<rparr>) (find (is_track (pd_id d) b) (tracks d))"
    by (subst find_map_same) (auto intro!: map_option_cong dest: find_in)
  ultimately show ?thesis
    using Some i by (auto simp: set_group_id_def tracked_change [OF k Some] map_update_def tracked_def
        split: option.split)
qed (auto simp: set_group_id_def map_update_def tracked_def)

lemma unset_group_tracked: "keys_ok d \<Longrightarrow> tracked (unset_group_id g d) = map_update g 0 (tracked d)"
proof (cases "find_board g d")
  case (Some b)
  assume k: "keys_ok d"
  let ?ts = "filter (\<lambda>t. \<not> is_track (pd_id d) b t) (tracks d)"
  have "find (is_track (pd_id d) b') ?ts = find (is_track (pd_id d) b') (tracks d)" if "b' \<noteq> b" for b'
    by (rule find_filter_fix) (use that is_track_one in auto)
  moreover have "find (is_track (pd_id d) b) ?ts = None" by (rule find_filter_none) simp
  ultimately show ?thesis
    using Some by (auto simp: unset_group_id_def tracked_change [OF k Some] map_update_def tracked_def
        split: option.split)
qed (auto simp: unset_group_id_def map_update_def tracked_def)

lemma upsert_tracked:
  assumes "keys_ok d"
  shows "tracked (upsert_track g n i d) =
     (if find_board g d = None then tracked d else map_store n g i (tracked d))"
proof (cases "find_board g d")
  case (Some b)
  let ?P = "is_track (pd_id d)"
  let ?f = "\<lambda>t. if ?P b t then t\<lparr>last_use := n, next_max := i\<rparr> else t"
  let ?t = "\<lparr>tk_sid = pd_id d, tk_bid = b, last_use = n, last_max = 0, next_max = i\<rparr>"
  show ?thesis
  proof (cases "find (?P b) (tracks d)")
    case None
    then have "\<not> list_ex (?P b) (tracks d)" by (auto simp: find_None_iff list_ex_iff)
    moreover have "\<not> ?P b' ?t" if "b' \<noteq> b" for b' using that by (simp add: is_track_def)
    moreover have "?P b ?t" by (simp add: is_track_def)
    ultimately show ?thesis
      using Some None by (auto simp: upsert_track_def tracked_change [OF assms Some] find_append map_store_def
          tracked_def last_of_def split: option.split)
  next
    case (Some t)
    then have ex: "list_ex (?P b) (tracks d)" by (auto simp: list_ex_iff dest: find_in)
    have "find (?P b') (map ?f (tracks d)) = find (?P b') (tracks d)" if "b' \<noteq> b" for b'
      by (rule find_map_fix) (use that is_track_one in auto)
    moreover have "find (?P b) (map ?f (tracks d)) = Some (t\<lparr>last_use := n, next_max := i\<rparr>)"
      by (subst find_map_same) (use Some in \<open>auto dest: find_in\<close>)
    ultimately show ?thesis
      using \<open>find_board g d = Some b\<close> Some ex
      by (simp add: upsert_track_def tracked_change [OF assms \<open>find_board g d = Some b\<close>] map_store_def
          tracked_def last_of_def)
  qed
qed (simp add: upsert_track_def)

lemma delete_tracked: "keys_ok d \<Longrightarrow> tracked (delete_old n d) = map_finish n (tracked d)"
proof
  fix g
  assume k: "keys_ok d"
  have "find (is_track (pd_id d) b) (filter R (tracks d)) =
      (case find (is_track (pd_id d) b) (tracks d) of Some t \<Rightarrow> if R t then Some t else None | None \<Rightarrow> None)" for R b
    by (rule find_filter_one [where k = "\<lambda>t. (tk_sid t, tk_bid t)"])
      (use k in \<open>auto simp: keys_ok_def is_track_def\<close>)
  then show "tracked (delete_old n d) g = map_finish n (tracked d) g"
    by (auto simp: tracked_def delete_old_def map_finish_def find_board_def is_track_def
        split: option.split dest!: find_in)
qed


text \<open>The rows of the cursor.\<close>

lemma find_track_iff:
  assumes "keys_ok d"
  shows "find (is_track s b) (tracks d) = Some t \<longleftrightarrow> t \<in> set (tracks d) \<and> is_track s b t"
proof
  assume t: "t \<in> set (tracks d) \<and> is_track s b t"
  then obtain u where u: "find (is_track s b) (tracks d) = Some u"
    by (cases "find (is_track s b) (tracks d)") (auto simp: find_None_iff)
  have "inj_on (\<lambda>t. (tk_sid t, tk_bid t)) (set (tracks d))" using assms by (simp add: keys_ok_def distinct_map)
  then have "u = t" by (rule inj_onD) (use t find_in [OF u] in \<open>auto simp: is_track_def\<close>)
  then show "find (is_track s b) (tracks d) = Some t" using u by simp
next
  assume "find (is_track s b) (tracks d) = Some t"
  then have "is_track s b t \<and> t \<in> set (tracks d)" by (rule find_in)
  then show "t \<in> set (tracks d) \<and> is_track s b t" by (rule conj_commute [THEN iffD1])
qed

lemma map_of_board: "keys_ok d \<Longrightarrow> map_of (boards d) b = Some g \<longleftrightarrow> find_board g d = Some b"
proof -
  assume k: "keys_ok d"
  then have "distinct (map fst (boards d))" unfolding keys_ok_def by (elim conjE)
  from map_of_eq_Some_iff [OF this] show ?thesis unfolding find_board_iff [OF k] .
qed

lemma set_map_filter: "set (List.map_filter f xs) = {y. \<exists>x\<in>set xs. f x = Some y}"
  by (induction xs) (auto simp: List.map_filter_simps split: option.split)

lemma distinct_map_filter:
  "distinct (map k xs) \<Longrightarrow> (\<And>x y a b. f x = Some a \<Longrightarrow> f y = Some b \<Longrightarrow> h a = h b \<Longrightarrow> k x = k y) \<Longrightarrow>
   distinct (map h (List.map_filter f xs))"
proof (induction xs)
  case (Cons x xs)
  have "h a \<notin> h ` set (List.map_filter f xs)" if "f x = Some a" for a
  proof
    assume "h a \<in> h ` set (List.map_filter f xs)"
    then obtain y b where y: "y \<in> set xs" "f y = Some b" "h a = h b" by (auto simp: set_map_filter)
    then have "k x \<in> k ` set xs" using Cons.prems(2) [OF that y(2,3)] by simp
    then show False using Cons.prems(1) by simp
  qed
  moreover have "distinct (map h (List.map_filter f xs))"
    by (rule Cons.IH) (use Cons.prems(1) in simp, erule (2) Cons.prems(2))
  ultimately show ?case by (auto simp: List.map_filter_simps split: option.split)
qed (simp add: List.map_filter_simps)

definition temp_row :: "'a PullerDB \<Rightarrow> track \<Rightarrow> (bytes \<times> u64 \<times> u64) option" where
  "temp_row d t = (if tk_sid t = pd_id d \<and> last_use t = nonce d
            then map_option (\<lambda>g. (g, next_max t, last_max t)) (map_of (boards d) (tk_bid t)) else None)"

lemma load_rows: "load_temp_groups coll d = sort_key (\<lambda>(g, _). coll g) (List.map_filter (temp_row d) (tracks d))"
  by (simp add: load_temp_groups_def temp_row_def [abs_def])

lemma temp_row_iff: "keys_ok d \<Longrightarrow> temp_row d t = Some (g, n, l) \<longleftrightarrow> tk_sid t = pd_id d \<and> last_use t = nonce d \<and>
   next_max t = n \<and> last_max t = l \<and> find_board g d = Some (tk_bid t)"
  by (auto simp: temp_row_def map_of_board)

lemma load_set:
  assumes k: "keys_ok d"
  shows "set (load_temp_groups coll d) = {(g, n, l). tracked d g = Some (nonce d, l, n)}"
proof -
  have "(\<exists>t\<in>set (tracks d). temp_row d t = Some (g, n, l)) \<longleftrightarrow> tracked d g = Some (nonce d, l, n)" for g n l
  proof
    assume "\<exists>t\<in>set (tracks d). temp_row d t = Some (g, n, l)"
    then obtain t where t: "t \<in> set (tracks d)" "temp_row d t = Some (g, n, l)" by blast
    then have "find (is_track (pd_id d) (tk_bid t)) (tracks d) = Some t"
      by (simp add: find_track_iff [OF k] temp_row_iff [OF k] is_track_def)
    then show "tracked d g = Some (nonce d, l, n)" using t(2) by (simp add: tracked_def temp_row_iff [OF k])
  next
    assume a: "tracked d g = Some (nonce d, l, n)"
    then obtain b t where bt: "find_board g d = Some b" "find (is_track (pd_id d) b) (tracks d) = Some t"
      "last_use t = nonce d" "last_max t = l" "next_max t = n"
      by (auto simp: tracked_def split: option.splits)
    then have "t \<in> set (tracks d) \<and> temp_row d t = Some (g, n, l)"
      using find_in [OF bt(2)] by (simp add: temp_row_iff [OF k] is_track_def)
    then show "\<exists>t\<in>set (tracks d). temp_row d t = Some (g, n, l)" by blast
  qed
  then show ?thesis by (auto simp: load_rows set_map_filter)
qed

lemma load_distinct:
  assumes k: "keys_ok d"
  shows "distinct (map fst (load_temp_groups coll d))"
proof -
  have "distinct (map fst (List.map_filter (temp_row d) (tracks d)))"
    by (rule distinct_map_filter [where k = "\<lambda>t. (tk_sid t, tk_bid t)"])
      (use k in \<open>auto simp: keys_ok_def temp_row_iff [OF k]\<close>)
  then show ?thesis by (simp add: load_rows distinct_map)
qed

subsection \<open>The keys are kept\<close>

lemma keys_upd [simp]:
  "keys_ok (d\<lparr>faults := x\<rparr>) = keys_ok d" "keys_ok (d\<lparr>nonce := n\<rparr>) = keys_ok d"
  "keys_ok (d\<lparr>temp_rows := r\<rparr>) = keys_ok d" "keys_ok (d\<lparr>rest := y\<rparr>) = keys_ok d"
  by (simp_all add: keys_ok_def)

lemma keys_map:
  "keys_ok d \<Longrightarrow> (\<And>t. tk_sid (f t) = tk_sid t) \<Longrightarrow> (\<And>t. tk_bid (f t) = tk_bid t) \<Longrightarrow>
   keys_ok (d\<lparr>tracks := map f (tracks d)\<rparr>)"
  by (simp add: keys_ok_def comp_def image_image)

lemma keys_filter: "keys_ok d \<Longrightarrow> keys_ok (d\<lparr>tracks := filter P (tracks d)\<rparr>)"
  by (auto simp: keys_ok_def distinct_map inj_on_def)

lemma set_group_keys: "keys_ok d \<Longrightarrow> keys_ok (set_group_id g i d)"
  by (auto simp: set_group_id_def intro!: keys_map split: option.split)

lemma unset_group_keys: "keys_ok d \<Longrightarrow> keys_ok (unset_group_id g d)"
  by (auto simp: unset_group_id_def intro!: keys_filter split: option.split)

lemma upsert_keys:
  assumes k: "keys_ok d"
  shows "keys_ok (upsert_track g n i d)"
proof (cases "find_board g d")
  case (Some b)
  then have "b \<in> fst ` set (boards d)" using find_board_in by force
  then show ?thesis
    using Some k by (auto simp: upsert_track_def keys_map) (auto simp: keys_ok_def list_ex_iff is_track_def intro: rev_image_eqI)
qed (simp add: upsert_track_def k)

lemma insert_board_keys: "keys_ok d \<Longrightarrow> keys_ok (snd (insert_board g d))"
  by (auto simp: insert_board_def find_board_def find_None_iff keys_ok_def)


text \<open>What no method takes back.\<close>

definition follows :: "'a PullerDB \<Rightarrow> 'a PullerDB \<Rightarrow> bool" where
  "follows d d' \<longleftrightarrow> keys_ok d' \<and> pd_id d' = pd_id d \<and> set (boards d) \<subseteq> set (boards d')"

lemma follows_upd [simp]:
  "follows d (e\<lparr>faults := x\<rparr>) = follows d e" "follows d (e\<lparr>nonce := n\<rparr>) = follows d e"
  "follows d (e\<lparr>temp_rows := r\<rparr>) = follows d e" "follows d (e\<lparr>rest := y\<rparr>) = follows d e"
  by (simp_all add: follows_def)

lemma follows_statement:
  assumes "follows d e"
  shows "follows d (set_group_id g i e)" "follows d (unset_group_id g e)" "follows d (upsert_track g n i e)"
    "follows d (delete_old n e)" "follows d (snd (insert_board g e))"
proof -
  have "keys_ok e" using assms by (simp add: follows_def)
  then have k: "keys_ok (set_group_id g i e)" "keys_ok (unset_group_id g e)" "keys_ok (upsert_track g n i e)"
    "keys_ok (delete_old n e)" "keys_ok (snd (insert_board g e))"
    by (simp_all add: set_group_keys unset_group_keys upsert_keys insert_board_keys delete_old_def keys_filter)
  show "follows d (set_group_id g i e)" "follows d (unset_group_id g e)" "follows d (upsert_track g n i e)"
    "follows d (delete_old n e)" "follows d (snd (insert_board g e))"
    using k assms unfolding follows_def
    by (auto simp: set_group_id_def unset_group_id_def upsert_track_def delete_old_def insert_board_def
        split: option.split)
qed

lemma follows_sql:
  assumes "\<And>e. follows d e \<Longrightarrow> follows d (snd (f e))" and "follows d e"
  shows "follows d (snd (sql f e))"
  using assms(1) [of "e\<lparr>faults := (\<lambda>n. faults e (n + 1))\<rparr>"] assms(2) by (auto simp: sql_def Let_def split: prod.split)

lemma follows_sqlD:
  assumes "sql f e = (r, e')" "follows d e" "\<And>e. follows d e \<Longrightarrow> follows d (snd (f e))"
  shows "follows d e'"
  using follows_sql [of d f e, OF assms(3) assms(2)] assms(1) by simp

lemma follows_exec: "(\<And>e. follows d e \<Longrightarrow> follows d (f e)) \<Longrightarrow> follows d e \<Longrightarrow> follows d (snd (exec f e))"
  using follows_sql [of d "\<lambda>e. ((), f e)" e] by (auto simp: exec_def split: prod.splits sum.splits)

lemma follows_nonce: "follows d (snd (getNonce A e)) = follows d e" "follows d (snd (nextNonce A e)) = follows d e"
  by (simp_all add: getNonce_def nextNonce_def Let_def)

lemma follows_add_board: "addNewBoard g e = (r, e') \<Longrightarrow> follows d e \<Longrightarrow> follows d e'"
  by (auto simp: addNewBoard_def split: prod.splits sum.splits option.splits
      dest!: follows_sqlD intro: follows_statement(5))

lemma follows_get: "follows d e \<Longrightarrow> follows d (snd (get_group_loop A g n e))"
proof (induction A g n e rule: get_group_loop.induct)
  case (1 A g n e)
  obtain r e1 where q: "sql (\<lambda>d. (get_group_id g d, d)) e = (r, e1)" by (cases "sql (\<lambda>d. (get_group_id g d, d)) e")
  have e1: "follows d e1" by (rule follows_sqlD [OF q "1.prems"]) simp
  obtain x y e2 where a: "addNewBoard g e1 = ((x, y), e2)" by (cases "addNewBoard g e1") auto
  have e2: "follows d e2" by (rule follows_add_board [OF a e1])
  show ?case
    using q a e1 e2 "1.IH" by (subst get_group_loop.simps) (auto split: sum.split option.split bool.split)
qed

lemma follows_next_row: "follows d e \<Longrightarrow> follows d (snd (next_row e))"
  using follows_sql [of d "\<lambda>d. (case temp_rows d of
          Some (r # rs) \<Rightarrow> (Some r, d\<lparr>temp_rows := Some rs\<rparr>) | _ \<Rightarrow> (None, d))" e]
  by (auto simp: next_row_def split: prod.splits sum.splits option.splits list.splits)


text \<open>One call of a method.\<close>

inductive db_method :: "'a PSQLIB \<Rightarrow> 'a PullerDB \<Rightarrow> 'a PullerDB \<Rightarrow> bool" for A where
  get: "db_method A d (snd (GetGroupID (pullerDB A) g d))"
| update: "db_method A d (snd (UpdateGroupID (pullerDB A) g i d))"
| start: "db_method A d (snd (StartTempGroups (pullerDB A) d))"
| cancel: "db_method A d (snd (CancelTempGroups (pullerDB A) d))"
| finish: "db_method A d (snd (FinishTempGroups (pullerDB A) p d))"
| done_: "db_method A d (snd (DoneTempGroups (pullerDB A) d))"
| store_id: "db_method A d (snd (StoreTempGroupID (pullerDB A) g i d))"
| store: "db_method A d (snd (StoreTempGroup (pullerDB A) g d))"
| load: "db_method A d (snd (LoadTempGroup (pullerDB A) d))"
| wanted: "db_method A d (snd (IsArticleWanted (pullerDB A) m g d))"
| exists_: "db_method A d (snd (DoesReferenceExist (pullerDB A) m d))"
| article: "(r, d') \<in> set_reading (ReadArticle (pullerDB A) m g w d) \<Longrightarrow> db_method A d d'"

lemma method_follows: "db_method A e e' \<Longrightarrow> follows d e \<Longrightarrow> follows d e'"
proof (induction rule: db_method.induct)
  case (get e g)
  then show ?case by (simp add: pullerDB_def follows_get)
next
  case (update e g i)
  then show ?case
    unfolding pullerDB_def PullerDatabase.select_convs UpdateGroupID_db_def
    by (intro follows_exec) (auto simp: follows_statement)
next
  case (start e)
  then show ?case by (simp add: pullerDB_def StartTempGroups_db_def follows_nonce)
next
  case (finish e p)
  then show ?case
    using follows_exec [of d "delete_old (fst (getNonce A e))" "snd (getNonce A e)"]
    by (simp add: pullerDB_def FinishTempGroups_db_def follows_nonce follows_statement case_prod_beta)
next
  case (store_id e g i)
  then show ?case
    using follows_exec [of d "upsert_track g (fst (getNonce A e)) i" "snd (getNonce A e)"]
    by (simp add: pullerDB_def StoreTempGroupID_db_def follows_nonce follows_statement case_prod_beta)
next
  case (store e g)
  then show ?case
    using follows_exec [of d "upsert_track g (fst (getNonce A e)) (- 1)" "snd (getNonce A e)"]
    by (simp add: pullerDB_def StoreTempGroup_db_def follows_nonce follows_statement case_prod_beta)
next
  case (load e)
  let ?f = "\<lambda>d. ((), d\<lparr>temp_rows := Some (load_temp_groups (collate A) d)\<rparr>)"
  have "follows d (snd (sql ?f e))" by (rule follows_sql) (use load in simp_all)
  then show ?case
    using load by (auto simp: pullerDB_def LoadTempGroup_db_def follows_next_row split: prod.split sum.split)
next
  case (wanted e m g)
  then show ?case
    using follows_sql [of d "\<lambda>d. (checkArticleForPush A (CutMessageID m) (rest d), d)" e]
    by (auto simp: pullerDB_def IsArticleWanted_db_def split: prod.splits sum.splits)
next
  case (exists_ e m)
  then show ?case
    unfolding pullerDB_def PullerDatabase.select_convs DoesReferenceExist_db_def by (intro follows_sql) simp_all
next
  case (article r e' m g w e)
  then show ?case by (auto simp: pullerDB_def ReadArticle_db_def reading.set_map)
qed (simp_all add: pullerDB_def)

subsection \<open>A list and its scan\<close>

definition no_faults :: "'a PullerDB \<Rightarrow> bool" where
  "no_faults d \<longleftrightarrow> (\<forall>n. \<not> faults d n)"

definition list_stored :: "'a PSQLIB \<Rightarrow> (bytes \<times> u64) list \<Rightarrow> 'a PullerDB \<Rightarrow> 'a PullerDB" where
  "list_stored A gs d = fold (\<lambda>(g, i) d. snd (StoreTempGroupID (pullerDB A) g i d)) gs d"

text \<open>What the list methods do to the database around their loops.\<close>

definition listed :: "'a PSQLIB \<Rightarrow> (bytes \<times> u64) list \<Rightarrow> 'a PullerDB \<Rightarrow> 'a PullerDB" where
  "listed A gs d =
     snd (FinishTempGroups (pullerDB A) False (list_stored A gs (snd (StartTempGroups (pullerDB A) d))))"

primrec loads :: "'a PSQLIB \<Rightarrow> nat \<Rightarrow> 'a PullerDB \<Rightarrow> (cerr + bytes \<times> u64 \<times> u64) list" where
  "loads A 0 d = []"
| "loads A (Suc n) d = fst (LoadTempGroup (pullerDB A) d) # loads A n (snd (LoadTempGroup (pullerDB A) d))"

lemma no_faults_sql: "no_faults d \<Longrightarrow> sql f d = (let (r, d') = f (d\<lparr>faults := (\<lambda>_. False)\<rparr>) in (Inr r, d'))"
  by (auto simp: sql_def no_faults_def Let_def split: prod.split)

lemma no_faults_upd: "no_faults d \<Longrightarrow> d\<lparr>faults := (\<lambda>_. False)\<rparr> = d"
proof -
  assume "no_faults d"
  then have "faults d = (\<lambda>_. False)" by (auto simp: no_faults_def)
  then show ?thesis by (metis PullerDB.surjective PullerDB.update_convs(7))
qed

text \<open>Without a failure a statement has its effect.\<close>

lemma no_faults_exec: "no_faults d \<Longrightarrow> snd (exec f d) = f d"
  by (simp add: exec_def no_faults_sql no_faults_upd)

lemma statement_frame [simp]:
  "faults (upsert_track g n i d) = faults d" "temp_rows (upsert_track g n i d) = temp_rows d"
  "nonce (upsert_track g n i d) = nonce d" "boards (upsert_track g n i d) = boards d"
  "faults (delete_old n d) = faults d" "temp_rows (delete_old n d) = temp_rows d"
  "nonce (delete_old n d) = nonce d" "boards (delete_old n d) = boards d"
  by (simp_all add: upsert_track_def delete_old_def split: option.split)

lemma store_nonce:
  assumes "no_faults d" and "nonce d \<noteq> 0"
  shows "snd (StoreTempGroupID (pullerDB A) g i d) = upsert_track g (nonce d) i d"
proof -
  have "d\<lparr>nonce := nonce d\<rparr> = d" by simp
  then show ?thesis
    using assms by (simp add: pullerDB_def StoreTempGroupID_db_def getNonce_def Let_def no_faults_exec)
qed

lemma list_stored_frame:
  assumes "no_faults d" "nonce d \<noteq> 0"
  shows "no_faults (list_stored A gs d) \<and> nonce (list_stored A gs d) = nonce d \<and>
    temp_rows (list_stored A gs d) = temp_rows d \<and> (keys_ok d \<longrightarrow> keys_ok (list_stored A gs d))"
  using assms
proof (induction gs arbitrary: d)
  case (Cons x gs)
  obtain g i where x: "x = (g, i)" by (cases x)
  let ?d = "upsert_track g (nonce d) i d"
  have "no_faults ?d" "nonce ?d \<noteq> 0" using Cons.prems by (simp_all add: no_faults_def)
  from Cons.IH [OF this] show ?case
    using Cons.prems by (simp add: list_stored_def x store_nonce upsert_keys)
qed (simp add: list_stored_def)

lemma list_stored_tracked:
  assumes "no_faults d" "nonce d \<noteq> 0" "keys_ok d"
  shows "tracked (list_stored A gs d) g =
    (case map_of (rev gs) g of
       Some i \<Rightarrow> if find_board g d = None then tracked d g else Some (nonce d, last_of (tracked d g), i)
     | None \<Rightarrow> tracked d g)"
  using assms
proof (induction gs arbitrary: d)
  case (Cons x gs)
  obtain h i where x: "x = (h, i)" by (cases x)
  let ?d = "upsert_track h (nonce d) i d"
  have d: "no_faults ?d" "nonce ?d \<noteq> 0" "keys_ok ?d" using Cons.prems by (simp_all add: no_faults_def upsert_keys)
  have b: "find_board g ?d = find_board g d" by (simp add: find_board_def)
  have t: "tracked ?d g = (if g = h \<and> find_board g d \<noteq> None then Some (nonce d, last_of (tracked d g), i) else tracked d g)"
    by (auto simp: upsert_tracked [OF Cons.prems(3)] map_store_def)
  have l: "last_of (tracked ?d g) = last_of (tracked d g)" by (simp add: t last_of_def)
  have "tracked (list_stored A (x # gs) d) g = tracked (list_stored A gs ?d) g"
    using Cons.prems by (simp add: list_stored_def x store_nonce)
  also have "\<dots> = (case map_of (rev gs) g of
       Some j \<Rightarrow> if find_board g d = None then tracked d g else Some (nonce d, last_of (tracked d g), j)
     | None \<Rightarrow> tracked ?d g)"
    unfolding Cons.IH [OF d] b l using t by (auto split: option.split)
  finally show ?case by (auto simp: x t map_add_def split: option.split)
qed (simp add: list_stored_def)

lemma unknown_untracked: "find_board g d = None \<Longrightarrow> tracked d g = None"
  by (simp add: tracked_def)

lemma loads_rows:
  "no_faults d \<Longrightarrow> temp_rows d = Some rs \<Longrightarrow> loads A (length rs + 1) d = map Inr rs @ [Inl (IoErr EOF)]"
proof (induction rs arbitrary: d)
  case Nil
  then show ?case by (simp add: pullerDB_def LoadTempGroup_db_def next_row_def no_faults_sql)
next
  case (Cons r rs)
  have "LoadTempGroup (pullerDB A) d = (Inr r, d\<lparr>temp_rows := Some rs\<rparr>)"
    using Cons.prems by (simp add: pullerDB_def LoadTempGroup_db_def next_row_def no_faults_sql no_faults_upd)
  moreover have "no_faults (d\<lparr>temp_rows := Some rs\<rparr>)" using Cons.prems by (simp add: no_faults_def)
  ultimately show ?case using Cons.IH [of "d\<lparr>temp_rows := Some rs\<rparr>"] by simp
qed

lemma first_load:
  assumes "no_faults d" and "temp_rows d = None"
  shows "LoadTempGroup (pullerDB A) d = next_row (d\<lparr>temp_rows := Some (load_temp_groups (collate A) d)\<rparr>)"
  using assms by (simp add: pullerDB_def LoadTempGroup_db_def no_faults_sql no_faults_upd)

lemma loads_all:
  assumes "no_faults d" and "temp_rows d = None"
  shows "loads A (length (load_temp_groups (collate A) d) + 1) d =
    map Inr (load_temp_groups (collate A) d) @ [Inl (IoErr EOF)]"
proof -
  let ?d = "d\<lparr>temp_rows := Some (load_temp_groups (collate A) d)\<rparr>"
  have "LoadTempGroup (pullerDB A) d = LoadTempGroup (pullerDB A) ?d"
    unfolding first_load [OF assms] by (simp add: pullerDB_def LoadTempGroup_db_def)
  then have "loads A (length (load_temp_groups (collate A) d) + 1) d =
      loads A (length (load_temp_groups (collate A) d) + 1) ?d" by simp
  also have "\<dots> = map Inr (load_temp_groups (collate A) d) @ [Inl (IoErr EOF)]"
    by (rule loads_rows) (use assms(1) in \<open>simp_all add: no_faults_def\<close>)
  finally show ?thesis .
qed

lemma next_nonce: "fst (nextNonce A d) \<noteq> 0" "snd (nextNonce A d) = d\<lparr>nonce := fst (nextNonce A d)\<rparr>"
  by (simp_all add: nextNonce_def getNonce_def Let_def)

lemma listed_facts:
  fixes A :: "'a PSQLIB"
  assumes "no_faults d"
  defines "n \<equiv> fst (nextNonce A d)"
  shows "listed A gs d = delete_old n (list_stored A gs (d\<lparr>nonce := n\<rparr>))" (is ?l)
    and "no_faults (listed A gs d)" and "temp_rows (listed A gs d) = temp_rows d" and "nonce (listed A gs d) = n"
    and "keys_ok d \<Longrightarrow> keys_ok (listed A gs d)"
proof -
  let ?d = "d\<lparr>nonce := n\<rparr>"
  let ?s = "list_stored A gs ?d"
  have d: "no_faults ?d" "nonce ?d \<noteq> 0" using assms(1) by (simp_all add: no_faults_def n_def next_nonce)
  note f = list_stored_frame [OF d, of A gs]
  have g: "getNonce A ?s = (n, ?s)" using f d by (simp add: getNonce_def Let_def)
  have nf: "no_faults ?s" using f by simp
  have "snd (StartTempGroups (pullerDB A) d) = ?d"
    by (simp add: pullerDB_def StartTempGroups_db_def next_nonce(2) n_def)
  moreover have "snd (FinishTempGroups (pullerDB A) False ?s) = delete_old n ?s"
    by (simp add: pullerDB_def FinishTempGroups_db_def g no_faults_exec [OF nf])
  ultimately have eq: "listed A gs d = delete_old n ?s" by (simp add: listed_def)
  show ?l by (rule eq)
  show "no_faults (listed A gs d)" "temp_rows (listed A gs d) = temp_rows d" "nonce (listed A gs d) = n"
    unfolding eq using f by (simp_all add: no_faults_def)
  show "keys_ok (listed A gs d)" if "keys_ok d"
    unfolding eq delete_old_def using f that by (intro keys_filter) simp
qed

subsection \<open>Properties\<close>

text \<open>
  C17: The puller's methods, called in any order, with any arguments and with any statements failing, keep
  the keys of the tables: one track per puller and board, tracks only of boards that exist, boards with
  distinct ids and names. No board disappears or changes, and the puller keeps its id.
\<close>

theorem tables_keys_kept:
  assumes "keys_ok d" and "(db_method A)\<^sup>*\<^sup>* d d'"
  shows "keys_ok d' \<and> pd_id d' = pd_id d \<and> set (boards d) \<subseteq> set (boards d')"
proof -
  have "follows d d'" using assms(2)
  proof (induction rule: rtranclp_induct)
    case base
    then show ?case using assms(1) by (simp add: follows_def)
  next
    case (step e e')
    then show ?case using method_follows by blast
  qed
  then show ?thesis by (simp add: follows_def)
qed

text \<open>A store with one board and no tracks, and policies that add nothing.\<close>

definition one_board :: "unit PullerDB" where
  "one_board = \<lparr>pd_id = 1, nonce = 0, temp_rows = None, boards = [(1, bs ''a'')], next_bid = 2, tracks = [],
     faults = (\<lambda>_. False), rest = ()\<rparr>"

definition plain_lib :: "unit PSQLIB" where
  "plain_lib =
     (let ngp = \<lparr>check = [], permissive = False, allowUTF8 = False\<rparr>
      in \<lparr>ngp_global = ngp, ngp_anypuller = ngp, ngp_thispuller = ngp, notrace = False, is_print = (\<lambda>_. True),
          NowTimeUnixMilli = 5, collate = length, checkArticleForPush = (\<lambda>_ _. \<lparr>has_real = False, has_ph = False,
            ph_ban = False, ph_banpriv = 0\<rparr>),
          nntpCheckArticleValid = (\<lambda>_ _. False), handleIncoming = (\<lambda>_ _ _ x. Done ((None, False, []), x))\<rparr>)"

lemma one_board_keys: "keys_ok one_board"
  by (simp add: one_board_def keys_ok_def)

theorem tables_keys_kept_witness:
  "let d = snd (StoreTempGroupID (pullerDB plain_lib) (bs ''a'') 7 one_board) in
   keys_ok d \<and> pd_id d = pd_id one_board \<and> set (boards one_board) \<subseteq> set (boards d)"
  unfolding Let_def
  by (rule tables_keys_kept [OF one_board_keys r_into_rtranclp, OF db_method.store_id])

text \<open>
  C16: On the map of the tracked groups, the statements of the puller do what their names say: a new last
  number is set for a group that has a track, and 0 removes the track; a group of the list is stored with
  the current nonce and keeps its last number; the end of a complete list removes the groups it did not
  hold; the last number of a known group is read, 0 without a track; and the groups of the current nonce
  are loaded, each once, in the order of the names. A statement that fails changes nothing.
\<close>

theorem track_statements:
  assumes "keys_ok d" and "\<not> faults d 0"
  shows "tracked (snd (UpdateGroupID (pullerDB A) g i d)) = map_update g i (tracked d) \<and>
    tracked (snd (StoreTempGroupID (pullerDB A) g i d)) =
      (if find_board g d = None then tracked d else map_store (fst (getNonce A d)) g i (tracked d)) \<and>
    tracked (snd (FinishTempGroups (pullerDB A) False d)) = map_finish (fst (getNonce A d)) (tracked d) \<and>
    (find_board g d \<noteq> None \<longrightarrow> fst (GetGroupID (pullerDB A) g d) = Inr (last_of (tracked d g))) \<and>
    set (load_temp_groups coll d) = {(g, n, l). tracked d g = Some (nonce d, l, n)} \<and>
    distinct (map fst (load_temp_groups coll d)) \<and> sorted (map (\<lambda>(g, _). coll g) (load_temp_groups coll d)) \<and>
    (\<forall>f. tracked (snd (exec f (d\<lparr>faults := (\<lambda>_. True)\<rparr>))) = tracked d)"
proof -
  let ?d = "d\<lparr>faults := (\<lambda>n. faults d (n + 1))\<rparr>"
  have sql: "sql f d = (Inr (fst (f ?d)), snd (f ?d))" for f :: "'a PullerDB \<Rightarrow> 'r \<times> 'a PullerDB"
    using assms(2) by (simp add: sql_def Let_def split: prod.split)
  have exec: "tracked (snd (exec f e)) = tracked (f (e\<lparr>faults := (\<lambda>n. faults e (n + 1))\<rparr>))"
    if "\<not> faults e 0" for f and e :: "'a PullerDB"
    using that by (simp add: exec_def sql_def Let_def)
  have n: "faults (snd (getNonce A d)) 0 = faults d 0" "keys_ok (snd (getNonce A d)) = keys_ok d"
    "tracked (snd (getNonce A d)) = tracked d" "find_board g (snd (getNonce A d)) = find_board g d"
    by (simp_all add: getNonce_def Let_def)
  have u: "tracked (snd (UpdateGroupID (pullerDB A) g i d)) = map_update g i (tracked d)"
    using assms by (simp add: pullerDB_def UpdateGroupID_db_def exec set_group_tracked unset_group_tracked)
  have s: "tracked (snd (StoreTempGroupID (pullerDB A) g i d)) =
      (if find_board g d = None then tracked d else map_store (fst (getNonce A d)) g i (tracked d))"
    using assms by (simp add: pullerDB_def StoreTempGroupID_db_def case_prod_beta exec upsert_tracked n)
  have f: "tracked (snd (FinishTempGroups (pullerDB A) False d)) = map_finish (fst (getNonce A d)) (tracked d)"
    using assms by (simp add: pullerDB_def FinishTempGroups_db_def case_prod_beta exec delete_tracked n)
  have "get_group_id g ?d = Some (last_of (tracked d g))" if "find_board g d \<noteq> None"
    using that by (auto simp: get_group_id_def tracked_def last_of_def split: option.split)
  then have r: "find_board g d \<noteq> None \<longrightarrow> fst (GetGroupID (pullerDB A) g d) = Inr (last_of (tracked d g))"
    by (simp add: pullerDB_def get_group_loop.simps sql)
  have e: "tracked (snd (exec f (d\<lparr>faults := (\<lambda>_. True)\<rparr>))) = tracked d" for f
    by (simp add: exec_def sql_def Let_def)
  have "map (\<lambda>(g, _). coll g) l = map (\<lambda>x. case x of (g, _) \<Rightarrow> coll g) l" for l :: "(bytes \<times> u64 \<times> u64) list" ..
  then have o: "sorted (map (\<lambda>(g, _). coll g) (load_temp_groups coll d))"
    by (simp add: load_temp_groups_def)
  show ?thesis
    using u s f r e load_set [OF assms(1)] load_distinct [OF assms(1)] o by simp
qed

theorem track_statements_witness:
  "tracked (snd (StoreTempGroupID (pullerDB plain_lib) (bs ''a'') 7 one_board)) (bs ''a'') = Some (5, 0, 7)"
proof -
  have "\<not> faults one_board 0" by (simp add: one_board_def)
  from conjunct1 [OF conjunct2 [OF track_statements [OF one_board_keys this, of plain_lib "bs ''a''" 7]]]
  show ?thesis
    by (simp add: one_board_def plain_lib_def Let_def find_board_def getNonce_def map_store_def tracked_def last_of_def)
qed


text \<open>
  After a complete list, whatever groups in whatever order and however often it held, a scan loads
  exactly the listed groups that have a board, each once and in the order of the names, with the number of
  its last entry in the list and the last number fetched before; then it ends. Tracks of groups that were
  not listed are gone. This is when no statement fails and the nonce of the list is new.
\<close>

theorem scan_loads_listed:
  assumes "keys_ok d" and "no_faults d" and "temp_rows d = None"
    and "\<forall>g u l m. tracked d g = Some (u, l, m) \<longrightarrow> u \<noteq> fst (nextNonce A d)"
  shows "\<exists>rs. loads A (length rs + 1) (listed A gs d) = map Inr rs @ [Inl (IoErr EOF)] \<and>
    distinct (map fst rs) \<and> sorted (map (\<lambda>(g, _). collate A g) rs) \<and>
    set rs = {(g, i, last_of (tracked d g)) |g i. map_of (rev gs) g = Some i \<and> find_board g d \<noteq> None} \<and>
    (\<forall>g. tracked (listed A gs d) g \<noteq> None \<longrightarrow> g \<in> fst ` set gs)"
proof -
  let ?n = "fst (nextNonce A d)"
  let ?d = "d\<lparr>nonce := ?n\<rparr>"
  let ?e = "listed A gs d"
  note e = listed_facts [OF assms(2), of A gs]
  have keys: "keys_ok ?e" using e(5) assms(1) by blast
  have d: "no_faults ?d" "nonce ?d \<noteq> 0" "keys_ok ?d" using assms(1,2) by (simp_all add: no_faults_def next_nonce)
  have "keys_ok (list_stored A gs ?d)" using list_stored_frame [OF d(1,2)] d(3) by blast
  then have t: "tracked ?e g = (case map_of (rev gs) g of
       Some i \<Rightarrow> if find_board g d = None then None else Some (?n, last_of (tracked d g), i) | None \<Rightarrow> None)" for g
    using spec [OF assms(4), of g] unfolding e(1)
    by (cases "tracked d g") (auto simp: delete_tracked map_finish_def list_stored_tracked [OF d] unknown_untracked
        split: option.split)
  let ?rs = "load_temp_groups (collate A) ?e"
  have set: "set ?rs = {(g, i, last_of (tracked d g)) |g i. map_of (rev gs) g = Some i \<and> find_board g d \<noteq> None}"
    by (auto simp: load_set [OF keys] t e(4) split: option.splits if_splits)
  have "\<forall>g. tracked ?e g \<noteq> None \<longrightarrow> g \<in> fst ` set gs"
    by (auto simp: t split: option.splits dest!: map_of_SomeD intro: rev_image_eqI)
  moreover have "loads A (length ?rs + 1) ?e = map Inr ?rs @ [Inl (IoErr EOF)]"
    by (rule loads_all [OF e(2)]) (simp add: e(3) assms(3))
  moreover have "sorted (map (\<lambda>(g, _). collate A g) ?rs)" by (simp add: load_temp_groups_def)
  ultimately show ?thesis using set load_distinct [OF keys] by blast
qed

theorem scan_loads_listed_witness:
  "\<exists>rs. loads plain_lib (length rs + 1) (listed plain_lib [(bs ''a'', 3), (bs ''b'', 4), (bs ''a'', 7)] one_board) =
      map Inr rs @ [Inl (IoErr EOF)] \<and> set rs = {(bs ''a'', 7, 0)}"
proof -
  have e: "map_of (rev [(bs ''a'', 3), (bs ''b'', 4), (bs ''a'', 7 :: u64)]) g = Some i \<and> find_board g one_board \<noteq> None
      \<longleftrightarrow> g = bs ''a'' \<and> i = 7" for g i
    by (auto simp: find_board_def one_board_def simp del: bs_Cons split: if_splits)
  have l: "last_of (tracked one_board (bs ''a'')) = 0" by (simp add: one_board_def tracked_def find_board_def last_of_def)
  have n: "no_faults one_board" "temp_rows one_board = None" by (simp_all add: one_board_def no_faults_def)
  have t: "\<forall>g u l m. tracked one_board g = Some (u, l, m) \<longrightarrow> u \<noteq> fst (nextNonce plain_lib one_board)"
    by (simp add: one_board_def tracked_def split: option.splits)
  obtain rs where rs: "loads plain_lib (length rs + 1) (listed plain_lib [(bs ''a'', 3), (bs ''b'', 4), (bs ''a'', 7)] one_board)
      = map Inr rs @ [Inl (IoErr EOF)]"
    "set rs = {(g, i, last_of (tracked one_board g)) |g i.
       map_of (rev [(bs ''a'', 3), (bs ''b'', 4), (bs ''a'', 7)]) g = Some i \<and> find_board g one_board \<noteq> None}"
    using scan_loads_listed [OF one_board_keys n t, where gs = "[(bs ''a'', 3), (bs ''b'', 4), (bs ''a'', 7)]"] by blast
  have "set rs = {(bs ''a'', 7, 0)}" unfolding rs(2) e using l by auto
  then show ?thesis using rs(1) by blast
qed

text \<open>
  C18: When the connection breaks while a scan asks for its first group, the scan ends and leaves the cursor
  of the database open. After the next complete list, of whatever groups, the scan of the next session
  does not load what that list stored, but goes on with the second row of the old cursor.
\<close>

theorem scan_resumes_stale:
  assumes "no_faults (db c)" and "temp_rows (db c) = None" and "sroom c = Some 0"
    and "load_temp_groups (collate A) (db c) = (g, n, l) # r # rs" and "sint n \<ge> 0" and "l < n"
  shows "\<exists>e c'. scan_loop (pullerDB A) c = Some (Some e, c') \<and>
    (\<forall>gs. fst (LoadTempGroup (pullerDB A) (listed A gs (db c'))) = Inr r)"
proof -
  let ?d = "(db c)\<lparr>temp_rows := Some (r # rs)\<rparr>"
  have d: "no_faults ?d" using assms(1) by (simp add: no_faults_def)
  have "no_faults ((db c)\<lparr>temp_rows := Some ((g, n, l) # r # rs)\<rparr>)" using assms(1) by (simp add: no_faults_def)
  then have load: "LoadTempGroup (pullerDB A) (db c) = (Inr (g, n, l), ?d)"
    by (simp add: first_load [OF assms(1,2)] assms(4) next_row_def no_faults_sql no_faults_upd)
  let ?c = "c\<lparr>db := ?d\<rparr>"
  obtain e c1 where grp: "doGroup g ?c = Some ((0, Some e, False, True), c1)" "db c1 = ?d"
    using assms(3) by (auto simp: doGroup_def SendLine_def)
  have "scan_group (pullerDB A) g n l ?c = Some (Some (ErrWrap (bs ''doGroup failed'') e), c1)"
    using assms(5,6) grp(1) by (auto simp: scan_group_def lower_id_def ask_group_def)
  then have "scan_loop (pullerDB A) c = Some (Some (ErrWrap (bs ''doGroup failed'') e), c1)"
    using load by (subst scan_loop.simps) (simp add: on_db_def)
  moreover have "fst (LoadTempGroup (pullerDB A) (listed A gs (db c1))) = Inr r" for gs
    using listed_facts(2,3) [OF d, of A gs]
    by (simp add: grp(2) pullerDB_def LoadTempGroup_db_def next_row_def no_faults_sql flip: listed_def)
  ultimately show ?thesis by blast
qed

text \<open>Two groups with a new article each.\<close>

definition two_groups :: "unit PullerDB" where
  "two_groups = one_board\<lparr>nonce := 5, boards := [(1, bs ''a''), (2, bs ''bb'')], next_bid := 3,
     tracks := [\<lparr>tk_sid = 1, tk_bid = 1, last_use = 5, last_max = 0, next_max = 7\<rparr>,
                \<lparr>tk_sid = 1, tk_bid = 2, last_use = 5, last_max = 3, next_max = 4\<rparr>]\<rparr>"

definition broken_client :: "unit PullerDB NNTPPuller" where
  "broken_client = \<lparr>cr = NewBufReader [], cdr = None, sent = [], sroom = Some 0, cs = zeroState,
     db = two_groups, todoList = [], coins = (\<lambda>_. False)\<rparr>"

theorem scan_resumes_stale_witness:
  "\<exists>e c'. scan_loop (pullerDB plain_lib) broken_client = Some (Some e, c') \<and>
    (\<forall>gs. fst (LoadTempGroup (pullerDB plain_lib) (listed plain_lib gs (db c'))) = Inr (bs ''bb'', 4, 3))"
proof -
  have "no_faults (db broken_client)" "temp_rows (db broken_client) = None" "sroom broken_client = Some 0"
    by (simp_all add: broken_client_def two_groups_def one_board_def no_faults_def)
  moreover have "load_temp_groups (collate plain_lib) (db broken_client) =
      [(bs ''a'', 7, 0), (bs ''bb'', 4, 3)]"
    by (simp add: broken_client_def two_groups_def one_board_def plain_lib_def Let_def load_temp_groups_def
        List.map_filter_simps)
  ultimately show ?thesis by (rule scan_resumes_stale) simp_all
qed

end
