(* ===== verification/NntpPullProps.thy ===== *)
theory NntpPullProps
  imports NntpTracks
begin

text \<open>
  Properties of the puller: the two goroutines of \<open>processTODOList\<close> under every interleaving, the lists of
  articles, the slices of a group, and whole sessions over the database of \<open>NntpPullerDB\<close>.
\<close>

subsection \<open>Interleavings\<close>

text \<open>
  The states after some number of steps, where whichever goroutine is ready may go on, and a \<open>select\<close> with
  two ready cases may take either.
\<close>

inductive pipe_reach ::
  "('d, 'w) PullerDatabase \<Rightarrow> bytes \<Rightarrow> 'd NNTPPuller \<Rightarrow> nat \<Rightarrow> ('d, 'w) pipe \<Rightarrow> bool" for D grp c where
  start: "pipe_reach D grp c 0 (pipe_start c)"
| sender: "pipe_reach D grp c k s \<Longrightarrow> sender_ready s \<Longrightarrow> pipe_reach D grp c (Suc k) (sender_step D grp coin s)"
| worker: "pipe_reach D grp c k s \<Longrightarrow> worker_ready s \<Longrightarrow> worker_step D grp s = Some s' \<Longrightarrow>
    pipe_reach D grp c (Suc k) s'"

lemma pipe_start_rank: "pipe_rank (pipe_start c) = 10 * length (todoList c) + 9"
  by (simp add: pipe_rank_def sender_rank_def pipe_start_def)

lemma pipe_reach_ok:
  "pipe_reach D grp c k s \<Longrightarrow> pipe_ok c s \<and> k + pipe_rank s \<le> 10 * length (todoList c) + 9"
proof (induction rule: pipe_reach.induct)
  case start
  then show ?case by (simp add: pipe_start_ok pipe_start_rank)
next
  case (sender k s coin)
  then have "better D grp c s (sender_step D grp coin s)" by (intro sender_step_better) simp_all
  then show ?case using sender.IH by (simp add: better_def)
next
  case (worker k s s')
  then show ?case using worker_step_ok(1,2) [of c s D grp s'] by force
qed

text \<open>
  What a response handler relies on holds in every reachable state: the reader is well-formed and every id is
  long enough to be cut out of its brackets. This needs nothing from the database.
\<close>

definition ids_cut :: "'d \<Rightarrow> todoArticle list \<Rightarrow> bool" where
  "ids_cut d l \<longleftrightarrow> (\<forall>a\<in>set l. 2 \<le> length (ta_msgid a))"

lemma ids_cut_keeps: "pipe_keeps D grp ids_cut"
  by (simp add: pipe_keeps_def ids_cut_def)

lemma better_base:
  assumes "better D grp c0 s s'" and "pipe_ok c0 s" and "pipe_base ids_cut c0 (pc s)"
  shows "pipe_base ids_cut c0 (pc s')"
  using assms by (auto simp: better_def sender_io_def pipe_ok_def pipe_base_def csz_def ids_cut_def)

lemma pipe_reach_base:
  assumes "pipe_reach D grp c k s" and "pipe_base ids_cut c c"
  shows "pipe_base ids_cut c (pc s)"
  using assms(1)
proof (induction rule: pipe_reach.induct)
  case start
  then show ?case using assms(2) by (simp add: pipe_start_def)
next
  case (sender k s coin)
  then have ok: "pipe_ok c s" using pipe_reach_ok by blast
  then have "better D grp c s (sender_step D grp coin s)" using sender.hyps(2) by (intro sender_step_better) simp_all
  then show ?case using ok sender.IH by (rule better_base)
next
  case (worker k s s')
  then have ok: "pipe_ok c s" using pipe_reach_ok by blast
  show ?case using worker_step_total [OF ids_cut_keeps [of D grp] ok worker.IH worker.hyps(2)] worker.hyps(3) by auto
qed

subsection \<open>Runs and lists, when they return\<close>

lemma pipe_step_keeps:
  assumes "pipe_step D grp s = Some s'" and "pipe_ok c0 s"
  shows "pipe_ok c0 s'"
proof -
  obtain a e s1 where tc: "two_coins s = (a, e, s1)" by (cases "two_coins s")
  have ok: "pipe_ok c0 s1" using two_coins_ok [OF tc, of c0] assms(2) by blast
  show ?thesis
  proof (cases "sender_ready s1 \<and> (a \<or> \<not> worker_ready s1)")
    case True
    then show ?thesis using sender_step_better [OF ok] assms(1) tc by (auto simp: pipe_step_def better_def)
  next
    case False
    then have "worker_ready s1" "worker_step D grp s1 = Some s'"
      using assms(1) tc by (auto simp: pipe_step_def split: if_splits)
    then show ?thesis by (rule worker_step_ok(1) [OF ok])
  qed
qed

lemma pipe_run_keeps: "pipe_run D grp s = Some s' \<Longrightarrow> pipe_ok c0 s \<longrightarrow> pipe_ok c0 s'"
  by (erule pipe_run.raw_induct [where P = "\<lambda>D grp s s'. pipe_ok c0 s \<longrightarrow> pipe_ok c0 s'", rotated])
    (auto simp: bind_eq_Some_conv dest: pipe_step_keeps split: sender.splits)

lemma processTODOList_max:
  assumes "processTODOList D grp maxid c = Some ((m, e, fatal), c')"
  shows "m = - 1 \<or> m \<in> ta_id ` set (todoList c)"
proof -
  obtain s where s: "pipe_run D grp (pipe_start c) = Some s" "m = new_maxid s"
    using assms by (auto simp: processTODOList_def bind_eq_Some_conv Let_def split: prod.splits)
  have "pipe_ok c s" using pipe_run_keeps [OF s(1)] pipe_start_ok by blast
  then show ?thesis by (auto simp: pipe_ok_def flight_ok_def s(2))
qed


lemma add_todo_wf:
  "todo_wf rb re (todoList c) \<Longrightarrow> (ta_id a \<noteq> 0 \<Longrightarrow> ValidMessageID (ta_msgid a)) \<Longrightarrow>
   todo_wf rb re (todoList (add_todo rb re a c))"
  by (cases "ta_id a = 0") (auto simp: add_todo_def todo_wf_def)

lemma discard_list: "discard_rest (c :: 'd NNTPPuller) = Some c' \<Longrightarrow> todoList c' = todoList c"
  by (drule discard_rest_same) (simp add: same_def)

lemma block_list: "on_block f (c :: 'd NNTPPuller) = Some (r, c') \<Longrightarrow> todoList c' = todoList c"
  by (drule on_block_same) (simp add: same_def)

lemma hdr_loop_list:
  "hdr_loop rb re c = Some y \<Longrightarrow> todo_wf rb re (todoList c) \<longrightarrow> todo_wf rb re (todoList (snd y))"
proof (erule hdr_loop.raw_induct [where P = "\<lambda>rb re c y. todo_wf rb re (todoList c) \<longrightarrow>
    todo_wf rb re (todoList (snd y))", rotated], rule impI)
  fix loop :: "u64 \<Rightarrow> u64 \<Rightarrow> 'a NNTPPuller \<Rightarrow> (cerr option \<times> 'a NNTPPuller) option"
  fix rb re :: u64 and c :: "'a NNTPPuller" and y
  assume IH: "\<And>rb re c y. loop rb re c = Some y \<Longrightarrow> todo_wf rb re (todoList c) \<longrightarrow> todo_wf rb re (todoList (snd y))"
    and eq: "on_block eatHdrMsgIDLine c \<bind> (\<lambda>((ident, msgid, e), c). case e of
           None \<Rightarrow> loop rb re (add_todo rb re \<lparr>ta_id = ident, ta_msgid = msgid, ta_ref = []\<rparr> c)
         | Some e \<Rightarrow> if e = IoErr EOF then Some (None, c) else discard_rest c \<bind> (\<lambda>c. Some (Some e, c))) = Some y"
    and wf: "todo_wf rb re (todoList c)"
  obtain i m e c1 where b: "on_block eatHdrMsgIDLine c = Some ((i, m, e), c1)"
    using eq by (auto simp: bind_eq_Some_conv)
  note l = block_list [OF b]
  show "todo_wf rb re (todoList (snd y))"
  proof (cases e)
    case None
    have "i \<noteq> 0 \<Longrightarrow> ValidMessageID m" using on_block_result [OF b] None eatHdrMsgIDLine_valid by blast
    then have "todo_wf rb re (todoList (add_todo rb re \<lparr>ta_id = i, ta_msgid = m, ta_ref = []\<rparr> c1))"
      by (intro add_todo_wf) (simp_all add: l wf)
    then show ?thesis using IH eq b None by simp
  next
    case (Some x)
    then show ?thesis using eq b wf l by (auto simp: bind_eq_Some_conv discard_list split: if_splits)
  qed
qed

lemma over_loop_list:
  "over_loop rb re c = Some y \<Longrightarrow> todo_wf rb re (todoList c) \<longrightarrow> todo_wf rb re (todoList (snd y))"
proof (erule over_loop.raw_induct [where P = "\<lambda>rb re c y. todo_wf rb re (todoList c) \<longrightarrow>
    todo_wf rb re (todoList (snd y))", rotated], rule impI)
  fix loop :: "u64 \<Rightarrow> u64 \<Rightarrow> 'a NNTPPuller \<Rightarrow> (cerr option \<times> 'a NNTPPuller) option"
  fix rb re :: u64 and c :: "'a NNTPPuller" and y
  assume IH: "\<And>rb re c y. loop rb re c = Some y \<Longrightarrow> todo_wf rb re (todoList c) \<longrightarrow> todo_wf rb re (todoList (snd y))"
    and eq: "on_block getOverLineInfo c \<bind> (\<lambda>(((ident, msgid, ref), e, fatal), c). case e of
           None \<Rightarrow> loop rb re (add_todo rb re \<lparr>ta_id = ident, ta_msgid = msgid, ta_ref = ref\<rparr> c)
         | Some e \<Rightarrow> if e = IoErr EOF then Some (None, c) else if \<not> fatal then loop rb re c
             else discard_rest c \<bind> (\<lambda>c. Some (Some e, c))) = Some y"
    and wf: "todo_wf rb re (todoList c)"
  obtain i m r e f c1 where b: "on_block getOverLineInfo c = Some (((i, m, r), e, f), c1)"
    using eq by (auto simp: bind_eq_Some_conv)
  note l = block_list [OF b]
  show "todo_wf rb re (todoList (snd y))"
  proof (cases e)
    case None
    have "i \<noteq> 0 \<Longrightarrow> ValidMessageID m" using on_block_result [OF b] None getOverLineInfo_valid by blast
    then have "todo_wf rb re (todoList (add_todo rb re \<lparr>ta_id = i, ta_msgid = m, ta_ref = r\<rparr> c1))"
      by (intro add_todo_wf) (simp_all add: l wf)
    then show ?thesis using IH eq b None by simp
  next
    case (Some x)
    then show ?thesis using eq b wf l IH by (auto simp: bind_eq_Some_conv discard_list split: if_splits)
  qed
qed

lemma eatHdrOutput_list: "eatHdrOutput rb re c = Some (e, c') \<Longrightarrow> todo_wf rb re (todoList c')"
  unfolding eatHdrOutput_def by (drule hdr_loop_list) simp

lemma eatOverOutput_list: "eatOverOutput rb re c = Some (e, c') \<Longrightarrow> todo_wf rb re (todoList c')"
  unfolding eatOverOutput_def by (drule over_loop_list) simp

text \<open>The maximum a slice returns is none, or a number that was asked for.\<close>

abbreviation slice_max :: "u64 \<Rightarrow> u64 \<Rightarrow> u64 \<Rightarrow> bool" where
  "slice_max rb re m \<equiv> m = 0 \<or> m = - 1 \<or> \<not> outside rb re m"

lemma list_hdr_max: "list_hdr D grp rb re maxid c = Some ((m, e, f), c') \<Longrightarrow> slice_max rb re m"
  by (auto simp: list_hdr_def bind_eq_Some_conv todo_wf_def split: if_splits
      dest!: eatHdrOutput_list processTODOList_max)

lemma list_over_max: "list_over D grp rb re maxid c = Some ((m, e, f), c') \<Longrightarrow> slice_max rb re m"
  by (auto simp: list_over_def bind_eq_Some_conv todo_wf_def split: if_splits
      dest!: eatOverOutput_list processTODOList_max)

lemma try_max:
  assumes "Option.bind (next_try can line good bad c) (\<lambda>(r, c). case r of
       Inl (e, fatal) \<Rightarrow> Some ((0, e, fatal), c) | Inr True \<Rightarrow> yes c | Inr False \<Rightarrow> no c) = Some ((m, e, f), c')"
    and "\<And>c. yes c = Some ((m, e, f), c') \<Longrightarrow> slice_max rb re m" and "\<And>c. no c = Some ((m, e, f), c') \<Longrightarrow> slice_max rb re m"
  shows "slice_max rb re m"
proof -
  obtain r c1 where r: "(case r of Inl (e, fatal) \<Rightarrow> Some ((0, e, fatal), c1) | Inr True \<Rightarrow> yes c1
      | Inr False \<Rightarrow> no c1) = Some ((m, e, f), c')"
    using assms(1) by (auto simp: bind_eq_Some_conv)
  show ?thesis
  proof (cases r)
    case (Inl x)
    then show ?thesis using r by (cases x) simp
  next
    case (Inr b)
    then show ?thesis using r assms(2,3) [of c1] by (cases b) simp_all
  qed
qed

lemma slice_over_max: "slice_over D grp rb re maxid c = Some ((m, e, f), c') \<Longrightarrow> slice_max rb re m"
  unfolding slice_over_def
  by (erule try_max, erule list_over_max, erule try_max, erule list_over_max) simp

lemma eatGroupSlice_max: "eatGroupSlice D grp rb re maxid c = Some ((m, e, f), c') \<Longrightarrow> slice_max rb re m"
  unfolding eatGroupSlice_def
  by (erule try_max, erule list_hdr_max, erule try_max, erule list_hdr_max, erule slice_over_max)


subsection \<open>Slices\<close>

text \<open>
  The slices of a group whose last number was \<open>old\<close> and is now \<open>new\<close>: as many full ones as leave something
  for the last, which is open at its end (\<open>- 1\<close>).
\<close>

definition group_slice :: "nat \<Rightarrow> nat \<Rightarrow> nat \<Rightarrow> nat \<Rightarrow> u64 \<times> u64" where
  "group_slice sz old new k =
     (of_nat (old + k * sz + 1), if old + (k + 1) * sz < new then of_nat (old + (k + 1) * sz) else - 1)"

definition slices :: "nat \<Rightarrow> nat \<Rightarrow> nat \<Rightarrow> (u64 \<times> u64) list" where
  "slices sz old new = map (group_slice sz old new) [0..<(new - old + sz - 1) div sz]"

fun run_slices ::
  "('d, 'w) PullerDatabase \<Rightarrow> bytes \<Rightarrow> (u64 \<times> u64) list \<Rightarrow> u64 \<Rightarrow> 'd NNTPPuller \<Rightarrow>
   ((cerr option \<times> bool) \<times> 'd NNTPPuller) option" where
  "run_slices D grp [] maxid c = Some ((None, False), c)"
| "run_slices D grp ((rb, re) # l) maxid c = do {
     ((m, e, fatal), c) \<leftarrow> eatGroupSlice D grp rb re maxid c;
     if e \<noteq> None \<or> l = [] then Some ((e, fatal), c) else run_slices D grp l m c
   }"

lemma sint_minus1: "sint (- 1 :: u64) = - 1" by simp

text \<open>A full slice returns no number behind its end.\<close>

lemma full_slice_max:
  fixes m re :: u64
  assumes "slice_max rb re m" and "re = of_nat x" and "x < 2 ^ 63"
  shows "sint m \<le> sint re"
proof -
  have re: "sint re = int x" using assms(2,3) by (simp add: sint_of_nat)
  consider "m = 0 \<or> m = - 1" | "m \<le> re" using assms(1) re by (auto simp: outside_def)
  then show ?thesis
  proof cases
    case 1
    then show ?thesis using re by (auto simp: sint_minus1)
  next
    case 2
    then have "unat m \<le> x" using assms(2,3) by (simp add: word_le_nat_alt unat_of_nat)
    moreover have "m = of_nat (unat m)" by simp
    ultimately have "sint m = int (unat m)" using assms(3) sint_of_nat [of "unat m"] by simp
    moreover have "int (unat m) \<le> int x" using \<open>unat m \<le> x\<close> by (simp only: of_nat_le_iff)
    ultimately show ?thesis unfolding re by (simp only:)
  qed
qed

lemma slice_count:
  assumes "0 < (sz :: nat)"
  shows "k < (new - old + sz - 1) div sz \<longleftrightarrow> old + k * sz < new"
proof -
  have "k < (new - old + sz - 1) div sz \<longleftrightarrow> Suc k * sz \<le> new - old + sz - 1"
    using assms by (simp add: less_eq_div_iff_mult_less_eq Suc_le_eq [symmetric])
  also have "\<dots> \<longleftrightarrow> k * sz < new - old" using assms by auto
  finally show ?thesis by linarith
qed

lemma slice_end_nat:
  assumes "0 < sz" "sz \<le> 2048" and "new < 2 ^ 63" and "old + k * sz < new"
  shows "slice_end (of_nat new) (of_nat sz) (of_nat (old + k * sz + 1)) = snd (group_slice sz old new k)"
proof -
  let ?e = "old + (k + 1) * sz"
  have w: "of_nat (old + k * sz + 1) + of_nat sz - 1 = (of_nat ?e :: u64)" by (simp add: algebra_simps)
  have "?e < 2 ^ 64" using assms by simp
  then have "(of_nat new :: u64) > of_nat ?e \<longleftrightarrow> ?e < new"
    using assms(3) by (simp add: word_less_nat_alt unat_of_nat del: of_nat_add of_nat_mult of_nat_Suc)
  then show ?thesis unfolding slice_end_def w group_slice_def by simp
qed

lemma group_loop_slices:
  fixes c :: "'d NNTPPuller"
  assumes sz: "0 < sz" "sz \<le> 2048" and new: "new < 2 ^ 63"
  shows "old + k * sz < new \<Longrightarrow>
    group_loop D grp (of_nat new) (of_nat sz) (fst (group_slice sz old new k)) (snd (group_slice sz old new k)) m c =
    run_slices D grp (map (group_slice sz old new) [k..<(new - old + sz - 1) div sz]) m c"
proof (induction "new - (old + k * sz)" arbitrary: k m c rule: less_induct)
  case less
  let ?N = "(new - old + sz - 1) div sz"
  let ?s = "group_slice sz old new"
  have k: "k < ?N" using less.prems slice_count [OF sz(1)] by blast
  then have upt: "[k..<?N] = k # [Suc k..<?N]" by (rule upt_conv_Cons)
  show ?case
  proof (cases "old + Suc k * sz < new")
    case False
    then have "snd (?s k) = - 1" and "\<not> Suc k < ?N" using slice_count [OF sz(1)] by (simp_all add: group_slice_def)
    then show ?thesis unfolding upt
      by (subst group_loop.simps, cases "group_slice sz old new k",
          cases "eatGroupSlice D grp (fst (?s k)) (snd (?s k)) m c") (auto simp: upt_rec [of "Suc k"])
  next
    case True
    let ?e = "old + Suc k * sz"
    have re: "snd (?s k) = of_nat ?e" using True by (simp add: group_slice_def)
    have e63: "?e < 2 ^ 63" using True new by linarith
    have next_le: "\<not> of_nat ?e + 1 > (of_nat new :: u64)"
    proof -
      have "of_nat ?e + 1 = (of_nat (Suc ?e) :: u64)" by (simp add: add.commute)
      moreover have "\<not> of_nat (Suc ?e) > (of_nat new :: u64)"
        using True new by (simp add: word_less_nat_alt unat_of_nat del: of_nat_add of_nat_mult of_nat_Suc)
      ultimately show ?thesis by (simp only: not_False_eq_True)
    qed
    have nb: "of_nat ?e + 1 = fst (?s (Suc k))" by (simp add: group_slice_def)
    have ne: "slice_end (of_nat new) (of_nat sz) (of_nat ?e + 1) = snd (?s (Suc k))"
      using slice_end_nat [OF sz new True] by (simp add: add.commute)
    have "new - (old + Suc k * sz) < new - (old + k * sz)" using less.prems sz(1) True by simp
    note IH = less.hyps [OF this True]
    have "Suc k < ?N" using True slice_count [OF sz(1)] by blast
    then have more: "map ?s [Suc k..<?N] \<noteq> []" by (simp only: map_is_Nil_conv upt_eq_Nil_conv not_le) simp
    have max: "sint m \<le> sint (snd (?s k))"
      if "eatGroupSlice D grp (fst (?s k)) (snd (?s k)) m0 c = Some ((m, e, f), c')" for m0 m e f c'
      using full_slice_max [OF eatGroupSlice_max [OF that] re e63] .
    have pos: "\<not> sint (snd (?s k)) < 0" unfolding re using e63 by (simp add: sint_of_nat del: of_nat_add of_nat_mult of_nat_Suc)
    show ?thesis
    proof (cases "eatGroupSlice D grp (fst (?s k)) (snd (?s k)) m c")
      case None
      then show ?thesis unfolding upt by (subst group_loop.simps, cases "?s k") simp
    next
      case (Some y)
      obtain m1 e f c1 where y: "y = ((m1, e, f), c1)" by (cases y) auto
      have le: "\<not> sint m1 > sint (snd (?s k))" using max [OF Some [unfolded y]] by simp
      have "group_loop D grp (of_nat new) (of_nat sz) (fst (?s k)) (snd (?s k)) m c =
          (if e \<noteq> None then Some ((e, f), c1)
           else group_loop D grp (of_nat new) (of_nat sz) (fst (?s (Suc k))) (snd (?s (Suc k))) m1 c1)"
        using Some y le pos next_le ne nb
        by (subst group_loop.simps) (simp add: Let_def re del: of_nat_add of_nat_mult of_nat_Suc)
      also have "\<dots> = run_slices D grp (map ?s [k..<?N]) m c"
        unfolding upt IH using Some y more by (cases "?s k") simp
      finally show ?thesis .
    qed
  qed
qed


subsection \<open>Properties\<close>

text \<open>
  C9: A session of the puller over the old database ends: for everything the server may send, however it is
  cut, for every point at which writing fails, every schedule of the two goroutines, every content of the
  tables, every failing statement and every article store, the scans return, and the session ends
  with an error, which makes \<open>Run\<close> connect again.
\<close>

theorem puller_session_returns: "\<exists>e c'. session (pullerDB A) u w c = Some (e, c')"
  by (rule pdb.session_returns)

text \<open>
  C10: Under every interleaving of the two goroutines, at most 32 requests are queued; the requests sent are
  the answered ones, then the queued ones in order, then at most one the sender holds, so that every
  response is matched with its request; they are entries of the list, in its order and none twice, and the
  lines sent are theirs; the maximum is an id of the list.
\<close>

theorem pipeline_order:
  assumes "pipe_reach D grp c k s"
  shows "length (todochan s) \<le> 32 \<and> (\<exists>x. asked s = answered s @ todochan s @ x \<and> length x \<le> 1) \<and>
    subseq (map (\<lambda>t. (tl_id t, tl_msgid t)) (asked s)) (map (\<lambda>a. (ta_id a, ta_msgid a)) (todoList c)) \<and>
    sent (pc s) = sent c @ map (\<lambda>t. bs ''ARTICLE '' @ dec (unat (tl_id t))) (asked s) \<and>
    (new_maxid s = - 1 \<or> new_maxid s \<in> ta_id ` set (todoList c))"
proof -
  have ok: "pipe_ok c s" using pipe_reach_ok [OF assms] ..
  then have fl: "flight_ok s" and l: "todoList (pc s) = todoList c" by (simp_all add: pipe_ok_def)
  have "subseq (map request (take (pos s) (todoList c))) (map request (todoList c))"
    by (intro subseq_map) (rule prefix_imp_subseq, rule take_is_prefix)
  then have "subseq (map tla_request (asked s)) (map request (todoList c))"
    using fl unfolding flight_ok_def l by (auto intro: subseq_order.order_trans)
  then show ?thesis
    using ok fl unfolding pipe_ok_def flight_ok_def queueSize_def article_line_def
    by (auto simp: tla_request_def [abs_def] request_def [abs_def])
qed

text \<open>
  C11: The pipeline neither blocks nor runs on, for any database, anything the server sends and every
  interleaving of the two goroutines: from a well-formed reader and a list with valid ids (which the lists
  of the puller have), a run has at most ten steps for each entry and nine more; in every state it reaches,
  either the sender has returned and the worker is gone, so that no goroutine is left behind, or the run
  goes on with a step of one of the two; and wherever the worker may go on, its handling of the response ends,
  without panic.
\<close>

theorem pipeline_ends:
  assumes "pipe_reach D grp c k s" and "wf (cr c)" and "\<forall>a\<in>set (todoList c). ValidMessageID (ta_msgid a)"
  shows "k \<le> 10 * length (todoList c) + 9 \<and>
    (if \<exists>e fatal. sn s = SDone e fatal then wk s = WGone \<or> wk s = WClosed
     else \<exists>s'. pipe_reach D grp c (Suc k) s') \<and>
    (worker_ready s \<longrightarrow> (\<exists>s'. worker_step D grp s = Some s'))"
proof -
  have ok: "pipe_ok c s" and k: "k \<le> 10 * length (todoList c) + 9" using pipe_reach_ok [OF assms(1)] by auto
  have "pipe_base ids_cut c c"
    using assms(2,3) by (auto simp: pipe_base_def ids_cut_def ValidMessageID_length)
  then have base: "pipe_base ids_cut c (pc s)" by (rule pipe_reach_base [OF assms(1)])
  then have w: "worker_ready s \<longrightarrow> (\<exists>s'. worker_step D grp s = Some s')"
    using worker_step_total [OF ids_cut_keeps [of D grp] ok base] by blast
  have "\<exists>s'. pipe_reach D grp c (Suc k) s'" if "\<nexists>e fatal. sn s = SDone e fatal"
    using no_deadlock [OF ok] that w pipe_reach.sender [OF assms(1)] pipe_reach.worker [OF assms(1)] by blast
  then show ?thesis using k w pipe_ok_phase [OF ok] by (auto split: if_splits)
qed

text \<open>A client with one article to ask for, and its pipeline when that is queued.\<close>

definition one_todo :: "unit PullerDB NNTPPuller" where
  "one_todo = broken_client\<lparr>sroom := None, todoList := [\<lparr>ta_id = 7, ta_msgid = bs ''<a@b>'', ta_ref = []\<rparr>]\<rparr>"

lemma one_todo_queued:
  "\<exists>s. pipe_reach (pullerDB plain_lib) (bs ''a'') one_todo 4 s \<and>
     asked s = [\<lparr>tl_msgid = bs ''<a@b>'', tl_id = 7, tl_wdata = Some None\<rparr>] \<and> todochan s \<noteq> [] \<and> worker_ready s"
proof -
  let ?step = "sender_step (pullerDB plain_lib) (bs ''a'') True"
  let ?r = "pipe_reach (pullerDB plain_lib) (bs ''a'') one_todo"
  note eqs = sender_step_def sender_ready_def poll_def finish_def check_wanted_def check_ref_def has_ref_def ask_def
    SendLine_def enqueue_def pipe_db_def on_db_def pullerDB_def IsArticleWanted_db_def sql_def plain_lib_def
    one_todo_def broken_client_def two_groups_def one_board_def pipe_start_def queueSize_def Let_def
  have 0: "?r 0 (pipe_start one_todo)" by (rule pipe_reach.start)
  have 1: "?r (Suc 0) (?step (pipe_start one_todo))"
    by (rule pipe_reach.sender [OF 0]) (simp add: sender_ready_def pipe_start_def)
  have 2: "?r (Suc (Suc 0)) (?step (?step (pipe_start one_todo)))"
    by (rule pipe_reach.sender [OF 1]) (simp add: eqs)
  have 3: "?r (Suc (Suc (Suc 0))) (?step (?step (?step (pipe_start one_todo))))"
    by (rule pipe_reach.sender [OF 2]) (simp add: eqs)
  have 4: "?r (Suc (Suc (Suc (Suc 0)))) (?step (?step (?step (?step (pipe_start one_todo)))))"
    by (rule pipe_reach.sender [OF 3]) (simp add: eqs)
  have "asked (?step (?step (?step (?step (pipe_start one_todo))))) =
      [\<lparr>tl_msgid = bs ''<a@b>'', tl_id = 7, tl_wdata = Some None\<rparr>]"
    "todochan (?step (?step (?step (?step (pipe_start one_todo))))) \<noteq> []"
    "worker_ready (?step (?step (?step (?step (pipe_start one_todo)))))" by (simp_all add: eqs worker_ready_def)
  then show ?thesis using 4 by (auto simp: numeral_eq_Suc)
qed

theorem pipeline_order_witness:
  "\<exists>s. pipe_reach (pullerDB plain_lib) (bs ''a'') one_todo 4 s \<and> sent (pc s) = [bs ''ARTICLE 7'']"
proof -
  obtain s where s: "pipe_reach (pullerDB plain_lib) (bs ''a'') one_todo 4 s"
    "asked s = [\<lparr>tl_msgid = bs ''<a@b>'', tl_id = 7, tl_wdata = Some None\<rparr>]"
    using one_todo_queued by blast
  have "sent (pc s) = sent one_todo @ map (\<lambda>t. bs ''ARTICLE '' @ dec (unat (tl_id t))) (asked s)"
    using pipeline_order [OF s(1)] by (elim conjE)
  moreover have "bs ''ARTICLE '' @ dec 7 = bs ''ARTICLE 7''" by code_simp
  ultimately have "sent (pc s) = [bs ''ARTICLE 7'']"
    using s(2) by (simp add: one_todo_def broken_client_def del: bs_Cons)
  then show ?thesis using s(1) by blast
qed

theorem pipeline_ends_witness:
  "\<exists>s s'. pipe_reach (pullerDB plain_lib) (bs ''a'') one_todo 4 s \<and> todochan s \<noteq> [] \<and>
     4 \<le> 10 * length (todoList one_todo) + 9 \<and> worker_step (pullerDB plain_lib) (bs ''a'') s = Some s'"
proof -
  obtain s where s: "pipe_reach (pullerDB plain_lib) (bs ''a'') one_todo 4 s" "todochan s \<noteq> []" "worker_ready s"
    using one_todo_queued by blast
  have "wf (cr one_todo)" by (simp add: one_todo_def broken_client_def NewBufReader_wf)
  moreover have "ValidMessageID (bs ''<a@b>'')" by code_simp
  then have "\<forall>a\<in>set (todoList one_todo). ValidMessageID (ta_msgid a)" by (simp add: one_todo_def del: bs_Cons)
  ultimately show ?thesis using pipeline_ends [OF s(1)] s by blast
qed

text \<open>
  C15: The lists of articles are well formed whatever the server lists: at most 2048 entries, each with a
  number above zero inside the range that was asked for and with a valid message id, so that cutting
  the ids out of their brackets cannot go out of range later. Reading a list always returns.
\<close>

theorem todo_lists_valid:
  assumes "wf (cr c)"
  shows "(\<exists>e c'. eatHdrOutput rb re c = Some (e, c')) \<and> (\<exists>e c'. eatOverOutput rb re c = Some (e, c')) \<and>
    (\<forall>e c'. eatHdrOutput rb re c = Some (e, c') \<or> eatOverOutput rb re c = Some (e, c') \<longrightarrow>
       length (todoList c') \<le> 2048 \<and>
       (\<forall>a\<in>set (todoList c'). 0 < ta_id a \<and> rb \<le> ta_id a \<and>
          (if sint re \<ge> 0 then ta_id a \<le> re else ta_id a < rb + 2048) \<and> ValidMessageID (ta_msgid a)))"
proof -
  let ?c = "(openDotReader c)\<lparr>todoList := []\<rparr>"
  have c: "wf (cr ?c)" "True \<longrightarrow> cdr ?c \<noteq> None" "with_list (\<lambda>_. True) rb re (db ?c) (todoList ?c)" "csz ?c < Suc (csz ?c)"
    using assms by simp_all
  have "\<exists>e c'. hdr_loop rb re ?c = Some (e, c')" by (rule fwdD [OF hdr_loop_fwd c]) blast
  moreover have "\<exists>e c'. over_loop rb re ?c = Some (e, c')" by (rule fwdD [OF over_loop_fwd c]) blast
  moreover have "length (todoList c') \<le> 2048 \<and>
       (\<forall>a\<in>set (todoList c'). 0 < ta_id a \<and> rb \<le> ta_id a \<and>
          (if sint re \<ge> 0 then ta_id a \<le> re else ta_id a < rb + 2048) \<and> ValidMessageID (ta_msgid a))"
    if "eatHdrOutput rb re c = Some (e, c') \<or> eatOverOutput rb re c = Some (e, c')" for e c'
  proof -
    have "todo_wf rb re (todoList c')" using that eatHdrOutput_list eatOverOutput_list by blast
    then show ?thesis
      by (auto simp: todo_wf_def maxListSize_def outside_def word_neq_0_conv not_less not_le)
  qed
  ultimately show ?thesis unfolding eatHdrOutput_def eatOverOutput_def by blast
qed

theorem todo_lists_valid_witness: "\<exists>e c'. eatHdrOutput 1 5 one_todo = Some (e, c') \<and> length (todoList c') \<le> 2048"
proof -
  have "wf (cr one_todo)" by (simp add: one_todo_def broken_client_def NewBufReader_wf)
  from todo_lists_valid [OF this, of 1 5] show ?thesis by blast
qed

text \<open>
  C14: Eating a group from number \<open>old\<close> to number \<open>new\<close> asks for the slices between them one after another,
  without gap, overlap or wrap-around, the last one open at its end, and stops at the first error: no
  response of the server can make it skip, repeat or invent a slice.
\<close>

theorem eatGroup_slices:
  assumes "old < new" and "new < 2 ^ 63"
  shows "eatGroup D grp (of_nat old) (of_nat new) c =
    run_slices D grp (slices (if allowLargeOver (cs c) then 2048 else 800) old new) (of_nat old) c"
proof -
  let ?sz = "if allowLargeOver (cs c) then 2048 else 800 :: nat"
  have sz: "0 < ?sz" "?sz \<le> 2048" by auto
  have w: "(if allowLargeOver (cs c) then largeSliceSize else smallSliceSize) = of_nat ?sz"
    by (simp add: largeSliceSize_def smallSliceSize_def)
  have 0: "old + 0 * ?sz < new" using assms(1) by simp
  have b: "(of_nat old + 1 :: u64) = fst (group_slice ?sz old new 0)" by (simp add: group_slice_def add.commute)
  have e: "slice_end (of_nat new) (of_nat ?sz) (of_nat old + 1) = snd (group_slice ?sz old new 0)"
    using slice_end_nat [OF sz assms(2) 0] by (simp add: add.commute)
  show ?thesis
    unfolding eatGroup_def Let_def w e unfolding b slices_def by (rule group_loop_slices [OF sz assms(2) 0])
qed

theorem eatGroup_slices_witness:
  "eatGroup (pullerDB plain_lib) (bs ''a'') 10 2000 one_todo =
    run_slices (pullerDB plain_lib) (bs ''a'') [(11, 810), (811, 1610), (1611, - 1)] 10 one_todo"
proof -
  have s: "slices 800 10 2000 = [(11, 810), (811, 1610), (1611, - 1)]"
    by (simp add: slices_def group_slice_def upt_rec)
  have l: "\<not> allowLargeOver (cs one_todo)" by (simp add: one_todo_def broken_client_def zeroState_def)
  show ?thesis
    using eatGroup_slices [of 10 2000 "pullerDB plain_lib" "bs ''a''" one_todo] l s by simp
qed

end
