(* ===== verification/NntpListing.thy ===== *)
theory NntpListing
  imports NntpPullProps
begin

text \<open>
  What the puller makes of a server's list of groups, from the bytes on the wire to the groups its scan
  works through: the reading of a response and of the lines of a block by content, the parsing of the lines
  of \<open>LIST ACTIVE\<close>, and the tables after the list.
\<close>

subsection \<open>Responses and blocks by content\<close>

lemma response_content:
  assumes "wf (cr c)" and "events (cr c) = map Byte (ln @ [CR, LF]) @ es" and "LF \<notin> set ln" and "length ln \<le> 510"
  shows "\<exists>r. readResponse c = Some (case parseResponseCode ln of (code, rst, e) \<Rightarrow> (code, rst, e, False), c\<lparr>cr := r\<rparr>) \<and>
    wf r \<and> events r = es"
proof -
  obtain p e r where r: "ReadUntil 512 LF (cr c) = Some ((p, e), r)" "wf r"
    "until_spec 512 LF (events (cr c)) = ((p, e), events r)"
    using ReadUntil_spec [OF assms(1)] by blast
  have "until_spec 512 LF (map Byte (ln @ [CR]) @ Byte LF # es) = (((ln @ [CR]) @ [LF], None), es)"
    by (rule until_spec_found) (use assms(3,4) in simp_all)
  then have p: "p = ln @ [CR, LF]" "e = None" "events r = es" using r(3) assms(2) by simp_all
  have "readLine c = Some (Inr ln, c\<lparr>cr := r\<rparr>)"
    using r(1) p by (simp add: readLine_def Let_def nth_append)
  then show ?thesis using r(2) p(3) by (intro exI [of _ r]) (simp add: readResponse_def split: prod.split)
qed

text \<open>A block is open, its rest is \<open>q\<close>, and behind it the input is \<open>es\<close>.\<close>

definition block_at :: "'a NNTPClient_scheme \<Rightarrow> bytes \<Rightarrow> ev list \<Rightarrow> bool" where
  "block_at c q es \<longleftrightarrow> wf (cr c) \<and> (\<exists>d d'. cdr c = Some d \<and> undot (d, events (cr c)) = ((q, EOF), d', es))"

lemma open_block:
  assumes "wf (cr c)" and "events (cr c) = map Byte (wire ws) @ es" and "list_all line_ok ws"
  shows "block_at (openDotReader c) (plain ws) es"
proof -
  have "undot (d, events (cr c)) = ((plain ws, EOF), d\<lparr>ds := sEOF\<rparr>, es)" if "ds d = sBeginLine" for d
    using undot_wire [OF that assms(3)] assms(2) by simp
  then show ?thesis using assms(1)
    by (auto simp: block_at_def openDotReader_def NewDotReader_def Reset_def split: option.split)
qed

lemma ReadByte_content:
  assumes "wf b" and "undot (d, events b) = ((c # q, x), t)"
  shows "\<exists>d' b'. DotReader_ReadByte (d, b) = Some (Inr c, d', b') \<and> wf b' \<and> undot (d', events b') = ((q, x), t)"
proof -
  obtain r d' b' where s: "dot_byte ReadByte unread (d, b) = Some (r, d', b')" "wf b'"
    "dot_byte ev_rd ev_unrd (d, events b) = Some (r, d', events b')"
    using buf.dot_byte_sim [of b d] assms(1) by auto
  then show ?thesis using dot_byte_undot [OF s(3)] assms(2)
    by (auto simp: DotReader_ReadByte_def split: sum.splits prod.splits)
qed

lemma ReadByte_end:
  assumes "wf b" and "undot (d, events b) = (([], x), d2, es)"
  shows "\<exists>d' b'. DotReader_ReadByte (d, b) = Some (Inl x, d', b') \<and> wf b' \<and> events b' = es \<and> d' = d2"
proof -
  obtain r d' b' where s: "dot_byte ReadByte unread (d, b) = Some (r, d', b')" "wf b'"
    "dot_byte ev_rd ev_unrd (d, events b) = Some (r, d', events b')"
    using buf.dot_byte_sim [of b d] assms(1) by auto
  then show ?thesis using dot_byte_undot [OF s(3)] assms(2)
    by (auto simp: DotReader_ReadByte_def split: sum.splits prod.splits)
qed

lemma dot_line_content:
  "wf b \<Longrightarrow> undot (d, events b) = ((ln @ LF # q, x), t) \<Longrightarrow> LF \<notin> set ln \<Longrightarrow> length a + length ln \<le> 512 \<Longrightarrow>
   \<exists>d' b'. dot_line a (d, b) = Some ((a @ ln, None), d', b') \<and> wf b' \<and> undot (d', events b') = ((q, x), t)"
proof (induction ln arbitrary: a d b)
  case Nil
  then have "undot (d, events b) = ((LF # q, x), t)" by simp
  from ReadByte_content [OF Nil.prems(1) this] show ?case by (subst dot_line.simps) auto
next
  case (Cons c ln)
  then have "undot (d, events b) = ((c # (ln @ LF # q), x), t)" by simp
  from ReadByte_content [OF Cons.prems(1) this] obtain d1 b1 where s: "DotReader_ReadByte (d, b) = Some (Inr c, d1, b1)"
    "wf b1" "undot (d1, events b1) = ((ln @ LF # q, x), t)" by blast
  have "LF \<notin> set ln" "length (a @ [c]) + length ln \<le> 512" using Cons.prems by simp_all
  from Cons.IH [OF s(2,3) this] show ?case using s(1) Cons.prems(3,4) by (subst dot_line.simps) auto
qed

lemma block_line:
  assumes "block_at c (ln @ LF # q) es" and "LF \<notin> set ln" and "length ln \<le> 512"
  shows "\<exists>d r. on_block readDotLine c = Some ((ln, None), c\<lparr>cdr := Some d, cr := r\<rparr>) \<and>
    block_at (c\<lparr>cdr := Some d, cr := r\<rparr>) q es"
proof -
  obtain d d' where d: "wf (cr c)" "cdr c = Some d" "undot (d, events (cr c)) = ((ln @ LF # q, EOF), d', es)"
    using assms(1) by (auto simp: block_at_def)
  obtain d1 b1 where "dot_line [] (d, cr c) = Some ((ln, None), d1, b1)" "wf b1"
    "undot (d1, events b1) = ((q, EOF), d', es)"
    using dot_line_content [OF d(1,3) assms(2), of "[]"] assms(3) by auto
  then show ?thesis using d(2)
    by (intro exI [of _ d1] exI [of _ b1]) (auto simp: on_block_def readDotLine_def block_at_def)
qed

lemma block_end:
  assumes "block_at c [] es"
  shows "\<exists>d r. on_block readDotLine c = Some (([], Some (IoErr EOF)), c\<lparr>cdr := Some d, cr := r\<rparr>) \<and> wf r \<and> events r = es"
proof -
  obtain d d' where d: "wf (cr c)" "cdr c = Some d" "undot (d, events (cr c)) = (([], EOF), d', es)"
    using assms by (auto simp: block_at_def)
  obtain b1 where "DotReader_ReadByte (d, cr c) = Some (Inl EOF, d', b1)" "wf b1" "events b1 = es"
    using ReadByte_end [OF d(1,3)] by blast
  then show ?thesis using d(2)
    by (intro exI [of _ d'] exI [of _ b1]) (simp add: on_block_def readDotLine_def dot_line.simps)
qed

subsection \<open>The lines of the list\<close>

text \<open>A group, its high and low number, and its status.\<close>

type_synonym active_entry = "bytes \<times> nat \<times> nat \<times> bytes"

definition entry_line :: "active_entry \<Rightarrow> bytes" where
  "entry_line x = (case x of (g, hi, lo, st) \<Rightarrow> g @ SP # dec hi @ SP # dec lo @ SP # st)"

definition entry_ok :: "active_entry \<Rightarrow> bool" where
  "entry_ok x = (case x of (g, hi, lo, st) \<Rightarrow>
     g \<noteq> [] \<and> FullValidGroupSlice g \<and> hi < 2 ^ 64 \<and> lo < 2 ^ 64 \<and> list_all (\<lambda>c. \<not> isws c) st \<and> clean st \<and>
     length (entry_line x) \<le> 512)"

lemma stoi64_dec: "stoi64 (dec n) = of_nat n"
  using stoi_dec_val [of "dec n"] dec_digits [of n] by (simp add: stoi64_def stoi_def)

lemma digit_nonws: "is_digit c \<Longrightarrow> \<not> isws c \<and> c \<noteq> CR \<and> c \<noteq> LF"
  by (auto simp: is_digit_def isws_def)

lemma group_char_nonws: "group_char c \<Longrightarrow> \<not> isws c \<and> c \<noteq> CR \<and> c \<noteq> LF"
  by (auto simp: group_char_def isws_def)

lemma valid_group_chars: "FullValidGroupSlice g \<Longrightarrow> list_all group_char g"
  by (auto simp: FullValidGroupSlice_def split: if_splits)

lemma word_split:
  assumes "list_all (\<lambda>c. \<not> isws c) a"
  shows "takeWhile (\<lambda>c. \<not> isws c) (a @ SP # l) = a" "dropWhile (\<lambda>c. \<not> isws c) (a @ SP # l) = SP # l"
  using assms by (induction a) (auto simp: isws_def)

lemma parse_entry:
  assumes "entry_ok (g, hi, lo, st)"
  shows "parseListActiveLine (entry_line (g, hi, lo, st)) = Inr (g, of_nat hi, of_nat lo, st)"
proof -
  have g: "list_all (\<lambda>c. \<not> isws c) g" "g \<noteq> []" "FullValidGroupSlice g"
    using assms valid_group_chars [of g] by (auto simp: entry_ok_def list_all_iff dest: group_char_nonws)
  have n: "list_all (\<lambda>c. \<not> isws c) (dec n)" "dec n \<noteq> []" "isNumberSlice (dec n)" for n
    using dec_digits [of n] by (auto simp: list_all_iff isNumberSlice_iff dest: digit_nonws)
  have st: "list_all (\<lambda>c. \<not> isws c) st" using assms by (simp add: entry_ok_def)
  have ws: "skipWS (SP # dec n @ l) = dec n @ l" for n l
    using n(1,2) [of n] by (cases "dec n") (simp_all add: isws_def)
  have ws': "skipWS (SP # st) = st" using st by (cases st) (simp_all add: isws_def)
  have e: "nonws st = st" "skipNonWS st = []" using st by (auto simp: list_all_iff takeWhile_eq_self dropWhile_eq_Nil)
  show ?thesis
    using g n by (simp add: parseListActiveLine_def entry_line_def word_split ws ws' e Let_def stoi64_dec
        del: dropWhile.simps takeWhile.simps)
qed


lemma entry_clean: "entry_ok x \<Longrightarrow> clean (entry_line x)"
proof -
  assume ok: "entry_ok x"
  obtain g hi lo st where x: "x = (g, hi, lo, st)" by (cases x)
  have "c \<noteq> CR \<and> c \<noteq> LF" if "c \<in> set (dec n)" for c n
    using dec_digits [of n] that by (auto simp: list_all_iff dest: digit_nonws)
  moreover have "c \<noteq> CR \<and> c \<noteq> LF" if "c \<in> set g" for c
    using ok that valid_group_chars [of g] by (auto simp: x entry_ok_def list_all_iff dest: group_char_nonws)
  ultimately show ?thesis using ok by (auto simp: x entry_line_def entry_ok_def clean_def)
qed

subsection \<open>The tables after the list\<close>

text \<open>What the list stores for an entry.\<close>

definition entry_store :: "bool \<Rightarrow> active_entry \<Rightarrow> bytes \<times> u64" where
  "entry_store stupid x = (case x of (g, hi, lo, st) \<Rightarrow> (g, list_hiwm stupid (of_nat hi) (of_nat lo)))"

text \<open>Boards are not added here, and last numbers are not negative.\<close>

definition settled :: "'a PSQLIB \<Rightarrow> 'a PullerDB \<Rightarrow> bool" where
  "settled A d \<longleftrightarrow> no_faults d \<and> nonce d \<noteq> 0 \<and> keys_ok d \<and> (\<forall>g. 0 \<le> sint (last_of (tracked d g))) \<and>
     (\<forall>g. find_board g d = None \<longrightarrow> \<not> autoAddGroup A g)"

lemma settled_get:
  assumes "settled A d"
  shows "GetGroupID (pullerDB A) g d = (Inr (if find_board g d = None then - 1 else last_of (tracked d g)), d)"
  using assms
  by (auto simp: settled_def pullerDB_def get_group_loop.simps no_faults_sql no_faults_upd get_group_id_def tracked_def
      last_of_def split: option.split)

lemma settled_store:
  assumes "settled A d"
  shows "StoreTempGroupID (pullerDB A) g i d = (None, upsert_track g (nonce d) i d)" and
    "StoreTempGroup (pullerDB A) g d = (None, upsert_track g (nonce d) (- 1) d)" and
    "settled A (upsert_track g (nonce d) i d)"
proof -
  have f: "no_faults d" "nonce d \<noteq> 0" "keys_ok d" using assms by (simp_all add: settled_def)
  have d: "d\<lparr>nonce := nonce d\<rparr> = d" by simp
  show "StoreTempGroupID (pullerDB A) g i d = (None, upsert_track g (nonce d) i d)"
    "StoreTempGroup (pullerDB A) g d = (None, upsert_track g (nonce d) (- 1) d)"
    using f by (simp_all add: pullerDB_def StoreTempGroupID_db_def StoreTempGroup_db_def getNonce_def Let_def exec_def
        no_faults_sql no_faults_upd)
  have "find_board h (upsert_track g (nonce d) i d) = find_board h d" for h by (simp add: find_board_def)
  moreover have "last_of (tracked (upsert_track g (nonce d) i d) h) = last_of (tracked d h)" for h
    by (simp add: upsert_tracked [OF f(3)] map_store_def last_of_def)
  ultimately show "settled A (upsert_track g (nonce d) i d)"
    using assms by (simp add: settled_def no_faults_def upsert_keys)
qed

lemma list_hiwm_neg: "sint (list_hiwm stupid hi lo) < 0 \<Longrightarrow> list_hiwm stupid hi lo = - 1"
proof -
  have "sint maxInt64 \<ge> 0" by (simp add: maxInt64_def)
  then show "sint (list_hiwm stupid hi lo) < 0 \<Longrightarrow> list_hiwm stupid hi lo = - 1"
    by (auto simp: list_hiwm_def split: if_splits)
qed

lemma upsert_unknown: "find_board g d = None \<Longrightarrow> upsert_track g n i d = d"
  by (simp add: upsert_track_def)

lemma active_loop_content:
  assumes "list_all entry_ok xs" and "block_at c (concat (map (\<lambda>x. entry_line x @ [LF]) xs)) es" and "settled A (db c)"
  shows "\<exists>c'. active_loop (pullerDB A) c = Some (None, c') \<and> wf (cr c') \<and> events (cr c') = es \<and>
    sent c' = sent c \<and> cs c' = cs c \<and>
    db c' = list_stored A (map (entry_store (workaroundStupidActiveList (cs c))) xs) (db c)"
  using assms
proof (induction xs arbitrary: c)
  case Nil
  then obtain d r where "on_block readDotLine c = Some (([], Some (IoErr EOF)), c\<lparr>cdr := Some d, cr := r\<rparr>)"
    "wf r" "events r = es" using block_end [of c es] by auto
  then show ?case by (subst active_loop.simps) (simp add: list_stored_def)
next
  case (Cons x xs)
  obtain g hi lo st where x: "x = (g, hi, lo, st)" by (cases x)
  have ok: "entry_ok (g, hi, lo, st)" "LF \<notin> set (entry_line x)" "length (entry_line x) \<le> 512"
    using Cons.prems(1) entry_clean [of x] by (auto simp: x entry_ok_def clean_def)
  have "block_at c (entry_line x @ LF # concat (map (\<lambda>x. entry_line x @ [LF]) xs)) es"
    using Cons.prems(2) by simp
  from block_line [OF this ok(2,3)] obtain d r where l: "on_block readDotLine c =
      Some ((entry_line x, None), c\<lparr>cdr := Some d, cr := r\<rparr>)"
    "block_at (c\<lparr>cdr := Some d, cr := r\<rparr>) (concat (map (\<lambda>x. entry_line x @ [LF]) xs)) es" by blast
  let ?c = "c\<lparr>cdr := Some d, cr := r\<rparr>"
  let ?h = "list_hiwm (workaroundStupidActiveList (cs c)) (of_nat hi) (of_nat lo)"
  let ?d = "upsert_track g (nonce (db c)) ?h (db c)"
  note p = parse_entry [OF ok(1), folded x]
  have s: "settled A (db ?c)" using Cons.prems(3) by simp
  have last: "0 \<le> sint (last_of (tracked (db c) g))" using Cons.prems(3) by (simp add: settled_def)
  have "active_loop (pullerDB A) c = active_loop (pullerDB A) (?c\<lparr>db := ?d\<rparr>)"
  proof (cases "find_board g (db c)")
    case None
    have "?c\<lparr>db := ?d\<rparr> = ?c" using None by (simp add: upsert_unknown)
    then show ?thesis using l(1) p None settled_get [OF Cons.prems(3), of g]
      by (subst active_loop.simps) (simp add: on_db_def)
  next
    case (Some b)
    have step: "(if 0 \<le> sint ?h then on_db (StoreTempGroupID (pullerDB A) g ?h) ?c
        else on_db (StoreTempGroup (pullerDB A) g) ?c) = (None, ?c\<lparr>db := ?d\<rparr>)"
    proof (cases "0 \<le> sint ?h")
      case True
      then show ?thesis using settled_store(1) [OF Cons.prems(3)] by (simp add: on_db_def)
    next
      case False
      then have "?h = - 1" by (intro list_hiwm_neg) simp
      then show ?thesis using False settled_store(2) [OF Cons.prems(3)] by (simp add: on_db_def)
    qed
    have get: "on_db (GetGroupID (pullerDB A) g) ?c = (Inr (last_of (tracked (db c) g)), ?c)"
      using settled_get [OF Cons.prems(3), of g] Some by (simp add: on_db_def)
    show ?thesis using l(1) p last step get
      by (subst active_loop.simps, cases "0 \<le> sint ?h") (simp_all add: Let_def)
  qed
  moreover have "block_at (?c\<lparr>db := ?d\<rparr>) (concat (map (\<lambda>x. entry_line x @ [LF]) xs)) es"
    using l(2) by (simp add: block_at_def)
  moreover have "settled A (db (?c\<lparr>db := ?d\<rparr>))" using settled_store(3) [OF Cons.prems(3)] by simp
  moreover have "list_all entry_ok xs" using Cons.prems(1) by simp
  moreover have "list_stored A (map (entry_store st') (x # xs)) (db c) =
      list_stored A (map (entry_store st') xs) (upsert_track g (nonce (db c)) (list_hiwm st' (of_nat hi) (of_nat lo)) (db c))"
    for st' using settled_store(1) [OF Cons.prems(3)] by (simp add: list_stored_def x entry_store_def)
  ultimately show ?case using Cons.IH [of "?c\<lparr>db := ?d\<rparr>"] by auto
qed


text \<open>The whole command, up to the tables it leaves.\<close>

lemma doActiveList_content:
  fixes c :: "'a PullerDB NNTPPuller"
  assumes c: "wf (cr c)" "sroom c \<noteq> Some 0"
    and ev: "events (cr c) = map Byte (bs ''215 '' @ greeting @ [CR, LF] @ wire ws) @ es"
    and greeting: "LF \<notin> set greeting" "length greeting \<le> 500" and xs: "list_all entry_ok xs"
    and lines: "list_all line_ok ws" and pl: "plain ws = concat (map (\<lambda>x. entry_line x @ [LF]) xs)"
    and d: "keys_ok (db c)" "no_faults (db c)" "\<forall>g. 0 \<le> sint (last_of (tracked (db c) g))"
      "\<forall>g. find_board g (db c) = None \<longrightarrow> \<not> autoAddGroup A g"
  shows "\<exists>c'. doActiveList (pullerDB A) c = Some ((None, False), c') \<and> wf (cr c') \<and> events (cr c') = es \<and>
    sent c' = sent c @ [bs ''LIST''] \<and>
    db c' = listed A (map (entry_store (workaroundStupidActiveList (cs c))) xs) (db c)"
proof -
  let ?n = "fst (nextNonce A (db c))"
  obtain w where send: "SendLine (bs ''LIST'') c = (None, c\<lparr>sent := sent c @ [bs ''LIST''], sroom := w\<rparr>)"
  proof (cases "sroom c")
    case None
    have "c\<lparr>sent := sent c @ [bs ''LIST'']\<rparr> = c\<lparr>sent := sent c @ [bs ''LIST''], sroom := None\<rparr>"
      by (cases c) (use None in simp)
    then show ?thesis using that [of None] None by (simp add: SendLine_def del: bs_Cons)
  next
    case (Some k)
    then show ?thesis using that [of "Some (k - 1)"] c(2) by (cases k) (simp_all add: SendLine_def del: bs_Cons)
  qed
  let ?c1 = "c\<lparr>sent := sent c @ [bs ''LIST''], sroom := w\<rparr>"
  have "events (cr ?c1) = map Byte ((bs ''215 '' @ greeting) @ [CR, LF]) @ map Byte (wire ws) @ es"
    by (simp add: ev)
  moreover have "LF \<notin> set (bs ''215 '' @ greeting)" "length (bs ''215 '' @ greeting) \<le> 510" using greeting by simp_all
  ultimately obtain r where r: "readResponse ?c1 = Some (case parseResponseCode (bs ''215 '' @ greeting) of
      (code, rst, e) \<Rightarrow> (code, rst, e, False), ?c1\<lparr>cr := r\<rparr>)" "wf r"
    "events r = map Byte (wire ws) @ es"
    using response_content [of ?c1 "bs ''215 '' @ greeting"] c(1) by auto
  have code: "parseResponseCode (bs ''215 '' @ greeting) = (215, SP # greeting, None)"
    by (simp add: parseResponseCode_def isNumberSlice_def stoi_def)
  let ?c2 = "openDotReader (?c1\<lparr>cr := r\<rparr>)"
  have blk: "block_at ?c2 (concat (map (\<lambda>x. entry_line x @ [LF]) xs)) es"
    using open_block [of "?c1\<lparr>cr := r\<rparr>", OF _ _ lines] r(2,3) pl by simp
  let ?d = "(db c)\<lparr>nonce := ?n\<rparr>"
  let ?c3 = "?c2\<lparr>db := ?d\<rparr>"
  have c2: "db ?c2 = db c" "cs ?c2 = cs c" "sent ?c2 = sent c @ [bs ''LIST'']"
    by (simp_all add: openDotReader_def split: option.split)
  have "settled A (db ?c3)" using d by (simp add: settled_def no_faults_def next_nonce)
  moreover have "block_at ?c3 (concat (map (\<lambda>x. entry_line x @ [LF]) xs)) es" using blk by (simp add: block_at_def)
  ultimately obtain c4 where c4: "active_loop (pullerDB A) ?c3 = Some (None, c4)" "wf (cr c4)" "events (cr c4) = es"
    "sent c4 = sent ?c3" "db c4 = list_stored A (map (entry_store (workaroundStupidActiveList (cs c))) xs) ?d"
    using active_loop_content [OF xs, of ?c3 es A] c2(2) by auto
  have start: "StartTempGroups (pullerDB A) (db c) = (None, ?d)"
    by (simp add: pullerDB_def StartTempGroups_db_def next_nonce(2) [symmetric])
  let ?s = "list_stored A (map (entry_store (workaroundStupidActiveList (cs c))) xs) ?d"
  have "no_faults ?d" "nonce ?d \<noteq> 0" using d(2) by (simp_all add: no_faults_def next_nonce)
  from list_stored_frame [OF this] have nf: "no_faults (snd (getNonce A ?s))"
    by (simp add: getNonce_def no_faults_def Let_def)
  then have "fst (FinishTempGroups (pullerDB A) False ?s) = None"
    by (simp add: pullerDB_def FinishTempGroups_db_def case_prod_beta exec_def no_faults_sql)
  moreover have "snd (FinishTempGroups (pullerDB A) False ?s) =
      listed A (map (entry_store (workaroundStupidActiveList (cs c))) xs) (db c)"
    by (simp add: listed_def start)
  ultimately have fin: "FinishTempGroups (pullerDB A) False ?s =
      (None, listed A (map (entry_store (workaroundStupidActiveList (cs c))) xs) (db c))"
    by (simp add: prod_eq_iff)
  have "temp_groups (pullerDB A) (active_loop (pullerDB A)) (?c1\<lparr>cr := r\<rparr>) = Some ((None, False),
      c4\<lparr>db := listed A (map (entry_store (workaroundStupidActiveList (cs c))) xs) (db c)\<rparr>)"
    using c4(1,5) start fin c2(1) by (simp add: temp_groups_def on_db_def Let_def)
  then have "doActiveList (pullerDB A) c = Some ((None, False),
      c4\<lparr>db := listed A (map (entry_store (workaroundStupidActiveList (cs c))) xs) (db c)\<rparr>)"
    using send r(1) code by (simp add: doActiveList_def del: bs_Cons)
  then show ?thesis using c4(2-4) c2(3) by simp
qed


subsection \<open>Properties\<close>

text \<open>
  C13: From the wire to the work list: when a server answers \<open>LIST\<close> with well-formed lines, in whatever order
  and repeated or not, and however they arrive, the list is read without error and nothing behind it is
  consumed, and the scan that follows loads exactly the listed groups that have a board, each once and
  in the order of the names, each with the high number of its last line, corrected by the low one, and the
  last number fetched before; then it ends.
\<close>

theorem active_list_scanned:
  fixes c :: "'a PullerDB NNTPPuller"
  assumes "wf (cr c)" and "sroom c \<noteq> Some 0"
    and "events (cr c) = map Byte (bs ''215 '' @ greeting @ [CR, LF] @ wire ws) @ es"
    and "LF \<notin> set greeting" and "length greeting \<le> 500" and "list_all entry_ok xs"
    and "list_all line_ok ws" and "plain ws = concat (map (\<lambda>x. entry_line x @ [LF]) xs)"
    and "keys_ok (db c)" and "no_faults (db c)" and "temp_rows (db c) = None"
    and "\<forall>g u l m. tracked (db c) g = Some (u, l, m) \<longrightarrow> u \<noteq> fst (nextNonce A (db c)) \<and> 0 \<le> sint l"
    and "\<forall>g. find_board g (db c) = None \<longrightarrow> \<not> autoAddGroup A g"
  shows "\<exists>c' rs. doActiveList (pullerDB A) c = Some ((None, False), c') \<and> events (cr c') = es \<and>
    sent c' = sent c @ [bs ''LIST''] \<and>
    loads A (length rs + 1) (db c') = map Inr rs @ [Inl (IoErr EOF)] \<and>
    distinct (map fst rs) \<and> sorted (map (\<lambda>(g, _). collate A g) rs) \<and>
    set rs = {(g, i, last_of (tracked (db c) g)) |g i. find_board g (db c) \<noteq> None \<and>
      map_of (rev (map (entry_store (workaroundStupidActiveList (cs c))) xs)) g = Some i}"
proof -
  have "0 \<le> sint (last_of (tracked (db c) g))" for g
    using assms(12) by (cases "tracked (db c) g") (auto simp: last_of_def)
  then obtain c' where c': "doActiveList (pullerDB A) c = Some ((None, False), c')" "events (cr c') = es"
    "sent c' = sent c @ [bs ''LIST'']"
    "db c' = listed A (map (entry_store (workaroundStupidActiveList (cs c))) xs) (db c)"
    using doActiveList_content [OF assms(1-10) _ assms(13)] by blast
  have "\<forall>g u l m. tracked (db c) g = Some (u, l, m) \<longrightarrow> u \<noteq> fst (nextNonce A (db c))" using assms(12) by blast
  from scan_loads_listed [OF assms(9-11) this, of "map (entry_store (workaroundStupidActiveList (cs c))) xs"]
  obtain rs where rs: "loads A (length rs + 1) (db c') = map Inr rs @ [Inl (IoErr EOF)]" "distinct (map fst rs)"
    "sorted (map (\<lambda>(g, _). collate A g) rs)"
    "set rs = {(g, i, last_of (tracked (db c) g)) |g i.
      map_of (rev (map (entry_store (workaroundStupidActiveList (cs c))) xs)) g = Some i \<and> find_board g (db c) \<noteq> None}"
    unfolding c'(4) by blast
  show ?thesis by (intro exI [of _ c'] exI [of _ rs] conjI c' rs(1-3)) (use rs(4) in auto)
qed

text \<open>A server that lists the group of the only board, twice, and another one.\<close>

definition listing_client :: "bytes \<Rightarrow> unit PullerDB NNTPPuller" where
  "listing_client b = broken_client\<lparr>sroom := None, db := one_board, cr := NewBufReader [(b, None)]\<rparr>"

theorem active_list_scanned_witness:
  "\<exists>c' rs. doActiveList (pullerDB plain_lib) (listing_client
      (bs ''215 list'' @ [CR, LF] @ bs ''a 5 1 y'' @ [CR, LF] @ bs ''b 9 1 m'' @ [CR, LF] @ bs ''a 7 1 y'' @ [CR, LF, 46, CR, LF])) =
      Some ((None, False), c') \<and>
    loads plain_lib (length rs + 1) (db c') = map Inr rs @ [Inl (IoErr EOF)] \<and> set rs = {(bs ''a'', 7, 0)}"
proof -
  let ?xs = "[(bs ''a'', 5, 1, bs ''y''), (bs ''b'', 9, 1, bs ''m''), (bs ''a'', 7, 1, bs ''y'')] :: active_entry list"
  let ?b = "bs ''215 list'' @ [CR, LF] @ bs ''a 5 1 y'' @ [CR, LF] @ bs ''b 9 1 m'' @ [CR, LF] @ bs ''a 7 1 y'' @ [CR, LF, 46, CR, LF]"
  let ?c = "listing_client ?b"
  have digits: "dec 5 = bs ''5''" "dec (Suc 0) = bs ''1''" "dec 7 = bs ''7''" "dec 9 = bs ''9''" by code_simp+
  have "wire (map (stuff \<circ> entry_line) ?xs) = bs ''a 5 1 y'' @ [CR, LF] @ bs ''b 9 1 m'' @ [CR, LF] @ bs ''a 7 1 y'' @ [CR, LF, 46, CR, LF]"
    by (simp add: entry_line_def stuff_def digits)
  moreover have "bs ''215 list'' = bs ''215 '' @ bs ''list''" by simp
  moreover have "events (cr (listing_client b)) = map Byte b" for b
    by (simp add: listing_client_def NewBufReader_wf)
  ultimately have ev: "events (cr ?c) = map Byte (bs ''215 '' @ bs ''list'' @ [CR, LF] @ wire (map (stuff \<circ> entry_line) ?xs)) @ []"
    by (simp only: append_Nil2 append_assoc)
  have w: "wf (cr ?c)" "sroom ?c \<noteq> Some 0" by (simp_all add: listing_client_def NewBufReader_wf)
  have txt_ok: "LF \<notin> set (bs ''list'')" "length (bs ''list'') \<le> 500" by simp_all
  have xs: "list_all entry_ok ?xs" by (simp add: entry_ok_def entry_line_def digits clean_def isws_def FullValidGroupSlice_def group_char_def maxGroupNameLength_def)
  have ws: "list_all line_ok (map (stuff \<circ> entry_line) ?xs)"
    using xs by (auto simp: list_all_iff simp del: bs_Cons intro!: stuff_ok entry_clean)
  have pl: "plain (map (stuff \<circ> entry_line) ?xs) = concat (map (\<lambda>x. entry_line x @ [LF]) ?xs)"
    by (simp add: plain_def stuff_def)
  have d: "keys_ok (db ?c)" "no_faults (db ?c)" "temp_rows (db ?c) = None"
    by (simp_all add: listing_client_def one_board_keys) (simp_all add: one_board_def no_faults_def)
  have t: "\<forall>g u l m. tracked (db ?c) g = Some (u, l, m) \<longrightarrow> u \<noteq> fst (nextNonce plain_lib (db ?c)) \<and> 0 \<le> sint l"
    by (simp add: listing_client_def one_board_def tracked_def split: option.splits)
  have a: "\<forall>g. find_board g (db ?c) = None \<longrightarrow> \<not> autoAddGroup plain_lib g"
    by (simp add: autoAddGroup_def plain_lib_def Let_def CheckGroup_def CheckString_def)
  obtain c' rs where r: "doActiveList (pullerDB plain_lib) ?c = Some ((None, False), c')"
    "loads plain_lib (length rs + 1) (db c') = map Inr rs @ [Inl (IoErr EOF)]"
    "set rs = {(g, i, last_of (tracked (db ?c) g)) |g i. find_board g (db ?c) \<noteq> None \<and>
      map_of (rev (map (entry_store (workaroundStupidActiveList (cs ?c))) ?xs)) g = Some i}"
    using active_list_scanned [OF w ev txt_ok xs ws pl d t a] by blast
  have "find_board g (db ?c) \<noteq> None \<longleftrightarrow> g = bs ''a''" for g
    by (auto simp: listing_client_def one_board_def find_board_def)
  moreover have "map_of (rev (map (entry_store (workaroundStupidActiveList (cs ?c))) ?xs)) (bs ''a'') = Some 7"
    by (simp add: entry_store_def list_hiwm_def)
  moreover have "last_of (tracked (db ?c) (bs ''a'')) = 0"
    by (simp add: listing_client_def one_board_def tracked_def find_board_def last_of_def)
  ultimately have "set rs = {(bs ''a'', 7, 0)}" unfolding r(3) by auto
  then show ?thesis using r(1,2) by blast
qed

end
