(* ===== verification/NntpFederation.thy ===== *)
theory NntpFederation
  imports NntpListing NntpTestsrv
begin

text \<open>
  Server and client together: the list of groups the provider of the server package writes is the list the
  puller's scan works through.
\<close>

definition provider_entry :: "server \<Rightarrow> bytes \<Rightarrow> active_entry" where
  "provider_entry s g =
     (let G = the (map_of (groups s) g)
      in (g, unat (last (articlesSort G)), unat (hd (articlesSort G)), [status G]))"

lemma group_lines_entries:
  "group_lines active_line s gns = (t, True) \<Longrightarrow>
     t = concat (map (\<lambda>x. entry_line x @ [LF]) (map (provider_entry s) gns)) \<and>
     (\<forall>g\<in>set gns. \<exists>G. map_of (groups s) g = Some G \<and> articlesSort G \<noteq> [])"
proof (induction gns arbitrary: t)
  case (Cons g gns)
  obtain G where G: "map_of (groups s) g = Some G" using Cons.prems by (cases "map_of (groups s) g") auto
  obtain lo r where n: "articlesSort G = lo # r"
    using Cons.prems G by (cases "articlesSort G") (auto simp: active_line_def)
  have l: "active_line g G = Some (g @ [SP] @ num (last (articlesSort G)) @ [SP] @ num lo @ [SP, status G, LF])"
    by (simp add: active_line_def n)
  obtain t' where t': "group_lines active_line s gns = (t', True)"
    "t = (g @ [SP] @ num (last (articlesSort G)) @ [SP] @ num lo @ [SP, status G, LF]) @ t'"
    using Cons.prems G l by (cases "group_lines active_line s gns") simp
  show ?case using Cons.IH [OF t'(1)] t'(2) G n by (simp add: provider_entry_def entry_line_def num_def)
qed simp

lemma dec_length: "n < 10 ^ k \<Longrightarrow> 0 < k \<Longrightarrow> length (dec n) \<le> k"
proof (induction k arbitrary: n)
  case (Suc k)
  show ?case
  proof (cases "n < 10")
    case True
    then show ?thesis by (subst dec.simps) simp
  next
    case False
    then have "0 < k" "n div 10 < 10 ^ k" using Suc.prems(1) by (cases k; simp add: less_mult_imp_div_less mult.commute)+
    then show ?thesis using Suc.IH [of "n div 10"] False by (subst dec.simps) simp
  qed
qed simp

lemma unat64: "unat (w :: u64) < 2 ^ 64"
  using unsigned_less [of w] by simp

lemma dec_unat_length: "length (dec (unat (w :: u64))) \<le> 20"
proof (rule dec_length)
  show "unat w < 10 ^ 20" using unat64 [of w] by simp
qed simp

text \<open>What the names and numbers of the provider have to be like.\<close>

definition listable :: "server \<Rightarrow> bytes \<Rightarrow> bool" where
  "listable s g \<longleftrightarrow> g \<noteq> [] \<and> FullValidGroupSlice g \<and>
     (case map_of (groups s) g of
        None \<Rightarrow> True
      | Some G \<Rightarrow> \<not> isws (status G) \<and> clean [status G] \<and> sorted (articlesSort G) \<and> (\<forall>n\<in>set (articlesSort G). 0 \<le> sint n))"

lemma provider_entry_ok: "listable s g \<Longrightarrow> map_of (groups s) g = Some G \<Longrightarrow> entry_ok (provider_entry s g)"
proof -
  assume l: "listable s g" and G: "map_of (groups s) g = Some G"
  have "length g \<le> 450" using l by (auto simp: listable_def FullValidGroupSlice_def maxGroupNameLength_def split: if_splits)
  then show ?thesis
    using l G dec_unat_length [of "last (articlesSort G)"] dec_unat_length [of "hd (articlesSort G)"]
      unat64 [of "last (articlesSort G)"] unat64 [of "hd (articlesSort G)"]
    by (simp add: listable_def provider_entry_def entry_ok_def entry_line_def)
qed

lemma provider_entry_store:
  assumes "listable s g" and "map_of (groups s) g = Some G" and "articlesSort G \<noteq> []"
  shows "entry_store False (provider_entry s g) = (g, last (articlesSort G))"
proof -
  have "sorted (articlesSort G)" and n: "\<forall>n\<in>set (articlesSort G). 0 \<le> sint n" using assms(1,2) by (simp_all add: listable_def)
  then have "hd (articlesSort G) \<le> last (articlesSort G)"
    using assms(3) by (cases "articlesSort G") auto
  moreover have "0 \<le> sint (last (articlesSort G))" using n assms(3) by simp
  ultimately show ?thesis using assms(2) by (auto simp: entry_store_def provider_entry_def list_hiwm_def)
qed

text \<open>The last numbers stored for distinct groups are those of the provider.\<close>

lemma provider_rows:
  assumes "\<forall>g\<in>set gns. \<exists>G. map_of (groups s) g = Some G"
  shows "{(g, i, L g) |g i. map_of (rev (map (\<lambda>g. (g, last (articlesSort (the (map_of (groups s) g))))) gns)) g = Some i \<and> P g}
    = {(g, last (articlesSort G), L g) |g G. g \<in> set gns \<and> map_of (groups s) g = Some G \<and> P g}" (is "?l = ?r")
proof -
  have mp: "map_of (rev (map (\<lambda>g. (g, f g)) gns)) g = (if g \<in> set gns then Some (f g) else None)" for f and g :: bytes
    by (simp add: rev_map map_of_map_restrict restrict_map_def)
  have "x \<in> ?r" if l: "x \<in> ?l" for x
  proof -
    obtain g where g: "g \<in> set gns" "P g" "x = (g, last (articlesSort (the (map_of (groups s) g))), L g)"
      using l unfolding mp by (auto split: if_splits)
    moreover obtain G where "map_of (groups s) g = Some G" using assms g(1) by blast
    ultimately show ?thesis by auto
  qed
  moreover have "x \<in> ?l" if "x \<in> ?r" for x using that unfolding mp by auto
  ultimately show ?thesis by blast
qed

text \<open>
  C12: A puller that lists the groups of this server scans them with the server's numbers: when the
  text the test provider writes for \<open>LIST\<close> comes over the wire, dot-stuffed in any way and cut in any way,
  the puller reads it without error and its scan loads exactly the server's groups that have a board, each
  with the highest article number the server has for it and the last number fetched before.
\<close>

theorem server_list_scanned:
  fixes c :: "'a PullerDB NNTPPuller"
  assumes "group_lines active_line s gns = (plain ws, True)" and "list_all line_ok ws"
    and "\<forall>g\<in>set gns. listable s g" and "distinct gns"
    and "wf (cr c)" and "sroom c \<noteq> Some 0" and "\<not> workaroundStupidActiveList (cs c)"
    and "events (cr c) = map Byte (bs ''215 '' @ greeting @ [CR, LF] @ wire ws) @ es"
    and "LF \<notin> set greeting" and "length greeting \<le> 500"
    and "keys_ok (db c)" and "no_faults (db c)" and "temp_rows (db c) = None"
    and "\<forall>g u l m. tracked (db c) g = Some (u, l, m) \<longrightarrow> u \<noteq> fst (nextNonce A (db c)) \<and> 0 \<le> sint l"
    and "\<forall>g. find_board g (db c) = None \<longrightarrow> \<not> autoAddGroup A g"
  shows "\<exists>c' rs. doActiveList (pullerDB A) c = Some ((None, False), c') \<and> events (cr c') = es \<and>
    loads A (length rs + 1) (db c') = map Inr rs @ [Inl (IoErr EOF)] \<and> distinct (map fst rs) \<and>
    set rs = {(g, last (articlesSort G), last_of (tracked (db c) g)) |g G.
      g \<in> set gns \<and> map_of (groups s) g = Some G \<and> find_board g (db c) \<noteq> None}"
proof -
  let ?xs = "map (provider_entry s) gns"
  note t = group_lines_entries [OF assms(1)]
  have xs: "list_all entry_ok ?xs" using t assms(3) provider_entry_ok by (fastforce simp: list_all_iff)
  have pl: "plain ws = concat (map (\<lambda>x. entry_line x @ [LF]) ?xs)" using t by blast
  have lasts: "\<forall>g. 0 \<le> sint (last_of (tracked (db c) g))"
  proof
    fix g
    show "0 \<le> sint (last_of (tracked (db c) g))"
      using assms(14) by (cases "tracked (db c) g") (auto simp: last_of_def)
  qed
  obtain c' where c': "doActiveList (pullerDB A) c = Some ((None, False), c')" "events (cr c') = es"
    "db c' = listed A (map (entry_store (workaroundStupidActiveList (cs c))) ?xs) (db c)"
    using doActiveList_content [OF assms(5,6,8-10) xs assms(2) pl assms(11,12) lasts assms(15)] by blast
  have st: "map (entry_store (workaroundStupidActiveList (cs c))) ?xs =
      map (\<lambda>g. (g, last (articlesSort (the (map_of (groups s) g))))) gns"
    using t assms(3,7) provider_entry_store by (auto simp del: split_paired_Ex)
  have "\<forall>g u l m. tracked (db c) g = Some (u, l, m) \<longrightarrow> u \<noteq> fst (nextNonce A (db c))" using assms(14) by blast
  from scan_loads_listed [OF assms(11-13) this, of "map (entry_store (workaroundStupidActiveList (cs c))) ?xs"]
  obtain rs where rs: "loads A (length rs + 1) (db c') = map Inr rs @ [Inl (IoErr EOF)]" "distinct (map fst rs)"
    "set rs = {(g, i, last_of (tracked (db c) g)) |g i.
      map_of (rev (map (\<lambda>g. (g, last (articlesSort (the (map_of (groups s) g))))) gns)) g = Some i \<and>
      find_board g (db c) \<noteq> None}"
    unfolding c'(3) st by blast
  have "set rs = {(g, last (articlesSort G), last_of (tracked (db c) g)) |g G.
      g \<in> set gns \<and> map_of (groups s) g = Some G \<and> find_board g (db c) \<noteq> None}"
    unfolding rs(3) by (rule provider_rows) (use t in blast)
  then show ?thesis using c'(1,2) rs(1,2) by blast
qed

text \<open>The test server with its group, and a puller with a board for that group.\<close>

definition nekos :: server where
  "nekos = s1\<lparr>groups := [(bs ''nekos'', sortArticles g1)]\<rparr>"

definition nekos_client :: "unit PullerDB NNTPPuller" where
  "nekos_client =
     (let b = bs ''215 list of groups'' @ [CR, LF] @ bs ''nekos 9000 9000 y'' @ [CR, LF, 46, CR, LF]
      in broken_client\<lparr>sroom := None, db := one_board\<lparr>boards := [(1, bs ''nekos'')]\<rparr>, cr := NewBufReader [(b, None)]\<rparr>)"

theorem server_list_scanned_witness:
  "\<exists>c' rs. doActiveList (pullerDB plain_lib) nekos_client = Some ((None, False), c') \<and>
    loads plain_lib (length rs + 1) (db c') = map Inr rs @ [Inl (IoErr EOF)] \<and> set rs = {(bs ''nekos'', 9000, 0)}"
proof -
  let ?c = nekos_client
  let ?ln = "bs ''nekos 9000 9000 y''"
  have G: "map_of (groups nekos) (bs ''nekos'') = Some (sortArticles g1)" by (simp add: nekos_def del: bs_Cons)
  have "garticles g1 = [(9000, a1)]" "status g1 = 121" by (simp_all only: g1_def grp.select_convs)
  then have n: "articlesSort (sortArticles g1) = [9000]" "status (sortArticles g1) = 121"
    by (simp_all add: sortArticles_def)
  have d9: "dec 9000 = bs ''9000''" by (simp add: dec.simps)
  have lines: "group_lines active_line nekos [bs ''nekos''] = (plain [(False, ?ln)], True)"
    by (simp add: G active_line_def n num_def d9 del: bs_Cons) simp
  have ok: "list_all line_ok [(False, ?ln)]" by (simp add: line_ok_def clean_def)
  have lst: "\<forall>g\<in>set [bs ''nekos'']. listable nekos g"
    using G by (simp add: listable_def n isws_def clean_def del: bs_Cons) code_simp
  have ev: "events (cr ?c) = map Byte (bs ''215 '' @ bs ''list of groups'' @ [CR, LF] @ wire [(False, ?ln)]) @ []"
  proof -
    have "events (cr ?c) = map Byte (bs ''215 list of groups'' @ [CR, LF] @ ?ln @ [CR, LF, 46, CR, LF])"
    proof -
      have "events (NewBufReader [(b, None)]) = map Byte b" for b by (simp add: NewBufReader_wf)
      moreover have "cr (c\<lparr>sroom := w, db := d, cr := r\<rparr>) = r" for c :: "unit PullerDB NNTPPuller" and w d r by simp
      ultimately show ?thesis unfolding nekos_client_def Let_def by (simp only: append_assoc)
    qed
    moreover have "bs ''215 list of groups'' = bs ''215 '' @ bs ''list of groups''" by simp
    moreover have "wire [(False, ?ln)] = ?ln @ [CR, LF, 46, CR, LF]" by (simp del: bs_Cons)
    ultimately show ?thesis by (simp only: append_Nil2 append_assoc)
  qed
  have w: "wf (cr ?c)" "sroom ?c \<noteq> Some 0" "\<not> workaroundStupidActiveList (cs ?c)"
    by (simp_all add: nekos_client_def NewBufReader_wf broken_client_def zeroState_def)
  have tx: "LF \<notin> set (bs ''list of groups'')" "length (bs ''list of groups'') \<le> 500" by simp_all
  have d: "keys_ok (db ?c)" "no_faults (db ?c)" "temp_rows (db ?c) = None"
    by (simp_all add: nekos_client_def one_board_def no_faults_def keys_ok_def)
  have t: "\<forall>g u l m. tracked (db ?c) g = Some (u, l, m) \<longrightarrow> u \<noteq> fst (nextNonce plain_lib (db ?c)) \<and> 0 \<le> sint l"
    by (simp add: nekos_client_def one_board_def tracked_def split: option.splits)
  have a: "\<forall>g. find_board g (db ?c) = None \<longrightarrow> \<not> autoAddGroup plain_lib g"
    by (simp add: autoAddGroup_def plain_lib_def Let_def CheckGroup_def CheckString_def)
  have dist: "distinct [bs ''nekos'']" by simp
  obtain c' rs where r: "doActiveList (pullerDB plain_lib) ?c = Some ((None, False), c')"
    "loads plain_lib (length rs + 1) (db c') = map Inr rs @ [Inl (IoErr EOF)]"
    "set rs = {(g, last (articlesSort G), last_of (tracked (db ?c) g)) |g G.
      g \<in> set [bs ''nekos''] \<and> map_of (groups nekos) g = Some G \<and> find_board g (db ?c) \<noteq> None}"
    using server_list_scanned [OF lines ok lst dist w ev tx d t a] by blast
  have "find_board (bs ''nekos'') (db ?c) \<noteq> None" "last_of (tracked (db ?c) (bs ''nekos'')) = 0"
    by (simp_all add: nekos_client_def one_board_def find_board_def tracked_def last_of_def del: bs_Cons)
  then have "set rs = {(bs ''nekos'', 9000, 0)}" unfolding r(3) using G n(1) by (auto simp del: bs_Cons)
  then show ?thesis using r(1,2) by blast
qed

end
