(* ===== verification/Regexp.thy ===== *)
theory Regexp
  imports Utf8
begin

text \<open>
  What the repository uses of Go's \<open>regexp\<close>: expressions over classes of ASCII bytes with sequence,
  choice, repetition, groups and \<open>\b\<close>, matched leftmost-first, and \<open>FindAllStringSubmatchIndex\<close>.

  \<open>rm r s p\<close> lists the matches of \<open>r\<close> that begin at position \<open>p\<close> of \<open>s\<close>, in the order of preference: each
  is the position after the match and the groups it sets, as pairs of positions. The match Go reports is
  the first of the list at the leftmost position that has one. As the classes are ASCII, matching byte by
  byte is matching rune by rune.
\<close>

datatype regexp = Chars "byte \<Rightarrow> bool" | Eps | Seq regexp regexp | Alt regexp regexp | Star regexp
  | Boundary | Group nat regexp

type_synonym groups = "(nat \<times> nat \<times> nat) list"

definition word_char :: "byte \<Rightarrow> bool" where
  "word_char c \<longleftrightarrow> 48 \<le> c \<and> c \<le> 57 \<or> 65 \<le> c \<and> c \<le> 90 \<or> 97 \<le> c \<and> c \<le> 122 \<or> c = 95"

definition at_word :: "bytes \<Rightarrow> nat \<Rightarrow> bool" where
  "at_word s p \<longleftrightarrow> p < length s \<and> word_char (s ! p)"

definition boundary :: "bytes \<Rightarrow> nat \<Rightarrow> bool" where
  "boundary s p \<longleftrightarrow> (0 < p \<and> at_word s (p - 1)) \<noteq> at_word s p"

function (sequential) rm :: "regexp \<Rightarrow> bytes \<Rightarrow> nat \<Rightarrow> (nat \<times> groups) list" where
  "rm (Chars P) s p = (if p < length s \<and> P (s ! p) then [(p + 1, [])] else [])"
| "rm Eps s p = [(p, [])]"
| "rm (Seq a b) s p = concat (map (\<lambda>(q, c). map (\<lambda>(r, d). (r, c @ d)) (rm b s q)) (rm a s p))"
| "rm (Alt a b) s p = rm a s p @ rm b s p"
| "rm (Star a) s p =
     concat (map (\<lambda>(q, c). if p < q \<and> q \<le> length s then map (\<lambda>(r, d). (r, c @ d)) (rm (Star a) s q) else [])
       (rm a s p)) @ [(p, [])]"
| "rm Boundary s p = (if boundary s p then [(p, [])] else [])"
| "rm (Group k a) s p = map (\<lambda>(q, c). (q, (k, p, q) # c)) (rm a s p)"
  by pat_completeness auto
termination by (relation "measures [\<lambda>(r, s, p). size r, \<lambda>(r, s, p). length s - p]") auto

declare rm.simps(5) [simp del]

lemma rm_Seq_iff:
  "(q, c) \<in> set (rm (Seq a b) s p) \<longleftrightarrow>
     (\<exists>q1 c1 d. (q1, c1) \<in> set (rm a s p) \<and> (q, d) \<in> set (rm b s q1) \<and> c = c1 @ d)"
  by force

lemma rm_Star_iff:
  "(q, c) \<in> set (rm (Star a) s p) \<longleftrightarrow> q = p \<and> c = [] \<or>
     (\<exists>q1 c1 d. (q1, c1) \<in> set (rm a s p) \<and> p < q1 \<and> q1 \<le> length s \<and> (q, d) \<in> set (rm (Star a) s q1) \<and> c = c1 @ d)"
  by (subst rm.simps(5)) (force split: if_splits)

lemma rm_Group_iff:
  "(q, c) \<in> set (rm (Group k a) s p) \<longleftrightarrow> (\<exists>d. (q, d) \<in> set (rm a s p) \<and> c = (k, p, q) # d)"
  by force

text \<open>The abbreviations of the syntax: literals, \<open>x?\<close>, \<open>x+\<close>, \<open>x{m,n}\<close>.\<close>

definition lit :: "bytes \<Rightarrow> regexp" where
  "lit w = foldr (\<lambda>c r. Seq (Chars (\<lambda>x. x = c)) r) w Eps"

definition opt :: "regexp \<Rightarrow> regexp" where "opt r = Alt r Eps"

definition plus :: "regexp \<Rightarrow> regexp" where "plus r = Seq r (Star r)"

fun upto_times :: "nat \<Rightarrow> regexp \<Rightarrow> regexp" where
  "upto_times 0 r = Eps"
| "upto_times (Suc n) r = opt (Seq r (upto_times n r))"

definition times :: "nat \<Rightarrow> nat \<Rightarrow> regexp \<Rightarrow> regexp" where
  "times m n r = ((Seq r) ^^ m) (upto_times (n - m) r)"

text \<open>The leftmost match from a position on: where it begins, where it ends, its groups.\<close>

function find_from :: "regexp \<Rightarrow> bytes \<Rightarrow> nat \<Rightarrow> (nat \<times> nat \<times> groups) option" where
  "find_from r s p =
     (if length s < p then None
      else case rm r s p of m # _ \<Rightarrow> Some (p, m) | [] \<Rightarrow> find_from r s (p + 1))"
  by pat_completeness auto
termination by (relation "measure (\<lambda>(r, s, p). Suc (length s) - p)") auto

declare find_from.simps [simp del]

text \<open>
  \<open>FindAllStringSubmatchIndex\<close> with no limit: after a match the search goes on at its end. An empty match
  right after the previous match is not reported, and after an empty one the search moves on by a rune.
\<close>

function find_all :: "regexp \<Rightarrow> bytes \<Rightarrow> nat option \<Rightarrow> nat \<Rightarrow> (nat \<times> nat \<times> groups) list" where
  "find_all r s prev p =
     (if length s < p then []
      else case find_from r s p of
        None \<Rightarrow> []
      | Some (i, q, c) \<Rightarrow>
          if p < q then (i, q, c) # find_all r s (Some q) q
          else (if prev = Some i then [] else [(i, q, c)]) @ find_all r s (Some q) (p + rune_width (drop p s)))"
  by pat_completeness auto
termination
  by (relation "measure (\<lambda>(r, s, e, p). Suc (length s) - p)") (use rune_width_pos in \<open>auto intro!: diff_less_mono2\<close>)

declare find_all.simps [simp del]

definition FindAll :: "regexp \<Rightarrow> bytes \<Rightarrow> (nat \<times> nat \<times> groups) list" where
  "FindAll r s = find_all r s None 0"

subsection \<open>What every match satisfies\<close>

text \<open>The bytes an expression can consume, and how many.\<close>

primrec consumes :: "regexp \<Rightarrow> byte \<Rightarrow> bool" where
  "consumes (Chars P) = P"
| "consumes Eps = (\<lambda>_. False)"
| "consumes (Seq a b) = (\<lambda>c. consumes a c \<or> consumes b c)"
| "consumes (Alt a b) = (\<lambda>c. consumes a c \<or> consumes b c)"
| "consumes (Star a) = consumes a"
| "consumes Boundary = (\<lambda>_. False)"
| "consumes (Group k a) = consumes a"

primrec least :: "regexp \<Rightarrow> nat" where
  "least (Chars P) = 1"
| "least Eps = 0"
| "least (Seq a b) = least a + least b"
| "least (Alt a b) = min (least a) (least b)"
| "least (Star a) = 0"
| "least Boundary = 0"
| "least (Group k a) = least a"

primrec most :: "regexp \<Rightarrow> nat option" where
  "most (Chars P) = Some 1"
| "most Eps = Some 0"
| "most (Seq a b) = (case (most a, most b) of (Some m, Some n) \<Rightarrow> Some (m + n) | _ \<Rightarrow> None)"
| "most (Alt a b) = (case (most a, most b) of (Some m, Some n) \<Rightarrow> Some (max m n) | _ \<Rightarrow> None)"
| "most (Star a) = None"
| "most Boundary = Some 0"
| "most (Group k a) = most a"

primrec groups_of :: "regexp \<Rightarrow> (nat \<times> regexp) set" where
  "groups_of (Chars P) = {}"
| "groups_of Eps = {}"
| "groups_of (Seq a b) = groups_of a \<union> groups_of b"
| "groups_of (Alt a b) = groups_of a \<union> groups_of b"
| "groups_of (Star a) = groups_of a"
| "groups_of Boundary = {}"
| "groups_of (Group k a) = insert (k, a) (groups_of a)"

lemma rm_span: "(q, c) \<in> set (rm r s p) \<Longrightarrow> p \<le> length s \<Longrightarrow> p + least r \<le> q \<and> q \<le> length s"
proof (induction r s p arbitrary: q c rule: rm.induct)
  case (3 a b s p)
  obtain q1 c1 d where q: "(q1, c1) \<in> set (rm a s p)" "(q, d) \<in> set (rm b s q1)"
    using "3.prems"(1) unfolding rm_Seq_iff by blast
  show ?case using "3.IH"(1) [OF q(1) "3.prems"(2)] "3.IH"(2) [OF q(1) refl q(2)] by simp
next
  case (5 a s p)
  from iffD1 [OF rm_Star_iff, OF "5.prems"(1)] show ?case
  proof (elim disjE exE conjE)
    fix q1 c1 d assume q: "(q1, c1) \<in> set (rm a s p)" "p < q1" "q1 \<le> length s" "(q, d) \<in> set (rm (Star a) s q1)"
    show ?case using "5.IH"(2) [OF q(1) refl conjI [OF q(2,3)] q(4,3)] q(2) by simp
  qed (use "5.prems" in simp)
next
  case (4 a b s p)
  then show ?case by fastforce
qed (auto split: if_splits)

lemma rm_most: "(q, c) \<in> set (rm r s p) \<Longrightarrow> most r = Some n \<Longrightarrow> q \<le> p + n"
proof (induction r s p arbitrary: q c n rule: rm.induct)
  case (3 a b s p)
  obtain q1 c1 d where q: "(q1, c1) \<in> set (rm a s p)" "(q, d) \<in> set (rm b s q1)"
    using "3.prems"(1) unfolding rm_Seq_iff by blast
  obtain m k where m: "most a = Some m" "most b = Some k" "n = m + k"
    using "3.prems"(2) by (auto split: option.splits)
  show ?case using "3.IH"(1) [OF q(1) m(1)] "3.IH"(2) [OF q(1) refl q(2) m(2)] m(3) by linarith
next
  case (4 a b s p)
  then show ?case by (fastforce split: option.splits)
qed (auto split: if_splits)

lemma rm_consumes: "(q, c) \<in> set (rm r s p) \<Longrightarrow> p \<le> length s \<Longrightarrow> p \<le> i \<Longrightarrow> i < q \<Longrightarrow> consumes r (s ! i)"
proof (induction r s p arbitrary: q c rule: rm.induct)
  case (3 a b s p)
  obtain q1 c1 d where q: "(q1, c1) \<in> set (rm a s p)" "(q, d) \<in> set (rm b s q1)"
    using "3.prems"(1) unfolding rm_Seq_iff by blast
  have "q1 \<le> length s" using rm_span [OF q(1) "3.prems"(2)] by simp
  then show ?case
    using "3.IH"(1) [OF q(1) "3.prems"(2,3)] "3.IH"(2) [OF q(1) refl q(2) _ _ "3.prems"(4)] by (cases "i < q1") simp_all
next
  case (5 a s p)
  from iffD1 [OF rm_Star_iff, OF "5.prems"(1)] show ?case
  proof (elim disjE exE conjE)
    fix q1 c1 d assume q: "(q1, c1) \<in> set (rm a s p)" "p < q1" "q1 \<le> length s" "(q, d) \<in> set (rm (Star a) s q1)"
    show ?case
      using "5.IH"(1) [OF q(1) "5.prems"(2,3)] "5.IH"(2) [OF q(1) refl conjI [OF q(2,3)] q(4,3) _ "5.prems"(4)]
      by (cases "i < q1") simp_all
  qed (use "5.prems" in simp)
qed (auto split: if_splits simp: le_less_Suc_eq)

lemma rm_group:
  "(q, c) \<in> set (rm r s p) \<Longrightarrow> p \<le> length s \<Longrightarrow> (k, i, j) \<in> set c \<Longrightarrow>
     p \<le> i \<and> i \<le> length s \<and> j \<le> q \<and> (\<exists>a d. (k, a) \<in> groups_of r \<and> (j, d) \<in> set (rm a s i))"
proof (induction r s p arbitrary: q c rule: rm.induct)
  case (3 a b s p)
  obtain q1 c1 d where q: "(q1, c1) \<in> set (rm a s p)" "(q, d) \<in> set (rm b s q1)" "c = c1 @ d"
    using "3.prems"(1) unfolding rm_Seq_iff by blast
  have l: "p \<le> q1" "q1 \<le> length s" using rm_span [OF q(1) "3.prems"(2)] by simp_all
  have l': "q1 \<le> q" using rm_span [OF q(2) l(2)] by simp
  from "3.prems"(3) consider "(k, i, j) \<in> set c1" | "(k, i, j) \<in> set d" unfolding q(3) by auto
  then show ?case
  proof cases
    case 1
    show ?thesis using "3.IH"(1) [OF q(1) "3.prems"(2) 1] l' by auto
  next
    case 2
    show ?thesis using "3.IH"(2) [OF q(1) refl q(2) l(2) 2] l(1) by auto
  qed
next
  case (5 a s p)
  from iffD1 [OF rm_Star_iff, OF "5.prems"(1)] show ?case
  proof (elim disjE exE conjE)
    fix q1 c1 d assume q: "(q1, c1) \<in> set (rm a s p)" "p < q1" "q1 \<le> length s" "(q, d) \<in> set (rm (Star a) s q1)" "c = c1 @ d"
    have l: "q1 \<le> q" using rm_span [OF q(4,3)] by simp
    from "5.prems"(3) consider "(k, i, j) \<in> set c1" | "(k, i, j) \<in> set d" unfolding q(5) by auto
    then show ?case
    proof cases
      case 1
      show ?thesis using "5.IH"(1) [OF q(1) "5.prems"(2) 1] l by auto
    next
      case 2
      show ?thesis using "5.IH"(2) [OF q(1) refl conjI [OF q(2,3)] q(4,3) 2] q(2) by auto
    qed
  qed (use "5.prems" in simp)
next
  case (7 k' a s p)
  obtain c1 where q: "(q, c1) \<in> set (rm a s p)" "c = (k', p, q) # c1"
    using "7.prems"(1) unfolding rm_Group_iff by blast
  show ?case using "7.IH" [OF q(1) "7.prems"(2)] "7.prems"(2,3) q by auto
next
  case (4 a b s p)
  then show ?case by fastforce
qed (auto split: if_splits)

subsection \<open>The matches of \<open>FindAll\<close>\<close>

lemma find_from_Some:
  "find_from r s p = Some (i, q, c) \<Longrightarrow> p \<le> i \<and> i \<le> length s \<and> (\<exists>ms. rm r s i = (q, c) # ms) \<and> (\<forall>k. p \<le> k \<longrightarrow> k < i \<longrightarrow> rm r s k = [])"
proof (induction r s p rule: find_from.induct)
  case (1 r s p)
  show ?case
  proof (cases "rm r s p")
    case Nil
    then have "\<not> length s < p" "find_from r s (p + 1) = Some (i, q, c)"
      using "1.prems" by (subst (asm) find_from.simps, simp split: if_splits)+
    note ih = "1.IH" [OF this(1) Nil this(2)]
    show ?thesis using ih Nil by (metis Suc_eq_plus1 Suc_leD le_antisym not_less_eq_eq)
  next
    case (Cons m ms)
    then show ?thesis using "1.prems" by (subst (asm) find_from.simps) (auto split: if_splits)
  qed
qed

lemma find_all_rec:
  assumes "0 < least r"
  shows "find_all r s e p =
    (case find_from r s p of None \<Rightarrow> [] | Some (i, q, c) \<Rightarrow> (i, q, c) # find_all r s (Some q) q)"
proof (cases "find_from r s p")
  case None
  then show ?thesis by (subst find_all.simps) simp
next
  case (Some x)
  obtain i q c where x: "x = (i, q, c)" by (cases x)
  from find_from_Some [OF Some [unfolded x]] have m: "p \<le> i" "i \<le> length s" "(q, c) \<in> set (rm r s i)" by auto
  then have "p < q" using rm_span [OF m(3,2)] assms by simp
  then show ?thesis using Some m(1,2) unfolding x by (subst find_all.simps) simp
qed

lemma find_all_matches:
  "0 < least r \<Longrightarrow> (i, q, c) \<in> set (find_all r s e p) \<Longrightarrow> p \<le> i \<and> i \<le> length s \<and> (q, c) \<in> set (rm r s i)"
proof (induction "Suc (length s) - p" arbitrary: e p rule: less_induct)
  case less
  obtain i1 q1 c1 where f: "find_from r s p = Some (i1, q1, c1)"
    using less.prems find_all_rec [of r s e p] by (cases "find_from r s p") auto
  from find_from_Some [OF f] have m: "p \<le> i1" "i1 \<le> length s" "(q1, c1) \<in> set (rm r s i1)" by auto
  then have l: "i1 < q1" "q1 \<le> length s" using rm_span [OF m(3,2)] less.prems(1) by auto
  have "(i, q, c) = (i1, q1, c1) \<or> (i, q, c) \<in> set (find_all r s (Some q1) q1)"
    using less.prems(2) unfolding find_all_rec [OF less.prems(1), of s e p] f by simp
  then show ?case
  proof
    assume "(i, q, c) \<in> set (find_all r s (Some q1) q1)"
    then have "q1 \<le> i \<and> i \<le> length s \<and> (q, c) \<in> set (rm r s i)"
      using less.prems(1) l m(1) by (intro less.hyps) auto
    then show ?thesis using l m(1) by simp
  qed (use m in simp)
qed

lemma find_all_apart:
  "0 < least r \<Longrightarrow> sorted_wrt (\<lambda>(i, q, c) (i', q', c'). q \<le> i') (find_all r s e p)"
proof (induction "Suc (length s) - p" arbitrary: e p rule: less_induct)
  case less
  show ?case
  proof (cases "find_from r s p")
    case None
    then show ?thesis unfolding find_all_rec [OF less.prems, of s e p] by simp
  next
    case (Some x)
    obtain i1 q1 c1 where x: "x = (i1, q1, c1)" by (cases x)
    from find_from_Some [OF Some [unfolded x]] have m: "p \<le> i1" "i1 \<le> length s" "(q1, c1) \<in> set (rm r s i1)" by auto
    then have l: "i1 < q1" "q1 \<le> length s" using rm_span [OF m(3,2)] less.prems by auto
    have "sorted_wrt (\<lambda>(i, q, c) (i', q', c'). q \<le> i') (find_all r s (Some q1) q1)"
      by (rule less.hyps) (use l m less.prems in auto)
    moreover have "q1 \<le> i" if "(i, q, c) \<in> set (find_all r s (Some q1) q1)" for i q c
      using find_all_matches [OF less.prems that] by simp
    ultimately show ?thesis unfolding find_all_rec [OF less.prems, of s e p] Some x by auto
  qed
qed

lemma FindAll_matches:
  "0 < least r \<Longrightarrow> (i, q, c) \<in> set (FindAll r s) \<Longrightarrow> i \<le> length s \<and> (q, c) \<in> set (rm r s i)"
  using find_all_matches by (fastforce simp: FindAll_def)

end
