(* ===== verification/PostRefs.thy ===== *)
theory PostRefs
  imports Regexp
begin

text \<open>
  \<open>app/ibref/ibrefsrnd/ibref.go\<close>: the references in the text of a post, \<open>>>post\<close>, \<open>>>>/board/post\<close> and
  \<open><message-id>\<close>, with the positions they have in it. \<open>Reference\<close> and \<open>Index\<close> are the structures of the
  source; a position is a natural number.
\<close>

record Reference =
  Board :: bytes
  Post :: bytes
  MsgID :: bytes

record Index =
  Start :: nat
  End :: nat

definition hex_char :: "byte \<Rightarrow> bool" where
  "hex_char c \<longleftrightarrow> 48 \<le> c \<and> c \<le> 57 \<or> 97 \<le> c \<and> c \<le> 102 \<or> 65 \<le> c \<and> c \<le> 70"

definition alnum_char :: "byte \<Rightarrow> bool" where
  "alnum_char c \<longleftrightarrow> 48 \<le> c \<and> c \<le> 57 \<or> 97 \<le> c \<and> c \<le> 122 \<or> 65 \<le> c \<and> c \<le> 90"

definition board_char :: "byte \<Rightarrow> bool" where
  "board_char c \<longleftrightarrow> alnum_char c \<or> c \<in> set (bs ''+_.-'')"

text \<open>The characters of an atom are those of \<open>reAtom\<close>; 39 is the apostrophe and 96 the grave accent.\<close>

definition atom_char :: "byte \<Rightarrow> bool" where
  "atom_char c \<longleftrightarrow> alnum_char c \<or> c \<in> set (bs ''!#$%&'' @ [39] @ bs ''*+/=?^_'' @ [96] @ bs ''{|}~-'')"

definition mdtext :: "byte \<Rightarrow> bool" where
  "mdtext c \<longleftrightarrow> 0x21 \<le> c \<and> c \<le> 0x3D \<or> 0x3F \<le> c \<and> c \<le> 0x5A \<or> 0x5E \<le> c \<and> c \<le> 0x7E"

definition chr :: "byte \<Rightarrow> regexp" where
  "chr c = Chars (\<lambda>x. x = c)"

definition reRef :: regexp where
  "reRef = Seq (chr 62) (Seq (chr 62) (Seq (opt (chr SP)) (Seq (Group 1 (times 8 40 (Chars hex_char))) Boundary)))"

definition reCRef :: regexp where
  "reCRef = Seq (chr 62) (Seq (chr 62) (Seq (chr 62) (Seq (opt (chr SP)) (Seq (chr 47)
     (Seq (Group 1 (times 1 255 (Chars board_char))) (Seq (chr 47)
       (opt (Seq (opt (chr SP)) (Seq (Group 2 (times 8 40 (Chars hex_char))) Boundary)))))))))"

definition reAtom :: regexp where
  "reAtom = plus (Chars atom_char)"

definition reDAtom :: regexp where
  "reDAtom = Seq reAtom (Star (Seq (chr 46) reAtom))"

definition reNoFoldLit :: regexp where
  "reNoFoldLit = Seq (chr 91) (Seq (Star (Chars mdtext)) (chr 93))"

definition reMsgID :: regexp where
  "reMsgID = Seq (chr 60) (Seq reDAtom (Seq (chr 64) (Seq (Alt reDAtom reNoFoldLit) (chr 62))))"

text \<open>The text of a group, if the match set it.\<close>

definition sub :: "bytes \<Rightarrow> nat \<Rightarrow> nat \<Rightarrow> bytes" where
  "sub s i j = take (j - i) (drop i s)"

definition group_text :: "bytes \<Rightarrow> groups \<Rightarrow> nat \<Rightarrow> bytes option" where
  "group_text s c k = (case map_of c k of None \<Rightarrow> None | Some (i, j) \<Rightarrow> Some (sub s i j))"

definition to_lower :: "byte \<Rightarrow> byte" where
  "to_lower c = (if 65 \<le> c \<and> c \<le> 90 then c + 32 else c)"

definition ToLower :: "bytes \<Rightarrow> bytes" where
  "ToLower s = map to_lower s"

definition post_ref :: "bytes \<Rightarrow> nat \<times> nat \<times> groups \<Rightarrow> Reference \<times> Index" where
  "post_ref msg m = (case m of (i, q, c) \<Rightarrow>
     (\<lparr>Board = [], Post = ToLower (the (group_text msg c 1)), MsgID = []\<rparr>, \<lparr>Start = i, End = q\<rparr>))"

definition cross_ref :: "bytes \<Rightarrow> nat \<times> nat \<times> groups \<Rightarrow> Reference \<times> Index" where
  "cross_ref msg m = (case m of (i, q, c) \<Rightarrow>
     (\<lparr>Board = the (group_text msg c 1),
       Post = (case group_text msg c 2 of None \<Rightarrow> [] | Some p \<Rightarrow> ToLower p), MsgID = []\<rparr>, \<lparr>Start = i, End = q\<rparr>))"

definition msgid_refs :: "bytes \<Rightarrow> nat \<times> nat \<times> groups \<Rightarrow> (Reference \<times> Index) list" where
  "msgid_refs msg m = (case m of (i, q, c) \<Rightarrow>
     if q - i > 250 \<or> q - i < 3 then []
     else [(\<lparr>Board = [], Post = [], MsgID = sub msg (i + 1) (q - 1)\<rparr>, \<lparr>Start = i, End = q\<rparr>)])"

text \<open>The sort is by position; no two references begin at the same place, so any sort does.\<close>

definition by_start :: "(Reference \<times> Index) list \<Rightarrow> (Reference \<times> Index) list" where
  "by_start xs = sort_key (\<lambda>(r, x). Start x) xs"

text \<open>A reference that begins before the last one that was kept ends is dropped.\<close>

fun drop_overlaps :: "(Reference \<times> Index) list \<Rightarrow> (Reference \<times> Index) list" where
  "drop_overlaps (a # b # xs) =
     (if End (snd a) > Start (snd b) then drop_overlaps (a # xs) else a # drop_overlaps (b # xs))"
| "drop_overlaps xs = xs"

definition found :: "bytes \<Rightarrow> (Reference \<times> Index) list" where
  "found msg =
     map (post_ref msg) (FindAll reRef msg) @ map (cross_ref msg) (FindAll reCRef msg) @
     concat (map (msgid_refs msg) (FindAll reMsgID msg))"

definition ParseReferences :: "bytes \<Rightarrow> Reference list \<times> Index list" where
  "ParseReferences msg =
     (let xs = take 255 (drop_overlaps (by_start (found msg))) in (map fst xs, map snd xs))"

end
