(* ===== verification/PostRefsLaws.thy ===== *)
theory PostRefsLaws
  imports PostRefs "HOL-Library.Multiset"
begin

text \<open>
  What the references \<open>ParseReferences\<close> gives are like: where they are, that they are apart, of which
  characters they consist, and that none is missed.
\<close>

subsection \<open>Single expressions\<close>

lemma rm_chr: "(q, c) \<in> set (rm (chr x) s p) \<longleftrightarrow> p < length s \<and> s ! p = x \<and> q = p + 1 \<and> c = []"
  by (auto simp: chr_def)

lemma rm_opt: "(q, c) \<in> set (rm (opt r) s p) \<longleftrightarrow> (q, c) \<in> set (rm r s p) \<or> q = p \<and> c = []"
  by (auto simp: opt_def)

lemma rm_Boundary: "(q, c) \<in> set (rm Boundary s p) \<longleftrightarrow> boundary s p \<and> q = p \<and> c = []"
  by auto

declare rm.simps [simp del]

lemma rm_no_groups: "groups_of r = {} \<Longrightarrow> (q, c) \<in> set (rm r s p) \<Longrightarrow> p \<le> length s \<Longrightarrow> c = []"
proof (cases c)
  case (Cons x d)
  assume a: "groups_of r = {}" "(q, c) \<in> set (rm r s p)" "p \<le> length s"
  obtain k i j where "(k, i, j) \<in> set c" using Cons by (cases x) auto
  from rm_group [OF a(2,3) this] show ?thesis using a(1) by simp
qed simp

lemma upto_times_facts:
  "groups_of (upto_times n (Chars P)) = {}" "least (upto_times n (Chars P)) = 0"
  "most (upto_times n (Chars P)) = Some n" "consumes (upto_times n (Chars P)) c \<longrightarrow> P c"
  by (induction n) (auto simp: opt_def)

lemma times_facts:
  "groups_of (times m n (Chars P)) = {}" "least (times m n (Chars P)) = m"
  "m \<le> n \<Longrightarrow> most (times m n (Chars P)) = Some n" "consumes (times m n (Chars P)) c \<longrightarrow> P c"
proof -
  have "groups_of (((Seq (Chars P)) ^^ m) r) = groups_of r" "least (((Seq (Chars P)) ^^ m) r) = m + least r"
    "most r = Some k \<Longrightarrow> most (((Seq (Chars P)) ^^ m) r) = Some (m + k)"
    "consumes (((Seq (Chars P)) ^^ m) r) c \<longrightarrow> P c \<or> consumes r c" for r k c
    by (induction m) auto
  note f = this
  show "groups_of (times m n (Chars P)) = {}" "least (times m n (Chars P)) = m"
    "m \<le> n \<Longrightarrow> most (times m n (Chars P)) = Some n" "consumes (times m n (Chars P)) c \<longrightarrow> P c"
    unfolding times_def using f upto_times_facts by (simp_all, blast)
qed

definition run :: "(byte \<Rightarrow> bool) \<Rightarrow> nat \<Rightarrow> nat \<Rightarrow> bytes \<Rightarrow> bool" where
  "run P m n w \<longleftrightarrow> m \<le> length w \<and> length w \<le> n \<and> list_all P w"

lemma length_sub: "i \<le> j \<Longrightarrow> j \<le> length s \<Longrightarrow> length (sub s i j) = j - i"
  by (simp add: sub_def)

lemma sub_nth: "i \<le> j \<Longrightarrow> j \<le> length s \<Longrightarrow> k < j - i \<Longrightarrow> sub s i j ! k = s ! (i + k)"
  by (simp add: sub_def)

lemma sub_same [simp]: "sub s i i = []"
  by (simp add: sub_def)

lemma sub_snoc: "i \<le> j \<Longrightarrow> j < length s \<Longrightarrow> sub s i (Suc j) = sub s i j @ [s ! j]"
  by (simp add: sub_def Suc_diff_le take_Suc_conv_app_nth)

lemma sub_single: "p < length s \<Longrightarrow> sub s p (Suc p) = [s ! p]"
  by (simp add: sub_snoc)

lemma sub_append: "i \<le> j \<Longrightarrow> j \<le> k \<Longrightarrow> k \<le> length s \<Longrightarrow> sub s i j @ sub s j k = sub s i k"
proof (induction "k - j" arbitrary: k)
  case (Suc n)
  then obtain k' where k: "k = Suc k'" "n = k' - j" "j \<le> k'" by (cases k) auto
  then show ?case using Suc.hyps(1) [of k'] Suc.prems by (simp add: sub_snoc flip: append_assoc)
qed simp

lemma rm_times:
  assumes "(q, c) \<in> set (rm (times m n (Chars P)) s p)" "m \<le> n" "p \<le> length s"
  shows "c = [] \<and> p \<le> q \<and> q \<le> length s \<and> run P m n (sub s p q)"
proof -
  have q: "p + m \<le> q" "q \<le> length s" "q \<le> p + n"
    using rm_span [OF assms(1,3)] rm_most [OF assms(1)] times_facts(2,3) [of m n P] assms(2) by auto
  have "P (s ! i)" if "p \<le> i" "i < q" for i
    using rm_consumes [OF assms(1,3) that] times_facts(4) [of m n P "s ! i"] by simp
  then have "list_all P (sub s p q)"
    using q by (simp add: list_all_length length_sub sub_nth)
  then show ?thesis
    using q rm_no_groups [OF times_facts(1) assms(1,3)] by (auto simp: run_def length_sub)
qed

text \<open>The text a reference has in a message.\<close>

definition denotes :: "Reference \<Rightarrow> bytes \<Rightarrow> bool" where
  "denotes r t \<longleftrightarrow>
     (\<exists>sp p. t = bs ''>>'' @ sp @ p \<and> sp \<in> {[], [SP]} \<and> run hex_char 8 40 p \<and>
        r = \<lparr>Board = [], Post = ToLower p, MsgID = []\<rparr>) \<or>
     (\<exists>sp b p. t = bs ''>>>'' @ sp @ [47] @ b @ [47] @ p \<and> sp \<in> {[], [SP]} \<and> run board_char 1 255 b \<and>
        (p = [] \<and> r = \<lparr>Board = b, Post = [], MsgID = []\<rparr> \<or>
         (\<exists>sq h. p = sq @ h \<and> sq \<in> {[], [SP]} \<and> run hex_char 8 40 h \<and>
            r = \<lparr>Board = b, Post = ToLower h, MsgID = []\<rparr>))) \<or>
     (\<exists>m. t = [60] @ m @ [62] \<and> m \<noteq> [] \<and> length m \<le> 248 \<and> list_all (\<lambda>c. 33 \<le> c \<and> c \<le> 126 \<and> c \<noteq> 62) m \<and>
        r = \<lparr>Board = [], Post = [], MsgID = m\<rparr>)"

lemma reRef_match:
  assumes "(q, c) \<in> set (rm reRef s p)" "p \<le> length s"
  shows "\<exists>i. c = [(1, i, q)] \<and> sub s p i \<in> {bs ''>>'', bs ''>> ''} \<and> p \<le> i \<and> i \<le> q \<and> q \<le> length s \<and>
    run hex_char 8 40 (sub s i q) \<and> boundary s q"
proof -
  obtain i d e where m: "p < length s" "s ! p = 62" "p + 1 < length s" "s ! (p + 1) = 62"
    "(i, []) \<in> set (rm (opt (chr SP)) s (p + 2))"
    "(q, d) \<in> set (rm (times 8 40 (Chars hex_char)) s i)" "c = (1, i, q) # d" "boundary s q"
    using assms(1) unfolding reRef_def rm_Seq_iff rm_chr rm_Group_iff rm_Boundary rm_opt
    by (auto simp: rm_chr rm_opt)
  have i: "sub s p i \<in> {bs ''>>'', bs ''>> ''}" "p + 2 \<le> i" "i \<le> length s"
    using m(1-5) by (auto simp: rm_opt rm_chr sub_snoc eval_nat_numeral)
  show ?thesis using rm_times [OF m(6)] i m(7,8) by auto
qed

lemma cross_tail:
  assumes "(q, d) \<in> set (rm (opt (Seq (opt (chr SP)) (Seq (Group 2 (times 8 40 (Chars hex_char))) Boundary))) s p)" "p \<le> length s"
  shows "d = [] \<and> q = p \<or>
    (\<exists>i. d = [(2, i, q)] \<and> sub s p i \<in> {[], [SP]} \<and> p \<le> i \<and> i \<le> q \<and> q \<le> length s \<and> run hex_char 8 40 (sub s i q))"
proof -
  from assms(1) consider "d = [] \<and> q = p" |
    i d' where "(i, []) \<in> set (rm (opt (chr SP)) s p)" "(q, d') \<in> set (rm (times 8 40 (Chars hex_char)) s i)" "d = (2, i, q) # d'"
    by (auto simp: rm_opt rm_Seq_iff rm_Group_iff rm_Boundary rm_chr)
  then show ?thesis
  proof cases
    case 2
    have i: "sub s p i \<in> {[], [SP]} \<and> p \<le> i \<and> i \<le> length s" using 2(1) assms(2) by (auto simp: rm_opt rm_chr sub_snoc)
    then show ?thesis using rm_times [OF 2(2)] 2(3) by auto
  qed simp
qed

lemma reCRef_match:
  assumes "(q, c) \<in> set (rm reCRef s p)" "p \<le> length s"
  shows "\<exists>i j d. c = (1, i, j) # d \<and> sub s p i \<in> {bs ''>>>/'', bs ''>>> /''} \<and> p \<le> i \<and> i \<le> j \<and> j < q \<and> q \<le> length s \<and>
    run board_char 1 255 (sub s i j) \<and> s ! j = 47 \<and>
    (d = [] \<and> q = j + 1 \<or>
     (\<exists>h. d = [(2, h, q)] \<and> sub s (j + 1) h \<in> {[], [SP]} \<and> j + 1 \<le> h \<and> h \<le> q \<and> run hex_char 8 40 (sub s h q)))"
proof -
  let ?t = "opt (Seq (opt (chr SP)) (Seq (Group 2 (times 8 40 (Chars hex_char))) Boundary))"
  obtain i0 i j d e where m: "p < length s" "s ! p = 62" "p + 1 < length s" "s ! (p + 1) = 62"
    "p + 2 < length s" "s ! (p + 2) = 62" "(i0, []) \<in> set (rm (opt (chr SP)) s (p + 3))"
    "i0 < length s" "s ! i0 = 47" "i = i0 + 1"
    "(j, e) \<in> set (rm (times 1 255 (Chars board_char)) s i)" "j < length s" "s ! j = 47"
    "(q, d) \<in> set (rm ?t s (j + 1))" "c = (1, i, j) # e @ d"
    using assms(1) unfolding reCRef_def
    by (auto simp: rm_Seq_iff [of _ _ "chr _"] rm_Seq_iff [of _ _ "opt (chr _)"] rm_Seq_iff [of _ _ "Group _ _"]
        rm_chr rm_Group_iff numeral_3_eq_3 rm_opt [of _ _ "chr _"])
  have i: "sub s p i \<in> {bs ''>>>/'', bs ''>>> /''}" "p \<le> i" "i \<le> length s"
    using m(1-10) by (auto simp: rm_opt rm_chr sub_snoc eval_nat_numeral)
  have j: "e = []" "i \<le> j" "run board_char 1 255 (sub s i j)" using rm_times [OF m(11)] i(3) by auto
  show ?thesis using cross_tail [OF m(14)] m(12,13,15) i(1,2) j by fastforce
qed

lemma dot_atom_match:
  assumes "(q, c) \<in> set (rm reDAtom s p)" "p \<le> length s"
  shows "c = [] \<and> p < q \<and> q \<le> length s \<and> (\<forall>k. p \<le> k \<longrightarrow> k < q \<longrightarrow> atom_char (s ! k) \<or> s ! k = 46)"
proof -
  have g: "groups_of reDAtom = {}" "0 < least reDAtom" "\<And>x. consumes reDAtom x \<Longrightarrow> atom_char x \<or> x = 46"
    by (auto simp: reDAtom_def reAtom_def plus_def chr_def)
  show ?thesis
    using rm_no_groups [OF g(1) assms] rm_span [OF assms] g(2) rm_consumes [OF assms] g(3) by fastforce
qed

lemma atom_text: "atom_char x \<Longrightarrow> 33 \<le> x \<and> x \<le> 126 \<and> x \<noteq> 62"
  by (auto simp: atom_char_def alnum_char_def word_le_nat_alt)

lemma mdtext_text: "mdtext x \<Longrightarrow> 33 \<le> x \<and> x \<le> 126 \<and> x \<noteq> 62"
  by (auto simp: mdtext_def word_le_nat_alt)

lemma reMsgID_match:
  assumes "(q, c) \<in> set (rm reMsgID s p)" "p \<le> length s"
  shows "c = [] \<and> p + 3 < q \<and> q \<le> length s \<and> s ! p = 60 \<and> s ! (q - 1) = 62 \<and>
    list_all (\<lambda>x. 33 \<le> x \<and> x \<le> 126 \<and> x \<noteq> 62) (sub s (p + 1) (q - 1))"
proof -
  let ?d = "Alt reDAtom reNoFoldLit"
  have g: "groups_of reMsgID = {}" by (simp add: reMsgID_def reDAtom_def reAtom_def reNoFoldLit_def plus_def chr_def)
  obtain i j where m: "p < length s" "s ! p = 60" "(i, []) \<in> set (rm reDAtom s (p + 1))" "i < length s" "s ! i = 64"
    "(j, []) \<in> set (rm ?d s (i + 1))" "j < length s" "s ! j = 62" "q = j + 1"
    using assms(1) rm_no_groups [OF g assms] unfolding reMsgID_def rm_Seq_iff rm_chr by auto
  have l: "least ?d = 1" by (simp add: reDAtom_def reAtom_def reNoFoldLit_def plus_def chr_def)
  have a: "p + 1 < i" "\<And>k. p + 1 \<le> k \<Longrightarrow> k < i \<Longrightarrow> atom_char (s ! k) \<or> s ! k = 46"
    using dot_atom_match [OF m(3)] m(1) by auto
  have b: "consumes ?d (s ! k)" if "i + 1 \<le> k" "k < j" for k using rm_consumes [OF m(6) _ that] m(4) by simp
  have b': "i + 1 < j" using rm_span [OF m(6)] m(4) unfolding l by simp
  have t: "33 \<le> s ! k \<and> s ! k \<le> 126 \<and> s ! k \<noteq> 62" if "p + 1 \<le> k" "k < j" for k
  proof (cases k i rule: linorder_cases)
    case less
    then show ?thesis using a(2) [OF that(1)] atom_text [of "s ! k"] by (auto simp: word_le_nat_alt)
  next
    case equal
    then show ?thesis using m(5) by (simp add: word_le_nat_alt)
  next
    case greater
    then show ?thesis using b [of k] that(2) atom_text [of "s ! k"] mdtext_text [of "s ! k"]
      by (auto simp: reDAtom_def reAtom_def reNoFoldLit_def plus_def chr_def word_le_nat_alt)
  qed
  show ?thesis using rm_no_groups [OF g assms] m a(1) b' t by (auto simp: list_all_length length_sub sub_nth)
qed

subsection \<open>The references found\<close>

lemma least_refs: "0 < least reRef" "0 < least reCRef" "0 < least reMsgID"
  by (simp_all add: reRef_def reCRef_def reMsgID_def chr_def)

definition ok_ref :: "bytes \<Rightarrow> Reference \<times> Index \<Rightarrow> bool" where
  "ok_ref msg x \<longleftrightarrow> Start (snd x) < End (snd x) \<and> End (snd x) \<le> length msg \<and>
     denotes (fst x) (sub msg (Start (snd x)) (End (snd x)))"

lemma sub_split3: "i \<le> j \<Longrightarrow> j \<le> k \<Longrightarrow> k \<le> length s \<Longrightarrow> sub s i k = sub s i j @ sub s j k"
  by (simp add: sub_append)

lemma ok_post_ref:
  assumes "m \<in> set (FindAll reRef msg)"
  shows "ok_ref msg (post_ref msg m)"
proof -
  obtain p q c where m: "m = (p, q, c)" by (cases m)
  have f: "p \<le> length msg" "(q, c) \<in> set (rm reRef msg p)" using FindAll_matches [OF least_refs(1)] assms m by auto
  obtain i where i: "c = [(1, i, q)]" "sub msg p i \<in> {bs ''>>'', bs ''>> ''}" "p \<le> i" "i \<le> q" "q \<le> length msg"
    "run hex_char 8 40 (sub msg i q)" using reRef_match [OF f(2,1)] by blast
  have n: "i < q" using i(4,6) by (cases "i = q") (auto simp: run_def)
  have t: "sub msg p q = sub msg p i @ sub msg i q" using i(3-5) by (rule sub_split3)
  have "post_ref msg m = (\<lparr>Board = [], Post = ToLower (sub msg i q), MsgID = []\<rparr>, \<lparr>Start = p, End = q\<rparr>)"
    unfolding m i(1) by (simp add: post_ref_def group_text_def)
  moreover have "denotes \<lparr>Board = [], Post = ToLower (sub msg i q), MsgID = []\<rparr> (sub msg p q)"
  proof -
    obtain sp where "sub msg p i = bs ''>>'' @ sp" "sp \<in> {[], [SP]}" using i(2) by auto
    then show ?thesis
      unfolding denotes_def t using i(6) by (intro disjI1 exI [of _ sp] exI [of _ "sub msg i q"]) simp
  qed
  ultimately show ?thesis using n i(3,5) by (simp add: ok_ref_def)
qed

lemma ok_cross_ref:
  assumes "m \<in> set (FindAll reCRef msg)"
  shows "ok_ref msg (cross_ref msg m)"
proof -
  obtain p q c where m: "m = (p, q, c)" by (cases m)
  have f: "p \<le> length msg" "(q, c) \<in> set (rm reCRef msg p)" using FindAll_matches [OF least_refs(2)] assms m by auto
  obtain i j d where i: "c = (1, i, j) # d" "sub msg p i \<in> {bs ''>>>/'', bs ''>>> /''}" "p \<le> i" "i \<le> j" "j < q" "q \<le> length msg"
    "run board_char 1 255 (sub msg i j)" "msg ! j = 47"
    "d = [] \<and> q = j + 1 \<or>
     (\<exists>h. d = [(2, h, q)] \<and> sub msg (j + 1) h \<in> {[], [SP]} \<and> j + 1 \<le> h \<and> h \<le> q \<and> run hex_char 8 40 (sub msg h q))"
    using reCRef_match [OF f(2,1)] by blast
  have t: "sub msg p q = sub msg p i @ sub msg i j @ [47] @ sub msg (j + 1) q"
    using i(3-6,8) sub_split3 [of p i q msg] sub_split3 [of i j q msg] sub_split3 [of j "j + 1" q msg] sub_single [of j msg] by simp
  obtain sp where sp: "sub msg p i = bs ''>>>'' @ sp @ [47]" "sp \<in> {[], [SP]}" using i(2) by auto
  note dn = disjI2 [OF disjI1, OF exI [of _ sp, OF exI [of _ "sub msg i j", OF exI [of _ "sub msg (j + 1) q"]]]]
  from i(9) show ?thesis
  proof (elim disjE exE conjE)
    assume d: "d = []" "q = j + 1"
    have "cross_ref msg m = (\<lparr>Board = sub msg i j, Post = [], MsgID = []\<rparr>, \<lparr>Start = p, End = q\<rparr>)"
      unfolding m i(1) d(1) by (simp add: cross_ref_def group_text_def)
    moreover have "denotes \<lparr>Board = sub msg i j, Post = [], MsgID = []\<rparr> (sub msg p q)"
      unfolding denotes_def t sp(1) by (rule dn) (use sp(2) i(7) d in simp)
    ultimately show ?thesis using i(3-6) by (simp add: ok_ref_def)
  next
    fix h assume d: "d = [(2, h, q)]" "sub msg (j + 1) h \<in> {[], [SP]}" "j + 1 \<le> h" "h \<le> q" "run hex_char 8 40 (sub msg h q)"
    have t2: "sub msg (j + 1) q = sub msg (j + 1) h @ sub msg h q" using d(3,4) i(6) by (rule sub_split3)
    have "cross_ref msg m = (\<lparr>Board = sub msg i j, Post = ToLower (sub msg h q), MsgID = []\<rparr>, \<lparr>Start = p, End = q\<rparr>)"
      unfolding m i(1) d(1) by (simp add: cross_ref_def group_text_def)
    moreover have "\<exists>sq w. sub msg (j + 1) q = sq @ w \<and> sq \<in> {[], [SP]} \<and> run hex_char 8 40 w \<and>
        \<lparr>Board = sub msg i j, Post = ToLower (sub msg h q), MsgID = []\<rparr> = \<lparr>Board = sub msg i j, Post = ToLower w, MsgID = []\<rparr>"
      by (intro exI conjI, rule t2) (use d in auto)
    then have "denotes \<lparr>Board = sub msg i j, Post = ToLower (sub msg h q), MsgID = []\<rparr> (sub msg p q)"
      unfolding denotes_def t sp(1) by (intro dn conjI disjI2) (use sp(2) i(7) in simp_all)
    ultimately show ?thesis using i(3-6) by (simp add: ok_ref_def)
  qed
qed

lemma ok_msgid_ref:
  assumes "m \<in> set (FindAll reMsgID msg)" "x \<in> set (msgid_refs msg m)"
  shows "ok_ref msg x"
proof -
  obtain p q c where m: "m = (p, q, c)" by (cases m)
  have f: "p \<le> length msg" "(q, c) \<in> set (rm reMsgID msg p)" using FindAll_matches [OF least_refs(3)] assms(1) m by auto
  note r = reMsgID_match [OF f(2,1)]
  have l: "q - p \<le> 250" "x = (\<lparr>Board = [], Post = [], MsgID = sub msg (p + 1) (q - 1)\<rparr>, \<lparr>Start = p, End = q\<rparr>)"
    using assms(2) by (auto simp: msgid_refs_def m split: if_splits)
  have t: "sub msg p q = [60] @ sub msg (p + 1) (q - 1) @ [62]"
  proof -
    have "p < length msg" "q - 1 < length msg" "p + 1 \<le> q - 1" "Suc (q - 1) = q" using r by auto
    then show ?thesis
      using r sub_split3 [of p "p + 1" q msg] sub_split3 [of "p + 1" "q - 1" q msg] sub_single [of p msg] sub_single [of "q - 1" msg]
      by simp
  qed
  have n: "length (sub msg (p + 1) (q - 1)) = q - 1 - (p + 1)" using r by (intro length_sub) auto
  then have "sub msg (p + 1) (q - 1) \<noteq> []" "length (sub msg (p + 1) (q - 1)) \<le> 248" using r l(1) by auto
  then have "denotes (fst x) (sub msg p q)"
    unfolding denotes_def t l(2) using r by (intro disjI2 exI [of _ "sub msg (p + 1) (q - 1)"]) simp
  then show ?thesis using r l(2) by (simp add: ok_ref_def)
qed

lemma found_ok: "x \<in> set (found msg) \<Longrightarrow> ok_ref msg x"
proof -
  assume "x \<in> set (found msg)"
  then consider m where "m \<in> set (FindAll reRef msg)" "x = post_ref msg m"
    | m where "m \<in> set (FindAll reCRef msg)" "x = cross_ref msg m"
    | m where "m \<in> set (FindAll reMsgID msg)" "x \<in> set (msgid_refs msg m)"
    unfolding found_def by auto
  then show ?thesis using ok_post_ref ok_cross_ref ok_msgid_ref by cases auto
qed

subsection \<open>No two begin at the same place\<close>

lemma FindAll_apart: "0 < least r \<Longrightarrow> distinct (map fst (FindAll r s))"
proof -
  assume r: "0 < least r"
  have "sorted_wrt (\<lambda>m m'. fst m < fst m') (FindAll r s)"
  proof (rule sorted_wrt_mono_rel [OF _ find_all_apart [OF r, of s None 0, folded FindAll_def]])
    fix m m' assume m: "m \<in> set (FindAll r s)" "(\<lambda>(i, q, c) (i', q', c'). q \<le> i') m m'"
    obtain i q c where "m = (i, q, c)" by (cases m)
    then show "fst m < fst m'" using m FindAll_matches [OF r, of i q c s] rm_span [of q c r s i] r by auto
  qed
  then have "sorted_wrt (<) (map fst (FindAll r s))" by (simp add: sorted_wrt_map)
  then show ?thesis using strict_sorted_iff by blast
qed

lemma msgid_starts: "x \<in> set (concat (map (msgid_refs msg) ms)) \<Longrightarrow> Start (snd x) \<in> fst ` set ms"
  by (force simp: msgid_refs_def split: if_splits)

lemma msgid_distinct:
  "distinct (map fst ms) \<Longrightarrow> distinct (map (\<lambda>x. Start (snd x)) (concat (map (msgid_refs msg) ms)))"
proof (induction ms)
  case (Cons m ms)
  have "Start (snd x) \<noteq> fst m" if "x \<in> set (concat (map (msgid_refs msg) ms))" for x
    using msgid_starts [OF that] Cons.prems unfolding list.map distinct.simps list.set_map by metis
  then show ?case using Cons by (force simp: msgid_refs_def split: prod.splits)
qed simp

lemma starts:
  "map (\<lambda>x. Start (snd x)) (map (post_ref msg) ms) = map fst ms"
  "map (\<lambda>x. Start (snd x)) (map (cross_ref msg) ms) = map fst ms"
  by (simp_all add: post_ref_def cross_ref_def split: prod.split)

lemma sub_at: "sub s p i = w \<Longrightarrow> p \<le> i \<Longrightarrow> i \<le> length s \<Longrightarrow> k < length w \<Longrightarrow> s ! (p + k) = w ! k"
  by (metis length_sub sub_nth)

lemma reRef_start:
  assumes "(q, c) \<in> set (rm reRef s p)" "p \<le> length s"
  shows "s ! p = 62 \<and> s ! (p + 2) \<noteq> 62"
proof -
  obtain i where i: "sub s p i \<in> {[62, 62], [62, 62, 32]}" "p \<le> i" "i \<le> q" "q \<le> length s" "run hex_char 8 40 (sub s i q)"
    using reRef_match [OF assms] by auto
  have l: "length (sub s p i) = i - p" using i by (intro length_sub) auto
  have "0 < length (sub s i q)" using i(5) by (auto simp: run_def)
  then have h: "hex_char (sub s i q ! 0)" using i(5) unfolding run_def list_all_length by blast
  have n: "0 < q - i" using \<open>0 < length (sub s i q)\<close> i(3,4) by (simp add: length_sub)
  then have h0: "hex_char (s ! i)" using h sub_nth [OF i(3,4) n] by simp
  from i(1) consider "sub s p i = [62, 62]" | "sub s p i = [62, 62, 32]" by auto
  then show ?thesis
  proof cases
    case 1
    then have "i = p + 2" using l i(2) by simp
    then show ?thesis using h0 sub_at [OF 1 i(2), of 0] i(3,4) by (auto simp: hex_char_def word_le_nat_alt)
  next
    case 2
    show ?thesis using sub_at [OF 2 i(2), of 0] sub_at [OF 2 i(2), of 2] i(3,4) by auto
  qed
qed

lemma reCRef_start:
  assumes "(q, c) \<in> set (rm reCRef s p)" "p \<le> length s"
  shows "s ! p = 62 \<and> s ! (p + 2) = 62"
proof -
  obtain i where i: "sub s p i \<in> {[62, 62, 62, 47], [62, 62, 62, 32, 47]}" "p \<le> i" "i \<le> length s"
    using reCRef_match [OF assms] by fastforce
  then show ?thesis using sub_at [of s p i "sub s p i" 0] sub_at [of s p i "sub s p i" 2] by auto
qed

lemma found_starts: "distinct (map (\<lambda>x. Start (snd x)) (found msg))"
proof -
  let ?A = "FindAll reRef msg" and ?B = "FindAll reCRef msg" and ?C = "FindAll reMsgID msg"
  have A: "msg ! p = 62 \<and> msg ! (p + 2) \<noteq> 62" if "(p, m) \<in> set ?A" for p m
    using FindAll_matches [OF least_refs(1), of p "fst m" "snd m" msg] that reRef_start [of "fst m" "snd m" msg p] by simp
  have B: "msg ! p = 62 \<and> msg ! (p + 2) = 62" if "(p, m) \<in> set ?B" for p m
    using FindAll_matches [OF least_refs(2), of p "fst m" "snd m" msg] that reCRef_start [of "fst m" "snd m" msg p] by simp
  have C: "msg ! p = 60" if "(p, m) \<in> set ?C" for p m
    using FindAll_matches [OF least_refs(3), of p "fst m" "snd m" msg] that reMsgID_match [of "fst m" "snd m" msg p] by simp
  have S: "msg ! Start (snd x) = 60" if "x \<in> set (concat (map (msgid_refs msg) ?C))" for x
    using msgid_starts [OF that] C by auto
  have d: "fst ` set ?A \<inter> fst ` set ?B = {}" using A B by force
  have e: "fst ` set ?A \<inter> (\<lambda>x. Start (snd x)) ` set (concat (map (msgid_refs msg) ?C)) = {}"
    "fst ` set ?B \<inter> (\<lambda>x. Start (snd x)) ` set (concat (map (msgid_refs msg) ?C)) = {}"
    using A B S by force+
  show ?thesis
    unfolding found_def map_append distinct_append starts
    using FindAll_apart least_refs msgid_distinct d e by (simp add: Int_Un_distrib)
qed

subsection \<open>Overlaps and completeness\<close>

lemma by_start_set [simp]: "set (by_start xs) = set xs" and by_start_sorted:
  "sorted (map (\<lambda>x. Start (snd x)) (by_start xs))"
  by (auto simp: by_start_def case_prod_unfold)

text \<open>Sorting by another stable or unstable method gives the same list.\<close>

lemma any_sort:
  assumes "mset ys = mset (found msg)" "sorted (map (\<lambda>x. Start (snd x)) ys)"
  shows "by_start (found msg) = ys"
  unfolding by_start_def case_prod_unfold
  using assms found_starts by (intro sort_key_inj_key_eq) (simp_all add: distinct_map)

lemma drop_overlaps_Cons: "\<exists>ys. drop_overlaps (a # xs) = a # ys \<and> set ys \<subseteq> set xs"
proof (induction xs arbitrary: a)
  case (Cons b xs)
  show ?case using Cons [of a] Cons [of b] by (cases "End (snd a) > Start (snd b)") auto
qed simp

lemma drop_overlaps_subset: "set (drop_overlaps xs) \<subseteq> set xs"
  using drop_overlaps_Cons [of "hd xs" "tl xs"] by (cases xs) auto

lemma drop_overlaps_apart:
  "sorted (map (\<lambda>x. Start (snd x)) xs) \<Longrightarrow> \<forall>x\<in>set xs. Start (snd x) < End (snd x) \<Longrightarrow>
     sorted_wrt (\<lambda>x y. End (snd x) \<le> Start (snd y)) (drop_overlaps xs)"
proof (induction xs rule: drop_overlaps.induct)
  case (1 a b xs)
  show ?case
  proof (cases "End (snd a) > Start (snd b)")
    case True
    then show ?thesis using "1.IH"(1) "1.prems" by simp
  next
    case False
    have s: "sorted_wrt (\<lambda>x y. End (snd x) \<le> Start (snd y)) (drop_overlaps (b # xs))"
      using "1.IH"(2) [OF False] "1.prems" by simp
    have "End (snd a) \<le> Start (snd x)" if "x \<in> set (drop_overlaps (b # xs))" for x
      using drop_overlaps_subset [of "b # xs"] that False "1.prems"(1) by fastforce
    then show ?thesis using False s by simp
  qed
qed simp_all

text \<open>Whatever is dropped begins inside a reference that is kept.\<close>

lemma drop_overlaps_covers:
  "sorted (map (\<lambda>x. Start (snd x)) xs) \<Longrightarrow> \<forall>x\<in>set xs. Start (snd x) < End (snd x) \<Longrightarrow> x \<in> set xs \<Longrightarrow>
     \<exists>y\<in>set (drop_overlaps xs). Start (snd y) \<le> Start (snd x) \<and> Start (snd x) < End (snd y)"
proof (induction xs rule: drop_overlaps.induct)
  case (1 a b xs)
  show ?case
  proof (cases "End (snd a) > Start (snd b)")
    case True
    have "a \<in> set (drop_overlaps (a # xs))" using drop_overlaps_Cons [of a xs] by auto
    then show ?thesis using "1.IH"(1) [OF True] "1.prems" True by (cases "x = b") auto
  next
    case False
    then show ?thesis using "1.IH"(2) "1.prems" by (cases "x = a") auto
  qed
qed auto

lemma find_from_finds: "rm r s k \<noteq> [] \<Longrightarrow> p \<le> k \<Longrightarrow> k \<le> length s \<Longrightarrow> \<exists>i m. find_from r s p = Some (i, m) \<and> i \<le> k"
proof (induction "k - p" arbitrary: p)
  case 0
  then show ?case by (subst find_from.simps) (auto split: list.split)
next
  case (Suc n)
  show ?case
  proof (cases "rm r s p")
    case Nil
    then show ?thesis using Suc.hyps(1) [of "p + 1"] Suc.hyps(2) Suc.prems by (subst find_from.simps) auto
  next
    case (Cons m ms)
    then show ?thesis using Suc.prems by (subst find_from.simps) auto
  qed
qed

lemma find_all_complete:
  "0 < least r \<Longrightarrow> rm r s k \<noteq> [] \<Longrightarrow> p \<le> k \<Longrightarrow> k \<le> length s \<Longrightarrow> \<exists>(i, q, c)\<in>set (find_all r s e p). i \<le> k \<and> k < q"
proof (induction "Suc (length s) - p" arbitrary: e p rule: less_induct)
  case less
  obtain i m where "find_from r s p = Some (i, m)" "i \<le> k" using find_from_finds less.prems(2-4) by blast
  then obtain q c where f: "find_from r s p = Some (i, q, c)" "i \<le> k" by (cases m) auto
  from find_from_Some [OF f(1)] have m: "p \<le> i" "i \<le> length s" "(q, c) \<in> set (rm r s i)" by auto
  then have l: "i < q" "q \<le> length s" using rm_span [OF m(3,2)] less.prems(1) by auto
  note e = find_all_rec [OF less.prems(1), of s e p, unfolded f(1)]
  show ?case
  proof (cases "k < q")
    case False
    then have "\<exists>(i, q, c)\<in>set (find_all r s (Some q) q). i \<le> k \<and> k < q"
      using less.prems l m(1) by (intro less.hyps) auto
    then show ?thesis unfolding e by auto
  qed (use f(2) in \<open>simp add: e\<close>)
qed

end
