(* ===== verification/RefQuery.thy ===== *)
theory RefQuery
  imports PostRefsLaws NntpUtil
begin

text \<open>
  \<open>app/psqlib/internal/pirefs/references.go\<close>: the query that looks the references of a post up, built as
  text, and how its rows are read back: \<open>ProcessReferencesOnPost\<close> collects the Message-IDs a new post
  replies to, \<open>ProcessReferencesOnIncoming\<close> the references that can be shown as links.

  Board numbers are \<open>uint32\<close>, post numbers \<open>uint64\<close>. The database is a parameter: the answer to the text of
  a query is an error or a cursor, the list of the rows \<open>Next\<close> and \<open>Scan\<close> give, any of which may fail, and
  the error \<open>Err\<close> reports after them. A result \<open>None\<close> is a panic: of \<open>panic("wtf")\<close>, or of \<open>Next\<close> on the
  nil cursor. The texts are those of the source line by line, 39 is the quote and 37 the percent sign.
\<close>

definition sql_line :: "nat \<Rightarrow> string \<Rightarrow> bytes" where
  "sql_line k s = LF # replicate k TAB @ bs s"

definition sql_quote :: bytes where "sql_quote = [39]"

definition escapeSQLString :: "bytes \<Rightarrow> bytes" where
  "escapeSQLString s = concat (map (\<lambda>c. if c = 39 then [39, 39] else [c]) s)"

fun array_loop :: "bool \<Rightarrow> bytes list \<Rightarrow> bytes" where
  "array_loop first [] = []"
| "array_loop first (p # ps) =
     (if first then sql_quote else sql_quote @ bs '','' @ sql_quote) @ escapeSQLString p @ array_loop False ps"

definition buildMsgIDArray :: "bytes list \<Rightarrow> bytes" where
  "buildMsgIDArray prefs =
     bs ''ARRAY['' @ array_loop True prefs @ (if prefs \<noteq> [] then sql_quote else []) @ bs '']''"

definition selhead_a :: "nat \<Rightarrow> bytes" where
  "selhead_a i = bs ''SELECT'' @ sql_line 1 '''' @ dec i"

definition selhead_b :: bytes where
  "selhead_b = sql_line 0 ''FROM'' @ sql_line 1 ''ib0.bposts AS xbp'' @ sql_line 0 ''JOIN'' @ sql_line 1 ''ib0.threads xt'' @
     sql_line 0 ''ON'' @ sql_line 1 ''xbp.b_id = xt.b_id AND xbp.b_t_id = xt.b_t_id'' @
     sql_line 0 ''JOIN'' @ sql_line 1 ''ib0.boards xb'' @ sql_line 0 ''ON'' @ sql_line 1 ''xbp.b_id = xb.b_id'' @
     sql_line 0 ''JOIN'' @ sql_line 1 ''ib0.gposts AS xp'' @ sql_line 0 ''ON'' @ sql_line 1 ''xbp.g_p_id = xp.g_p_id''"

text \<open>\<open>'<' || xp.msgid || '>'\<close>, the Message-ID of a row.\<close>

definition full_msgid :: bytes where
  "full_msgid = sql_quote @ bs ''<'' @ sql_quote @ bs '' || xp.msgid || '' @ sql_quote @ bs ''>'' @ sql_quote"

definition selhead :: "nat \<Rightarrow> bytes" where
  "selhead i = selhead_a i @ bs '','' @ sql_line 1 '''' @ full_msgid @ selhead_b"

definition selhead2 :: "nat \<Rightarrow> bytes" where
  "selhead2 i = selhead_a i @ bs '','' @ sql_line 1 ''xb.b_id,'' @ sql_line 1 ''xb.b_name,'' @ sql_line 1 ''xt.b_t_id,'' @
     sql_line 1 ''xt.b_t_name,'' @ sql_line 1 ''xbp.p_name'' @ selhead_b"

definition like_post :: "bytes \<Rightarrow> bytes" where
  "like_post p = sql_line 0 ''WHERE'' @ sql_line 1 ''xbp.p_name LIKE '' @ sql_quote @ p @ [37] @ sql_quote"

definition is_board :: "bytes \<Rightarrow> bytes" where
  "is_board b = bs '' AND xb.b_name = '' @ sql_quote @ b @ sql_quote"

definition is_msgid :: "bytes \<Rightarrow> bytes" where
  "is_msgid m = sql_line 0 ''WHERE'' @ sql_line 1 ''xp.msgid = '' @ sql_quote @ escapeSQLString m @ sql_quote"

definition limit_one :: bytes where
  "limit_one = sql_line 0 ''LIMIT'' @ sql_line 1 ''1''"

definition this_board :: "u32 \<Rightarrow> bytes" where
  "this_board bid = sql_line 1 ''(xbp.b_id = '' @ dec (unat bid) @ bs '') DESC,''"

text \<open>
  The subselect of a reference, with its number: the result is \<open>None\<close> for \<open>panic("wtf")\<close>, \<open>Some None\<close>
  when the reference needs no look-up.
\<close>

definition post_sel :: "u32 \<Rightarrow> u64 \<Rightarrow> bool \<Rightarrow> nat \<Rightarrow> Reference \<Rightarrow> bytes option option" where
  "post_sel bid tid isctl i r =
     (if Post r \<noteq> [] then
        Some (Some (selhead (i + 1) @ like_post (Post r) @
          (if Board r = [] then
             sql_line 0 ''ORDER BY'' @
             sql_line 1 ''(xbp.b_id = '' @ dec (unat bid) @ bs '' AND xbp.b_t_id = '' @ dec (unat tid) @ bs '') DESC,'' @
             this_board bid @ sql_line 1 ''xbp.g_p_id DESC,'' @ sql_line 1 ''xb.b_name ASC'' @ limit_one
           else is_board (Board r) @ sql_line 0 ''ORDER BY'' @ sql_line 1 ''xbp.g_p_id DESC'' @ limit_one)))
      else if Board r \<noteq> [] then Some None
      else if MsgID r \<noteq> [] then
        Some (if isctl then None
          else Some (selhead (i + 1) @ is_msgid (MsgID r) @ sql_line 0 ''ORDER BY'' @ this_board bid @
            sql_line 1 ''xb.b_name ASC'' @ limit_one))
      else None)"

definition replied_first :: "bytes \<Rightarrow> bytes" where
  "replied_first qprefs = sql_line 0 ''ORDER BY'' @ sql_line 1 ''('' @ full_msgid @ bs '' = ANY('' @ qprefs @ bs ''::text[])) DESC,''"

definition incoming_sel :: "u32 \<Rightarrow> bytes \<Rightarrow> nat \<Rightarrow> Reference \<Rightarrow> bytes option option" where
  "incoming_sel bid qprefs i r =
     (if Post r \<noteq> [] then
        Some (Some (selhead2 (i + 1) @ like_post (Post r) @
          (if Board r = [] then
             replied_first qprefs @ this_board bid @ sql_line 1 ''xbp.g_p_id ASC,'' @ sql_line 1 ''xb.b_name ASC'' @ limit_one
           else is_board (Board r) @ replied_first qprefs @ sql_line 1 ''xbp.g_p_id ASC'' @ limit_one)))
      else if Board r \<noteq> [] then Some None
      else if MsgID r \<noteq> [] then
        Some (Some (selhead2 (i + 1) @ is_msgid (MsgID r) @ sql_line 0 ''ORDER BY'' @ this_board bid @
          sql_line 1 ''xb.b_name ASC'' @ limit_one))
      else None)"

text \<open>The string builder and \<open>first\<close>.\<close>

type_synonym builder = "bytes \<times> bool"

definition next_sel :: "builder \<Rightarrow> builder" where
  "next_sel bf = (case bf of (b, first) \<Rightarrow>
     if b = [] then (bs ''SELECT * FROM'' @ sql_line 0 ''('' @ [LF], first)
     else if first then (b @ sql_line 0 '') AS meow'' @ sql_line 0 ''UNION ALL'' @ sql_line 0 ''('' @ [LF], False)
     else (b @ sql_line 0 '')'' @ sql_line 0 ''UNION ALL'' @ sql_line 0 ''('' @ [LF], False))"

definition add_sel :: "builder \<Rightarrow> bytes \<Rightarrow> builder" where
  "add_sel bf q = (case next_sel bf of (b, first) \<Rightarrow> (b @ q, first))"

fun build_loop :: "(nat \<Rightarrow> Reference \<Rightarrow> bytes option option) \<Rightarrow> nat \<Rightarrow> Reference list \<Rightarrow> builder \<Rightarrow> builder option" where
  "build_loop sel i [] bf = Some bf"
| "build_loop sel i (r # rs) bf =
     (case sel i r of
        None \<Rightarrow> None
      | Some None \<Rightarrow> build_loop sel (i + 1) rs bf
      | Some (Some q) \<Rightarrow> build_loop sel (i + 1) rs (add_sel bf q))"

text \<open>The text of the query, \<open>Some None\<close> when there is nothing to look up.\<close>

definition build_query :: "(nat \<Rightarrow> Reference \<Rightarrow> bytes option option) \<Rightarrow> Reference list \<Rightarrow> bytes option option" where
  "build_query sel rs =
     (case build_loop sel 0 rs ([], True) of
        None \<Rightarrow> None
      | Some (b, first) \<Rightarrow>
          Some (if b = [] then None else Some (b @ (if first then sql_line 0 '') AS meow'' else sql_line 0 '')''))))"

subsection \<open>The rows\<close>

type_synonym 'a rows = "(nat + nat \<times> 'a) list \<times> nat option"
type_synonym 'a database = "bytes \<Rightarrow> nat + 'a rows"

text \<open>The cursor, \<open>None\<close> when it is nil, and the variables \<open>Scan\<close> fills.\<close>

record 'a cursor =
  rows :: "'a rows option"
  r_id :: nat
  r_row :: 'a

definition fetchrow :: "nat \<Rightarrow> 'a cursor \<Rightarrow> (nat option \<times> 'a cursor) option" where
  "fetchrow i c =
     (if r_id c \<le> i then
        (case rows c of
           None \<Rightarrow> None
         | Some ([], e) \<Rightarrow> Some (None, c)
         | Some (Inl x # rs, e) \<Rightarrow> Some (Some x, c\<lparr>rows := Some (rs, e)\<rparr>)
         | Some (Inr (n, v) # rs, e) \<Rightarrow> Some (None, c\<lparr>rows := Some (rs, e), r_id := n, r_row := v\<rparr>))
      else Some (None, c))"

definition open_rows :: "'a database \<Rightarrow> bytes option \<Rightarrow> nat + 'a rows option" where
  "open_rows query q =
     (case q of None \<Rightarrow> Inr None | Some t \<Rightarrow> (case query t of Inl e \<Rightarrow> Inl e | Inr rs \<Rightarrow> Inr (Some rs)))"

definition rows_err :: "'a cursor \<Rightarrow> nat option" where
  "rows_err c = (case rows c of None \<Rightarrow> None | Some (rs, e) \<Rightarrow> e)"

definition addirt :: "bytes \<Rightarrow> bytes list \<Rightarrow> bytes list" where
  "addirt x ms = (if x \<in> set ms then ms else ms @ [x])"

fun post_loop :: "nat \<Rightarrow> Reference list \<Rightarrow> bytes cursor \<Rightarrow> bytes list \<Rightarrow> (bytes list \<times> nat option) option" where
  "post_loop i [] c ms = Some (ms, rows_err c)"
| "post_loop i (r # rs) c ms =
     (if Post r \<noteq> [] \<or> Board r = [] \<and> MsgID r \<noteq> [] then
        (case fetchrow i c of
           None \<Rightarrow> None
         | Some (Some e, c') \<Rightarrow> Some (ms, Some e)
         | Some (None, c') \<Rightarrow> post_loop (i + 1) rs c' (if r_id c' = i + 1 then addirt (r_row c') ms else ms))
      else if Board r \<noteq> [] then post_loop (i + 1) rs c ms
      else None)"

definition ProcessReferencesOnPost ::
  "bytes database \<Rightarrow> Reference list \<Rightarrow> u32 \<Rightarrow> u64 \<Rightarrow> bool \<Rightarrow> (bytes list \<times> nat option) option" where
  "ProcessReferencesOnPost query srefs bid tid isctl =
     (case build_query (post_sel bid tid isctl) srefs of
        None \<Rightarrow> None
      | Some q \<Rightarrow>
          (case open_rows query q of
             Inl e \<Rightarrow> Some ([], Some e)
           | Inr rs \<Rightarrow> post_loop 0 srefs \<lparr>rows = rs, r_id = 0, r_row = []\<rparr> []))"

record link_row =
  r_bid :: u32
  r_bname :: bytes
  r_tid :: u64
  r_tname :: bytes
  r_pname :: bytes

record IBMessageReference =
  mStart :: nat
  mEnd :: nat
  mBoard :: bytes
  mThread :: bytes
  mPost :: bytes

text \<open>The link a row gives: the board and thread are left out where they are those of the post itself.\<close>

definition near_link :: "u32 \<Rightarrow> u64 \<Rightarrow> Index \<Rightarrow> link_row \<Rightarrow> IBMessageReference" where
  "near_link bid tid x v =
     \<lparr>mStart = Start x, mEnd = End x,
      mBoard = (if r_bid v \<noteq> bid then r_bname v else []),
      mThread = (if r_bid v \<noteq> bid \<or> r_tid v \<noteq> tid then r_tname v else []),
      mPost = r_pname v\<rparr>"

definition full_link :: "Index \<Rightarrow> link_row \<Rightarrow> IBMessageReference" where
  "full_link x v = \<lparr>mStart = Start x, mEnd = End x, mBoard = r_bname v, mThread = r_tname v, mPost = r_pname v\<rparr>"

definition board_link :: "Index \<Rightarrow> bytes \<Rightarrow> IBMessageReference" where
  "board_link x b = \<lparr>mStart = Start x, mEnd = End x, mBoard = b, mThread = [], mPost = []\<rparr>"

fun incoming_loop :: "u32 \<Rightarrow> u64 \<Rightarrow> nat \<Rightarrow> (Reference \<times> Index) list \<Rightarrow> link_row cursor \<Rightarrow> IBMessageReference list \<Rightarrow>
  (IBMessageReference list \<times> nat option) option" where
  "incoming_loop bid tid i [] c as = Some (as, rows_err c)"
| "incoming_loop bid tid i ((r, x) # rs) c as =
     (if Post r \<noteq> [] \<or> Board r = [] \<and> MsgID r \<noteq> [] then
        (case fetchrow i c of
           None \<Rightarrow> None
         | Some (Some e, c') \<Rightarrow> Some (as, Some e)
         | Some (None, c') \<Rightarrow>
             incoming_loop bid tid (i + 1) rs c'
               (if r_id c' = i + 1 then
                  as @ [if Post r \<noteq> [] \<and> Board r = [] then near_link bid tid x (r_row c') else full_link x (r_row c')]
                else as))
      else if Board r \<noteq> [] then incoming_loop bid tid (i + 1) rs c (as @ [board_link x (Board r)])
      else None)"

definition no_row :: link_row where
  "no_row = \<lparr>r_bid = 0, r_bname = [], r_tid = 0, r_tname = [], r_pname = []\<rparr>"

definition ProcessReferencesOnIncoming ::
  "link_row database \<Rightarrow> Reference list \<Rightarrow> Index list \<Rightarrow> bytes list \<Rightarrow> u32 \<Rightarrow> u64 \<Rightarrow>
     (IBMessageReference list \<times> nat option) option" where
  "ProcessReferencesOnIncoming query srefs irefs prefs bid tid =
     (if srefs = [] then Some ([], None)
      else case build_query (incoming_sel bid (buildMsgIDArray prefs)) srefs of
        None \<Rightarrow> None
      | Some q \<Rightarrow>
          (case open_rows query q of
             Inl e \<Rightarrow> Some ([], Some e)
           | Inr rs \<Rightarrow> incoming_loop bid tid 0 (zip srefs irefs) \<lparr>rows = rs, r_id = 0, r_row = no_row\<rparr> []))"

text \<open>The three columns of a declared reference, \<open>None\<close> for NULL.\<close>

definition xref_row :: "Reference \<Rightarrow> bytes option \<times> bytes option \<times> bytes option" where
  "xref_row r =
     (if Post r \<noteq> [] then (Some (Post r), if Board r \<noteq> [] then Some (Board r) else None, None)
      else if Board r \<noteq> [] then (None, Some (Board r), None)
      else if MsgID r \<noteq> [] then (None, None, Some (MsgID r))
      else (None, None, None))"

end
