(* ===== verification/RefQueryLaws.thy ===== *)
theory RefQueryLaws
  imports RefQuery
begin

text \<open>
  The query as PostgreSQL reads it: \<open>sql_lex\<close> splits its text into the characters of the statement and the
  values of the string literals, in which a doubled quote stands for one. Whatever the post says, the
  statement around the literals is the same, and the literals are the parts of the references.
\<close>

datatype tok = Code byte | Lit bytes | Unclosed bytes

fun sql_lex :: "bytes option \<Rightarrow> bytes \<Rightarrow> tok list" where
  "sql_lex None [] = []"
| "sql_lex None (c # s) = (if c = 39 then sql_lex (Some []) s else Code c # sql_lex None s)"
| "sql_lex (Some w) [] = [Unclosed w]"
| "sql_lex (Some w) (c # s) =
     (if c \<noteq> 39 then sql_lex (Some (w @ [c])) s
      else case s of d # t \<Rightarrow> if d = 39 then sql_lex (Some (w @ [39])) t else Lit w # sql_lex None s | [] \<Rightarrow> [Lit w])"

primrec code1 :: "tok \<Rightarrow> bytes" where
  "code1 (Code c) = [c]" | "code1 (Lit w) = []" | "code1 (Unclosed w) = []"

primrec lit1 :: "tok \<Rightarrow> bytes list" where
  "lit1 (Code c) = []" | "lit1 (Lit w) = [w]" | "lit1 (Unclosed w) = []"

primrec closed1 :: "tok \<Rightarrow> bool" where
  "closed1 (Code c) = True" | "closed1 (Lit w) = True" | "closed1 (Unclosed w) = False"

text \<open>The statement around the literals, the literals, and whether the last one is closed.\<close>

definition sql :: "bytes \<Rightarrow> bytes \<times> bytes list \<times> bool" where
  "sql q = (let ts = sql_lex None q in (concat (map code1 ts), concat (map lit1 ts), list_all closed1 ts))"

text \<open>A piece of query text with the given statement characters and literals.\<close>

definition frag :: "bytes \<Rightarrow> bytes \<Rightarrow> bytes list \<Rightarrow> bool" where
  "frag w cs ls \<longleftrightarrow> (\<forall>s cs' ls' b. (s = [] \<or> hd s \<noteq> 39) \<longrightarrow> sql s = (cs', ls', b) \<longrightarrow> sql (w @ s) = (cs @ cs', ls @ ls', b))"

lemma fragD: "frag w cs ls \<Longrightarrow> sql w = (cs, ls, True)"
proof -
  assume "frag w cs ls"
  then have "([] :: bytes) = [] \<or> hd [] \<noteq> (39 :: byte) \<Longrightarrow> sql [] = ([], [], True) \<Longrightarrow> sql (w @ []) = (cs @ [], ls @ [], True)"
    unfolding frag_def by blast
  then show ?thesis by (simp add: sql_def)
qed

lemma sql_code: "39 \<notin> set w \<Longrightarrow> sql s = (cs, ls, b) \<Longrightarrow> sql (w @ s) = (w @ cs, ls, b)"
  by (induction w) (auto simp: sql_def Let_def)

lemma frag_code: "39 \<notin> set w \<Longrightarrow> frag w w []"
  by (simp add: frag_def sql_code)

lemma frag_pre: "39 \<notin> set w \<Longrightarrow> frag v cs ls \<Longrightarrow> frag (w @ v) (w @ cs) ls"
  by (simp add: frag_def sql_code)

lemma frag_app: "frag w cs ls \<Longrightarrow> frag v cs' ls' \<Longrightarrow> v \<noteq> [] \<and> hd v \<noteq> 39 \<Longrightarrow> frag (w @ v) (cs @ cs') (ls @ ls')"
  unfolding frag_def by (metis append_assoc append_is_Nil_conv hd_append2)

lemma lex_escaped:
  "s = [] \<or> hd s \<noteq> 39 \<Longrightarrow> sql_lex (Some w) (escapeSQLString v @ 39 # s) = Lit (w @ v) # sql_lex None s"
  by (induction v arbitrary: w) (auto simp: escapeSQLString_def split: list.split)

lemma escape_none: "39 \<notin> set p \<Longrightarrow> escapeSQLString p = p"
  by (induction p) (auto simp: escapeSQLString_def)

lemma frag_escaped: "frag (sql_quote @ escapeSQLString v @ sql_quote) [] [v]"
  unfolding frag_def sql_def sql_quote_def using lex_escaped by (auto simp: Let_def)

lemma frag_lit: "39 \<notin> set p \<Longrightarrow> frag (sql_quote @ p @ sql_quote) [] [p]"
  using frag_escaped [of p] by (simp add: escape_none)

lemma line_hd: "sql_line k s \<noteq> [] \<and> hd (sql_line k s) \<noteq> 39" "sql_line k s @ w \<noteq> [] \<and> hd (sql_line k s @ w) \<noteq> 39"
  by (simp_all add: sql_line_def)

lemma line_code: "of_char CHR 0x27 \<notin> set (bs s) \<Longrightarrow> 39 \<notin> set (sql_line k s)"
  by (auto simp: sql_line_def)

lemma dec_code: "39 \<notin> set (dec n)"
  using dec_digits [of n] by (auto simp: list_all_iff is_digit_def word_le_nat_alt)

lemmas frag_rules = frag_app frag_pre frag_code

subsection \<open>The pieces of the subselects\<close>

lemma full_msgid_frag: "frag full_msgid (bs '' || xp.msgid || '') [bs ''<'', bs ''>'']"
proof -
  have a: "frag (sql_quote @ bs ''<'' @ sql_quote) [] [bs ''<'']" and b: "frag (sql_quote @ bs ''>'' @ sql_quote) [] [bs ''>'']"
    by (rule frag_lit, simp)+
  have "frag ((sql_quote @ bs ''<'' @ sql_quote) @ (bs '' || xp.msgid || '' @ (sql_quote @ bs ''>'' @ sql_quote)))
      ([] @ (bs '' || xp.msgid || '' @ [])) ([bs ''<''] @ [bs ''>''])"
    by (intro frag_app a frag_pre b) simp_all
  then show ?thesis by (simp add: full_msgid_def)
qed

lemma selhead_frag:
  "frag (selhead i) (selhead_a i @ bs '','' @ sql_line 1 '''' @ bs '' || xp.msgid || '' @ selhead_b) [bs ''<'', bs ''>'']"
  "frag (selhead2 i) (selhead2 i) []"
proof -
  have b: "frag selhead_b selhead_b []" "selhead_b \<noteq> [] \<and> hd selhead_b \<noteq> 39"
    by (rule frag_code, auto simp: selhead_b_def sql_line_def)+
  have a: "39 \<notin> set (selhead_a i)" using dec_code [of i] by (auto simp: selhead_a_def sql_line_def)
  have "frag (selhead_a i @ bs '','' @ sql_line 1 '''' @ (full_msgid @ selhead_b))
      (selhead_a i @ bs '','' @ sql_line 1 '''' @ (bs '' || xp.msgid || '' @ selhead_b)) ([bs ''<'', bs ''>''] @ [])"
    by (intro frag_pre frag_app full_msgid_frag b a) (auto simp: sql_line_def)
  then show "frag (selhead i) (selhead_a i @ bs '','' @ sql_line 1 '''' @ bs '' || xp.msgid || '' @ selhead_b) [bs ''<'', bs ''>'']"
    by (simp add: selhead_def)
  have "39 \<notin> set selhead_b" by (auto simp: selhead_b_def sql_line_def)
  then show "frag (selhead2 i) (selhead2 i) []" using a by (intro frag_code) (auto simp: selhead2_def sql_line_def)
qed

definition cond_of :: "Reference \<Rightarrow> bytes" where
  "cond_of r = (if Post r \<noteq> [] then like_post (Post r) @ (if Board r = [] then [] else is_board (Board r)) else is_msgid (MsgID r))"

definition cond_code :: "Reference \<Rightarrow> bytes" where
  "cond_code r =
     (if Post r \<noteq> [] then sql_line 0 ''WHERE'' @ sql_line 1 ''xbp.p_name LIKE '' @ (if Board r = [] then [] else bs '' AND xb.b_name = '')
      else sql_line 0 ''WHERE'' @ sql_line 1 ''xp.msgid = '')"

text \<open>The parts of a reference the query carries: a pattern, a board, a Message-ID.\<close>

definition ref_lits :: "Reference \<Rightarrow> bytes list" where
  "ref_lits r = (if Post r \<noteq> [] then (Post r @ [37]) # (if Board r = [] then [] else [Board r]) else [MsgID r])"

definition quote_free :: "Reference \<Rightarrow> bool" where
  "quote_free r \<longleftrightarrow> 39 \<notin> set (Post r) \<and> 39 \<notin> set (Board r)"

lemma cond_frag:
  assumes "quote_free r"
  shows "frag (cond_of r) (cond_code r) (ref_lits r)" "cond_of r \<noteq> [] \<and> hd (cond_of r) \<noteq> 39"
proof -
  have b: "frag (sql_quote @ Board r @ sql_quote) [] [Board r]" by (rule frag_lit) (use assms in \<open>simp add: quote_free_def\<close>)
  have p: "frag (sql_quote @ (Post r @ [37]) @ sql_quote) [] [Post r @ [37]]"
    by (rule frag_lit) (use assms in \<open>simp add: quote_free_def\<close>)
  have p2: "frag (sql_quote @ Post r @ [37] @ sql_quote) [] [Post r @ [37]]" using p by simp
  have p': "frag (like_post (Post r)) (sql_line 0 ''WHERE'' @ sql_line 1 ''xbp.p_name LIKE '' @ []) [Post r @ [37]]"
    unfolding like_post_def by (intro frag_pre p2) (auto simp: sql_line_def)
  have b': "frag (is_board (Board r)) (bs '' AND xb.b_name = '' @ []) [Board r]"
    unfolding is_board_def by (intro frag_pre b) auto
  have m: "frag (is_msgid (MsgID r)) (sql_line 0 ''WHERE'' @ sql_line 1 ''xp.msgid = '' @ []) [MsgID r]"
    unfolding is_msgid_def by (intro frag_pre frag_escaped) (auto simp: sql_line_def)
  have "is_board (Board r) \<noteq> [] \<and> hd (is_board (Board r)) \<noteq> 39" by (simp add: is_board_def)
  note pb = frag_app [OF p' b' this]
  show "frag (cond_of r) (cond_code r) (ref_lits r)"
    using p' pb m by (simp add: cond_of_def cond_code_def ref_lits_def)
  show "cond_of r \<noteq> [] \<and> hd (cond_of r) \<noteq> 39"
    by (simp add: cond_of_def like_post_def is_msgid_def sql_line_def)
qed

definition looked_up :: "bool \<Rightarrow> Reference \<Rightarrow> bool" where
  "looked_up isctl r \<longleftrightarrow> Post r \<noteq> [] \<or> Board r = [] \<and> \<not> isctl"

definition post_order :: "u32 \<Rightarrow> u64 \<Rightarrow> Reference \<Rightarrow> bytes" where
  "post_order bid tid r =
     (if Post r = [] then sql_line 0 ''ORDER BY'' @ this_board bid @ sql_line 1 ''xb.b_name ASC'' @ limit_one
      else if Board r = [] then
        sql_line 0 ''ORDER BY'' @
        sql_line 1 ''(xbp.b_id = '' @ dec (unat bid) @ bs '' AND xbp.b_t_id = '' @ dec (unat tid) @ bs '') DESC,'' @
        this_board bid @ sql_line 1 ''xbp.g_p_id DESC,'' @ sql_line 1 ''xb.b_name ASC'' @ limit_one
      else sql_line 0 ''ORDER BY'' @ sql_line 1 ''xbp.g_p_id DESC'' @ limit_one)"

definition some_ref :: "Reference \<Rightarrow> bool" where
  "some_ref r \<longleftrightarrow> Post r \<noteq> [] \<or> Board r \<noteq> [] \<or> MsgID r \<noteq> []"

lemma post_sel_parts:
  "some_ref r \<Longrightarrow> post_sel bid tid isctl i r =
     Some (if looked_up isctl r then Some (selhead (i + 1) @ cond_of r @ post_order bid tid r) else None)"
  by (auto simp: post_sel_def looked_up_def cond_of_def post_order_def some_ref_def)

lemma post_order_frag: "frag (post_order bid tid r) (post_order bid tid r) []"
  "post_order bid tid r \<noteq> [] \<and> hd (post_order bid tid r) \<noteq> 39"
proof -
  have "39 \<notin> set (dec (unat bid))" "39 \<notin> set (dec (unat tid))" by (rule dec_code)+
  then show "frag (post_order bid tid r) (post_order bid tid r) []"
    by (intro frag_code) (auto simp: post_order_def this_board_def limit_one_def sql_line_def)
qed (simp add: post_order_def sql_line_def)

subsection \<open>The query\<close>

text \<open>The same references with other contents.\<close>

definition blank :: "Reference \<Rightarrow> Reference" where
  "blank r = \<lparr>Board = (if Board r = [] then [] else bs ''b''), Post = (if Post r = [] then [] else bs ''0''),
     MsgID = (if MsgID r = [] then [] else bs ''m'')\<rparr>"

text \<open>What the two users of the query builder promise of their subselects.\<close>

locale selector =
  fixes sel :: "nat \<Rightarrow> Reference \<Rightarrow> bytes option option"
    and wanted :: "Reference \<Rightarrow> bool" and code_of :: "nat \<Rightarrow> Reference \<Rightarrow> bytes" and lits_of :: "Reference \<Rightarrow> bytes list"
  assumes sel_total: "some_ref r \<Longrightarrow> \<exists>q. sel i r = Some q \<and> (q = None \<longleftrightarrow> \<not> wanted r)"
    and sel_frag: "some_ref r \<Longrightarrow> quote_free r \<Longrightarrow> sel i r = Some (Some q) \<Longrightarrow>
      frag q (code_of i r) (lits_of r) \<and> q \<noteq> [] \<and> hd q \<noteq> 39"
    and blank_same: "wanted (blank r) = wanted r" "code_of i (blank r) = code_of i r"
begin

fun code_loop :: "nat \<Rightarrow> Reference list \<Rightarrow> builder \<Rightarrow> builder" where
  "code_loop i [] bf = bf"
| "code_loop i (r # rs) bf = code_loop (i + 1) rs (if wanted r then add_sel bf (code_of i r) else bf)"

lemma loop_total: "list_all some_ref rs \<Longrightarrow> build_loop sel i rs bf \<noteq> None"
proof (induction rs arbitrary: i bf)
  case (Cons r rs)
  obtain q where "sel i r = Some q" using sel_total [of r i] Cons.prems by auto
  then show ?case using Cons by (cases q) auto
qed simp

lemma next_sel_frag:
  assumes "next_sel (b, f) = (b', f')" "next_sel (c, f) = (c', g')" "b = [] \<longleftrightarrow> c = []" "frag b c ls"
  shows "frag b' c' (if b = [] then [] else ls) \<and> f' = g' \<and> b' \<noteq> [] \<and> c' \<noteq> []"
proof -
  have "frag w w []" "w \<noteq> [] \<Longrightarrow> frag (b @ w) (c @ w) ls" if "39 \<notin> set w" for w
    using frag_code [OF that] frag_app [OF assms(4), of w w "[]"] that by (cases w; force)+
  note f = this
  show ?thesis using assms(1-3) by (auto simp: next_sel_def sql_line_def intro!: f split: if_splits)
qed

lemma loop_frag:
  "list_all some_ref rs \<Longrightarrow> list_all quote_free rs \<Longrightarrow> build_loop sel i rs (b, f) = Some (b', f') \<Longrightarrow>
     (b = [] \<longleftrightarrow> c = []) \<Longrightarrow> frag b c ls \<Longrightarrow> (b = [] \<Longrightarrow> ls = []) \<Longrightarrow>
     \<exists>c'. code_loop i rs (c, f) = (c', f') \<and> (b' = [] \<longleftrightarrow> c' = []) \<and>
       frag b' c' (ls @ concat (map lits_of (filter wanted rs)))"
proof (induction rs arbitrary: i b f c ls)
  case (Cons r rs)
  obtain q where q: "sel i r = Some q" "q = None \<longleftrightarrow> \<not> wanted r" using sel_total [of r i] Cons.prems(1) by auto
  show ?case
  proof (cases q)
    case None
    then show ?thesis using Cons q by simp
  next
    case (Some t)
    have t: "frag t (code_of i r) (lits_of r)" "t \<noteq> []" "hd t \<noteq> 39" using sel_frag [of r i t] Cons.prems(1,2) q(1) Some by auto
    obtain n g where n: "next_sel (b, f) = (n, g)" by (cases "next_sel (b, f)")
    obtain m g' where m: "next_sel (c, f) = (m, g')" by (cases "next_sel (c, f)")
    note fr = next_sel_frag [OF n m Cons.prems(4,5)]
    have ls: "(if b = [] then [] else ls) = ls" using Cons.prems(6) by simp
    have "frag (n @ t) (m @ code_of i r) (ls @ lits_of r)" using fr t unfolding ls by (intro frag_app) auto
    then show ?thesis
      using Cons.IH [of "i + 1" "n @ t" g "m @ code_of i r" "ls @ lits_of r"] Cons.prems(1-3) fr t(2) q Some n m
      by (simp add: add_sel_def)
  qed
qed simp

lemma query_frag:
  assumes "list_all some_ref rs" "list_all quote_free rs" "build_query sel rs = Some (Some t)"
  shows "\<exists>c f. code_loop 0 rs ([], True) = (c, f) \<and>
    sql t = (c @ (if f then sql_line 0 '') AS meow'' else sql_line 0 '')''), concat (map lits_of (filter wanted rs)), True)"
proof -
  obtain b f where b: "build_loop sel 0 rs ([], True) = Some (b, f)" "b \<noteq> []"
    "t = b @ (if f then sql_line 0 '') AS meow'' else sql_line 0 '')'')"
    using assms(3) by (auto simp: build_query_def split: option.splits if_splits prod.splits)
  obtain c where c: "code_loop 0 rs ([], True) = (c, f)" "frag b c (concat (map lits_of (filter wanted rs)))"
    using loop_frag [OF assms(1,2) b(1), of "[]" "[]"] by (auto simp: frag_code)
  let ?e = "if f then sql_line 0 '') AS meow'' else sql_line 0 '')''"
  have "frag ?e ?e []" by (intro frag_code) (auto simp: sql_line_def)
  then have "frag t (c @ ?e) (concat (map lits_of (filter wanted rs)) @ [])"
    unfolding b(3) by (intro frag_app c(2)) (auto simp: sql_line_def)
  then show ?thesis using c(1) fragD by fastforce
qed

lemma code_loop_blank: "code_loop i (map blank rs) bf = code_loop i rs bf"
  by (induction rs arbitrary: i bf) (simp_all add: blank_same)

lemma some_blank: "some_ref (blank r) = some_ref r" "quote_free (blank r)"
  by (auto simp: blank_def some_ref_def quote_free_def)

lemma loop_nothing: "build_loop sel i rs bf = Some (b, f) \<Longrightarrow> list_all some_ref rs \<Longrightarrow> fst bf = [] \<Longrightarrow>
    b = [] \<longleftrightarrow> list_all (\<lambda>r. \<not> wanted r) rs"
proof (induction rs arbitrary: i bf)
  case (Cons r rs)
  obtain q where q: "sel i r = Some q" "q = None \<longleftrightarrow> \<not> wanted r" using sel_total [of r i] Cons.prems(2) by auto
  have ne: "build_loop sel i rs bf = Some (b, f) \<Longrightarrow> fst bf \<noteq> [] \<Longrightarrow> b \<noteq> []" for i rs bf
  proof (induction rs arbitrary: i bf)
    case (Cons r rs)
    then show ?case by (auto split: option.splits simp: add_sel_def next_sel_def split: prod.splits if_splits)
  qed simp
  show ?case
  proof (cases q)
    case (Some t)
    then have "fst (add_sel bf t) \<noteq> []" by (auto simp: add_sel_def next_sel_def split: prod.splits)
    then show ?thesis using ne Cons.prems(1) q Some by fastforce
  qed (use Cons q in simp)
qed auto

lemma query_total:
  assumes "list_all some_ref rs"
  shows "\<exists>q. build_query sel rs = Some q \<and> (q = None \<longleftrightarrow> list_all (\<lambda>r. \<not> wanted r) rs)"
proof -
  obtain b f where b: "build_loop sel 0 rs ([], True) = Some (b, f)" using loop_total [OF assms] by fastforce
  then show ?thesis using loop_nothing [OF b assms] by (simp add: build_query_def sql_line_def)
qed

text \<open>No reference changes the statement: it is that of references of the same kinds with other contents.\<close>

lemma query_shape:
  assumes "list_all some_ref rs" "list_all quote_free rs" "build_query sel rs = Some (Some t)"
  shows "\<exists>u. build_query sel (map blank rs) = Some (Some u) \<and>
    sql t = (fst (sql u), concat (map lits_of (filter wanted rs)), True)"
proof -
  have b: "list_all some_ref (map blank rs)" "list_all quote_free (map blank rs)"
    "list_all (\<lambda>r. \<not> wanted r) (map blank rs) = list_all (\<lambda>r. \<not> wanted r) rs"
    using assms(1) by (auto simp: list_all_iff some_blank blank_same)
  obtain u where u: "build_query sel (map blank rs) = Some (Some u)"
    using query_total [OF b(1)] query_total [OF assms(1)] assms(3) b(3) by auto
  show ?thesis using query_frag [OF assms] query_frag [OF b(1,2) u] u by (fastforce simp: code_loop_blank)
qed

end

subsection \<open>The two users\<close>

definition post_code :: "u32 \<Rightarrow> u64 \<Rightarrow> nat \<Rightarrow> Reference \<Rightarrow> bytes" where
  "post_code bid tid i r =
     (selhead_a (i + 1) @ bs '','' @ sql_line 1 '''' @ bs '' || xp.msgid || '' @ selhead_b) @ cond_code r @ post_order bid tid r"

interpretation on_post: selector "post_sel bid tid isctl" "looked_up isctl" "post_code bid tid"
  "\<lambda>r. [bs ''<'', bs ''>''] @ ref_lits r"
proof unfold_locales
  fix i r q
  assume r: "some_ref r" "quote_free r" "post_sel bid tid isctl i r = Some (Some q)"
  then have q: "q = selhead (i + 1) @ cond_of r @ post_order bid tid r" by (simp add: post_sel_parts split: if_splits)
  have "frag q (post_code bid tid i r) ([bs ''<'', bs ''>''] @ ref_lits r @ [])"
    unfolding q post_code_def
    by (intro frag_app selhead_frag cond_frag post_order_frag r(2)) (use cond_frag(2) [OF r(2)] in auto)
  then show "frag q (post_code bid tid i r) ([bs ''<'', bs ''>''] @ ref_lits r) \<and> q \<noteq> [] \<and> hd q \<noteq> 39"
    by (simp add: q selhead_def selhead_a_def)
qed (auto simp: post_sel_parts blank_def looked_up_def post_code_def cond_code_def post_order_def)

definition array_code :: "bytes list \<Rightarrow> bytes" where
  "array_code prefs = bs ''ARRAY['' @ replicate (length prefs - 1) 44 @ bs '']''"

lemma array_loop_rest:
  "array_loop False ps @ sql_quote = sql_quote @ concat (map (\<lambda>p. [44] @ sql_quote @ escapeSQLString p @ sql_quote) ps)"
  by (induction ps) simp_all

lemma array_rest_frag:
  "frag (concat (map (\<lambda>p. [44] @ sql_quote @ escapeSQLString p @ sql_quote) ps)) (replicate (length ps) 44) ps"
proof (induction ps)
  case Nil
  then show ?case using frag_code [of "[]"] by simp
next
  case (Cons p ps)
  have p: "frag ([44] @ sql_quote @ escapeSQLString p @ sql_quote) ([44] @ []) [p]" by (rule frag_pre [OF _ frag_escaped]) simp
  show ?case
  proof (cases ps)
    case Nil
    then show ?thesis using p by simp
  next
    case (Cons p' ps')
    then show ?thesis using frag_app [OF p Cons.IH] by simp
  qed
qed

lemma array_frag: "frag (buildMsgIDArray prefs @ w) (array_code prefs @ cs) (prefs @ ls)"
  if w: "frag w cs ls" for w
proof (cases prefs)
  case Nil
  have "frag (bs ''ARRAY[]'' @ w) (bs ''ARRAY[]'' @ cs) ls" by (rule frag_pre [OF _ w]) simp
  then show ?thesis by (simp add: Nil buildMsgIDArray_def array_code_def)
next
  case (Cons p ps)
  let ?r = "concat (map (\<lambda>p. [44] @ sql_quote @ escapeSQLString p @ sql_quote) ps)"
  have e: "frag (bs '']'' @ w) (bs '']'' @ cs) ls" by (rule frag_pre [OF _ w]) simp
  have "frag (?r @ bs '']'' @ w) (replicate (length ps) 44 @ bs '']'' @ cs) (ps @ ls)"
    by (rule frag_app [OF array_rest_frag e]) simp
  moreover have "?r @ bs '']'' @ w \<noteq> [] \<and> hd (?r @ bs '']'' @ w) \<noteq> 39" by (cases ps) auto
  ultimately have "frag ((sql_quote @ escapeSQLString p @ sql_quote) @ (?r @ bs '']'' @ w))
      ([] @ (replicate (length ps) 44 @ bs '']'' @ cs)) ([p] @ (ps @ ls))"
    by (rule frag_app [OF frag_escaped])
  then have "frag (bs ''ARRAY['' @ ((sql_quote @ escapeSQLString p @ sql_quote) @ (?r @ bs '']'' @ w)))
      (bs ''ARRAY['' @ ([] @ (replicate (length ps) 44 @ bs '']'' @ cs))) ([p] @ (ps @ ls))"
    by (intro frag_pre) auto
  moreover have "buildMsgIDArray prefs @ w = bs ''ARRAY['' @ sql_quote @ escapeSQLString p @ (array_loop False ps @ sql_quote) @ bs '']'' @ w"
    by (simp add: Cons buildMsgIDArray_def)
  ultimately show ?thesis unfolding array_loop_rest by (simp add: Cons array_code_def)
qed

definition incoming_order :: "u32 \<Rightarrow> bytes \<Rightarrow> Reference \<Rightarrow> bytes" where
  "incoming_order bid q r =
     (if Post r = [] then sql_line 0 ''ORDER BY'' @ this_board bid @ sql_line 1 ''xb.b_name ASC'' @ limit_one
      else replied_first q @
        (if Board r = [] then this_board bid @ sql_line 1 ''xbp.g_p_id ASC,'' @ sql_line 1 ''xb.b_name ASC'' @ limit_one
         else sql_line 1 ''xbp.g_p_id ASC'' @ limit_one))"

definition incoming_order_code :: "u32 \<Rightarrow> bytes list \<Rightarrow> Reference \<Rightarrow> bytes" where
  "incoming_order_code bid prefs r =
     (if Post r = [] then incoming_order bid [] r
      else sql_line 0 ''ORDER BY'' @ sql_line 1 ''('' @ bs '' || xp.msgid || '' @ bs '' = ANY('' @ array_code prefs @ bs ''::text[])) DESC,'' @
        (if Board r = [] then this_board bid @ sql_line 1 ''xbp.g_p_id ASC,'' @ sql_line 1 ''xb.b_name ASC'' @ limit_one
         else sql_line 1 ''xbp.g_p_id ASC'' @ limit_one))"

definition order_lits :: "bytes list \<Rightarrow> Reference \<Rightarrow> bytes list" where
  "order_lits prefs r = (if Post r = [] then [] else [bs ''<'', bs ''>''] @ prefs)"

lemma incoming_sel_parts:
  "some_ref r \<Longrightarrow> incoming_sel bid q i r =
     Some (if looked_up False r then Some (selhead2 (i + 1) @ cond_of r @ incoming_order bid q r) else None)"
  by (auto simp: incoming_sel_def looked_up_def cond_of_def incoming_order_def some_ref_def)

lemma incoming_order_frag:
  "frag (incoming_order bid (buildMsgIDArray prefs) r) (incoming_order_code bid prefs r) (order_lits prefs r)"
  "incoming_order bid q r \<noteq> [] \<and> hd (incoming_order bid q r) \<noteq> 39"
proof -
  let ?e = "if Board r = [] then this_board bid @ sql_line 1 ''xbp.g_p_id ASC,'' @ sql_line 1 ''xb.b_name ASC'' @ limit_one
         else sql_line 1 ''xbp.g_p_id ASC'' @ limit_one"
  let ?s = "bs ''::text[])) DESC,'' @ ?e"
  have d: "39 \<notin> set (dec (unat bid))" by (rule dec_code)
  have s: "frag ?s ?s []" by (rule frag_code) (use d in \<open>auto simp: this_board_def limit_one_def sql_line_def\<close>)
  have "frag (bs '' = ANY('' @ buildMsgIDArray prefs @ ?s) (bs '' = ANY('' @ array_code prefs @ ?s) (prefs @ [])"
    by (rule frag_pre [OF _ array_frag [OF s]]) simp
  then have "frag (full_msgid @ bs '' = ANY('' @ buildMsgIDArray prefs @ ?s)
      (bs '' || xp.msgid || '' @ bs '' = ANY('' @ array_code prefs @ ?s) ([bs ''<'', bs ''>''] @ (prefs @ []))"
    by (rule frag_app [OF full_msgid_frag]) simp
  then have "frag (sql_line 0 ''ORDER BY'' @ sql_line 1 ''('' @ (full_msgid @ bs '' = ANY('' @ buildMsgIDArray prefs @ ?s))
      (sql_line 0 ''ORDER BY'' @ sql_line 1 ''('' @ (bs '' || xp.msgid || '' @ bs '' = ANY('' @ array_code prefs @ ?s))
      ([bs ''<'', bs ''>''] @ (prefs @ []))"
    by (intro frag_pre) (auto simp: sql_line_def)
  moreover have "frag (incoming_order bid q r) (incoming_order bid q r) []" if "Post r = []" for q
    using that d by (intro frag_code) (auto simp: incoming_order_def this_board_def limit_one_def sql_line_def)
  ultimately show "frag (incoming_order bid (buildMsgIDArray prefs) r) (incoming_order_code bid prefs r) (order_lits prefs r)"
    by (cases "Post r = []") (simp_all add: incoming_order_def incoming_order_code_def order_lits_def replied_first_def)
qed (simp add: incoming_order_def replied_first_def sql_line_def)

definition incoming_code :: "u32 \<Rightarrow> bytes list \<Rightarrow> nat \<Rightarrow> Reference \<Rightarrow> bytes" where
  "incoming_code bid prefs i r = selhead2 (i + 1) @ cond_code r @ incoming_order_code bid prefs r"

interpretation on_incoming: selector "incoming_sel bid (buildMsgIDArray prefs)" "looked_up False" "incoming_code bid prefs"
  "\<lambda>r. ref_lits r @ order_lits prefs r"
proof unfold_locales
  fix i r q
  assume r: "some_ref r" "quote_free r" "incoming_sel bid (buildMsgIDArray prefs) i r = Some (Some q)"
  then have q: "q = selhead2 (i + 1) @ cond_of r @ incoming_order bid (buildMsgIDArray prefs) r"
    by (simp add: incoming_sel_parts split: if_splits)
  have "frag q (incoming_code bid prefs i r) ([] @ ref_lits r @ order_lits prefs r)"
    unfolding q incoming_code_def
    by (intro frag_app selhead_frag cond_frag incoming_order_frag r(2)) (use cond_frag(2) [OF r(2)] in auto)
  then show "frag q (incoming_code bid prefs i r) (ref_lits r @ order_lits prefs r) \<and> q \<noteq> [] \<and> hd q \<noteq> 39"
    by (simp add: q selhead2_def selhead_a_def)
qed (auto simp: incoming_sel_parts blank_def looked_up_def incoming_code_def cond_code_def incoming_order_code_def incoming_order_def)

subsection \<open>References of a post\<close>

lemma denotes_ref:
  assumes "denotes r t"
  shows "some_ref r" "quote_free r"
proof -
  have l: "39 \<notin> set (ToLower p)" if "run hex_char m n p" for p m n
    using that by (auto simp: ToLower_def to_lower_def run_def list_all_iff hex_char_def word_le_nat_alt)
  have b: "39 \<notin> set p" if "run board_char m n p" for p m n
    using that by (auto simp: run_def list_all_iff board_char_def alnum_char_def word_le_nat_alt dest!: bspec [of _ _ 39])
  have n: "ToLower p \<noteq> []" "p \<noteq> []" if "run P (Suc m) n p" for P m n p using that by (auto simp: run_def ToLower_def)
  show "some_ref r" "quote_free r"
    using assms l b n unfolding denotes_def by (force simp: some_ref_def quote_free_def numeral_eq_Suc)+
qed

lemma ParseReferences_good:
  "list_all some_ref (fst (ParseReferences msg))" "list_all quote_free (fst (ParseReferences msg))"
proof -
  have "denotes r t \<Longrightarrow> some_ref r \<and> quote_free r" for r t using denotes_ref by blast
  moreover have "\<exists>x. (r, x) \<in> set (found msg)" if "r \<in> set (fst (ParseReferences msg))" for r
    using that drop_overlaps_subset [of "by_start (found msg)"]
    by (auto simp: ParseReferences_def Let_def dest!: in_set_takeD)
  ultimately have "some_ref r \<and> quote_free r" if "r \<in> set (fst (ParseReferences msg))" for r
    using that found_ok unfolding ok_ref_def by fastforce
  then show "list_all some_ref (fst (ParseReferences msg))" "list_all quote_free (fst (ParseReferences msg))"
    by (auto simp: list_all_iff)
qed

subsection \<open>Reading the rows\<close>

text \<open>
  \<open>cursor_at i c hs\<close>: the references before number \<open>i\<close> are done and \<open>hs\<close> are the hits still to come, by
  ascending number; the first of them may already be in the variables.
\<close>

definition cursor_at :: "nat \<Rightarrow> 'a cursor \<Rightarrow> (nat \<times> 'a) list \<Rightarrow> bool" where
  "cursor_at i c hs \<longleftrightarrow> (\<forall>h\<in>set hs. i < fst h) \<and>
     (r_id c \<le> i \<and> rows c = Some (map Inr hs, None) \<or>
      (\<exists>v hs'. hs = (r_id c, v) # hs' \<and> r_row c = v \<and> rows c = Some (map Inr hs', None)))"

lemma fetchrow_hit:
  assumes "cursor_at i c ((i + 1, v) # hs)" "\<forall>h\<in>set hs. i + 1 < fst h"
  shows "\<exists>c'. fetchrow i c = Some (None, c') \<and> r_id c' = i + 1 \<and> r_row c' = v \<and> cursor_at (i + 1) c' hs"
  using assms by (auto simp: cursor_at_def fetchrow_def)

lemma fetchrow_miss:
  assumes "cursor_at i c hs" "\<forall>h\<in>set hs. i + 1 < fst h"
  shows "\<exists>c'. fetchrow i c = Some (None, c') \<and> r_id c' \<noteq> i + 1 \<and> cursor_at (i + 1) c' hs"
proof (cases "r_id c \<le> i")
  case True
  then have r: "rows c = Some (map Inr hs, None)" using assms by (fastforce simp: cursor_at_def)
  show ?thesis
  proof (cases hs)
    case Nil
    then show ?thesis using True r assms by (auto simp: cursor_at_def fetchrow_def)
  next
    case (Cons h hs')
    then show ?thesis using True r assms by (cases h) (auto simp: cursor_at_def fetchrow_def)
  qed
next
  case False
  then show ?thesis using assms by (fastforce simp: cursor_at_def fetchrow_def)
qed

lemma cursor_skip: "cursor_at i c hs \<Longrightarrow> \<forall>h\<in>set hs. i + 1 < fst h \<Longrightarrow> cursor_at (i + 1) c hs"
  by (auto simp: cursor_at_def)

text \<open>The rows the database has for the references from number \<open>i\<close> on: those with a match, in order.\<close>

fun hits :: "(Reference \<Rightarrow> bool) \<Rightarrow> (nat \<Rightarrow> 'a option) \<Rightarrow> nat \<Rightarrow> Reference list \<Rightarrow> (nat \<times> 'a) list" where
  "hits w m i [] = []"
| "hits w m i (r # rs) =
     (if w r then (case m (i + 1) of None \<Rightarrow> [] | Some v \<Rightarrow> [(i + 1, v)]) else []) @ hits w m (i + 1) rs"

lemma hits_after: "\<forall>h\<in>set (hits w m i rs). i < fst h"
proof (induction rs arbitrary: i)
  case (Cons r rs)
  have "\<forall>h\<in>set (hits w m (i + 1) rs). i < fst h" using Cons.IH [of "i + 1"] by auto
  then show ?case by (cases "w r"; cases "m (i + 1)") simp_all
qed simp

lemma hits_nothing: "list_all (\<lambda>r. \<not> w r) rs \<Longrightarrow> hits w m i rs = []"
  by (induction rs arbitrary: i) auto

text \<open>What the two loops are to compute.\<close>

fun replies :: "bool \<Rightarrow> (nat \<Rightarrow> bytes option) \<Rightarrow> nat \<Rightarrow> Reference list \<Rightarrow> bytes list \<Rightarrow> bytes list" where
  "replies isctl m i [] ms = ms"
| "replies isctl m i (r # rs) ms =
     replies isctl m (i + 1) rs (if looked_up isctl r then (case m (i + 1) of None \<Rightarrow> ms | Some v \<Rightarrow> addirt v ms) else ms)"

definition link_of :: "u32 \<Rightarrow> u64 \<Rightarrow> (nat \<Rightarrow> link_row option) \<Rightarrow> nat \<Rightarrow> Reference \<times> Index \<Rightarrow> IBMessageReference list" where
  "link_of bid tid m i rx = (case rx of (r, x) \<Rightarrow>
     if looked_up False r then
       (case m (i + 1) of None \<Rightarrow> []
        | Some v \<Rightarrow> [if Post r \<noteq> [] \<and> Board r = [] then near_link bid tid x v else full_link x v])
     else [board_link x (Board r)])"

fun links :: "u32 \<Rightarrow> u64 \<Rightarrow> (nat \<Rightarrow> link_row option) \<Rightarrow> nat \<Rightarrow> (Reference \<times> Index) list \<Rightarrow> IBMessageReference list" where
  "links bid tid m i [] = []"
| "links bid tid m i (rx # rs) = link_of bid tid m i rx @ links bid tid m (i + 1) rs"

lemma fetch_step:
  assumes "cursor_at i c (hits w m i (r # rs))" "w r"
  shows "\<exists>c'. fetchrow i c = Some (None, c') \<and> cursor_at (i + 1) c' (hits w m (i + 1) rs) \<and>
    (case m (i + 1) of None \<Rightarrow> r_id c' \<noteq> i + 1 | Some v \<Rightarrow> r_id c' = i + 1 \<and> r_row c' = v)"
  using assms fetchrow_miss [of i c "hits w m (i + 1) rs"] fetchrow_hit [of i c _ "hits w m (i + 1) rs"]
  by (cases "m (i + 1)") (use hits_after [of w m "i + 1" rs] in auto)

lemma cursor_end: "cursor_at i c [] \<Longrightarrow> rows_err c = None"
  by (auto simp: cursor_at_def rows_err_def)

lemma post_loop_Cons:
  "some_ref r \<Longrightarrow> post_loop i (r # rs) c ms =
     (if looked_up False r then
        (case fetchrow i c of
           None \<Rightarrow> None
         | Some (Some e, c') \<Rightarrow> Some (ms, Some e)
         | Some (None, c') \<Rightarrow> post_loop (i + 1) rs c' (if r_id c' = i + 1 then addirt (r_row c') ms else ms))
      else post_loop (i + 1) rs c ms)"
  by (auto simp: looked_up_def some_ref_def)

lemma incoming_loop_Cons:
  "some_ref r \<Longrightarrow> incoming_loop bid tid i ((r, x) # rs) c as =
     (if looked_up False r then
        (case fetchrow i c of
           None \<Rightarrow> None
         | Some (Some e, c') \<Rightarrow> Some (as, Some e)
         | Some (None, c') \<Rightarrow>
             incoming_loop bid tid (i + 1) rs c'
               (if r_id c' = i + 1 then
                  as @ [if Post r \<noteq> [] \<and> Board r = [] then near_link bid tid x (r_row c') else full_link x (r_row c')]
                else as))
      else incoming_loop bid tid (i + 1) rs c (as @ [board_link x (Board r)]))"
  by (auto simp: looked_up_def some_ref_def)

lemma skip_step:
  assumes "cursor_at i c (hits w m i (r # rs))" "\<not> w r"
  shows "cursor_at (i + 1) c (hits w m (i + 1) rs)"
  using assms cursor_skip [of i c "hits w m (i + 1) rs"] hits_after [of w m "i + 1" rs] by simp

lemma post_loop_replies:
  "list_all some_ref rs \<Longrightarrow> cursor_at i c (hits (looked_up isctl) m i rs) \<Longrightarrow>
     post_loop i rs c ms = Some (replies isctl m i rs ms, None)"
proof (induction rs arbitrary: i c ms)
  case (Cons r rs)
  let ?w = "looked_up isctl"
  have r: "some_ref r" "list_all some_ref rs" using Cons.prems(1) by simp_all
  consider (hit) "?w r" "looked_up False r" | (fetch) "\<not> ?w r" "looked_up False r" | (skip) "\<not> ?w r" "\<not> looked_up False r"
    by (auto simp: looked_up_def)
  then show ?case
  proof cases
    case hit
    obtain c' where "fetchrow i c = Some (None, c')" "cursor_at (i + 1) c' (hits ?w m (i + 1) rs)"
      "case m (i + 1) of None \<Rightarrow> r_id c' \<noteq> i + 1 | Some v \<Rightarrow> r_id c' = i + 1 \<and> r_row c' = v"
      using fetch_step [of i c ?w m r rs, OF Cons.prems(2) hit(1)] by blast
    then show ?thesis using Cons.IH [OF r(2), of "i + 1" c'] hit
      by (simp add: post_loop_Cons [OF r(1)] del: post_loop.simps split: option.splits)
  next
    case fetch
    then have "cursor_at i c (hits ?w m (i + 1) rs)" using Cons.prems(2) by simp
    then obtain c' where "fetchrow i c = Some (None, c')" "r_id c' \<noteq> i + 1" "cursor_at (i + 1) c' (hits ?w m (i + 1) rs)"
      using fetchrow_miss hits_after by blast
    then show ?thesis using Cons.IH [OF r(2), of "i + 1" c'] fetch
      by (simp add: post_loop_Cons [OF r(1)] del: post_loop.simps)
  next
    case skip
    show ?thesis using Cons.IH [OF r(2) skip_step [of i c ?w, OF Cons.prems(2) skip(1)]] skip
      by (simp add: post_loop_Cons [OF r(1)] del: post_loop.simps)
  qed
qed (simp add: cursor_end)

lemma incoming_loop_links:
  "list_all some_ref (map fst rs) \<Longrightarrow> cursor_at i c (hits (looked_up False) m i (map fst rs)) \<Longrightarrow>
     incoming_loop bid tid i rs c as = Some (as @ links bid tid m i rs, None)"
proof (induction rs arbitrary: i c as)
  case (Cons rx rs)
  obtain r x where rx: "rx = (r, x)" by (cases rx)
  have r: "some_ref r" "list_all some_ref (map fst rs)" "cursor_at i c (hits (looked_up False) m i (r # map fst rs))"
    using Cons.prems by (simp_all add: rx)
  show ?case
  proof (cases "looked_up False r")
    case True
    obtain c' where "fetchrow i c = Some (None, c')" "cursor_at (i + 1) c' (hits (looked_up False) m (i + 1) (map fst rs))"
      "case m (i + 1) of None \<Rightarrow> r_id c' \<noteq> i + 1 | Some v \<Rightarrow> r_id c' = i + 1 \<and> r_row c' = v"
      using fetch_step [of i c "looked_up False" m r "map fst rs", OF r(3) True] by blast
    then show ?thesis using Cons.IH [OF r(2), of "i + 1" c'] True unfolding rx incoming_loop_Cons [OF r(1)]
      by (simp add: link_of_def del: incoming_loop.simps split: option.splits)
  next
    case False
    show ?thesis using Cons.IH [OF r(2) skip_step [of i c "looked_up False", OF r(3) False]] False
      unfolding rx incoming_loop_Cons [OF r(1)] by (simp add: link_of_def del: incoming_loop.simps)
  qed
qed (simp add: cursor_end)

end
