(* ===== verification/RefRows.thy ===== *)
theory RefRows
  imports RefQueryLaws "HOL-Library.Sublist"
begin

text \<open>
  The rows of a references query in any order. The loops read at most one row for a reference and skip a row whose
  number is behind: the rows that take effect are an ascending subsequence of those returned, and they are
  all of them only if these ascend.
\<close>

lemma subseq_full_length: "subseq xs ys \<Longrightarrow> length ys \<le> length xs \<Longrightarrow> xs = ys"
  by (metis le_antisym list_emb_length subseq_same_length)

text \<open>The rows still to be used before reference \<open>i\<close>: the one in the variables, if it is ahead, and the unread ones.\<close>

definition pend :: "nat \<Rightarrow> 'a cursor \<Rightarrow> (nat \<times> 'a) list \<Rightarrow> (nat \<times> 'a) list" where
  "pend i c hs = (if i < r_id c then [(r_id c, r_row c)] else []) @ hs"

lemma fetch_pend:
  assumes "rows c = Some (map Inr hs, None)"
  obtains c' hs' where "fetchrow i c = Some (None, c')" "rows c' = Some (map Inr hs', None)"
    "if r_id c' = i + 1 then pend i c hs = (i + 1, r_row c') # pend (i + 1) c' hs'
     else subseq (pend (i + 1) c' hs') (pend i c hs)"
proof (cases "r_id c \<le> i")
  case False
  then show ?thesis using assms by (intro that [of c hs]) (auto simp: fetchrow_def pend_def)
next
  case True
  show ?thesis
  proof (cases hs)
    case Nil
    then show ?thesis using assms True by (intro that [of c hs]) (auto simp: fetchrow_def pend_def)
  next
    case (Cons h hs')
    obtain n v where h: "h = (n, v)" by (cases h)
    have s: "subseq hs' ((n, v) # hs')" by (simp add: list_emb_Cons)
    show ?thesis using assms True Cons h s
      by (intro that [of "c\<lparr>rows := Some (map Inr hs', None), r_id := n, r_row := v\<rparr>" hs']) (auto simp: fetchrow_def pend_def)
  qed
qed

lemma pend_Suc: "subseq (pend (i + 1) c hs) (pend i c hs)"
  by (auto simp: pend_def)

lemma replies_cong: "(\<And>n. i < n \<Longrightarrow> m n = m' n) \<Longrightarrow> replies b m i rs ms = replies b m' i rs ms"
  by (induction rs arbitrary: i ms) auto

lemma links_cong: "(\<And>n. i < n \<Longrightarrow> m n = m' n) \<Longrightarrow> links bid tid m i rs = links bid tid m' i rs"
proof (induction rs arbitrary: i)
  case (Cons rx rs)
  have "links bid tid m (i + 1) rs = links bid tid m' (i + 1) rs" using Cons by simp
  then show ?case using Cons.prems [of "i + 1"] by (simp add: link_of_def split: prod.split)
qed simp

text \<open>\<open>ks\<close> are rows of \<open>hs\<close>, in ascending order, for references after the first \<open>i\<close>.\<close>

definition taken :: "nat \<Rightarrow> (nat \<times> 'a) list \<Rightarrow> (nat \<times> 'a) list \<Rightarrow> bool" where
  "taken i hs ks \<longleftrightarrow> subseq ks hs \<and> sorted_wrt (<) (map fst ks) \<and> (\<forall>k\<in>set ks. i < fst k)"

lemma taken_skip:
  assumes "taken (i + 1) hs' ks" and "subseq hs' hs"
  shows "taken i hs ks" "map_of ks (i + 1) = None"
  using assms subseq_order.order_trans by (fastforce simp: taken_def map_of_eq_None_iff)+

lemma taken_hit:
  assumes "taken (i + 1) hs' ks" and "hs = (i + 1, v) # hs'"
  shows "taken i hs ((i + 1, v) # ks)"
  using assms by (auto simp: taken_def)

lemma post_loop_taken:
  assumes "list_all some_ref rs" and "rows c = Some (map Inr hs, None)"
    and "\<forall>p\<in>set (pend i c hs). i < fst p \<longrightarrow> p \<in> set (hits (looked_up isctl) m i rs)"
  shows "\<exists>ks. taken i (pend i c hs) ks \<and> post_loop i rs c ms = Some (replies isctl (map_of ks) i rs ms, None)"
  using assms
proof (induction rs arbitrary: i c hs ms)
  case Nil
  then show ?case by (auto simp: taken_def rows_err_def)
next
  case (Cons r rs)
  have r: "some_ref r" "list_all some_ref rs" using Cons.prems(1) by simp_all
  have later: "p \<in> set (hits (looked_up isctl) m (i + 1) rs)"
    if "p \<in> set (pend i c hs)" "i + 1 < fst p" for p
    using Cons.prems(3) that by (cases "looked_up isctl r"; cases "m (i + 1)") fastforce+
  show ?case
  proof (cases "looked_up False r")
    case True
    obtain c' hs' where f: "fetchrow i c = Some (None, c')" "rows c' = Some (map Inr hs', None)"
      "if r_id c' = i + 1 then pend i c hs = (i + 1, r_row c') # pend (i + 1) c' hs'
       else subseq (pend (i + 1) c' hs') (pend i c hs)"
      using fetch_pend [OF Cons.prems(2), of i] by metis
    have sub: "set (pend (i + 1) c' hs') \<subseteq> set (pend i c hs)"
      using f(3) by (cases "r_id c' = i + 1") (auto dest: list_emb_set)
    let ?ms = "if r_id c' = i + 1 then addirt (r_row c') ms else ms"
    obtain ks where ks: "taken (i + 1) (pend (i + 1) c' hs') ks"
      "post_loop (i + 1) rs c' ?ms = Some (replies isctl (map_of ks) (i + 1) rs ?ms, None)"
      using Cons.IH [OF r(2) f(2), of "i + 1" ?ms] later sub by blast
    show ?thesis
    proof (cases "r_id c' = i + 1")
      case False
      then show ?thesis using f ks taken_skip [OF ks(1)] True
        by (intro exI [of _ ks]) (simp add: post_loop_Cons [OF r(1)] del: post_loop.simps)
    next
      case hit: True
      then have p: "pend i c hs = (i + 1, r_row c') # pend (i + 1) c' hs'" using f(3) by simp
      have "(i + 1, r_row c') \<in> set (hits (looked_up isctl) m i (r # rs))"
        by (rule Cons.prems(3) [rule_format]) (simp_all add: p)
      moreover have "(i + 1, r_row c') \<notin> set (hits (looked_up isctl) m (i + 1) rs)"
        using hits_after [of "looked_up isctl" m "i + 1" rs] by (auto dest: bspec)
      ultimately have "looked_up isctl r" by (cases "looked_up isctl r") (simp_all del: split_paired_Ex)
      moreover have "replies isctl (map_of ((i + 1, r_row c') # ks)) (i + 1) rs ?ms = replies isctl (map_of ks) (i + 1) rs ?ms"
        by (rule replies_cong) auto
      ultimately have l: "replies isctl (map_of ((i + 1, r_row c') # ks)) i (r # rs) ms = replies isctl (map_of ks) (i + 1) rs ?ms"
        unfolding replies.simps by (simp add: hit del: map_of.simps) simp
      show ?thesis using f ks taken_hit [OF ks(1) p] True hit l
        by (intro exI [of _ "(i + 1, r_row c') # ks"]) (simp add: post_loop_Cons [OF r(1)] del: post_loop.simps replies.simps map_of.simps)
    qed
  next
    case False
    obtain ks where ks: "taken (i + 1) (pend (i + 1) c hs) ks"
      "post_loop (i + 1) rs c ms = Some (replies isctl (map_of ks) (i + 1) rs ms, None)"
      using Cons.IH [OF r(2) Cons.prems(2), of "i + 1" ms] later list_emb_set [OF pend_Suc [of i c hs]] by blast
    have "\<not> looked_up isctl r" using False by (auto simp: looked_up_def)
    then show ?thesis using ks taken_skip [OF ks(1) pend_Suc] False
      by (intro exI [of _ ks]) (simp add: post_loop_Cons [OF r(1)] del: post_loop.simps)
  qed
qed

lemma incoming_loop_taken:
  assumes "list_all some_ref (map fst rs)" and "rows c = Some (map Inr hs, None)"
  shows "\<exists>ks. taken i (pend i c hs) ks \<and> incoming_loop bid tid i rs c as = Some (as @ links bid tid (map_of ks) i rs, None)"
  using assms
proof (induction rs arbitrary: i c hs as)
  case Nil
  then show ?case by (auto simp: taken_def rows_err_def)
next
  case (Cons rx rs)
  obtain r x where rx: "rx = (r, x)" by (cases rx)
  have r: "some_ref r" "list_all some_ref (map fst rs)" using Cons.prems(1) by (simp_all add: rx)
  show ?case
  proof (cases "looked_up False r")
    case True
    obtain c' hs' where f: "fetchrow i c = Some (None, c')" "rows c' = Some (map Inr hs', None)"
      "if r_id c' = i + 1 then pend i c hs = (i + 1, r_row c') # pend (i + 1) c' hs'
       else subseq (pend (i + 1) c' hs') (pend i c hs)"
      using fetch_pend [OF Cons.prems(2), of i] by metis
    let ?l = "if Post r \<noteq> [] \<and> Board r = [] then near_link bid tid x (r_row c') else full_link x (r_row c')"
    let ?as = "if r_id c' = i + 1 then as @ [?l] else as"
    obtain ks where ks: "taken (i + 1) (pend (i + 1) c' hs') ks"
      "incoming_loop bid tid (i + 1) rs c' ?as = Some (?as @ links bid tid (map_of ks) (i + 1) rs, None)"
      using Cons.IH [OF r(2) f(2), of "i + 1" ?as] by blast
    show ?thesis
    proof (cases "r_id c' = i + 1")
      case False
      then show ?thesis using f ks taken_skip [OF ks(1)] True unfolding rx incoming_loop_Cons [OF r(1)]
        by (intro exI [of _ ks]) (simp add: link_of_def del: incoming_loop.simps)
    next
      case hit: True
      then have p: "pend i c hs = (i + 1, r_row c') # pend (i + 1) c' hs'" using f(3) by simp
      have "links bid tid (map_of ((i + 1, r_row c') # ks)) (i + 1) rs = links bid tid (map_of ks) (i + 1) rs"
        by (rule links_cong) auto
      then have l: "links bid tid (map_of ((i + 1, r_row c') # ks)) i ((r, x) # rs) = ?l # links bid tid (map_of ks) (i + 1) rs"
        using True unfolding links.simps link_of_def by (simp del: map_of.simps) simp
      then show ?thesis using f ks taken_hit [OF ks(1) p] True hit unfolding rx incoming_loop_Cons [OF r(1)]
        by (intro exI [of _ "(i + 1, r_row c') # ks"]) (simp add: l del: incoming_loop.simps links.simps map_of.simps)
    qed
  next
    case False
    let ?as = "as @ [board_link x (Board r)]"
    obtain ks where ks: "taken (i + 1) (pend (i + 1) c hs) ks"
      "incoming_loop bid tid (i + 1) rs c ?as = Some (?as @ links bid tid (map_of ks) (i + 1) rs, None)"
      using Cons.IH [OF r(2) Cons.prems(2), of "i + 1" ?as] by blast
    show ?thesis using ks taken_skip [OF ks(1) pend_Suc] False unfolding rx incoming_loop_Cons [OF r(1)]
      by (intro exI [of _ ks]) (simp add: link_of_def del: incoming_loop.simps)
  qed
qed

lemma hits_cases: "p \<in> set (hits w m i rs) \<Longrightarrow> m (fst p) = Some (snd p)"
proof (induction rs arbitrary: i)
  case (Cons r rs)
  then show ?case by (cases "w r"; cases "m (i + 1)") auto
qed simp

lemma hits_ascend: "sorted_wrt (<) (map fst (hits w m i rs))"
proof (induction rs arbitrary: i)
  case (Cons r rs)
  then show ?case using hits_after [of w m "i + 1" rs] by (cases "w r"; cases "m (i + 1)") auto
qed simp

lemma hits_distinct: "distinct (hits w m i rs)"
  using hits_ascend [of w m i rs] by (metis distinct_map strict_sorted_iff)

lemma links_length:
  "length (links bid tid m i rs) = length (hits (looked_up False) m i (map fst rs)) + length (filter (\<lambda>rx. \<not> looked_up False (fst rx)) rs)"
  by (induction rs arbitrary: i) (auto simp: link_of_def split: prod.split option.split)

text \<open>Rows in ascending order are the hits in order.\<close>

lemma ascending_hits:
  assumes "distinct hs" and "set hs = set (hits w m i rs)" and "sorted (map fst hs)"
  shows "hs = hits w m i rs"
proof (rule map_sorted_distinct_set_unique)
  have "inj_on fst (set (hits w m i rs))"
    using hits_ascend [of w m i rs] by (metis distinct_map strict_sorted_iff)
  then show "inj_on fst (set hs \<union> set (hits w m i rs))" "distinct (map fst hs)" "distinct (map fst (hits w m i rs))"
    using assms(1,2) hits_distinct [of w m i rs] by (simp_all add: distinct_map)
  show "sorted (map fst (hits w m i rs))" using hits_ascend [of w m i rs] by (metis strict_sorted_iff)
qed (use assms in simp_all)

text \<open>If all links come out, every row was taken, and the rows were in order.\<close>

lemma all_links_ascending:
  assumes "distinct hs" and "set hs = set (hits (looked_up False) m 0 (map fst rs))" and "taken 0 hs ks"
    and "links bid tid (map_of ks) 0 rs = links bid tid m 0 rs"
  shows "sorted (map fst hs)"
proof -
  let ?h = "\<lambda>m. hits (looked_up False) m 0 (map fst rs)"
  have "length (?h (map_of ks)) = length (?h m)"
    using links_length [of bid tid "map_of ks" 0 rs] links_length [of bid tid m 0 rs] assms(4) by simp
  moreover have "length (?h m) = length hs"
    using assms(1,2) hits_distinct by (metis distinct_card)
  moreover have "set (?h (map_of ks)) \<subseteq> set ks" using hits_cases by (fastforce dest: map_of_SomeD)
  then have "length (?h (map_of ks)) \<le> length ks"
    using hits_distinct by (metis card_length card_mono distinct_card finite_set le_trans)
  ultimately have "ks = hs" using assms(3) subseq_full_length [of ks hs] by (simp add: taken_def)
  then show ?thesis using assms(3) by (auto simp: taken_def strict_sorted_iff)
qed

lemma post_loop_nil_rows:
  assumes "list_all some_ref rs" and "rows c = None" and "r_id c = 0"
  shows "post_loop i rs c ms = (if list_ex (looked_up False) rs then None else Some (ms, None))"
  using assms(1)
proof (induction rs arbitrary: i ms)
  case Nil
  then show ?case using assms(2) by (simp add: rows_err_def)
next
  case (Cons r rs)
  then show ?case using assms(2,3) by (simp add: post_loop_Cons fetchrow_def del: post_loop.simps(2))
qed

lemma replies_nothing: "list_all (\<lambda>r. \<not> looked_up isctl r) rs \<Longrightarrow> replies isctl m i rs ms = ms"
  by (induction rs arbitrary: i) auto

end
