(* ===== verification/FmtMsg.thy ===== *)
theory FmtMsg
  imports RefQuery Streams
begin

text \<open>
  \<open>app/renderer/tmplrenderer/fmtmsg.go\<close>: the text of a post as HTML, with its references as links.

  The pieces of markup come from the configuration. A template is a parameter: what it writes for the
  reference it is given and the error it ends with; everything else the templates see is the same
  throughout a call. The state of \<open>formatmsg\<close> is its local variables, which its closures share; a writer
  may run out of room. The result is \<open>None\<close> where the source would panic with a slice out of range.
\<close>

record msgFmtCfg =
  PreMsg :: bytes
  PostMsg :: bytes
  PreFirstLine :: bytes
  PreNonFirstLine :: bytes
  PostFinalLine :: bytes
  PostNonFinalLine :: bytes
  FinalNewline :: bytes
  NonFinalNewline :: bytes
  PreQuote :: bytes
  PostQuote :: bytes
  PreRefTmpl :: "bytes \<times> bytes \<times> bytes \<Rightarrow> bytes \<times> io_err option"
  PostRefTmpl :: "bytes \<times> bytes \<times> bytes \<Rightarrow> bytes \<times> io_err option"
  TruncationLineTmpl :: "bytes \<times> io_err option"

record fmtvars =
  src :: nat
  last_src :: nat
  lines_so_far :: int
  greentext :: bool
  at_nl :: bool
  pendingnewline :: bool
  dst :: writer

datatype step = Failed io_err fmtvars | Truncated fmtvars | Continue fmtvars

definition wr :: "bytes \<Rightarrow> (fmtvars \<Rightarrow> step) \<Rightarrow> fmtvars \<Rightarrow> step" where
  "wr p k s =
     (case uwrite p (dst s) of (n, e, w) \<Rightarrow>
        (case e of None \<Rightarrow> k (s\<lparr>dst := w\<rparr>) | Some x \<Rightarrow> Failed x (s\<lparr>dst := w\<rparr>)))"

text \<open>\<open>Execute\<close>: the output first, then the error of the template itself.\<close>

definition run_tmpl :: "bytes \<times> io_err option \<Rightarrow> (fmtvars \<Rightarrow> step) \<Rightarrow> fmtvars \<Rightarrow> step" where
  "run_tmpl t k = wr (fst t) (\<lambda>s. case snd t of None \<Rightarrow> k s | Some x \<Rightarrow> Failed x s)"

fun and_then :: "step \<Rightarrow> (fmtvars \<Rightarrow> step) \<Rightarrow> step" where
  "and_then (Continue s) k = k s"
| "and_then (Failed e s) k = Failed e s"
| "and_then (Truncated s) k = Truncated s"

definition flushnewline :: "msgFmtCfg \<Rightarrow> bool \<Rightarrow> fmtvars \<Rightarrow> step" where
  "flushnewline m final s =
     (if pendingnewline s then
        (if \<not> final then wr (PostNonFinalLine m) (wr (NonFinalNewline m) (\<lambda>s. Continue (s\<lparr>pendingnewline := False\<rparr>))) s
         else wr (PostFinalLine m) (wr (FinalNewline m) (\<lambda>s. Continue (s\<lparr>pendingnewline := False\<rparr>))) s)
      else Continue s)"

text \<open>The lines the rest of the current line takes, rune by rune.\<close>

lemma width_Cons: "Suc (length t) - rune_width (c # t) \<le> length t"
  using rune_width_pos [of "c # t"] by linarith

function count_line :: "int \<Rightarrow> bytes \<Rightarrow> int \<Rightarrow> int \<Rightarrow> int \<times> int" where
  "count_line cpl [] n c = (n, c)"
| "count_line cpl (ch # t) n c =
     (if ch = LF then (n + 1, 0)
      else if cpl \<noteq> 0 \<and> cpl \<le> c then count_line cpl (drop (rune_width (ch # t)) (ch # t)) (n + 1) 1
      else count_line cpl (drop (rune_width (ch # t)) (ch # t)) n (c + 1))"
  by pat_completeness auto
termination
  by (relation "measure (\<lambda>(cpl, t, n, c). length t)") (simp_all add: width_Cons less_Suc_eq_le)

declare count_line.simps [simp del]

definition add_lines :: "int \<Rightarrow> bytes \<Rightarrow> int \<Rightarrow> int" where
  "add_lines cpl t n = (case count_line cpl t n 0 of (n', c) \<Rightarrow> if c \<noteq> 0 then n' + 1 else n')"

definition preline :: "msgFmtCfg \<Rightarrow> int \<Rightarrow> int \<Rightarrow> bytes \<Rightarrow> fmtvars \<Rightarrow> step" where
  "preline m linelimit cpl b s =
     (if \<not> at_nl s then Continue s
      else
        let s1 = (if linelimit \<noteq> 0 then s\<lparr>lines_so_far := add_lines cpl (drop (src s) b) (lines_so_far s)\<rparr> else s)
        in if linelimit \<noteq> 0 \<and> linelimit < lines_so_far s1 then run_tmpl (TruncationLineTmpl m) Truncated s1
           else and_then (flushnewline m False s1)
             (\<lambda>s. wr (if src s \<noteq> 0 then PreFirstLine m else PreNonFirstLine m) (\<lambda>s. Continue (s\<lparr>at_nl := False\<rparr>)) s))"

definition htmlGt :: bytes where "htmlGt = bs ''&gt;''"

text \<open>The replacement of a character; none for a carriage return, which is skipped.\<close>

definition esc_of :: "byte \<Rightarrow> bytes option" where
  "esc_of c =
     (if c = 34 then Some (bs ''&#34;'') else if c = 39 then Some (bs ''&#39;'')
      else if c = 38 then Some (bs ''&amp;'') else if c = 60 then Some (bs ''&lt;'')
      else if c = 62 then Some htmlGt else if c = 0 then Some [0xEF, 0xBF, 0xBD]
      else if c = CR then Some [] else None)"

definition pending_text :: "bytes \<Rightarrow> fmtvars \<Rightarrow> bytes" where
  "pending_text b s = sub b (last_src s) (src s)"

definition advance :: "fmtvars \<Rightarrow> fmtvars" where
  "advance s = s\<lparr>src := src s + 1, last_src := src s + 1\<rparr>"

text \<open>One character, after \<open>preline\<close>.\<close>

definition put_char :: "msgFmtCfg \<Rightarrow> bytes \<Rightarrow> bool \<Rightarrow> fmtvars \<Rightarrow> step" where
  "put_char m b firstch s =
     (let c = b ! src s in
      if c = 62 \<and> firstch then
        wr (pending_text b (s\<lparr>greentext := True\<rparr>)) (\<lambda>s. wr (PreQuote m) (wr htmlGt Continue) (advance s))
          (s\<lparr>greentext := True\<rparr>)
      else if c = LF then
        wr (pending_text b s) (\<lambda>s.
          and_then (if greentext s then wr (PostQuote m) (\<lambda>s. Continue (s\<lparr>greentext := False\<rparr>)) (advance s)
                    else Continue (advance s))
            (\<lambda>s. Continue (s\<lparr>at_nl := True, pendingnewline := True\<rparr>))) s
      else case esc_of c of
        Some esc \<Rightarrow> wr (pending_text b s) (wr esc (\<lambda>s. Continue (advance s))) s
      | None \<Rightarrow> Continue (s\<lparr>src := src s + 1\<rparr>))"

fun char_loop :: "nat \<Rightarrow> msgFmtCfg \<Rightarrow> int \<Rightarrow> int \<Rightarrow> bytes \<Rightarrow> fmtvars \<Rightarrow> step" where
  "char_loop 0 m linelimit cpl b s = Continue s"
| "char_loop (Suc k) m linelimit cpl b s =
     and_then (preline m linelimit cpl b s) (\<lambda>s'.
       and_then (put_char m b (at_nl s) s') (char_loop k m linelimit cpl b))"

text \<open>The loop moves by one character each time, so it runs \<open>end - src\<close> times.\<close>

definition normalfmt :: "msgFmtCfg \<Rightarrow> int \<Rightarrow> int \<Rightarrow> bytes \<Rightarrow> nat \<Rightarrow> fmtvars \<Rightarrow> step" where
  "normalfmt m linelimit cpl b e s =
     and_then (char_loop (e - src s) m linelimit cpl b s)
       (\<lambda>s. wr (pending_text b s) (\<lambda>s. Continue (s\<lparr>last_src := src s\<rparr>)) s)"

text \<open>\<open>HTMLEscape\<close> of the \<open>text/template\<close> package; it drops the errors of the writer.\<close>

definition html_escape1 :: "byte \<Rightarrow> bytes" where
  "html_escape1 c =
     (if c = 34 then bs ''&#34;'' else if c = 39 then bs ''&#39;'' else if c = 38 then bs ''&amp;''
      else if c = 60 then bs ''&lt;'' else if c = 62 then bs ''&gt;'' else if c = 0 then [0xEF, 0xBF, 0xBD] else [c])"

definition HTMLEscape :: "bytes \<Rightarrow> bytes" where
  "HTMLEscape t = concat (map html_escape1 t)"

definition the_ref :: "IBMessageReference \<Rightarrow> bytes \<times> bytes \<times> bytes" where
  "the_ref r = (mBoard r, mThread r, mPost r)"

definition put_ref :: "msgFmtCfg \<Rightarrow> bytes \<Rightarrow> IBMessageReference \<Rightarrow> fmtvars \<Rightarrow> step option" where
  "put_ref m b r s =
     (case run_tmpl (PreRefTmpl m (the_ref r)) Continue s of
        Continue s \<Rightarrow>
          if mEnd r < src s then None
          else
            Some (let w = (case uwrite (HTMLEscape (sub b (src s) (mEnd r))) (dst s) of (n, e, w) \<Rightarrow> w)
              in run_tmpl (PostRefTmpl m (the_ref r)) Continue (s\<lparr>dst := w, src := mEnd r, last_src := mEnd r\<rparr>))
      | x \<Rightarrow> Some x)"

fun ref_loop :: "msgFmtCfg \<Rightarrow> int \<Rightarrow> int \<Rightarrow> bytes \<Rightarrow> IBMessageReference list \<Rightarrow> fmtvars \<Rightarrow> step option" where
  "ref_loop m linelimit cpl b [] s = Some (Continue s)"
| "ref_loop m linelimit cpl b (r # rs) s =
     (if mStart r > mEnd r \<or> mEnd r > length b then Some (Continue s)
      else case and_then (normalfmt m linelimit cpl b (mStart r) s) (preline m linelimit cpl b) of
        Continue s \<Rightarrow>
          (case put_ref m b r s of
             Some (Continue s) \<Rightarrow> ref_loop m linelimit cpl b rs s
           | x \<Rightarrow> x)
      | x \<Rightarrow> Some x)"

definition finish_msg :: "msgFmtCfg \<Rightarrow> fmtvars \<Rightarrow> step" where
  "finish_msg m s =
     and_then (flushnewline m True s) (\<lambda>s.
       if at_nl s then Continue s
       else and_then (if greentext s then wr (PostQuote m) Continue s else Continue s) (wr (PostFinalLine m) Continue))"

definition start_vars :: "writer \<Rightarrow> fmtvars" where
  "start_vars w = \<lparr>src = 0, last_src = 0, lines_so_far = 0, greentext = False, at_nl = True, pendingnewline = False, dst = w\<rparr>"

text \<open>\<open>goto endmsg\<close> is reached with a truncated message or a complete one.\<close>

definition endmsg :: "msgFmtCfg \<Rightarrow> fmtvars \<Rightarrow> io_err option \<times> writer" where
  "endmsg m s = (case uwrite (PostMsg m) (dst s) of (n, e, w) \<Rightarrow> (e, w))"

definition formatmsg ::
  "msgFmtCfg \<Rightarrow> int \<Rightarrow> int \<Rightarrow> bytes \<Rightarrow> IBMessageReference list \<Rightarrow> writer \<Rightarrow> (io_err option \<times> writer) option" where
  "formatmsg m linelimit cpl b refs w =
     (let body = (case wr (PreMsg m) Continue (start_vars w) of
          Continue s \<Rightarrow> ref_loop m linelimit cpl b refs s
        | x \<Rightarrow> Some x) in
      case body of
        None \<Rightarrow> None
      | Some st \<Rightarrow>
          Some (case and_then (and_then st (normalfmt m linelimit cpl b (length b))) (finish_msg m) of
            Continue s \<Rightarrow> endmsg m s
          | Truncated s \<Rightarrow> endmsg m s
          | Failed e s \<Rightarrow> (Some e, dst s)))"

definition fmtmsg :: "msgFmtCfg \<Rightarrow> int \<Rightarrow> int \<Rightarrow> bytes \<Rightarrow> IBMessageReference list \<Rightarrow> (bytes \<times> io_err option) option" where
  "fmtmsg m linelimit cpl b refs =
     (case formatmsg m linelimit cpl b refs \<lparr>wout = [], wroom = None\<rparr> of
        None \<Rightarrow> None
      | Some (e, w) \<Rightarrow> Some (wout w, e))"

definition fmtmsgcat :: "bytes \<Rightarrow> bytes" where
  "fmtmsgcat b = HTMLEscape b"

end
