(* ===== verification/FmtMsgLaws.thy ===== *)
theory FmtMsgLaws
  imports FmtMsg
begin

text \<open>
  The output of \<open>formatmsg\<close> as a sequence of pieces: markup of the configuration and the templates, the
  marks around a quote, and escaped text of the message.
\<close>

datatype piece = Text bytes | Mark bytes | OpenQuote | CloseQuote

primrec piece_bytes :: "msgFmtCfg \<Rightarrow> piece \<Rightarrow> bytes" where
  "piece_bytes m (Text u) = HTMLEscape u"
| "piece_bytes m (Mark x) = x"
| "piece_bytes m OpenQuote = PreQuote m"
| "piece_bytes m CloseQuote = PostQuote m"

definition render :: "msgFmtCfg \<Rightarrow> piece list \<Rightarrow> bytes" where
  "render m ps = concat (map (piece_bytes m) ps)"

text \<open>What may be written besides the text of the message.\<close>

definition markup :: "msgFmtCfg \<Rightarrow> bytes set" where
  "markup m = {PreMsg m, PostMsg m, PreFirstLine m, PreNonFirstLine m, PostFinalLine m, PostNonFinalLine m,
     FinalNewline m, NonFinalNewline m, fst (TruncationLineTmpl m)} \<union>
     range (\<lambda>r. fst (PreRefTmpl m r)) \<union> range (\<lambda>r. fst (PostRefTmpl m r))"

definition known :: "msgFmtCfg \<Rightarrow> piece \<Rightarrow> bool" where
  "known m p = (case p of Mark x \<Rightarrow> x \<in> markup m | _ \<Rightarrow> True)"

definition texts :: "piece list \<Rightarrow> bytes" where
  "texts ps = concat (map (\<lambda>p. case p of Text u \<Rightarrow> u | _ \<Rightarrow> []) ps)"

text \<open>Whether a quote is open after the pieces; \<open>None\<close> when marks do not pair up.\<close>

fun quoted :: "bool \<Rightarrow> piece list \<Rightarrow> bool option" where
  "quoted q [] = Some q"
| "quoted q (OpenQuote # ps) = (if q then None else quoted True ps)"
| "quoted q (CloseQuote # ps) = (if q then quoted False ps else None)"
| "quoted q (Text u # ps) = quoted q ps"
| "quoted q (Mark x # ps) = quoted q ps"

definition keep :: "bytes \<Rightarrow> bytes" where
  "keep t = filter (\<lambda>c. c \<noteq> LF \<and> c \<noteq> CR) t"

lemma texts_simps [simp]: "texts [] = []" "texts (ps @ qs) = texts ps @ texts qs" "texts (Text u # ps) = u @ texts ps"
  "texts (Mark x # ps) = texts ps" "texts (OpenQuote # ps) = texts ps" "texts (CloseQuote # ps) = texts ps"
  by (simp_all add: texts_def)

lemma render_simps [simp]: "render m [] = []" "render m (ps @ qs) = render m ps @ render m qs"
  "render m (p # ps) = piece_bytes m p @ render m ps"
  by (simp_all add: render_def)

lemma quoted_append [simp]: "quoted q (ps @ qs) = (case quoted q ps of None \<Rightarrow> None | Some r \<Rightarrow> quoted r qs)"
  by (induction q ps rule: quoted.induct) auto

lemma keep_append [simp]: "keep (t @ u) = keep t @ keep u"
  by (simp add: keep_def)

text \<open>Characters the loop leaves for a later write.\<close>

definition plain :: "byte \<Rightarrow> bool" where
  "plain c \<longleftrightarrow> esc_of c = None \<and> c \<noteq> LF"

lemma plain_text: "list_all plain t \<Longrightarrow> HTMLEscape t = t \<and> keep t = t"
  by (induction t) (auto simp: HTMLEscape_def html_escape1_def keep_def plain_def esc_of_def split: if_splits)

lemma esc_text: "esc_of c = Some e \<Longrightarrow> e = HTMLEscape (keep [c])"
  by (auto simp: esc_of_def HTMLEscape_def html_escape1_def keep_def htmlGt_def split: if_splits)

definition out :: "msgFmtCfg \<Rightarrow> fmtvars \<Rightarrow> piece list \<Rightarrow> bool" where
  "out m s ps \<longleftrightarrow> wroom (dst s) = None \<and> wout (dst s) = render m ps \<and> list_all (known m) ps"

text \<open>
  Between two steps: what was written is made of pieces, its text is the message up to \<open>last\<close> without the line
  ends, what waits to be written needs no escape, and a quote is open when \<open>greentext\<close> says so, which is not
  the case at the start of a line.
\<close>

definition good :: "msgFmtCfg \<Rightarrow> bytes \<Rightarrow> fmtvars \<Rightarrow> piece list \<Rightarrow> bool" where
  "good m b s ps \<longleftrightarrow> out m s ps \<and> last_src s \<le> src s \<and> src s \<le> length b \<and>
     list_all plain (sub b (last_src s) (src s)) \<and> texts ps = keep (take (last_src s) b) \<and>
     quoted False ps = Some (greentext s) \<and> (at_nl s \<longrightarrow> \<not> greentext s)"

definition say :: "bytes \<Rightarrow> fmtvars \<Rightarrow> fmtvars" where
  "say p s = s\<lparr>dst := (dst s)\<lparr>wout := wout (dst s) @ p\<rparr>\<rparr>"

lemma say_sel [simp]: "src (say p s) = src s" "last_src (say p s) = last_src s" "greentext (say p s) = greentext s"
  "at_nl (say p s) = at_nl s" "pendingnewline (say p s) = pendingnewline s" "lines_so_far (say p s) = lines_so_far s"
  "dst (say p s) = (dst s)\<lparr>wout := wout (dst s) @ p\<rparr>"
  by (simp_all add: say_def)

lemma wr_say: "wroom (dst s) = None \<Longrightarrow> wr p k s = k (say p s)"
  by (simp add: wr_def uwrite_def say_def)

lemma out_say: "out m s ps \<Longrightarrow> known m p \<Longrightarrow> out m (say (piece_bytes m p) s) (ps @ [p])"
  by (simp add: out_def)

lemma good_room: "good m b s ps \<Longrightarrow> wroom (dst s) = None"
  by (simp add: good_def out_def)

lemma good_mark: "good m b s ps \<Longrightarrow> x \<in> markup m \<Longrightarrow> good m b (say x s) (ps @ [Mark x])"
  by (simp add: good_def out_def known_def)

lemma good_vars [simp]: "good m b (s\<lparr>pendingnewline := x\<rparr>) ps = good m b s ps" "good m b (s\<lparr>lines_so_far := n\<rparr>) ps = good m b s ps"
  "good m b s ps \<Longrightarrow> good m b (s\<lparr>at_nl := False\<rparr>) ps"
  by (simp_all add: good_def out_def)

lemma markup_simps [simp]: "PreMsg m \<in> markup m" "PostMsg m \<in> markup m" "PreFirstLine m \<in> markup m" "PreNonFirstLine m \<in> markup m"
  "PostFinalLine m \<in> markup m" "PostNonFinalLine m \<in> markup m" "FinalNewline m \<in> markup m" "NonFinalNewline m \<in> markup m"
  "fst (TruncationLineTmpl m) \<in> markup m" "fst (PreRefTmpl m r) \<in> markup m" "fst (PostRefTmpl m r) \<in> markup m"
  by (auto simp: markup_def)

text \<open>What a step leaves: \<open>Q\<close> of the state when it goes on.\<close>

definition leaves :: "msgFmtCfg \<Rightarrow> int \<Rightarrow> bytes \<Rightarrow> (fmtvars \<Rightarrow> bool) \<Rightarrow> step \<Rightarrow> bool" where
  "leaves m lim b Q st =
     (case st of
        Failed e s \<Rightarrow> \<exists>ps n. out m s ps \<and> texts ps = keep (take n b)
      | Truncated s \<Rightarrow> (\<exists>ps. good m b s ps) \<and> \<not> greentext s \<and> lim \<noteq> 0
      | Continue s \<Rightarrow> (\<exists>ps. good m b s ps) \<and> Q s)"

lemma leaves_then:
  "leaves m lim b Q st \<Longrightarrow> (\<And>s ps. st = Continue s \<Longrightarrow> good m b s ps \<Longrightarrow> Q s \<Longrightarrow> leaves m lim b R (k s)) \<Longrightarrow> leaves m lim b R (and_then st k)"
  by (cases st) (auto simp: leaves_def)

lemma good_leaves: "good m b s ps \<Longrightarrow> Q s \<Longrightarrow> leaves m lim b Q (Continue s)"
  by (auto simp: leaves_def)

lemma good_failed: "good m b s ps \<Longrightarrow> leaves m lim b Q (Failed e s)"
proof -
  assume g: "good m b s ps"
  then have "out m s ps \<and> texts ps = keep (take (last_src s) b)" by (simp add: good_def)
  then show ?thesis by (auto simp: leaves_def)
qed

lemma run_tmpl_leaves:
  assumes "good m b s ps" "fst t \<in> markup m" "\<And>ps. good m b (say (fst t) s) ps \<Longrightarrow> leaves m lim b Q (k (say (fst t) s))"
  shows "leaves m lim b Q (run_tmpl t k s)"
proof (cases "snd t")
  case None
  then show ?thesis using assms good_mark [OF assms(1,2)] by (simp add: run_tmpl_def wr_say [OF good_room])
next
  case (Some e)
  then show ?thesis using good_failed [OF good_mark [OF assms(1,2)]]
    by (simp add: run_tmpl_def wr_say [OF good_room [OF assms(1)]])
qed

lemma flushnewline_leaves:
  assumes "good m b s ps"
  shows "leaves m lim b (\<lambda>s'. src s' = src s \<and> last_src s' = last_src s \<and> at_nl s' = at_nl s \<and> greentext s' = greentext s) (flushnewline m final s)"
proof -
  have r: "wroom (dst s) = None" "\<And>x. wroom (dst (say x s)) = None" using good_room [OF assms] by simp_all
  have g: "good m b ((say y (say x s))\<lparr>pendingnewline := False\<rparr>) ((ps @ [Mark x]) @ [Mark y])"
    if "x \<in> markup m" "y \<in> markup m" for x y
    using good_mark [OF good_mark [OF assms that(1)] that(2)] by simp
  show ?thesis
    unfolding flushnewline_def using good_leaves [OF assms] good_leaves [OF g] r by (simp add: wr_say)
qed

lemma preline_leaves:
  assumes "good m b s ps"
  shows "leaves m lim b (\<lambda>s'. src s' = src s \<and> last_src s' = last_src s \<and> \<not> at_nl s' \<and> greentext s' = greentext s) (preline m lim cpl b s)"
proof (cases "at_nl s")
  case False
  then show ?thesis using good_leaves [OF assms] by (simp add: preline_def)
next
  case True
  define s1 where "s1 = (if lim \<noteq> 0 then s\<lparr>lines_so_far := add_lines cpl (drop (src s) b) (lines_so_far s)\<rparr> else s)"
  have s1: "good m b s1 ps" "src s1 = src s" "last_src s1 = last_src s" "at_nl s1" "greentext s1 = greentext s" "\<not> greentext s1"
    using assms True by (auto simp: s1_def good_def out_def)
  have e: "preline m lim cpl b s =
     (if lim \<noteq> 0 \<and> lim < lines_so_far s1 then run_tmpl (TruncationLineTmpl m) Truncated s1
      else and_then (flushnewline m False s1)
        (\<lambda>s. wr (if src s \<noteq> 0 then PreFirstLine m else PreNonFirstLine m) (\<lambda>s. Continue (s\<lparr>at_nl := False\<rparr>)) s))"
    using True by (simp add: preline_def s1_def [symmetric] Let_def)
  show ?thesis
  proof (cases "lim \<noteq> 0 \<and> lim < lines_so_far s1")
    case True
    show ?thesis
      unfolding e if_P [OF True] by (rule run_tmpl_leaves [OF s1(1)]) (use s1 True in \<open>auto simp: leaves_def\<close>)
  next
    case False
    show ?thesis
      unfolding e if_not_P [OF False]
    proof (rule leaves_then [OF flushnewline_leaves [OF s1(1)]])
      fix t qs
      assume t: "good m b t qs" "src t = src s1 \<and> last_src t = last_src s1 \<and> at_nl t = at_nl s1 \<and> greentext t = greentext s1"
      let ?x = "if src t \<noteq> 0 then PreFirstLine m else PreNonFirstLine m"
      have "good m b ((say ?x t)\<lparr>at_nl := False\<rparr>) (qs @ [Mark ?x])" by (intro good_vars(3) good_mark t) simp
      then show "leaves m lim b (\<lambda>s'. src s' = src s \<and> last_src s' = last_src s \<and> \<not> at_nl s' \<and> greentext s' = greentext s)
        (wr ?x (\<lambda>s. Continue (s\<lparr>at_nl := False\<rparr>)) t)"
        using t s1 by (subst wr_say [OF good_room [OF t(1)]]) (auto intro!: good_leaves)
    qed
  qed
qed

subsection \<open>The characters\<close>

lemma take_sub: "i \<le> j \<Longrightarrow> j \<le> length b \<Longrightarrow> take j b = take i b @ sub b i j"
  by (simp add: sub_def take_drop_split)

lemma good_put:
  assumes "good m b s ps" "src s < length b" "texts qs = keep [b ! src s]" "list_all (known m) qs"
    "quoted (greentext s) qs = Some (greentext s')" "at_nl s' \<longrightarrow> \<not> greentext s'"
    "src s' = src s + 1" "last_src s' = src s + 1" "dst s' = (dst s)\<lparr>wout := wout (dst s) @ pending_text b s @ render m qs\<rparr>"
  shows "good m b s' (ps @ Text (pending_text b s) # qs)"
proof -
  have g: "out m s ps" "last_src s \<le> src s" "list_all plain (pending_text b s)" "texts ps = keep (take (last_src s) b)"
    "quoted False ps = Some (greentext s)" using assms(1) by (auto simp: good_def pending_text_def)
  have "take (src s + 1) b = take (last_src s) b @ pending_text b s @ [b ! src s]"
    using assms(2) g(2) take_sub [of "last_src s" "src s" b] by (simp add: pending_text_def take_Suc_conv_app_nth)
  then have "texts (ps @ Text (pending_text b s) # qs) = keep (take (src s + 1) b)"
    using g(3,4) assms(3) plain_text by simp
  then show ?thesis using assms g plain_text [OF g(3)] by (simp add: good_def out_def known_def)
qed

lemma put_char_leaves:
  assumes g: "good m b s ps" and l: "src s < length b" and n: "\<not> at_nl s" "first \<longrightarrow> \<not> greentext s"
  shows "leaves m lim b (\<lambda>s'. src s' = src s + 1) (put_char m b first s)"
proof -
  let ?c = "b ! src s"
  have r: "wroom (dst s) = None" by (rule good_room [OF g])
  consider (quo) "?c = 62 \<and> first" | (nl) "\<not> (?c = 62 \<and> first)" "?c = LF"
    | (esc) e where "\<not> (?c = 62 \<and> first)" "?c \<noteq> LF" "esc_of ?c = Some e"
    | (plain) "\<not> (?c = 62 \<and> first)" "?c \<noteq> LF" "esc_of ?c = None" by (cases "esc_of ?c") auto
  then show ?thesis
  proof cases
    case quo
    let ?s = "say htmlGt (say (PreQuote m) (advance (say (pending_text b s) (s\<lparr>greentext := True\<rparr>))))"
    have "put_char m b first s = Continue ?s"
      using quo r by (simp add: put_char_def wr_say advance_def say_def pending_text_def)
    moreover have "good m b ?s (ps @ Text (pending_text b s) # [OpenQuote, Text [62]])"
      by (rule good_put [OF g l]) (use quo n in \<open>auto simp: keep_def known_def advance_def htmlGt_def HTMLEscape_def html_escape1_def\<close>)
    ultimately show ?thesis by (simp add: good_leaves advance_def)
  next
    case nl
    let ?q = "if greentext s then [CloseQuote] else []"
    let ?s = "(say (render m ?q) (advance (say (pending_text b s) s)))\<lparr>greentext := False, at_nl := True, pendingnewline := True\<rparr>"
    have "put_char m b first s = Continue ?s"
      using nl r by (simp add: put_char_def wr_say advance_def say_def)
    moreover have "good m b ?s (ps @ Text (pending_text b s) # ?q)"
      by (rule good_put [OF g l]) (use nl n in \<open>auto simp: keep_def known_def advance_def\<close>)
    ultimately show ?thesis by (simp add: good_leaves advance_def)
  next
    case esc
    let ?s = "advance (say e (say (pending_text b s) s))"
    have "put_char m b first s = Continue ?s"
      unfolding put_char_def Let_def if_not_P [OF esc(1)] if_not_P [OF esc(2)] esc(3) option.case using r by (simp add: wr_say)
    moreover have "good m b ?s (ps @ Text (pending_text b s) # [Text (keep [?c])])"
      by (rule good_put [OF g l]) (use esc esc_text [OF esc(3)] n in \<open>auto simp: known_def advance_def\<close>)
    ultimately show ?thesis by (simp add: good_leaves advance_def)
  next
    case plain
    have "put_char m b first s = Continue (s\<lparr>src := src s + 1\<rparr>)" using plain by (auto simp: put_char_def)
    moreover have "good m b (s\<lparr>src := src s + 1\<rparr>) ps"
      using g l plain n by (simp add: good_def out_def sub_snoc plain_def)
    ultimately show ?thesis by (simp add: good_leaves)
  qed
qed

lemma char_loop_leaves:
  "good m b s ps \<Longrightarrow> src s + k \<le> length b \<Longrightarrow> leaves m lim b (\<lambda>s'. src s' = src s + k) (char_loop k m lim cpl b s)"
proof (induction k arbitrary: s ps)
  case 0
  then show ?case by (simp add: good_leaves)
next
  case (Suc k)
  show ?case
    unfolding char_loop.simps
  proof (rule leaves_then [OF preline_leaves [OF Suc.prems(1)]])
    fix t qs
    assume t: "good m b t qs" "src t = src s \<and> last_src t = last_src s \<and> \<not> at_nl t \<and> greentext t = greentext s"
    have n: "at_nl s \<longrightarrow> \<not> greentext t" using Suc.prems(1) t(2) by (simp add: good_def)
    show "leaves m lim b (\<lambda>s'. src s' = src s + Suc k) (and_then (put_char m b (at_nl s) t) (char_loop k m lim cpl b))"
    proof (rule leaves_then [OF put_char_leaves [OF t(1) _ _ n]])
      fix u us assume u: "good m b u us" "src u = src t + 1"
      then show "leaves m lim b (\<lambda>s'. src s' = src s + Suc k) (char_loop k m lim cpl b u)"
        using Suc.IH [OF u(1)] t(2) Suc.prems(2) by simp
    qed (use t Suc.prems(2) in auto)
  qed
qed

lemma normalfmt_leaves:
  assumes "good m b s ps" "e \<le> length b"
  shows "leaves m lim b (\<lambda>s'. src s' = max (src s) e \<and> last_src s' = src s') (normalfmt m lim cpl b e s)"
  unfolding normalfmt_def
proof (rule leaves_then [OF char_loop_leaves [OF assms(1)]])
  show "src s + (e - src s) \<le> length b" using assms by (auto simp: good_def)
next
  fix t qs assume t: "good m b t qs" "src t = src s + (e - src s)"
  let ?t = "(say (pending_text b t) t)\<lparr>last_src := src t\<rparr>"
  have w: "out m t qs" "last_src t \<le> src t" "src t \<le> length b" "list_all plain (pending_text b t)" "texts qs = keep (take (last_src t) b)"
    using t(1) by (auto simp: good_def pending_text_def)
  have "good m b ?t (qs @ [Text (pending_text b t)])"
    using t(1) w plain_text [OF w(4)] take_sub [OF w(2,3)]
    by (auto simp: good_def out_def known_def pending_text_def)
  then show "leaves m lim b (\<lambda>s'. src s' = max (src s) e \<and> last_src s' = src s')
      (wr (pending_text b t) (\<lambda>s. Continue (s\<lparr>last_src := src s\<rparr>)) t)"
    using t(2) by (subst wr_say [OF good_room [OF t(1)]]) (auto intro!: good_leaves)
qed

subsection \<open>The references\<close>

text \<open>A list of references that fits a message: in order, apart, inside it, and not across lines.\<close>

definition fits :: "bytes \<Rightarrow> nat \<Rightarrow> IBMessageReference list \<Rightarrow> bool" where
  "fits b p refs \<longleftrightarrow> sorted_wrt (\<lambda>r r'. mEnd r \<le> mStart r') refs \<and>
     list_all (\<lambda>r. p \<le> mStart r \<and> mStart r \<le> mEnd r \<and> mEnd r \<le> length b \<and> keep (sub b (mStart r) (mEnd r)) = sub b (mStart r) (mEnd r)) refs"

lemma put_ref_leaves:
  assumes g: "good m b s ps" and l: "last_src s = src s" "\<not> at_nl s" and r: "src s \<le> mEnd r" "mEnd r \<le> length b"
    and k: "keep (sub b (src s) (mEnd r)) = sub b (src s) (mEnd r)"
  shows "\<exists>st. put_ref m b r s = Some st \<and> leaves m lim b (\<lambda>s'. src s' = mEnd r) st"
proof (cases "snd (PreRefTmpl m (the_ref r))")
  case (Some e)
  have "good m b (say (fst (PreRefTmpl m (the_ref r))) s) (ps @ [Mark (fst (PreRefTmpl m (the_ref r)))])"
    by (rule good_mark [OF g]) simp
  then show ?thesis using Some good_failed by (simp add: put_ref_def run_tmpl_def wr_say [OF good_room [OF g]])
next
  case None
  let ?p = "fst (PreRefTmpl m (the_ref r))" and ?t = "sub b (src s) (mEnd r)"
  let ?s = "(say ?p s)\<lparr>dst := (dst s)\<lparr>wout := wout (dst s) @ ?p @ HTMLEscape ?t\<rparr>, src := mEnd r, last_src := mEnd r\<rparr>"
  have room: "wroom (dst s) = None" by (rule good_room [OF g])
  have e: "put_ref m b r s = Some (run_tmpl (PostRefTmpl m (the_ref r)) Continue ?s)"
    using None r(1) room by (simp add: put_ref_def run_tmpl_def wr_say uwrite_def Let_def)
  have "good m b (say ?p s) (ps @ [Mark ?p])" by (rule good_mark [OF g]) simp
  moreover have "quoted False ps = Some (greentext s)" using g by (simp add: good_def)
  ultimately have "good m b ?s ((ps @ [Mark ?p]) @ [Text ?t])"
    using l r k take_sub [OF r] by (auto simp: good_def out_def known_def)
  then have "leaves m lim b (\<lambda>s'. src s' = mEnd r) (run_tmpl (PostRefTmpl m (the_ref r)) Continue ?s)"
    by (rule run_tmpl_leaves) (auto intro!: good_leaves)
  then show ?thesis using e by simp
qed

lemma ref_loop_leaves:
  "good m b s ps \<Longrightarrow> fits b (src s) refs \<Longrightarrow>
     \<exists>st. ref_loop m lim cpl b refs s = Some st \<and> leaves m lim b (\<lambda>s'. True) st"
proof (induction refs arbitrary: s ps)
  case Nil
  then show ?case using good_leaves [OF Nil.prems(1)] by simp
next
  case (Cons r rs)
  have f: "src s \<le> mStart r" "mStart r \<le> mEnd r" "mEnd r \<le> length b" "keep (sub b (mStart r) (mEnd r)) = sub b (mStart r) (mEnd r)"
    "\<And>p. p \<le> mEnd r \<Longrightarrow> fits b p rs" "fits b (mEnd r) rs"
    using Cons.prems(2) by (auto simp: fits_def list_all_iff)
  let ?st = "and_then (normalfmt m lim cpl b (mStart r) s) (preline m lim cpl b)"
  have st: "leaves m lim b (\<lambda>s'. src s' = mStart r \<and> last_src s' = src s' \<and> \<not> at_nl s') ?st"
  proof (rule leaves_then [OF normalfmt_leaves [OF Cons.prems(1)]])
    fix t qs assume t: "good m b t qs" "src t = max (src s) (mStart r) \<and> last_src t = src t"
    then show "leaves m lim b (\<lambda>s'. src s' = mStart r \<and> last_src s' = src s' \<and> \<not> at_nl s') (preline m lim cpl b t)"
      using preline_leaves [OF t(1), of lim cpl] f(1) by (auto simp: leaves_def max_absorb2 split: step.splits)
  qed (use f in simp)
  have guard: "\<not> (mStart r > mEnd r \<or> mEnd r > length b)" using f by simp
  show ?case
  proof (cases ?st)
    case (Continue t)
    then obtain qs where t: "good m b t qs" "src t = mStart r" "last_src t = src t" "\<not> at_nl t" using st by (auto simp: leaves_def)
    obtain st' where st': "put_ref m b r t = Some st'" "leaves m lim b (\<lambda>s'. src s' = mEnd r) st'"
      using put_ref_leaves [OF t(1,3,4)] f(2-4) t(2) by auto
    show ?thesis
    proof (cases st')
      case (Continue u)
      then obtain us where u: "good m b u us" "src u = mEnd r" using st'(2) by (auto simp: leaves_def)
      show ?thesis using Cons.IH [OF u(1)] u(2) f(6) guard \<open>?st = Continue t\<close> st'(1) Continue by simp
    qed (use st' guard \<open>?st = Continue t\<close> in \<open>auto simp: leaves_def\<close>)
  qed (use st guard in \<open>auto simp: leaves_def\<close>)
qed

subsection \<open>The whole message\<close>

text \<open>
  What \<open>fmtmsg\<close> gives: pieces that show a prefix of the message, the whole of it when there is no line limit
  and no template failed, with all quotes closed unless a template failed.
\<close>

definition shows_message :: "msgFmtCfg \<Rightarrow> int \<Rightarrow> bytes \<Rightarrow> bytes \<Rightarrow> io_err option \<Rightarrow> bool" where
  "shows_message m lim b t e \<longleftrightarrow>
     (\<exists>ps n. t = render m ps \<and> list_all (known m) ps \<and> texts ps = keep (take n b) \<and>
        (e = None \<longrightarrow> quoted False ps = Some False \<and> (lim = 0 \<longrightarrow> n = length b)))"

lemma good_start: "good m b (say (PreMsg m) (start_vars \<lparr>wout = [], wroom = None\<rparr>)) [Mark (PreMsg m)]"
  by (simp add: good_def out_def start_vars_def known_def keep_def)

lemma finish_shows:
  assumes g: "good m b s ps" and l: "last_src s = length b"
  shows "\<exists>s'. finish_msg m s = Continue s' \<and> shows_message m lim b (wout (dst s') @ PostMsg m) None \<and> wroom (dst s') = None"
proof -
  obtain t where t: "flushnewline m True s = Continue t"
    using good_room [OF g] by (cases "pendingnewline s") (simp_all add: flushnewline_def wr_say)
  obtain qs where q: "good m b t qs" "last_src t = length b"
    using flushnewline_leaves [OF g, of lim True] l t by (auto simp: leaves_def)
  have o: "wroom (dst t) = None" "wout (dst t) = render m qs" "list_all (known m) qs" "texts qs = keep (take (length b) b)"
    "quoted False qs = Some (greentext t)" "at_nl t \<longrightarrow> \<not> greentext t" using q by (auto simp: good_def out_def)
  let ?e = "if at_nl t then [] else (if greentext t then [CloseQuote] else []) @ [Mark (PostFinalLine m)]"
  have "finish_msg m s = Continue (if at_nl t then t else say (PostFinalLine m) (if greentext t then say (PostQuote m) t else t))"
    using o(1) t by (simp add: finish_msg_def wr_say)
  moreover have "shows_message m lim b (render m (qs @ ?e @ [Mark (PostMsg m)])) None"
    unfolding shows_message_def
    by (rule exI [of _ "qs @ ?e @ [Mark (PostMsg m)]"], rule exI [of _ "length b"]) (use o in \<open>auto simp: known_def\<close>)
  ultimately show ?thesis using o(1,2) by auto
qed

lemma fmtmsg_shows:
  assumes "fits b 0 refs"
  shows "\<exists>t e. fmtmsg m lim cpl b refs = Some (t, e) \<and> shows_message m lim b t e"
proof -
  let ?s0 = "say (PreMsg m) (start_vars \<lparr>wout = [], wroom = None\<rparr>)"
  have "fits b (src ?s0) refs" using assms by (simp add: start_vars_def)
  then obtain st where st: "ref_loop m lim cpl b refs ?s0 = Some st" "leaves m lim b (\<lambda>_. True) st"
    using ref_loop_leaves [OF good_start] by blast
  let ?st = "and_then st (normalfmt m lim cpl b (length b))"
  have n: "leaves m lim b (\<lambda>s. src s = length b \<and> last_src s = src s) ?st"
  proof (rule leaves_then [OF st(2)])
    fix s ps assume s: "good m b s ps"
    then have "src s \<le> length b" by (simp add: good_def)
    then show "leaves m lim b (\<lambda>s. src s = length b \<and> last_src s = src s) (normalfmt m lim cpl b (length b) s)"
      using normalfmt_leaves [OF s order_refl, of lim cpl] by (auto simp: leaves_def max_absorb2 split: step.splits)
  qed
  have w: "wr (PreMsg m) Continue (start_vars \<lparr>wout = [], wroom = None\<rparr>) = Continue ?s0"
    by (simp add: wr_say start_vars_def)
  have e: "fmtmsg m lim cpl b refs =
      Some (case (case and_then ?st (finish_msg m) of
            Continue s \<Rightarrow> endmsg m s | Truncated s \<Rightarrow> endmsg m s | Failed e s \<Rightarrow> (Some e, dst s)) of (e, w) \<Rightarrow> (wout w, e))"
    by (simp add: fmtmsg_def formatmsg_def w st(1) split: prod.split)
  show ?thesis
  proof (cases ?st)
    case (Failed x s)
    then obtain ps k where "out m s ps" "texts ps = keep (take k b)" using n by (auto simp: leaves_def)
    then show ?thesis unfolding e Failed by (auto simp: shows_message_def out_def)
  next
    case (Truncated s)
    then obtain ps where s: "good m b s ps" "\<not> greentext s" "lim \<noteq> 0" using n by (auto simp: leaves_def)
    then have o: "wout (dst s) @ PostMsg m = render m (ps @ [Mark (PostMsg m)])" "list_all (known m) (ps @ [Mark (PostMsg m)])"
      "texts (ps @ [Mark (PostMsg m)]) = keep (take (last_src s) b)" "quoted False (ps @ [Mark (PostMsg m)]) = Some False"
      by (auto simp: good_def out_def known_def)
    have "shows_message m lim b (wout (dst s) @ PostMsg m) None" unfolding shows_message_def using o s(3) by blast
    then show ?thesis unfolding e Truncated using good_room [OF s(1)] by (simp add: endmsg_def uwrite_def)
  next
    case (Continue s)
    then obtain ps where s: "good m b s ps" "last_src s = length b" using n by (auto simp: leaves_def)
    then obtain s' where "finish_msg m s = Continue s'" "shows_message m lim b (wout (dst s') @ PostMsg m) None" "wroom (dst s') = None"
      using finish_shows by blast
    then show ?thesis unfolding e Continue by (simp add: endmsg_def uwrite_def)
  qed
qed

end
