(* ===== verification/PostProps.thy ===== *)
theory PostProps
  imports RefRows FmtMsgLaws
begin

text \<open>
  From the text of a post to its page: the references found in it, the query that looks them up, the links its
  rows give, and the HTML.
\<close>

subsection \<open>The references\<close>

lemma references_wellformed_lengths: "length (fst (ParseReferences msg)) = length (snd (ParseReferences msg))"
  by (simp add: ParseReferences_def Let_def)

lemma references_wellformed_facts:
  "length (fst (ParseReferences msg)) \<le> 255" "sorted_wrt (\<lambda>x y. End x \<le> Start y) (snd (ParseReferences msg))"
  "list_all2 (\<lambda>r x. Start x < End x \<and> End x \<le> length msg \<and> denotes r (sub msg (Start x) (End x)))
     (fst (ParseReferences msg)) (snd (ParseReferences msg))"
proof -
  let ?ys = "drop_overlaps (by_start (found msg))"
  have ok: "list_all (ok_ref msg) ?ys"
    using drop_overlaps_subset [of "by_start (found msg)"] found_ok by (auto simp: list_all_iff)
  then have t: "list_all (ok_ref msg) (take 255 ?ys)" by (auto simp: list_all_iff dest: in_set_takeD)
  have "\<forall>x\<in>set (by_start (found msg)). Start (snd x) < End (snd x)" using found_ok by (auto simp: ok_ref_def)
  from drop_overlaps_apart [OF by_start_sorted this]
  have s: "sorted_wrt (\<lambda>x y. End (snd x) \<le> Start (snd y)) (take 255 ?ys)" by (rule sorted_wrt_take)
  show "length (fst (ParseReferences msg)) \<le> 255" "sorted_wrt (\<lambda>x y. End x \<le> Start y) (snd (ParseReferences msg))"
    "list_all2 (\<lambda>r x. Start x < End x \<and> End x \<le> length msg \<and> denotes r (sub msg (Start x) (End x)))
      (fst (ParseReferences msg)) (snd (ParseReferences msg))"
    using t s unfolding ParseReferences_def Let_def ok_ref_def
    by (simp_all add: sorted_wrt_map list_all2_map1 list_all2_map2 list.rel_eq list_all2_same [symmetric] list_all_iff list.rel_refl_strong
        del: take_map)
qed

text \<open>
  C23: the references of any text come in order, do not overlap, lie inside the text, are at most 255, and each
  stands for the characters between its positions: a post, a board with or without a post, or a Message-ID.
\<close>

theorem references_wellformed:
  "case ParseReferences msg of (rs, xs) \<Rightarrow>
     length rs \<le> 255 \<and> sorted_wrt (\<lambda>x y. End x \<le> Start y) xs \<and>
     list_all2 (\<lambda>r x. Start x < End x \<and> End x \<le> length msg \<and> denotes r (sub msg (Start x) (End x))) rs xs"
  using references_wellformed_facts [of msg] by (auto split: prod.split)

text \<open>
  No reference is missed: where fewer than 255 are reported, every place of the text at which a post or
  board reference can be read lies in a reference that begins inside one that is reported.
\<close>

theorem references_complete:
  assumes "length (snd (ParseReferences msg)) < 255" and "k \<le> length msg" and "rm reRef msg k \<noteq> [] \<or> rm reCRef msg k \<noteq> []"
  shows "\<exists>i q c. i \<le> k \<and> k < q \<and> (q, c) \<in> set (rm reRef msg i) \<union> set (rm reCRef msg i) \<and>
    (\<exists>x\<in>set (snd (ParseReferences msg)). Start x \<le> i \<and> i < End x)"
proof -
  obtain i q c x where f: "i \<le> k" "k < q" "(q, c) \<in> set (rm reRef msg i) \<union> set (rm reCRef msg i)"
    "x \<in> set (found msg)" "Start (snd x) = i"
  proof (cases "rm reRef msg k = []")
    case False
    then obtain i q c where m: "(i, q, c) \<in> set (FindAll reRef msg)" "i \<le> k" "k < q"
      using find_all_complete [OF least_refs(1) False _ assms(2), of 0 None] by (auto simp: FindAll_def)
    show thesis
      using m FindAll_matches [OF least_refs(1) m(1)]
      by (intro that [of i q c "post_ref msg (i, q, c)"]) (auto simp: found_def, simp add: post_ref_def)
  next
    case True
    then have "rm reCRef msg k \<noteq> []" using assms(3) by simp
    then obtain i q c where m: "(i, q, c) \<in> set (FindAll reCRef msg)" "i \<le> k" "k < q"
      using find_all_complete [OF least_refs(2) _ _ assms(2), of 0 None] by (auto simp: FindAll_def)
    show thesis
      using m FindAll_matches [OF least_refs(2) m(1)]
      by (intro that [of i q c "cross_ref msg (i, q, c)"]) (auto simp: found_def, simp add: cross_ref_def)
  qed
  let ?ys = "drop_overlaps (by_start (found msg))"
  have "\<forall>x\<in>set (by_start (found msg)). Start (snd x) < End (snd x)" using found_ok by (auto simp: ok_ref_def)
  from drop_overlaps_covers [OF by_start_sorted this, of x] obtain y where "y \<in> set ?ys" "Start (snd y) \<le> i" "i < End (snd y)"
    using f(4,5) by auto
  moreover have "take 255 ?ys = ?ys" using assms(1) by (simp add: ParseReferences_def Let_def)
  ultimately have "\<exists>x\<in>set (snd (ParseReferences msg)). Start x \<le> i \<and> i < End x" by (auto simp: ParseReferences_def Let_def)
  then show ?thesis using f(1-3) by blast
qed

text \<open>A text with a cross reference that contains what could start a post reference.\<close>

definition sample_text :: bytes where
  "sample_text = bs ''see >>>/b/ >>0123abCD''"

lemma sample_refs:
  "ParseReferences sample_text =
     ([\<lparr>Board = bs ''b'', Post = [], MsgID = []\<rparr>, \<lparr>Board = [], Post = bs ''0123abcd'', MsgID = []\<rparr>],
      [\<lparr>Start = 4, End = 10\<rparr>, \<lparr>Start = 11, End = 21\<rparr>])"
  by code_simp

lemma references_complete_witness:
  "\<exists>i q c. i \<le> 11 \<and> 11 < q \<and> (q, c) \<in> set (rm reRef sample_text i) \<union> set (rm reCRef sample_text i) \<and>
    (\<exists>x\<in>set (snd (ParseReferences sample_text)). Start x \<le> i \<and> i < End x)"
proof (rule references_complete)
  show "length (snd (ParseReferences sample_text)) < 255" by (simp add: sample_refs)
  show "11 \<le> length sample_text" by (simp add: sample_text_def)
  show "rm reRef sample_text 11 \<noteq> [] \<or> rm reCRef sample_text 11 \<noteq> []" by code_simp
qed

subsection \<open>The query\<close>

text \<open>
  The patterns of SQL's \<open>LIKE\<close>: the percent sign stands for any text, the underscore for any character, and
  the backslash takes the next one as it is.
\<close>

fun like :: "bytes \<Rightarrow> bytes \<Rightarrow> bool" where
  "like [] s = (s = [])"
| "like (c # p) [] = (c = 37 \<and> like p [])"
| "like (c # p) (d # s) =
     (if c = 37 then like p (d # s) \<or> like (c # p) s
      else if c = 92 then (case p of [] \<Rightarrow> False | e # p' \<Rightarrow> e = d \<and> like p' s)
      else (c = 95 \<or> c = d) \<and> like p s)"

lemma like_any: "like [37] s"
  by (induction s) auto

lemma like_prefix: "\<forall>c\<in>set p. c \<notin> {37, 92, 95} \<Longrightarrow> like (p @ [37]) s \<longleftrightarrow> take (length p) s = p"
proof (induction p arbitrary: s)
  case Nil
  then show ?case using like_any by simp
next
  case (Cons c p)
  then show ?case by (cases s) auto
qed

lemma denotes_pattern: "denotes r t \<Longrightarrow> like (Post r @ [37]) name \<longleftrightarrow> take (length (Post r)) name = Post r"
proof -
  assume "denotes r t"
  then have "Post r = [] \<or> (\<exists>p. Post r = ToLower p \<and> run hex_char 8 40 p)" unfolding denotes_def by auto
  moreover have "to_lower c \<notin> {37, 92, 95}" if "hex_char c" for c
    using that by (auto simp: to_lower_def hex_char_def word_le_nat_alt)
  ultimately have "\<forall>c\<in>set (Post r). c \<notin> {37, 92, 95}" by (auto simp: ToLower_def run_def list_all_iff)
  then show ?thesis by (rule like_prefix)
qed

text \<open>
  C21: what a post says cannot change the SQL: for any text the query, read by the rules of SQL literals, is the
  statement it would be for other references of the same kinds, its literals are closed, and they are the
  parts of the references (and of the Message-IDs it replies to), whose patterns mean "begins with".
\<close>

theorem query_not_injected:
  "(case build_query (post_sel bid tid isctl) (fst (ParseReferences msg)) of
      None \<Rightarrow> False
    | Some None \<Rightarrow> True
    | Some (Some t) \<Rightarrow> (\<exists>u. build_query (post_sel bid tid isctl) (map blank (fst (ParseReferences msg))) = Some (Some u) \<and>
        sql t = (fst (sql u),
          concat (map (\<lambda>r. [bs ''<'', bs ''>''] @ ref_lits r) (filter (looked_up isctl) (fst (ParseReferences msg)))), True))) \<and>
   (case build_query (incoming_sel bid (buildMsgIDArray prefs)) (fst (ParseReferences msg)) of
      None \<Rightarrow> False
    | Some None \<Rightarrow> True
    | Some (Some t) \<Rightarrow> (\<exists>u. build_query (incoming_sel bid (buildMsgIDArray prefs)) (map blank (fst (ParseReferences msg))) = Some (Some u) \<and>
        sql t = (fst (sql u),
          concat (map (\<lambda>r. ref_lits r @ order_lits prefs r) (filter (looked_up False) (fst (ParseReferences msg)))), True))) \<and>
   list_all (\<lambda>r. \<forall>name. like (Post r @ [37]) name \<longleftrightarrow> take (length (Post r)) name = Post r) (fst (ParseReferences msg))"
  (is "?A \<and> ?B \<and> ?C")
proof (intro conjI)
  let ?rs = "fst (ParseReferences msg)"
  note g = ParseReferences_good [of msg]
  obtain q where q: "build_query (post_sel bid tid isctl) ?rs = Some q" using on_post.query_total [OF g(1)] by blast
  show ?A using on_post.query_shape [OF g, of bid tid isctl] q by (cases q) auto
  obtain q' where q': "build_query (incoming_sel bid (buildMsgIDArray prefs)) ?rs = Some q'" using on_incoming.query_total [OF g(1)] by blast
  show ?B using on_incoming.query_shape [OF g, of bid prefs] q' by (cases q') auto
  have "\<exists>t. denotes r t" if r: "r \<in> set ?rs" for r
  proof -
    obtain x where "(r, x) \<in> set (by_start (found msg))"
      using r drop_overlaps_subset [of "by_start (found msg)"] by (auto simp: ParseReferences_def Let_def dest!: in_set_takeD)
    then show ?thesis using found_ok [of "(r, x)" msg] by (auto simp: ok_ref_def)
  qed
  then have "like (Post r @ [37]) name \<longleftrightarrow> take (length (Post r)) name = Post r" if "r \<in> set ?rs" for r name
    using that denotes_pattern by blast
  then show ?C unfolding list_all_iff by simp
qed

subsection \<open>The rows\<close>

text \<open>
  A database that has \<open>m i\<close> for the \<open>i\<close>-th reference answers a query with the rows of the references that are
  looked up and have a match, each once, in some order: the query has no \<open>ORDER BY\<close> around its \<open>UNION ALL\<close>.
\<close>

definition answers ::
  "'a database \<Rightarrow> bytes option option \<Rightarrow> (Reference \<Rightarrow> bool) \<Rightarrow> (nat \<Rightarrow> 'a option) \<Rightarrow> Reference list \<Rightarrow> (nat \<times> 'a) list \<Rightarrow> bool" where
  "answers db q w m rs hs \<longleftrightarrow> distinct hs \<and> set hs = set (hits w m 0 rs) \<and>
     (case q of Some (Some t) \<Rightarrow> db t = Inr (map Inr hs, None) | _ \<Rightarrow> True)"

lemma open_answers:
  assumes "answers db (Some q) w m rs hs" "q = None \<longleftrightarrow> list_all (\<lambda>r. \<not> w r) rs"
  shows "(\<exists>t. q = Some t \<and> open_rows db q = Inr (Some (map Inr hs, None))) \<or>
    (open_rows db q = Inr None \<and> list_all (\<lambda>r. \<not> w r) rs \<and> hs = [])"
  using assms by (cases q) (auto simp: answers_def open_rows_def hits_nothing)

lemma cursor_start: "cursor_at 0 \<lparr>rows = Some (map Inr (hits w m 0 rs), None), r_id = 0, r_row = v\<rparr> (hits w m 0 rs)"
  using hits_after [of w m 0 rs] by (simp add: cursor_at_def)

lemma incoming_loop_none:
  "list_all some_ref (map fst rs) \<Longrightarrow> list_all (\<lambda>r. \<not> looked_up False r) (map fst rs) \<Longrightarrow> rows c = None \<Longrightarrow>
     incoming_loop bid tid i rs c as = Some (as @ links bid tid m i rs, None)"
proof (induction rs arbitrary: i as)
  case (Cons rx rs)
  then show ?case by (cases rx) (auto simp: incoming_loop_Cons link_of_def simp del: incoming_loop.simps(2))
qed (simp add: rows_err_def)

lemma post_resolved:
  assumes g: "list_all some_ref rs" and a: "answers db (build_query (post_sel bid tid isctl) rs) (looked_up isctl) m rs hs"
  shows "if isctl \<and> (\<forall>r\<in>set rs. Post r = []) \<and> (\<exists>r\<in>set rs. Post r = [] \<and> Board r = [])
    then ProcessReferencesOnPost db rs bid tid isctl = None
    else (\<exists>ks. taken 0 hs ks \<and> ProcessReferencesOnPost db rs bid tid isctl = Some (replies isctl (map_of ks) 0 rs [], None)) \<and>
      (sorted (map fst hs) \<longrightarrow> ProcessReferencesOnPost db rs bid tid isctl = Some (replies isctl m 0 rs [], None))"
    (is "if ?p then _ else _")
proof -
  obtain q where q: "build_query (post_sel bid tid isctl) rs = Some q" "q = None \<longleftrightarrow> list_all (\<lambda>r. \<not> looked_up isctl r) rs"
    using on_post.query_total [OF g] by blast
  let ?c = "\<lambda>x. \<lparr>rows = x, r_id = 0, r_row = []\<rparr>"
  from open_answers [OF a [unfolded q(1)] q(2)] consider
    (rows) t where "q = Some t" "open_rows db q = Inr (Some (map Inr hs, None))"
    | (none) "open_rows db q = Inr None" "list_all (\<lambda>r. \<not> looked_up isctl r) rs" "hs = []" by auto
  then show ?thesis
  proof cases
    case rows
    have np: "\<not> ?p" using q(2) rows(1) by (auto simp: looked_up_def list_all_iff)
    have e: "ProcessReferencesOnPost db rs bid tid isctl = post_loop 0 rs (?c (Some (map Inr hs, None))) []"
      using q(1) rows by (simp add: ProcessReferencesOnPost_def)
    have p: "pend 0 (?c (Some (map Inr hs, None))) hs = hs" by (simp add: pend_def)
    have "\<exists>ks. taken 0 hs ks \<and> ProcessReferencesOnPost db rs bid tid isctl = Some (replies isctl (map_of ks) 0 rs [], None)"
      using post_loop_taken [OF g, of "?c (Some (map Inr hs, None))" hs 0 isctl m "[]"] a unfolding e p by (simp add: answers_def)
    moreover have "ProcessReferencesOnPost db rs bid tid isctl = Some (replies isctl m 0 rs [], None)" if "sorted (map fst hs)"
      using ascending_hits [of hs "looked_up isctl" m 0 rs] post_loop_replies [OF g cursor_start] a that unfolding e
      by (simp add: answers_def)
    ultimately show ?thesis unfolding if_not_P [OF np] by blast
  next
    case none
    have "ProcessReferencesOnPost db rs bid tid isctl = (if list_ex (looked_up False) rs then None else Some ([], None))"
      using q(1) none(1) post_loop_nil_rows [OF g, of "?c None"] by (simp add: ProcessReferencesOnPost_def)
    moreover have "list_ex (looked_up False) rs \<longleftrightarrow> ?p"
      using none(2) by (auto simp: looked_up_def list_all_iff list_ex_iff)
    ultimately show ?thesis using none(2,3) by (auto simp: replies_nothing taken_def)
  qed
qed

lemma incoming_resolved:
  assumes g: "list_all some_ref (map fst rxs)" and rs: "map fst rxs = rs" "map snd rxs = xs"
    and a: "answers db (build_query (incoming_sel bid (buildMsgIDArray prefs)) rs) (looked_up False) m rs hs"
  shows "\<exists>ks. taken 0 hs ks \<and> ProcessReferencesOnIncoming db rs xs prefs bid tid = Some (links bid tid (map_of ks) 0 rxs, None)"
    and "ProcessReferencesOnIncoming db rs xs prefs bid tid = Some (links bid tid m 0 rxs, None) \<longleftrightarrow> sorted (map fst hs)"
proof -
  have g': "list_all some_ref rs" using g rs by simp
  have z: "zip rs xs = rxs" using rs zip_map_fst_snd by metis
  have d: "distinct hs" "set hs = set (hits (looked_up False) m 0 (map fst rxs))" using a rs by (simp_all add: answers_def)
  let ?P = "ProcessReferencesOnIncoming db rs xs prefs bid tid" and ?c = "\<lambda>x. \<lparr>rows = x, r_id = 0, r_row = no_row\<rparr>"
  obtain q where q: "build_query (incoming_sel bid (buildMsgIDArray prefs)) rs = Some q" "q = None \<longleftrightarrow> list_all (\<lambda>r. \<not> looked_up False r) rs"
    using on_incoming.query_total [OF g'] by blast
  from open_answers [OF a [unfolded q(1)] q(2)] consider
    (rows) "open_rows db q = Inr (Some (map Inr hs, None))" "rs \<noteq> []"
    | (none) "open_rows db q = Inr None" "list_all (\<lambda>r. \<not> looked_up False r) rs" "hs = []" using q(2) by (cases rs) auto
  then have "(\<exists>ks. taken 0 hs ks \<and> ?P = Some (links bid tid (map_of ks) 0 rxs, None)) \<and>
      (sorted (map fst hs) \<longrightarrow> ?P = Some (links bid tid m 0 rxs, None))"
  proof cases
    case rows
    have e: "?P = incoming_loop bid tid 0 rxs (?c (Some (map Inr hs, None))) []"
      using q(1) rows z by (simp add: ProcessReferencesOnIncoming_def)
    have p: "pend 0 (?c (Some (map Inr hs, None))) hs = hs" by (simp add: pend_def)
    have "?P = Some (links bid tid m 0 rxs, None)" if "sorted (map fst hs)"
      unfolding e ascending_hits [OF d that] by (simp add: incoming_loop_links [OF g cursor_start])
    then show ?thesis
      using incoming_loop_taken [OF g, of "?c (Some (map Inr hs, None))" hs 0 bid tid "[]"] unfolding e p by simp
  next
    case none
    then have "?P = Some (links bid tid m 0 rxs, None)" for m
      using q(1) z rs incoming_loop_none [OF g, of "?c None" bid tid 0 "[]"]
      by (cases rs) (auto simp: ProcessReferencesOnIncoming_def)
    then show ?thesis using none(3) by (auto simp: taken_def)
  qed
  then show "\<exists>ks. taken 0 hs ks \<and> ?P = Some (links bid tid (map_of ks) 0 rxs, None)"
    "?P = Some (links bid tid m 0 rxs, None) \<longleftrightarrow> sorted (map fst hs)"
    using all_links_ascending [OF d] by (blast, metis option.inject prod.inject)
qed

text \<open>
  C22: with such a database, whatever the order of its rows, the rows that take effect are an ascending part of those
  it returns, in their order, and none is taken for another reference: a new post replies to the posts
  of these rows, each once and in the order they are first mentioned, and a stored post gets their links and those
  of all its board references. If the rows come by ascending number, a new post replies to every post
  its references match; the links of a stored post are those of all references that match or are boards
  exactly if they do. No order makes either of them fail, except that a new post to the control board
  panics, and does so exactly if it refers to a Message-ID and to no post.
\<close>

theorem references_resolved:
  assumes "answers db (build_query (post_sel bid tid isctl) rs) (looked_up isctl) m rs hs"
    and "answers db' (build_query (incoming_sel bid (buildMsgIDArray prefs)) rs) (looked_up False) m' rs hs'"
    and "(rs, xs) = ParseReferences msg"
  shows "(if isctl \<and> (\<forall>r\<in>set rs. Post r = []) \<and> (\<exists>r\<in>set rs. Post r = [] \<and> Board r = [])
     then ProcessReferencesOnPost db rs bid tid isctl = None
     else (\<exists>ks. subseq ks hs \<and> sorted_wrt (<) (map fst ks) \<and>
            ProcessReferencesOnPost db rs bid tid isctl = Some (replies isctl (map_of ks) 0 rs [], None)) \<and>
          (sorted (map fst hs) \<longrightarrow> ProcessReferencesOnPost db rs bid tid isctl = Some (replies isctl m 0 rs [], None))) \<and>
    (\<exists>ks. subseq ks hs' \<and> sorted_wrt (<) (map fst ks) \<and>
       ProcessReferencesOnIncoming db' rs xs prefs bid tid = Some (links bid tid (map_of ks) 0 (zip rs xs), None)) \<and>
    (ProcessReferencesOnIncoming db' rs xs prefs bid tid = Some (links bid tid m' 0 (zip rs xs), None) \<longleftrightarrow> sorted (map fst hs'))"
proof -
  have p: "rs = fst (ParseReferences msg)" "xs = snd (ParseReferences msg)" using assms(3) by (metis fst_conv, metis snd_conv)
  have g: "list_all some_ref rs" and l: "length rs = length xs"
    unfolding p by (rule ParseReferences_good, rule references_wellformed_lengths)
  have z: "map fst (zip rs xs) = rs" "map snd (zip rs xs) = xs" using l by simp_all
  note i = incoming_resolved [of "zip rs xs", unfolded z, OF g refl refl assms(2)]
  show ?thesis
    using post_resolved [OF g assms(1)] i [of tid] unfolding taken_def by (simp split: if_splits) blast+
qed

definition sample_row :: link_row where
  "sample_row = \<lparr>r_bid = 1, r_bname = bs ''b'', r_tid = 3, r_tname = bs ''t'', r_pname = bs ''0123abcdef''\<rparr>"

definition sample_db :: "'a \<Rightarrow> 'a database" where
  "sample_db v = (\<lambda>t. Inr ([Inr (2, v)], None))"

definition second :: "'a \<Rightarrow> nat \<Rightarrow> 'a option" where
  "second v i = (if i = 2 then Some v else None)"

lemma references_resolved_witness:
  "ProcessReferencesOnPost (sample_db (bs ''<a@b>'')) (fst (ParseReferences sample_text)) 1 2 False = Some ([bs ''<a@b>''], None) \<and>
   ProcessReferencesOnIncoming (sample_db sample_row) (fst (ParseReferences sample_text)) (snd (ParseReferences sample_text)) [] 1 2 =
     Some ([\<lparr>mStart = 4, mEnd = 10, mBoard = bs ''b'', mThread = [], mPost = []\<rparr>,
            \<lparr>mStart = 11, mEnd = 21, mBoard = [], mThread = bs ''t'', mPost = bs ''0123abcdef''\<rparr>], None)"
proof -
  let ?rs = "[\<lparr>Board = bs ''b'', Post = [], MsgID = []\<rparr>, \<lparr>Board = [], Post = bs ''0123abcd'', MsgID = []\<rparr>]"
  let ?xs = "[\<lparr>Start = 4, End = 10\<rparr>, \<lparr>Start = 11, End = 21\<rparr>]"
  have a: "answers (sample_db (bs ''<a@b>'')) (build_query (post_sel 1 2 False) ?rs) (looked_up False) (second (bs ''<a@b>'')) ?rs [(2, bs ''<a@b>'')]"
    and b: "answers (sample_db sample_row) (build_query (incoming_sel 1 (buildMsgIDArray [])) ?rs) (looked_up False) (second sample_row) ?rs [(2, sample_row)]"
    by (simp_all add: answers_def build_query_def post_sel_def incoming_sel_def looked_up_def second_def sample_db_def add_sel_def
        next_sel_def split: option.split)
  have r: "replies False (second (bs ''<a@b>'')) 0 ?rs [] = [bs ''<a@b>'']"
    by (simp add: looked_up_def second_def addirt_def)
  have l: "links 1 2 (second sample_row) 0 (zip ?rs ?xs) =
     [\<lparr>mStart = 4, mEnd = 10, mBoard = bs ''b'', mThread = [], mPost = []\<rparr>,
      \<lparr>mStart = 11, mEnd = 21, mBoard = [], mThread = bs ''t'', mPost = bs ''0123abcdef''\<rparr>]"
    by (simp add: link_of_def looked_up_def second_def near_link_def board_link_def sample_row_def)
  show ?thesis using references_resolved [OF a b sample_refs [symmetric]] unfolding r l sample_refs fst_conv snd_conv
    by simp
qed

text \<open>
  Two references, both with a match, whose rows come in the other order: the first row that is read belongs to the
  second reference, the row of the first one is read too late, and its link is lost.
\<close>

lemma unordered_rows_lost:
  "ProcessReferencesOnIncoming (\<lambda>t. Inr ([Inr (2, sample_row), Inr (1, sample_row)], None))
     [\<lparr>Board = [], Post = bs ''01234567'', MsgID = []\<rparr>, \<lparr>Board = [], Post = bs ''0123abcd'', MsgID = []\<rparr>]
     [\<lparr>Start = 0, End = 10\<rparr>, \<lparr>Start = 11, End = 21\<rparr>] [] 1 2 =
   Some ([\<lparr>mStart = 11, mEnd = 21, mBoard = [], mThread = bs ''t'', mPost = bs ''0123abcdef''\<rparr>], None)"
  by (simp add: ProcessReferencesOnIncoming_def build_query_def incoming_sel_def add_sel_def next_sel_def open_rows_def fetchrow_def
      rows_err_def near_link_def sample_row_def split: option.split)

text \<open>
  A message to the control board whose references are all Message-IDs makes \<open>ProcessReferencesOnPost\<close>
  panic: no query is made, and the rows of the nil cursor are asked for.
\<close>

theorem ctl_message_panics:
  assumes "rs \<noteq> []" and "list_all (\<lambda>r. Post r = [] \<and> Board r = [] \<and> MsgID r \<noteq> []) rs"
  shows "ProcessReferencesOnPost db rs bid tid True = None"
proof -
  have "build_loop (post_sel bid tid True) i rs bf = Some bf" for i bf
    using assms(2) by (induction rs arbitrary: i) (auto simp: post_sel_def)
  then have "build_query (post_sel bid tid True) rs = Some None" by (simp add: build_query_def)
  moreover obtain r rs' where "rs = r # rs'" using assms(1) by (cases rs) auto
  ultimately show ?thesis using assms(2) by (simp add: ProcessReferencesOnPost_def open_rows_def fetchrow_def)
qed

definition delete_text :: bytes where
  "delete_text = bs ''delete <a@b.c>''"

lemma ctl_message_panics_witness:
  "ProcessReferencesOnPost db (fst (ParseReferences delete_text)) bid tid True = None"
proof -
  have p: "fst (ParseReferences delete_text) = [\<lparr>Board = [], Post = [], MsgID = bs ''a@b.c''\<rparr>]" by code_simp
  show ?thesis by (rule ctl_message_panics) (simp_all add: p)
qed

subsection \<open>The page\<close>

lemma denotes_one_line: "denotes r t \<Longrightarrow> keep t = t"
proof -
  have k: "keep p = p" if "list_all P p" "\<And>c. P c \<Longrightarrow> c \<noteq> LF \<and> c \<noteq> CR" for p P
    using that(1) by (induction p) (auto simp: keep_def dest: that(2))
  have "c \<noteq> LF \<and> c \<noteq> CR" if "hex_char c" for c using that by (auto simp: hex_char_def word_le_nat_alt)
  then have h: "keep p = p" if "run hex_char m n p" for p m n using that k unfolding run_def by blast
  have "c \<noteq> LF \<and> c \<noteq> CR" if "board_char c" for c using that by (auto simp: board_char_def alnum_char_def word_le_nat_alt)
  then have b: "keep p = p" if "run board_char m n p" for p m n using that k unfolding run_def by blast
  have m: "keep p = p" if "list_all (\<lambda>c. 33 \<le> c \<and> c \<le> 126 \<and> c \<noteq> 62) p" for p
    using that by (rule k) (auto simp: word_le_nat_alt)
  have c: "keep (c # p) = c # keep p" if "c \<noteq> LF" "c \<noteq> CR" for c p using that by (simp add: keep_def)
  have n: "keep [] = []" by (simp add: keep_def)
  assume "denotes r t"
  then show ?thesis unfolding denotes_def by (auto simp: h b m c n)
qed

text \<open>What the reading of the rows gives fits the text, whatever the database answers.\<close>

lemma fetchrow_rows: "fetchrow i c = Some (e, c') \<Longrightarrow> rows c \<noteq> None \<Longrightarrow> rows c' \<noteq> None"
  by (auto simp: fetchrow_def split: if_splits option.splits list.splits sum.splits prod.splits)

lemma fetchrow_total: "rows c \<noteq> None \<Longrightarrow> fetchrow i c \<noteq> None"
  by (auto simp: fetchrow_def split: list.splits sum.splits)

lemma incoming_loop_total:
  "list_all some_ref (map fst rs) \<Longrightarrow> rows c \<noteq> None \<or> list_all (\<lambda>r. \<not> looked_up False r) (map fst rs) \<Longrightarrow>
     incoming_loop bid tid i rs c as \<noteq> None"
proof (induction rs arbitrary: i c as)
  case (Cons rx rs)
  obtain r x where rx: "rx = (r, x)" by (cases rx)
  show ?case
  proof (cases "looked_up False r")
    case True
    then have "rows c \<noteq> None" using Cons.prems(2) by (auto simp: rx)
    then obtain e c' where f: "fetchrow i c = Some (e, c')" using fetchrow_total by fastforce
    then have "rows c' \<noteq> None" using fetchrow_rows \<open>rows c \<noteq> None\<close> by blast
    then show ?thesis using Cons f True by (cases e) (auto simp: rx incoming_loop_Cons simp del: incoming_loop.simps(2))
  next
    case False
    then show ?thesis using Cons by (auto simp: rx incoming_loop_Cons simp del: incoming_loop.simps(2))
  qed
qed simp

definition places :: "bytes \<Rightarrow> nat \<Rightarrow> Index list \<Rightarrow> bool" where
  "places b p xs \<longleftrightarrow> sorted_wrt (\<lambda>x y. End x \<le> Start y) xs \<and>
     list_all (\<lambda>x. p \<le> Start x \<and> Start x < End x \<and> End x \<le> length b \<and> keep (sub b (Start x) (End x)) = sub b (Start x) (End x)) xs"

lemma incoming_fits:
  "incoming_loop bid tid i rs c as = Some (as', e) \<Longrightarrow> places b p (map snd rs) \<Longrightarrow> \<exists>zs. as' = as @ zs \<and> fits b p zs"
proof (induction rs arbitrary: i c as p)
  case Nil
  then show ?case by (simp add: fits_def)
next
  case (Cons rx rs)
  obtain r x where rx: "rx = (r, x)" by (cases rx)
  have x: "p \<le> Start x" "Start x < End x" "End x \<le> length b" "keep (sub b (Start x) (End x)) = sub b (Start x) (End x)"
    "places b (End x) (map snd rs)" "places b p (map snd rs)"
    using Cons.prems(2) by (auto simp: places_def rx list_all_iff)
  have one: "fits b p (z # zs)" if "fits b (End x) zs" "mStart z = Start x" "mEnd z = End x" for z zs
    using that x by (auto simp: fits_def list_all_iff)
  have skip: "\<exists>zs. as' = as @ zs \<and> fits b p zs" if "incoming_loop bid tid (i + 1) rs c' as = Some (as', e)" for c'
    by (rule Cons.IH [OF that x(6)])
  have add: "\<exists>zs. as' = as @ zs \<and> fits b p zs"
    if a: "incoming_loop bid tid (i + 1) rs c' (as @ [z]) = Some (as', e)" and z: "mStart z = Start x" "mEnd z = End x" for c' z
  proof -
    obtain zs where "as' = (as @ [z]) @ zs" "fits b (End x) zs" using Cons.IH [OF a x(5)] by blast
    then have "as' = as @ (z # zs)" "fits b p (z # zs)" using one z by simp_all
    then show ?thesis by blast
  qed
  have pos: "mStart (near_link bid tid x v) = Start x" "mEnd (near_link bid tid x v) = End x" "mStart (full_link x v) = Start x"
    "mEnd (full_link x v) = End x" "mStart (board_link x w) = Start x" "mEnd (board_link x w) = End x" for v w
    by (simp_all add: near_link_def full_link_def board_link_def)
  have none: "\<exists>zs. as = as @ zs \<and> fits b p zs" by (rule exI [of _ "[]"]) (simp add: fits_def)
  show ?case
    using Cons.prems(1) skip add pos none unfolding rx
    by (auto split: if_splits option.splits simp del: append_assoc)
qed

lemma incoming_fits_text:
  "\<exists>refs e. ProcessReferencesOnIncoming db (fst (ParseReferences msg)) (snd (ParseReferences msg)) prefs bid tid = Some (refs, e) \<and>
     fits msg 0 refs"
proof -
  let ?rs = "fst (ParseReferences msg)" and ?xs = "snd (ParseReferences msg)"
  have "list_all2 (\<lambda>r x. Start x < End x \<and> End x \<le> length msg \<and> denotes r (sub msg (Start x) (End x))) ?rs ?xs"
    and s: "sorted_wrt (\<lambda>x y. End x \<le> Start y) ?xs"
    using references_wellformed_facts [of msg] by auto
  then have "list_all (\<lambda>x. 0 \<le> Start x \<and> Start x < End x \<and> End x \<le> length msg \<and>
      keep (sub msg (Start x) (End x)) = sub msg (Start x) (End x)) ?xs"
    by (auto simp: list_all2_conv_all_nth list_all_length dest!: denotes_one_line)
  then have p: "places msg 0 ?xs" using s by (simp add: places_def)
  note g = ParseReferences_good [of msg] and l = references_wellformed_lengths [of msg]
  have z: "map fst (zip ?rs ?xs) = ?rs" "map snd (zip ?rs ?xs) = ?xs" using l by simp_all
  show ?thesis
  proof (cases "?rs = []")
    case True
    then show ?thesis by (simp add: ProcessReferencesOnIncoming_def fits_def)
  next
    case False
    obtain q where q: "build_query (incoming_sel bid (buildMsgIDArray prefs)) ?rs = Some q"
      "q = None \<longleftrightarrow> list_all (\<lambda>r. \<not> looked_up False r) ?rs" using on_incoming.query_total [OF g(1)] by blast
    show ?thesis
    proof (cases "open_rows db q")
      case (Inl e)
      then show ?thesis using False q(1) by (simp add: ProcessReferencesOnIncoming_def fits_def)
    next
      case (Inr rs)
      have "rs \<noteq> None \<or> list_all (\<lambda>r. \<not> looked_up False r) ?rs"
        using Inr q(2) by (auto simp: open_rows_def split: option.splits sum.splits)
      then obtain as e where "incoming_loop bid tid 0 (zip ?rs ?xs) \<lparr>rows = rs, r_id = 0, r_row = no_row\<rparr> [] = Some (as, e)"
        using incoming_loop_total [of "zip ?rs ?xs" "\<lparr>rows = rs, r_id = 0, r_row = no_row\<rparr>" bid tid 0 "[]"] g(1) z by auto
      then show ?thesis using incoming_fits [of bid tid 0 "zip ?rs ?xs"] p z False q(1) Inr
        by (fastforce simp: ProcessReferencesOnIncoming_def)
    qed
  qed
qed

lemma incoming_total:
  "\<exists>refs e. ProcessReferencesOnIncoming db (fst (ParseReferences msg)) (snd (ParseReferences msg)) prefs bid tid = Some (refs, e)"
  using incoming_fits_text by blast

text \<open>
  C20: whatever a post says, whatever the database answers and whatever the limits and templates, the post can be
  shown: nothing panics, and the page consists of markup of the configuration and of the templates and of
  escaped text, which is the text of the post without its line ends, up to the line limit; quotes are closed.
\<close>

theorem post_shown:
  "case ProcessReferencesOnIncoming db (fst (ParseReferences msg)) (snd (ParseReferences msg)) prefs bid tid of
     None \<Rightarrow> False
   | Some (refs, e) \<Rightarrow>
       (case fmtmsg m lim cpl msg refs of None \<Rightarrow> False | Some (page, e') \<Rightarrow> shows_message m lim msg page e')"
  using incoming_fits_text [of db msg prefs bid tid] fmtmsg_shows [of msg _ m lim cpl] by fastforce

text \<open>
  The markup of the first line and of the later lines is exchanged: at the start of the message the code writes
  \<open>PreNonFirstLine\<close>, after a newline \<open>PreFirstLine\<close>.
\<close>

lemma first_line_markup:
  assumes "lim = 0" "at_nl s" "\<not> pendingnewline s" "wroom (dst s) = None"
  shows "preline m lim cpl b s =
    Continue ((say (if src s = 0 then PreNonFirstLine m else PreFirstLine m) s)\<lparr>at_nl := False\<rparr>)"
  using assms by (simp add: preline_def flushnewline_def wr_say)

text \<open>
  References that overlap, which only a faulty stored list can give, make \<open>formatmsg\<close> slice backwards: a panic.
\<close>

lemma overlap_panics:
  assumes "snd (PreRefTmpl m (the_ref r)) = None" "wroom (dst s) = None" "mEnd r < src s"
  shows "put_ref m b r s = None"
  using assms by (simp add: put_ref_def run_tmpl_def wr_say)

end
