(* ===== verification/RefFixup.thy ===== *)
theory RefFixup
  imports PostProps NntpClient
begin

text \<open>
  The rest of \<open>references.go\<close>: what happens to references when a post is stored. Its own references are
  declared, looked up and stored with it; then every earlier post whose declared references name the new
  post is looked through again.

  The transaction is a state with the statements as operations on it: what they compute is PostgreSQL's. The
  loop over batches of 5000 posts may go on for ever if the statement keeps finding posts.
\<close>

record xRefData =
  x_bid :: u32
  x_pid :: u64
  x_message :: bytes
  x_inreplyto :: "bytes list"
  x_activ_refs :: "IBMessageReference list option"
  x_tid :: u64

text \<open>A row of \<open>mod_ref_find_post\<close> before it is taken apart: the list of stored references is JSON, \<open>Inr None\<close> for null.\<close>

record ref_row =
  rr_bid :: u32
  rr_pid :: u64
  rr_message :: bytes
  rr_inreplyto :: "bytes option"
  rr_json :: "nat + IBMessageReference list option"
  rr_tid :: u64

record 'd tx_ops =
  lookup :: "'d \<Rightarrow> link_row database"
  find_post :: "'d \<Rightarrow> u32 \<Rightarrow> u64 \<Rightarrow> bytes \<Rightarrow> bytes \<Rightarrow> bytes \<Rightarrow> nat + ((nat + ref_row) list \<times> nat option)"
  update_refs :: "'d \<Rightarrow> u32 \<Rightarrow> u64 \<Rightarrow> IBMessageReference list \<Rightarrow> nat option \<times> 'd"
  ref_write :: "'d \<Rightarrow> u32 \<Rightarrow> u64 \<Rightarrow> bytes option list \<times> bytes option list \<times> bytes option list \<Rightarrow> nat option \<times> 'd"

definition take_row :: "ref_row \<Rightarrow> IBMessageReference list option \<Rightarrow> xRefData" where
  "take_row r refs =
     \<lparr>x_bid = rr_bid r, x_pid = rr_pid r, x_message = rr_message r,
      x_inreplyto = ExtractAllValidReferences [] (case rr_inreplyto r of None \<Rightarrow> [] | Some s \<Rightarrow> s),
      x_activ_refs = refs, x_tid = rr_tid r\<rparr>"

fun find_rows :: "(nat + ref_row) list \<Rightarrow> nat option \<Rightarrow> xRefData list \<Rightarrow> xRefData list \<times> nat option" where
  "find_rows [] e xs = (xs, e)"
| "find_rows (Inl x # rs) e xs = (xs, Some x)"
| "find_rows (Inr r # rs) e xs =
     (case rr_json r of Inl x \<Rightarrow> (xs, Some x) | Inr refs \<Rightarrow> find_rows rs e (xs @ [take_row r refs]))"

definition FindReferences ::
  "'d tx_ops \<Rightarrow> 'd \<Rightarrow> u32 \<Rightarrow> u64 \<Rightarrow> bytes \<Rightarrow> bytes \<Rightarrow> bytes \<Rightarrow> xRefData list \<times> nat option" where
  "FindReferences ops d off_b off_b_p pname pboard msgid =
     (case find_post ops d off_b off_b_p pname pboard msgid of
        Inl e \<Rightarrow> ([], Some e)
      | Inr (rs, e) \<Rightarrow> find_rows rs e [])"

datatype 'd fix_result = Panicked | Returned "nat option" 'd

text \<open>A slice nothing was appended to is nil, which \<open>DeepEqual\<close> tells from an empty one.\<close>

definition slice_of :: "'a list \<Rightarrow> 'a list option" where
  "slice_of xs = (if xs = [] then None else Some xs)"

text \<open>\<open>fixupAffectedXRefsInTx\<close>: the posts of one batch. Without an error the result says to go on.\<close>

fun fix_posts :: "'d tx_ops \<Rightarrow> xRefData list \<Rightarrow> 'd \<Rightarrow> 'd fix_result" where
  "fix_posts ops [] d = Returned None d"
| "fix_posts ops (x # xs) d =
     (case ParseReferences (x_message x) of
        (srefs, irefs) \<Rightarrow>
          (case ProcessReferencesOnIncoming (lookup ops d) srefs irefs (x_inreplyto x) (x_bid x) (x_tid x) of
             None \<Rightarrow> Panicked
           | Some (arefs, Some e) \<Rightarrow> Returned (Some e) d
           | Some (arefs, None) \<Rightarrow>
               if x_activ_refs x = slice_of arefs then fix_posts ops xs d
               else (case update_refs ops d (x_bid x) (x_pid x) arefs of
                 (Some e, d') \<Rightarrow> Returned (Some e) d'
               | (None, d') \<Rightarrow> fix_posts ops xs d')))"

definition batch_size :: nat where "batch_size = 5000"

partial_function (option) fix_loop ::
  "'d tx_ops \<Rightarrow> bytes \<Rightarrow> bytes \<Rightarrow> bytes \<Rightarrow> u32 \<Rightarrow> u64 \<Rightarrow> 'd \<Rightarrow> 'd fix_result option" where
  "fix_loop ops p_name b_name msgid off_b off_b_p d =
     (case FindReferences ops d off_b off_b_p p_name b_name msgid of
        (xs, Some e) \<Rightarrow> Some (Returned (Some e) d)
      | (xs, None) \<Rightarrow>
          (case fix_posts ops xs d of
             Panicked \<Rightarrow> Some Panicked
           | Returned (Some e) d' \<Rightarrow> Some (Returned (Some e) d')
           | Returned None d' \<Rightarrow>
               if length xs < batch_size then Some (Returned None d')
               else fix_loop ops p_name b_name msgid (x_bid (last xs)) (x_pid (last xs)) d'))"

definition FixupAffectedXRefsInTx :: "'d tx_ops \<Rightarrow> bytes \<Rightarrow> bytes \<Rightarrow> bytes \<Rightarrow> 'd \<Rightarrow> 'd fix_result option" where
  "FixupAffectedXRefsInTx ops p_name b_name msgid d =
     (if p_name = [] \<or> b_name = [] \<or> msgid = [] then Some Panicked
      else fix_loop ops p_name b_name msgid 0 0 d)"

definition InsertXRefs :: "'d tx_ops \<Rightarrow> 'd \<Rightarrow> u32 \<Rightarrow> u64 \<Rightarrow> Reference list \<Rightarrow> nat option \<times> 'd" where
  "InsertXRefs ops d bid bpid xrefs =
     (if xrefs = [] then (None, d)
      else let rs = map xref_row xrefs
           in ref_write ops d bid bpid (map fst rs, map (\<lambda>x. fst (snd x)) rs, map (\<lambda>x. snd (snd x)) rs))"

definition ProcessRefsAfterPost ::
  "'d tx_ops \<Rightarrow> Reference list \<Rightarrow> Index list \<Rightarrow> bytes list \<Rightarrow> u32 \<Rightarrow> u64 \<Rightarrow> u64 \<Rightarrow> bytes \<Rightarrow> bytes \<Rightarrow> bytes \<Rightarrow> 'd \<Rightarrow>
     'd fix_result option" where
  "ProcessRefsAfterPost ops srefs irefs prefs b_id b_t_id b_p_id postid newsgroup msgid d =
     (case InsertXRefs ops d b_id b_p_id srefs of
        (Some e, d1) \<Rightarrow> Some (Returned (Some e) d1)
      | (None, d1) \<Rightarrow>
          (case ProcessReferencesOnIncoming (lookup ops d1) srefs irefs prefs b_id b_t_id of
             None \<Rightarrow> Some Panicked
           | Some (arefs, Some e) \<Rightarrow> Some (Returned (Some e) d1)
           | Some (arefs, None) \<Rightarrow>
               (case update_refs ops d1 b_id b_p_id arefs of
                  (Some e, d2) \<Rightarrow> Some (Returned (Some e) d2)
                | (None, d2) \<Rightarrow> FixupAffectedXRefsInTx ops postid newsgroup msgid d2)))"

subsection \<open>The loop ends\<close>

text \<open>What the statement promises: \<open>WHERE (b_id, b_p_id) > ($1, $2)\<close>.\<close>

definition rank :: "u32 \<Rightarrow> u64 \<Rightarrow> nat" where
  "rank b p = unat b * 2 ^ 64 + unat p"

definition finds_later :: "'d tx_ops \<Rightarrow> bool" where
  "finds_later ops \<longleftrightarrow>
     (\<forall>d b p n bo m rs e r. find_post ops d b p n bo m = Inr (rs, e) \<longrightarrow> Inr r \<in> set rs \<longrightarrow> rank b p < rank (rr_bid r) (rr_pid r))"

lemma rank_bound: "rank b p < 2 ^ 96"
proof -
  have "unat b < 2 ^ 32" "unat p < 2 ^ 64" using unsigned_less [of b] unsigned_less [of p] by simp_all
  then show ?thesis unfolding rank_def by simp
qed

lemma find_rows_later:
  "find_rows rs e xs = (ys, e') \<Longrightarrow> y \<in> set ys \<Longrightarrow> y \<in> set xs \<or> (\<exists>r. Inr r \<in> set rs \<and> x_bid y = rr_bid r \<and> x_pid y = rr_pid r)"
proof (induction rs e xs rule: find_rows.induct)
  case (3 r rs e xs)
  show ?case
  proof (cases "rr_json r")
    case (Inl x)
    then show ?thesis using "3.prems" by auto
  next
    case (Inr refs)
    then show ?thesis using "3.IH" [OF Inr] "3.prems" by (auto simp: take_row_def)
  qed
qed auto

lemma FindReferences_later:
  assumes "finds_later ops" "FindReferences ops d b p n bo m = (xs, e)" "x \<in> set xs"
  shows "rank b p < rank (x_bid x) (x_pid x)"
proof (cases "find_post ops d b p n bo m")
  case (Inl y)
  then show ?thesis using assms(2,3) by (simp add: FindReferences_def)
next
  case (Inr q)
  obtain rs e' where q: "q = (rs, e')" by (cases q)
  then have "find_rows rs e' [] = (xs, e)" using assms(2) Inr by (simp add: FindReferences_def)
  from find_rows_later [OF this assms(3)] obtain r where "Inr r \<in> set rs" "x_bid x = rr_bid r" "x_pid x = rr_pid r" by auto
  then show ?thesis using assms(1) Inr q unfolding finds_later_def by metis
qed

lemma fix_posts_safe: "fix_posts ops xs d \<noteq> Panicked"
proof (induction xs arbitrary: d)
  case (Cons x xs)
  obtain rs ixs where p: "ParseReferences (x_message x) = (rs, ixs)" by (cases "ParseReferences (x_message x)")
  obtain as e where "ProcessReferencesOnIncoming (lookup ops d) rs ixs (x_inreplyto x) (x_bid x) (x_tid x) = Some (as, e)"
    using incoming_total [of "lookup ops d" "x_message x" "x_inreplyto x" "x_bid x" "x_tid x"] unfolding p by auto
  then show ?case using Cons by (auto simp: p split: option.split prod.split)
qed simp

lemma fix_loop_returns:
  assumes "finds_later ops"
  shows "\<exists>e d'. fix_loop ops n bo m b p d = Some (Returned e d')"
proof (induction "2 ^ 96 - rank b p" arbitrary: b p d rule: less_induct)
  case less
  obtain xs e where f: "FindReferences ops d b p n bo m = (xs, e)" by (cases "FindReferences ops d b p n bo m")
  show ?case
  proof (cases e)
    case (Some x)
    then show ?thesis by (subst fix_loop.simps) (simp add: f)
  next
    case None
    obtain e' d' where r: "fix_posts ops xs d = Returned e' d'" using fix_posts_safe [of ops xs d] by (cases "fix_posts ops xs d") auto
    show ?thesis
    proof (cases "e' = None \<and> batch_size \<le> length xs")
      case False
      then show ?thesis using None by (subst fix_loop.simps) (auto simp: f r split: option.split)
    next
      case True
      then have "xs \<noteq> []" by (auto simp: batch_size_def)
      then have "rank b p < rank (x_bid (last xs)) (x_pid (last xs))" using FindReferences_later [OF assms f] by simp
      then have "\<exists>e d''. fix_loop ops n bo m (x_bid (last xs)) (x_pid (last xs)) d' = Some (Returned e d'')"
        using rank_bound [of "x_bid (last xs)" "x_pid (last xs)"] by (intro less.hyps) linarith
      then show ?thesis using None True by (subst fix_loop.simps) (simp add: f r)
    qed
  qed
qed

text \<open>
  C24: storing a post always ends, with success or the error of a statement: the loop over the posts that refer
  to it moves forward through the posts, and no post it looks through makes it panic.
\<close>

theorem after_post_returns:
  assumes "finds_later ops" and "postid \<noteq> []" and "newsgroup \<noteq> []" and "msgid \<noteq> []"
  shows "\<exists>e d'. ProcessRefsAfterPost ops (fst (ParseReferences msg)) (snd (ParseReferences msg)) prefs b_id b_t_id b_p_id
    postid newsgroup msgid d = Some (Returned e d')"
proof -
  obtain e1 d1 where i: "InsertXRefs ops d b_id b_p_id (fst (ParseReferences msg)) = (e1, d1)"
    by (cases "InsertXRefs ops d b_id b_p_id (fst (ParseReferences msg))")
  obtain as e2 where a: "ProcessReferencesOnIncoming (lookup ops d1) (fst (ParseReferences msg)) (snd (ParseReferences msg)) prefs b_id b_t_id
      = Some (as, e2)" using incoming_total by blast
  obtain e3 d3 where u: "update_refs ops d1 b_id b_p_id as = (e3, d3)" by (cases "update_refs ops d1 b_id b_p_id as")
  have "\<exists>e d'. FixupAffectedXRefsInTx ops postid newsgroup msgid d3 = Some (Returned e d')"
    using fix_loop_returns [OF assms(1)] assms(2-4) by (simp add: FixupAffectedXRefsInTx_def)
  then show ?thesis using i a u by (cases e1; cases e2; cases e3) (auto simp: ProcessRefsAfterPost_def)
qed

text \<open>A table of one post that refers to the new one, and the links stored for it.\<close>

definition one_post_ops :: "IBMessageReference list option tx_ops" where
  "one_post_ops =
     \<lparr>lookup = (\<lambda>d. sample_db sample_row),
      find_post = (\<lambda>d b p n bo m. Inr (if rank b p < rank 1 5 then
         [Inr \<lparr>rr_bid = 1, rr_pid = 5, rr_message = sample_text, rr_inreplyto = None, rr_json = Inr d, rr_tid = 2\<rparr>] else [], None)),
      update_refs = (\<lambda>d b p refs. (None, if b = 1 \<and> p = 5 then Some refs else d)),
      ref_write = (\<lambda>d b p c. (None, d))\<rparr>"

lemma after_post_returns_witness:
  "\<exists>e d'. ProcessRefsAfterPost one_post_ops (fst (ParseReferences sample_text)) (snd (ParseReferences sample_text)) [] 1 3 6
    (bs ''0123abcdef'') (bs ''b'') (bs ''a@b'') None = Some (Returned e d')"
proof (rule after_post_returns)
  show "finds_later one_post_ops" by (auto simp: finds_later_def one_post_ops_def)
qed simp_all

end
