(* ===== verification/CaptchaStore.thy ===== *)
theory CaptchaStore
  imports Prelude
begin

text \<open>
  \<open>app/captchastore/memstore/memstore.go\<close>: the in-memory store of solved captchas, a doubly linked list of
  objects with their expiry times and a table from objects to its nodes.

  Nodes live in a store of their own, as \<open>StoreSolved\<close> updates them through pointers: an address is a
  natural number, \<open>brk\<close> the first one not yet allocated, nil is \<open>None\<close>. Times are integers, which the code
  only compares. The mutex makes each call one step, so the calls of several goroutines are some sequence
  of steps; a call that never returns is \<open>None\<close>, and keeps the mutex.
\<close>

record expobj =
  nxt :: "nat option"
  prv :: "nat option"
  obj :: bytes
  expiry :: int

type_synonym KEKInfo = "u64 \<times> bytes"

record MemStore =
  mem :: "nat \<Rightarrow> expobj"
  brk :: nat
  keks :: "KEKInfo list"
  solved :: "bytes \<Rightarrow> nat option"
  head :: "nat option"
  tail :: "nat option"

definition NewMemStore :: MemStore where
  "NewMemStore = \<lparr>mem = (\<lambda>_. \<lparr>nxt = None, prv = None, obj = [], expiry = 0\<rparr>), brk = 0, keks = [], solved = Map.empty,
     head = None, tail = None\<rparr>"

definition set_nxt :: "nat \<Rightarrow> nat option \<Rightarrow> MemStore \<Rightarrow> MemStore" where
  "set_nxt a p ms = ms\<lparr>mem := (mem ms)(a := (mem ms a)\<lparr>nxt := p\<rparr>)\<rparr>"

definition set_prv :: "nat \<Rightarrow> nat option \<Rightarrow> MemStore \<Rightarrow> MemStore" where
  "set_prv a p ms = ms\<lparr>mem := (mem ms)(a := (mem ms a)\<lparr>prv := p\<rparr>)\<rparr>"

text \<open>The body of the loop that drops expired objects from the tail.\<close>

definition drop_tail :: "nat \<Rightarrow> MemStore \<Rightarrow> MemStore" where
  "drop_tail xp ms =
     (let ms = ms\<lparr>tail := prv (mem ms xp)\<rparr>;
          ms = (case prv (mem ms xp) of None \<Rightarrow> ms | Some p \<Rightarrow> set_nxt p None ms)
      in ms\<lparr>solved := (solved ms)(obj (mem ms xp) := None)\<rparr>)"

partial_function (option) expire_loop :: "int \<Rightarrow> nat option \<Rightarrow> MemStore \<Rightarrow> MemStore option" where
  "expire_loop nowtime p ms =
     (case p of
        None \<Rightarrow> Some ms
      | Some xp \<Rightarrow>
          if expiry (mem ms xp) < nowtime then
            (let ms' = drop_tail xp ms in expire_loop nowtime (prv (mem ms' xp)) ms')
          else Some ms)"

text \<open>
  The loop that looks for the place of the new node \<open>eo\<close>: \<open>nextpp\<close> is the address of \<open>head\<close> and stays so, only
  \<open>lastp\<close> changes.
\<close>

partial_function (option) insert_loop :: "nat \<Rightarrow> int \<Rightarrow> nat option \<Rightarrow> MemStore \<Rightarrow> MemStore option" where
  "insert_loop eo expires lastp ms =
     (if (case head ms of None \<Rightarrow> True | Some h \<Rightarrow> expiry (mem ms h) \<le> expires) then
        (let next = head ms;
             ms = set_prv eo lastp (set_nxt eo next ms);
             ms = (case next of None \<Rightarrow> ms\<lparr>tail := Some eo\<rparr> | Some h \<Rightarrow> set_prv h (Some eo) ms)
         in Some (ms\<lparr>head := Some eo\<rparr>))
      else insert_loop eo expires (head ms) ms)"

definition StoreSolved :: "bytes \<Rightarrow> int \<Rightarrow> int \<Rightarrow> MemStore \<Rightarrow> (bool \<times> MemStore) option" where
  "StoreSolved ob expires nowtime ms =
     (case expire_loop nowtime (tail ms) ms of
        None \<Rightarrow> None
      | Some ms \<Rightarrow>
          if solved ms ob \<noteq> None then Some (False, ms)
          else
            let eo = brk ms;
                ms = ms\<lparr>mem := (mem ms)(eo := \<lparr>nxt = None, prv = None, obj = ob, expiry = expires\<rparr>), brk := eo + 1\<rparr>
            in (case insert_loop eo expires None ms of
                  None \<Rightarrow> None
                | Some ms \<Rightarrow> Some (True, ms\<lparr>solved := (solved ms)(ob \<mapsto> eo)\<rparr>)))"

definition LoadKEKs :: "(u64 \<times> bytes) option \<Rightarrow> MemStore \<Rightarrow> KEKInfo list \<times> MemStore" where
  "LoadKEKs ifempty ms =
     (let ms = (case ifempty of Some k \<Rightarrow> if keks ms = [] then ms\<lparr>keks := [k]\<rparr> else ms | None \<Rightarrow> ms)
      in (keks ms, ms))"

subsection \<open>What holds of every store\<close>

text \<open>\<open>backs ms p xs\<close>: from \<open>p\<close> the \<open>prev\<close> pointers run through the nodes \<open>xs\<close> to nil.\<close>

fun backs :: "(nat \<Rightarrow> expobj) \<Rightarrow> nat option \<Rightarrow> nat list \<Rightarrow> bool" where
  "backs h p [] = (p = None)"
| "backs h p (a # xs) = (p = Some a \<and> backs h (prv (h a)) xs)"

lemma backs_unique: "backs h p xs \<Longrightarrow> backs h p ys \<Longrightarrow> xs = ys"
  by (induction h p xs arbitrary: ys rule: backs.induct) (case_tac ys; simp)+

lemma backs_cong: "(\<And>a. a \<in> set xs \<Longrightarrow> prv (h' a) = prv (h a)) \<Longrightarrow> backs h' p xs = backs h p xs"
  by (induction h p xs rule: backs.induct) auto

text \<open>
  The nodes still to expire are the path \<open>xs\<close> from the tail to the head: each is the node of its object in the
  table, and they expire in this order. When the path is empty, a head may be left over.
\<close>

definition store_inv :: "MemStore \<Rightarrow> nat list \<Rightarrow> bool" where
  "store_inv ms xs \<longleftrightarrow>
     backs (mem ms) (tail ms) xs \<and> distinct xs \<and> list_all (\<lambda>a. a < brk ms) xs \<and>
     (case head ms of None \<Rightarrow> xs = [] | Some h \<Rightarrow> h < brk ms \<and> prv (mem ms h) = None \<and> (xs \<noteq> [] \<longrightarrow> last xs = h)) \<and>
     list_all (\<lambda>a. solved ms (obj (mem ms a)) = Some a) xs \<and>
     (\<forall>ob a. solved ms ob = Some a \<longrightarrow> a < brk ms \<and> obj (mem ms a) = ob) \<and>
     sorted (map (\<lambda>a. expiry (mem ms a)) xs)"

lemma drop_tail_inv:
  assumes "store_inv ms (a # xs)"
  shows "store_inv (drop_tail a ms) xs" "tail (drop_tail a ms) = prv (mem ms a)" "prv (mem (drop_tail a ms) b) = prv (mem ms b)"
    "obj (mem (drop_tail a ms) b) = obj (mem ms b)" "expiry (mem (drop_tail a ms) b) = expiry (mem ms b)"
    "head (drop_tail a ms) = head ms" "brk (drop_tail a ms) = brk ms" "keks (drop_tail a ms) = keks ms"
    "solved (drop_tail a ms) = (solved ms)(obj (mem ms a) := None)"
proof -
  show sel: "tail (drop_tail a ms) = prv (mem ms a)" "\<And>b. prv (mem (drop_tail a ms) b) = prv (mem ms b)"
    "\<And>b. obj (mem (drop_tail a ms) b) = obj (mem ms b)" "\<And>b. expiry (mem (drop_tail a ms) b) = expiry (mem ms b)"
    "head (drop_tail a ms) = head ms" "brk (drop_tail a ms) = brk ms" "keks (drop_tail a ms) = keks ms"
    "solved (drop_tail a ms) = (solved ms)(obj (mem ms a) := None)"
    by (auto simp: drop_tail_def set_nxt_def Let_def split: option.split)
  have n: "solved ms (obj (mem ms b)) = Some b" if "b \<in> set (a # xs)" for b
    using assms that by (auto simp: store_inv_def list_all_iff)
  have o: "obj (mem ms b) \<noteq> obj (mem ms a)" if "b \<in> set xs" for b
  proof
    assume "obj (mem ms b) = obj (mem ms a)"
    then have "Some b = Some a" using n [of a] n [of b] that by simp
    then show False using that assms by (simp add: store_inv_def)
  qed
  have b: "backs (mem (drop_tail a ms)) (prv (mem ms a)) xs"
    using assms backs_cong [of xs "mem (drop_tail a ms)" "mem ms" "prv (mem ms a)"] sel(2) by (simp add: store_inv_def)
  show "store_inv (drop_tail a ms) xs"
    unfolding store_inv_def sel
  proof (intro conjI)
    show "case head ms of None \<Rightarrow> xs = [] | Some h \<Rightarrow> h < brk ms \<and> prv (mem ms h) = None \<and> (xs \<noteq> [] \<longrightarrow> last xs = h)"
      using assms by (auto simp: store_inv_def split: option.splits)
    show "\<forall>ob b. ((solved ms)(obj (mem ms a) := None)) ob = Some b \<longrightarrow> b < brk ms \<and> obj (mem ms b) = ob"
      using assms by (auto simp: store_inv_def)
    show "list_all (\<lambda>b. ((solved ms)(obj (mem ms a) := None)) (obj (mem ms b)) = Some b) xs"
      using n o by (auto simp: list_all_iff)
  qed (use assms b in \<open>auto simp: store_inv_def\<close>)
qed

lemma expire_loop_inv:
  assumes "store_inv ms xs"
  shows "\<exists>ms'. expire_loop t (tail ms) ms = Some ms' \<and> store_inv ms' (dropWhile (\<lambda>a. expiry (mem ms a) < t) xs) \<and>
    (\<forall>b. obj (mem ms' b) = obj (mem ms b) \<and> expiry (mem ms' b) = expiry (mem ms b)) \<and> head ms' = head ms \<and> brk ms' = brk ms \<and>
    solved ms' = (\<lambda>ob. if ob \<in> (\<lambda>a. obj (mem ms a)) ` set (takeWhile (\<lambda>a. expiry (mem ms a) < t) xs) then None else solved ms ob)"
  using assms
proof (induction xs arbitrary: ms)
  case Nil
  then have "expire_loop t (tail ms) ms = Some ms" by (subst expire_loop.simps) (simp add: store_inv_def)
  then show ?case using Nil by simp
next
  case (Cons a xs)
  then have a: "tail ms = Some a" by (simp add: store_inv_def)
  note d = drop_tail_inv [OF Cons.prems]
  show ?case
  proof (cases "expiry (mem ms a) < t")
    case True
    have e: "expire_loop t (tail ms) ms = expire_loop t (tail (drop_tail a ms)) (drop_tail a ms)"
      using a True d(2,3) by (subst expire_loop.simps) (simp add: Let_def)
    obtain ms' where m: "expire_loop t (tail (drop_tail a ms)) (drop_tail a ms) = Some ms'"
      "store_inv ms' (dropWhile (\<lambda>a. expiry (mem ms a) < t) xs)"
      "\<forall>b. obj (mem ms' b) = obj (mem ms b) \<and> expiry (mem ms' b) = expiry (mem ms b)" "head ms' = head ms" "brk ms' = brk ms"
      "solved ms' = (\<lambda>ob. if ob \<in> (\<lambda>a. obj (mem ms a)) ` set (takeWhile (\<lambda>a. expiry (mem ms a) < t) xs) then None
         else ((solved ms)(obj (mem ms a) := None)) ob)"
      using Cons.IH [OF d(1)] unfolding d(3-9) by blast
    have "solved ms' = (\<lambda>ob. if ob \<in> (\<lambda>a. obj (mem ms a)) ` set (takeWhile (\<lambda>a. expiry (mem ms a) < t) (a # xs)) then None else solved ms ob)"
      using True unfolding m(6) by (simp add: fun_eq_iff)
    then show ?thesis unfolding e using m(1-5) True by simp
  next
    case False
    then have "expire_loop t (tail ms) ms = Some ms" using a by (subst expire_loop.simps) simp
    then show ?thesis using False Cons.prems by simp
  qed
qed

text \<open>When the loop for the place of a new node never ends.\<close>

definition blocked :: "int \<Rightarrow> MemStore \<Rightarrow> bool" where
  "blocked e ms \<longleftrightarrow> (\<exists>h. head ms = Some h \<and> e < expiry (mem ms h))"

lemma insert_loop_blocked: "blocked e ms \<Longrightarrow> insert_loop eo e lastp ms = None"
proof (rule ccontr)
  assume b: "blocked e ms" and "insert_loop eo e lastp ms \<noteq> None"
  then obtain ms' where "insert_loop eo e lastp ms = Some ms'" by auto
  then have "\<not> blocked e ms"
    by (rule insert_loop.raw_induct [where P = "\<lambda>eo e lastp ms y. \<not> blocked e ms", rotated])
      (auto simp: blocked_def split: if_splits option.splits)
  then show False using b by simp
qed

text \<open>The nodes still to expire after a new one: it is not among them when only a left-over head is there.\<close>

definition with_new :: "nat \<Rightarrow> MemStore \<Rightarrow> nat list \<Rightarrow> nat list" where
  "with_new eo ms xs = (if head ms = None then [eo] else if xs = [] then [] else xs @ [eo])"

lemma backs_snoc:
  "backs h p xs \<Longrightarrow> xs \<noteq> [] \<Longrightarrow> distinct xs \<Longrightarrow> a \<notin> set xs \<Longrightarrow> (\<And>b. b \<in> set xs \<Longrightarrow> b \<noteq> last xs \<Longrightarrow> prv (h' b) = prv (h b)) \<Longrightarrow>
     prv (h' (last xs)) = Some a \<Longrightarrow> prv (h' a) = None \<Longrightarrow> backs h' p (xs @ [a])"
proof (induction h p xs rule: backs.induct)
  case (2 h p b xs)
  then show ?case
  proof (cases "xs = []")
    case False
    then have "b \<noteq> last (b # xs)" using "2.prems"(3) by auto
    then have "prv (h' b) = prv (h b)" using "2.prems"(5) [of b] by simp
    then show ?thesis using "2.IH" "2.prems" False by auto
  qed simp
qed simp

lemma sorted_map_last: "sorted (map f xs) \<Longrightarrow> b \<in> set xs \<Longrightarrow> f b \<le> f (last xs)"
  by (induction xs) auto

lemma insert_inv:
  assumes inv: "store_inv ms xs" and new: "solved ms ob = None" and nb: "\<not> blocked e ms"
  defines "eo \<equiv> brk ms"
  defines "ms0 \<equiv> ms\<lparr>mem := (mem ms)(eo := \<lparr>nxt = None, prv = None, obj = ob, expiry = e\<rparr>), brk := eo + 1\<rparr>"
  shows "\<exists>ms1. insert_loop eo e None ms0 = Some ms1 \<and> store_inv (ms1\<lparr>solved := (solved ms1)(ob \<mapsto> eo)\<rparr>) (with_new eo ms xs) \<and>
    (\<forall>b. b \<noteq> eo \<longrightarrow> obj (mem ms1 b) = obj (mem ms b) \<and> expiry (mem ms1 b) = expiry (mem ms b)) \<and>
    obj (mem ms1 eo) = ob \<and> expiry (mem ms1 eo) = e \<and> solved ms1 = solved ms \<and> brk ms1 = eo + 1 \<and> head ms1 = Some eo \<and>
    prv (mem ms1 eo) = None"
proof -
  define h where "h = head ms"
  define ms1 where "ms1 = (case h of None \<Rightarrow> (set_prv eo None (set_nxt eo h ms0))\<lparr>tail := Some eo\<rparr>
      | Some a \<Rightarrow> set_prv a (Some eo) (set_prv eo None (set_nxt eo h ms0)))\<lparr>head := Some eo\<rparr>"
  have hlt: "a < eo" if "h = Some a" for a using inv that by (auto simp: store_inv_def eo_def h_def)
  have "insert_loop eo e None ms0 = Some ms1"
    using nb hlt by (subst insert_loop.simps) (auto simp: ms0_def ms1_def h_def blocked_def Let_def split: option.splits)
  moreover have m: "obj (mem ms1 b) = (if b = eo then ob else obj (mem ms b))" "expiry (mem ms1 b) = (if b = eo then e else expiry (mem ms b))"
    "prv (mem ms1 b) = (if h = Some b then Some eo else if b = eo then None else prv (mem ms b))"
    "solved ms1 = solved ms" "brk ms1 = eo + 1" "head ms1 = Some eo" "tail ms1 = (if h = None then Some eo else tail ms)" for b
    using hlt by (auto simp: ms1_def ms0_def set_prv_def set_nxt_def split: option.split)
  moreover have "prv (mem ms1 eo) = None" using m(3) hlt by auto
  moreover have "store_inv (ms1\<lparr>solved := (solved ms1)(ob \<mapsto> eo)\<rparr>) (with_new eo ms xs)"
  proof -
    have x: "a < eo" "a \<noteq> eo" "solved ms (obj (mem ms a)) = Some a" "obj (mem ms a) \<noteq> ob" if "a \<in> set xs" for a
      using inv that new by (auto simp: store_inv_def list_all_iff eo_def)
    have s: "a < eo \<and> obj (mem ms a) = ob'" if "solved ms ob' = Some a" for ob' a using inv that by (auto simp: store_inv_def eo_def)
    show ?thesis
    proof (cases h)
      case None
      then have "xs = []" using inv by (simp add: store_inv_def h_def)
      then show ?thesis using None s m by (auto simp: store_inv_def with_new_def h_def less_Suc_eq)
    next
      case (Some a)
      show ?thesis
      proof (cases "xs = []")
        case True
        have "a < eo" using hlt Some by simp
        then show ?thesis using True Some s m inv by (auto simp: store_inv_def with_new_def h_def less_Suc_eq)
      next
        case False
        have l: "last xs = a" "distinct xs" "backs (mem ms) (tail ms) xs" "sorted (map (\<lambda>a. expiry (mem ms a)) xs)"
          using inv False Some by (auto simp: store_inv_def h_def)
        have "backs (mem ms1) (tail ms) (xs @ [eo])"
          by (rule backs_snoc [OF l(3) False l(2)]) (use m(3) x l(1) Some hlt in auto)
        moreover have "expiry (mem ms b) \<le> e" if "b \<in> set xs" for b
        proof -
          have "expiry (mem ms b) \<le> expiry (mem ms a)"
            using l(1,4) False that append_butlast_last_id [OF False]
            by (metis sorted_map_last)
          moreover have "expiry (mem ms a) \<le> e" using nb Some by (auto simp: blocked_def h_def)
          ultimately show ?thesis by simp
        qed
        moreover have "sorted (map (\<lambda>a. expiry (mem ms1 a)) xs)"
          using l(4) x(2) m(2) by (metis (mono_tags, lifting) map_eq_conv)
        moreover have "eo \<notin> set xs" "last xs \<noteq> eo" "last xs < eo" using x(1) False by (auto dest: last_in_set)
        ultimately show ?thesis
          using Some False s m x l by (auto simp: store_inv_def with_new_def h_def list_all_iff sorted_append less_Suc_eq)
      qed
    qed
  qed
  ultimately show ?thesis by auto
qed

text \<open>A call: the objects that expired are gone, and a new one is in the table.\<close>

definition after_expiry :: "int \<Rightarrow> MemStore \<Rightarrow> nat list \<Rightarrow> bytes \<Rightarrow> nat option" where
  "after_expiry t ms xs =
     (\<lambda>ob. if ob \<in> (\<lambda>a. obj (mem ms a)) ` set (takeWhile (\<lambda>a. expiry (mem ms a) < t) xs) then None else solved ms ob)"

definition left_after :: "int \<Rightarrow> MemStore \<Rightarrow> nat list \<Rightarrow> nat list" where
  "left_after t ms xs = dropWhile (\<lambda>a. expiry (mem ms a) < t) xs"

lemma StoreSolved_step:
  assumes "store_inv ms xs"
  shows "if after_expiry t ms xs ob \<noteq> None then
      \<exists>ms'. StoreSolved ob e t ms = Some (False, ms') \<and> store_inv ms' (left_after t ms xs) \<and> solved ms' = after_expiry t ms xs \<and>
        (\<forall>b. obj (mem ms' b) = obj (mem ms b) \<and> expiry (mem ms' b) = expiry (mem ms b)) \<and> head ms' = head ms
    else if blocked e ms then StoreSolved ob e t ms = None
    else \<exists>ms'. StoreSolved ob e t ms = Some (True, ms') \<and> store_inv ms' (with_new (brk ms) ms (left_after t ms xs)) \<and>
      solved ms' = (after_expiry t ms xs)(ob \<mapsto> brk ms) \<and> head ms' = Some (brk ms) \<and>
      obj (mem ms' (brk ms)) = ob \<and> expiry (mem ms' (brk ms)) = e \<and>
      (\<forall>b. b \<noteq> brk ms \<longrightarrow> obj (mem ms' b) = obj (mem ms b) \<and> expiry (mem ms' b) = expiry (mem ms b))"
proof -
  define ys where "ys = left_after t ms xs"
  obtain ms1 where m: "expire_loop t (tail ms) ms = Some ms1" "store_inv ms1 ys"
    "\<forall>b. obj (mem ms1 b) = obj (mem ms b) \<and> expiry (mem ms1 b) = expiry (mem ms b)" "head ms1 = head ms" "brk ms1 = brk ms"
    "solved ms1 = after_expiry t ms xs"
    using expire_loop_inv [OF assms(1), of t] unfolding ys_def left_after_def after_expiry_def by blast
  have b: "blocked e ms1 = blocked e ms" using m(3,4) by (simp add: blocked_def)
  show ?thesis
  proof (cases "after_expiry t ms xs ob")
    case (Some a)
    then show ?thesis using m by (simp add: StoreSolved_def ys_def)
  next
    case None
    then have n: "solved ms1 ob = None" using m(6) by simp
    let ?ms0 = "ms1\<lparr>mem := (mem ms1)(brk ms1 := \<lparr>nxt = None, prv = None, obj = ob, expiry = e\<rparr>), brk := brk ms1 + 1\<rparr>"
    show ?thesis
    proof (cases "blocked e ms")
      case True
      obtain h where h: "head ms1 = Some h" "e < expiry (mem ms1 h)" using True b by (auto simp: blocked_def)
      then have "h < brk ms1" using m(2) by (auto simp: store_inv_def)
      then have "blocked e ?ms0" using h by (auto simp: blocked_def)
      then show ?thesis using True None n m(1) insert_loop_blocked by (simp add: StoreSolved_def Let_def)
    next
      case False
      then have nb: "\<not> blocked e ms1" using b by simp
      from insert_inv [OF m(2) n nb] obtain ms2 where i: "insert_loop (brk ms1) e None ?ms0 = Some ms2"
        "store_inv (ms2\<lparr>solved := (solved ms2)(ob \<mapsto> brk ms1)\<rparr>) (with_new (brk ms1) ms1 ys)"
        "\<forall>b. b \<noteq> brk ms1 \<longrightarrow> obj (mem ms2 b) = obj (mem ms1 b) \<and> expiry (mem ms2 b) = expiry (mem ms1 b)"
        "obj (mem ms2 (brk ms1)) = ob" "expiry (mem ms2 (brk ms1)) = e" "solved ms2 = solved ms1" "head ms2 = Some (brk ms1)" by blast
      have "with_new (brk ms1) ms1 ys = with_new (brk ms) ms ys" using m(4,5) by (simp add: with_new_def)
      then show ?thesis using None False n m i by (simp add: StoreSolved_def Let_def ys_def)
    qed
  qed
qed

subsection \<open>Reachable stores\<close>

text \<open>The calls of \<open>StoreSolved\<close> on a store, one after another: object, expiry time, time of the call.\<close>

type_synonym call = "bytes \<times> int \<times> int"

fun run_calls :: "call list \<Rightarrow> MemStore \<Rightarrow> (bool list \<times> MemStore) option" where
  "run_calls [] ms = Some ([], ms)"
| "run_calls ((ob, e, t) # cs) ms =
     (case StoreSolved ob e t ms of
        None \<Rightarrow> None
      | Some (f, ms) \<Rightarrow> (case run_calls cs ms of None \<Rightarrow> None | Some (fs, ms) \<Rightarrow> Some (f # fs, ms)))"

lemma new_store_inv: "store_inv NewMemStore []"
  by (simp add: store_inv_def NewMemStore_def)

lemma StoreSolved_inv:
  assumes "store_inv ms xs" "StoreSolved ob e t ms = Some (f, ms')"
  shows "\<exists>ys. store_inv ms' ys"
  using StoreSolved_step [OF assms(1), of t ob e] assms(2) by (auto split: if_splits)

lemma run_calls_inv: "store_inv ms xs \<Longrightarrow> run_calls cs ms = Some (fs, ms') \<Longrightarrow> \<exists>ys. store_inv ms' ys"
proof (induction cs arbitrary: ms xs fs)
  case (Cons c cs)
  obtain ob e t where c: "c = (ob, e, t)" by (cases c)
  then obtain f ms1 fs' where "StoreSolved ob e t ms = Some (f, ms1)" "run_calls cs ms1 = Some (fs', ms')"
    using Cons.prems(2) by (auto split: option.splits)
  then show ?case using Cons.IH StoreSolved_inv [OF Cons.prems(1)] by blast
qed auto

text \<open>A node of the table whose time has not come stays in the table.\<close>

lemma StoreSolved_keeps:
  assumes inv: "store_inv ms xs" and a: "solved ms ob' = Some a" "t \<le> expiry (mem ms a)" and s: "StoreSolved ob e t ms = Some (f, ms')"
  shows "solved ms' ob' = Some a \<and> expiry (mem ms' a) = expiry (mem ms a)"
proof -
  have al: "a < brk ms" "obj (mem ms a) = ob'" using inv a(1) by (auto simp: store_inv_def)
  have "ob' \<notin> (\<lambda>a. obj (mem ms a)) ` set (takeWhile (\<lambda>a. expiry (mem ms a) < t) xs)"
  proof
    assume "ob' \<in> (\<lambda>a. obj (mem ms a)) ` set (takeWhile (\<lambda>a. expiry (mem ms a) < t) xs)"
    then obtain b where b: "b \<in> set xs" "obj (mem ms b) = ob'" "expiry (mem ms b) < t" by (auto dest: set_takeWhileD)
    then have "solved ms ob' = Some b" using inv by (auto simp: store_inv_def list_all_iff)
    then show False using a b(3) by simp
  qed
  then have k: "after_expiry t ms xs ob' = Some a" using a(1) by (simp add: after_expiry_def)
  have "ob' \<noteq> ob" if "after_expiry t ms xs ob = None" using k that by auto
  then show ?thesis using StoreSolved_step [OF inv, of t ob e] s k al by (auto split: if_splits)
qed

lemma run_calls_keeps:
  "store_inv ms xs \<Longrightarrow> solved ms ob = Some a \<Longrightarrow> \<forall>(o', e', t)\<in>set cs. t \<le> expiry (mem ms a) \<Longrightarrow> run_calls cs ms = Some (fs, ms') \<Longrightarrow>
     solved ms' ob = Some a \<and> expiry (mem ms' a) = expiry (mem ms a)"
proof (induction cs arbitrary: ms xs fs)
  case (Cons c cs)
  obtain o' e' t where c: "c = (o', e', t)" by (cases c)
  then obtain f ms1 fs' where s: "StoreSolved o' e' t ms = Some (f, ms1)" "run_calls cs ms1 = Some (fs', ms')"
    using Cons.prems(4) by (auto split: option.splits)
  have "t \<le> expiry (mem ms a)" using Cons.prems(3) c by auto
  note k = StoreSolved_keeps [OF Cons.prems(1,2) this s(1)]
  obtain ys where "store_inv ms1 ys" using StoreSolved_inv [OF Cons.prems(1) s(1)] by blast
  then show ?case using Cons.IH [of ms1 ys fs'] k Cons.prems(3) s(2) by auto
qed auto

text \<open>
  C25: a solution is accepted at most once while it is valid: once a call has accepted an object, every later call
  for it at a time not after its expiry returns and says it is not fresh, whatever was stored in between, in
  any order and with any clocks not past that expiry.
\<close>

theorem captcha_not_replayed:
  assumes "run_calls before NewMemStore = Some (fs, ms)" and "StoreSolved ob e t ms = Some (True, ms1)"
    and "run_calls between ms1 = Some (fs', ms2)" and "\<forall>(o', e', t')\<in>set between. t' \<le> e" and "t'' \<le> e"
  shows "\<exists>ms3. StoreSolved ob e'' t'' ms2 = Some (False, ms3)"
proof -
  obtain xs where xs: "store_inv ms xs" using run_calls_inv [OF new_store_inv assms(1)] by blast
  have s: "solved ms1 ob = Some (brk ms)" "expiry (mem ms1 (brk ms)) = e"
    using StoreSolved_step [OF xs, of t ob e] assms(2) by (auto split: if_splits)
  obtain ys where ys: "store_inv ms1 ys" using StoreSolved_inv [OF xs assms(2)] by blast
  have k: "solved ms2 ob = Some (brk ms)" "expiry (mem ms2 (brk ms)) = e"
    using run_calls_keeps [OF ys s(1) _ assms(3)] assms(4) s(2) by auto
  obtain zs where zs: "store_inv ms2 zs" using run_calls_inv [OF ys assms(3)] by blast
  show ?thesis
  proof (cases "StoreSolved ob e'' t'' ms2")
    case None
    then have "after_expiry t'' ms2 zs ob = None" using StoreSolved_step [OF zs, of t'' ob e''] by (auto split: if_splits)
    moreover have "after_expiry t'' ms2 zs ob = Some (brk ms)"
    proof -
      have "solved ms2 (obj (mem ms2 b)) = Some b" if "b \<in> set zs" for b using zs that by (auto simp: store_inv_def list_all_iff)
      then show ?thesis using k assms(5) by (auto simp: after_expiry_def dest!: set_takeWhileD)
    qed
    ultimately show ?thesis by simp
  next
    case (Some r)
    obtain f ms3 where r: "r = (f, ms3)" by (cases r)
    have "\<not> f"
    proof
      assume f
      then have "after_expiry t'' ms2 zs ob = None" using StoreSolved_step [OF zs, of t'' ob e''] Some r by (auto split: if_splits)
      moreover have "solved ms2 (obj (mem ms2 b)) = Some b" if "b \<in> set zs" for b using zs that by (auto simp: store_inv_def list_all_iff)
      ultimately show False
        using k assms(5) by (auto simp: after_expiry_def split: if_splits dest!: set_takeWhileD)
    qed
    then show ?thesis using Some r by simp
  qed
qed

definition sample_calls :: "call list" where
  "sample_calls = [(bs ''a'', 5, 1), (bs ''b'', 10, 2)]"

lemma run_sample: "map_option fst (run_calls sample_calls NewMemStore) = Some [True, True]"
  by (simp add: sample_calls_def NewMemStore_def StoreSolved_def expire_loop.simps insert_loop.simps Let_def set_nxt_def set_prv_def)

lemma captcha_not_replayed_witness:
  "\<exists>fs ms ms1 fs' ms2 ms3. run_calls [(bs ''a'', 5, 1)] NewMemStore = Some (fs, ms) \<and> StoreSolved (bs ''b'') 10 2 ms = Some (True, ms1) \<and>
     run_calls [(bs ''c'', 12, 8)] ms1 = Some (fs', ms2) \<and> StoreSolved (bs ''b'') 99 10 ms2 = Some (False, ms3)"
proof -
  obtain fs ms ms1 fs' ms2 where r: "run_calls [(bs ''a'', 5, 1)] NewMemStore = Some (fs, ms)"
    "StoreSolved (bs ''b'') 10 2 ms = Some (True, ms1)" "run_calls [(bs ''c'', 12, 8)] ms1 = Some (fs', ms2)"
    by (simp add: NewMemStore_def StoreSolved_def expire_loop.simps insert_loop.simps Let_def set_nxt_def set_prv_def drop_tail_def)
  show ?thesis using captcha_not_replayed [OF r(1,2,3), of 10 99] r by auto
qed

subsection \<open>The store as a table of expiry times\<close>

type_synonym table = "bytes \<Rightarrow> int option"

definition unexpired :: "int \<Rightarrow> table \<Rightarrow> table" where
  "unexpired t M = (\<lambda>ob. case M ob of None \<Rightarrow> None | Some x \<Rightarrow> if x < t then None else Some x)"

definition store_spec :: "bytes \<Rightarrow> int \<Rightarrow> int \<Rightarrow> table \<Rightarrow> bool \<times> table" where
  "store_spec ob e t M =
     (let M = unexpired t M in if M ob \<noteq> None then (False, M) else (True, M(ob \<mapsto> e)))"

text \<open>The store holds a table as long as every object in it is still in the list.\<close>

definition holds :: "MemStore \<Rightarrow> nat list \<Rightarrow> table \<Rightarrow> bool" where
  "holds ms xs M \<longleftrightarrow> store_inv ms xs \<and> (\<forall>ob a. solved ms ob = Some a \<longrightarrow> a \<in> set xs) \<and> (head ms = None \<longleftrightarrow> xs = []) \<and>
     M = (\<lambda>ob. map_option (\<lambda>a. expiry (mem ms a)) (solved ms ob))"

definition tracks :: "MemStore \<Rightarrow> table \<Rightarrow> bool" where
  "tracks ms M \<longleftrightarrow> (\<exists>xs. holds ms xs M)"

lemma tracks_new: "tracks NewMemStore Map.empty"
  by (auto simp: tracks_def holds_def store_inv_def NewMemStore_def fun_eq_iff intro!: exI [of _ "[]"])

lemma sorted_takeWhile_less:
  "sorted (map f xs) \<Longrightarrow> b \<in> set xs \<Longrightarrow> b \<in> set (takeWhile (\<lambda>a. f a < (t :: int)) xs) \<longleftrightarrow> f b < t"
  by (induction xs) auto

lemma after_expiry_unexpired:
  assumes "holds ms xs M"
  shows "(\<lambda>ob. map_option (\<lambda>a. expiry (mem ms a)) (after_expiry t ms xs ob)) = unexpired t M"
    "after_expiry t ms xs ob = Some a \<Longrightarrow> a \<in> set (left_after t ms xs)"
proof -
  have x: "solved ms (obj (mem ms b)) = Some b" "b \<in> set (takeWhile (\<lambda>a. expiry (mem ms a) < t) xs) \<longleftrightarrow> expiry (mem ms b) < t"
    if "b \<in> set xs" for b
    using assms that sorted_takeWhile_less [of "\<lambda>a. expiry (mem ms a)" xs b t] by (auto simp: holds_def store_inv_def list_all_iff)
  have s: "a \<in> set xs" "obj (mem ms a) = ob" if "solved ms ob = Some a" for ob a
    using assms that by (auto simp: holds_def store_inv_def)
  have g: "ob \<in> (\<lambda>a. obj (mem ms a)) ` set (takeWhile (\<lambda>a. expiry (mem ms a) < t) xs) \<longleftrightarrow> expiry (mem ms a) < t"
    if "solved ms ob = Some a" for ob a
  proof
    assume "ob \<in> (\<lambda>a. obj (mem ms a)) ` set (takeWhile (\<lambda>a. expiry (mem ms a) < t) xs)"
    then obtain b where "ob = obj (mem ms b)" "b \<in> set xs" "expiry (mem ms b) < t" by (auto dest: set_takeWhileD)
    then show "expiry (mem ms a) < t" using x(1) that by auto
  next
    assume "expiry (mem ms a) < t"
    then show "ob \<in> (\<lambda>a. obj (mem ms a)) ` set (takeWhile (\<lambda>a. expiry (mem ms a) < t) xs)"
      using s [OF that] x(2) [of a] by auto
  qed
  have M: "M ob = map_option (\<lambda>a. expiry (mem ms a)) (solved ms ob)" for ob using assms by (simp add: holds_def)
  show "(\<lambda>ob. map_option (\<lambda>a. expiry (mem ms a)) (after_expiry t ms xs ob)) = unexpired t M"
  proof
    fix ob show "map_option (\<lambda>a. expiry (mem ms a)) (after_expiry t ms xs ob) = unexpired t M ob"
      using g [of ob] by (cases "solved ms ob") (auto simp: after_expiry_def unexpired_def M)
  qed
  show "after_expiry t ms xs ob = Some a \<Longrightarrow> a \<in> set (left_after t ms xs)"
  proof -
    assume a: "after_expiry t ms xs ob = Some a"
    then have so: "solved ms ob = Some a" "\<not> expiry (mem ms a) < t" using g [of ob] by (auto simp: after_expiry_def split: if_splits)
    have "a \<in> set (takeWhile (\<lambda>a. expiry (mem ms a) < t) xs @ left_after t ms xs)" using s(1) [OF so(1)] by (simp add: left_after_def)
    then show ?thesis using so(2) by (auto dest: set_takeWhileD)
  qed
qed

lemma blocked_table:
  assumes "holds ms xs M"
  shows "blocked e ms \<longleftrightarrow> (\<exists>ob x. M ob = Some x \<and> e < x)"
proof
  assume "blocked e ms"
  then obtain h where h: "head ms = Some h" "e < expiry (mem ms h)" by (auto simp: blocked_def)
  then have "xs \<noteq> []" "last xs = h" using assms by (auto simp: holds_def store_inv_def)
  then have "h \<in> set xs" by (metis last_in_set)
  then have "solved ms (obj (mem ms h)) = Some h" using assms by (auto simp: holds_def store_inv_def list_all_iff)
  then have "M (obj (mem ms h)) = Some (expiry (mem ms h))" using assms by (simp add: holds_def)
  then show "\<exists>ob x. M ob = Some x \<and> e < x" using h(2) by blast
next
  assume "\<exists>ob x. M ob = Some x \<and> e < x"
  then obtain ob a where a: "solved ms ob = Some a" "e < expiry (mem ms a)" using assms by (auto simp: holds_def)
  then have "a \<in> set xs" using assms by (auto simp: holds_def)
  moreover from this have "expiry (mem ms a) \<le> expiry (mem ms (last xs))" "head ms = Some (last xs)"
    using assms sorted_map_last [of "\<lambda>a. expiry (mem ms a)" xs a] by (auto simp: holds_def store_inv_def split: option.splits)
  ultimately show "blocked e ms" using a(2) by (auto simp: blocked_def)
qed

text \<open>
  C26: while some object has not expired, the list and the table of nodes implement a plain table of expiry
  times: expired objects are forgotten first, an object is fresh exactly when it is not in the table, and then
  it is added; the call returns whenever the new object does not expire before one of the table.
\<close>

theorem memstore_refines:
  assumes "tracks ms M" and "M = Map.empty \<or> (\<exists>ob x. M ob = Some x \<and> t \<le> x)"
  shows "(\<forall>f ms'. StoreSolved ob e t ms = Some (f, ms') \<longrightarrow> (\<exists>M'. store_spec ob e t M = (f, M') \<and> tracks ms' M')) \<and>
    ((\<forall>ob x. M ob = Some x \<longrightarrow> x \<le> e) \<longrightarrow> StoreSolved ob e t ms \<noteq> None)"
proof -
  obtain xs where h: "holds ms xs M" using assms(1) by (auto simp: tracks_def)
  then have inv: "store_inv ms xs" by (simp add: holds_def)
  note step = StoreSolved_step [OF inv, of t ob e] and u = after_expiry_unexpired [OF h, of t]
  let ?ys = "left_after t ms xs"
  have he: "head ms = None \<longleftrightarrow> ?ys = []"
  proof -
    have "?ys \<noteq> []" if "head ms \<noteq> None"
    proof -
      have "xs \<noteq> []" using h that by (auto simp: holds_def)
      then have "M (obj (mem ms (List.hd xs))) \<noteq> None" using h by (cases xs) (auto simp: holds_def store_inv_def)
      then obtain ob x where "M ob = Some x" "t \<le> x" using assms(2) by fastforce
      then have "unexpired t M ob \<noteq> None" by (simp add: unexpired_def)
      then obtain a where "after_expiry t ms xs ob = Some a" unfolding u(1) [symmetric] by auto
      then show ?thesis using u(2) by fastforce
    qed
    moreover have "?ys = []" if "head ms = None" using h that by (simp add: holds_def left_after_def)
    ultimately show ?thesis by blast
  qed
  have p: "unexpired t M ob = None \<longleftrightarrow> after_expiry t ms xs ob = None" for ob unfolding u(1) [symmetric] by simp
  have "\<exists>M'. store_spec ob e t M = (f, M') \<and> tracks ms' M'" if s: "StoreSolved ob e t ms = Some (f, ms')" for f ms'
  proof (cases "after_expiry t ms xs ob = None")
    case False
    then have m: "f = False" "store_inv ms' ?ys" "solved ms' = after_expiry t ms xs"
      "\<forall>b. obj (mem ms' b) = obj (mem ms b) \<and> expiry (mem ms' b) = expiry (mem ms b)" "head ms' = head ms" using step s by auto
    have "holds ms' ?ys (unexpired t M)" using m u he by (auto simp: holds_def)
    moreover have "store_spec ob e t M = (f, unexpired t M)" using False p m(1) by (simp add: store_spec_def Let_def)
    ultimately show ?thesis unfolding tracks_def by blast
  next
    case True
    then have nb: "\<not> blocked e ms" using step s by auto
    then have m: "f = True" "store_inv ms' (with_new (brk ms) ms ?ys)" "solved ms' = (after_expiry t ms xs)(ob \<mapsto> brk ms)"
      "head ms' = Some (brk ms)" "expiry (mem ms' (brk ms)) = e" "\<forall>b. b \<noteq> brk ms \<longrightarrow> expiry (mem ms' b) = expiry (mem ms b)"
      using step s True by auto
    have w: "with_new (brk ms) ms ?ys = ?ys @ [brk ms]" using he by (auto simp: with_new_def)
    have lt: "a \<noteq> brk ms" if "after_expiry t ms xs ob' = Some a" for ob' a
      using inv that by (auto simp: store_inv_def after_expiry_def split: if_splits)
    have "(\<lambda>ob'. map_option (\<lambda>a. expiry (mem ms' a)) (solved ms' ob')) = (unexpired t M)(ob \<mapsto> e)"
    proof
      fix ob' show "map_option (\<lambda>a. expiry (mem ms' a)) (solved ms' ob') = ((unexpired t M)(ob \<mapsto> e)) ob'"
        unfolding u(1) [symmetric] using m lt by (cases "after_expiry t ms xs ob'") auto
    qed
    then have "holds ms' (?ys @ [brk ms]) ((unexpired t M)(ob \<mapsto> e))" using m w u(2) by (auto simp: holds_def)
    moreover have "store_spec ob e t M = (f, (unexpired t M)(ob \<mapsto> e))" using True p m(1) by (simp add: store_spec_def Let_def)
    ultimately show ?thesis unfolding tracks_def by blast
  qed
  moreover have "StoreSolved ob e t ms \<noteq> None" if "\<forall>ob x. M ob = Some x \<longrightarrow> x \<le> e"
  proof -
    have "\<not> blocked e ms" using blocked_table [OF h, of e] that by fastforce
    then show ?thesis using step by (auto split: if_splits)
  qed
  ultimately show ?thesis by blast
qed

lemma memstore_refines_witness:
  "\<exists>ms'. StoreSolved (bs ''a'') 5 1 NewMemStore = Some (True, ms') \<and> tracks ms' [bs ''a'' \<mapsto> 5]"
proof -
  have n: "StoreSolved (bs ''a'') 5 1 NewMemStore \<noteq> None \<and>
     (\<forall>f ms'. StoreSolved (bs ''a'') 5 1 NewMemStore = Some (f, ms') \<longrightarrow>
       (\<exists>M'. store_spec (bs ''a'') 5 1 Map.empty = (f, M') \<and> tracks ms' M'))"
    using memstore_refines [OF tracks_new, of 1 "bs ''a''" 5] by auto
  moreover have "store_spec (bs ''a'') 5 1 Map.empty = (True, [bs ''a'' \<mapsto> 5])" by (auto simp: store_spec_def unexpired_def Let_def fun_eq_iff)
  ultimately show ?thesis by (cases "StoreSolved (bs ''a'') 5 1 NewMemStore") auto
qed

text \<open>
  C27: a call never returns, and keeps the mutex so that no later call returns either, exactly when its object
  is not in the table but expires before some object of it: the loop that looks for its place compares with
  the head of the list for ever.
\<close>

theorem memstore_hangs:
  assumes "tracks ms M"
  shows "StoreSolved ob e t ms = None \<longleftrightarrow> unexpired t M ob = None \<and> (\<exists>ob' x. M ob' = Some x \<and> e < x)"
proof -
  obtain xs where h: "holds ms xs M" using assms by (auto simp: tracks_def)
  then have inv: "store_inv ms xs" by (simp add: holds_def)
  have "unexpired t M ob = None \<longleftrightarrow> after_expiry t ms xs ob = None" unfolding after_expiry_unexpired(1) [OF h, symmetric] by simp
  then show ?thesis using StoreSolved_step [OF inv, of t ob e] blocked_table [OF h, of e] by (auto split: if_splits)
qed

lemma memstore_hangs_witness:
  "\<exists>ms. run_calls [(bs ''a'', 10, 1)] NewMemStore = Some ([True], ms) \<and> StoreSolved (bs ''b'') 5 2 ms = None"
proof -
  obtain ms where ms: "run_calls [(bs ''a'', 10, 1)] NewMemStore = Some ([True], ms)" "StoreSolved (bs ''a'') 10 1 NewMemStore = Some (True, ms)"
    by (simp add: NewMemStore_def StoreSolved_def expire_loop.simps insert_loop.simps Let_def set_nxt_def set_prv_def)
  have "holds ms [0] [bs ''a'' \<mapsto> 10]"
    using ms(2)
    by (auto simp: NewMemStore_def StoreSolved_def expire_loop.simps insert_loop.simps Let_def set_nxt_def set_prv_def holds_def store_inv_def split: if_splits)
  then have "tracks ms [bs ''a'' \<mapsto> 10]" by (auto simp: tracks_def)
  then have "StoreSolved (bs ''b'') 5 2 ms = None" by (subst memstore_hangs) (auto simp: unexpired_def)
  then show ?thesis using ms(1) by blast
qed

text \<open>
  Once everything has expired the tail is lost for good: the head of the list is left over, so no later object
  becomes the tail, and none is ever forgotten again.
\<close>

lemma tail_lost:
  assumes "store_inv ms xs" "tail ms = None" "head ms \<noteq> None" "StoreSolved ob e t ms = Some (f, ms')"
  shows "tail ms' = None \<and> head ms' \<noteq> None \<and> (\<forall>ob'. solved ms ob' \<noteq> None \<longrightarrow> solved ms' ob' \<noteq> None)"
proof -
  have xs: "xs = []" using assms(1,2) by (cases xs) (auto simp: store_inv_def)
  have s: "after_expiry t ms xs = solved ms" "left_after t ms xs = []" by (simp_all add: xs after_expiry_def left_after_def)
  have w: "with_new (brk ms) ms [] = []" using assms(3) by (simp add: with_new_def)
  have t: "tail ms'' = None" if "store_inv ms'' []" for ms'' using that by (simp add: store_inv_def)
  show ?thesis using StoreSolved_step [OF assms(1), of t ob e] assms(3,4) unfolding s w by (auto split: if_splits intro: t)
qed

end
