(* ===== verification/ModPriv.thy ===== *)
theory ModPriv
  imports Prelude
begin

text \<open>
  \<open>app/psqlib/internal/pibasemod/modpriv.go\<close> and its users in \<open>pipostbase/post-common.go\<close>: what moderators may
  do. A capability set is a bit field, a level a signed 16-bit number of which lower ones allow more, \<open>-1\<close>
  stands for none and is the highest when read as unsigned. A panic is \<open>None\<close>.
\<close>

type_synonym CapType = "16 word"
type_synonym TCapLvl = "16 word"
type_synonym NullInt32 = "32 word option"

definition Cap_DelPost :: CapType where "Cap_DelPost = push_bit 1 1"
definition Cap_DelBoardPost :: CapType where "Cap_DelBoardPost = push_bit 2 1"
definition Cap_DelBoard :: CapType where "Cap_DelBoard = push_bit 3 1"
definition capX_Bits :: nat where "capX_Bits = 12"

definition cap_String :: "CapType \<Rightarrow> bytes" where
  "cap_String c = map (\<lambda>i. if drop_bit i c AND 1 = 0 then 48 else 49) [0..<capX_Bits]"

fun cap_loop :: "nat \<Rightarrow> bytes \<Rightarrow> CapType \<Rightarrow> CapType option" where
  "cap_loop i [] c = Some c"
| "cap_loop i (ch # s) c =
     (if ch = 48 then cap_loop (i + 1) s c
      else if ch = 49 then cap_loop (i + 1) s (c OR push_bit i 1)
      else None)"

definition StrToCap :: "bytes \<Rightarrow> CapType option" where
  "StrToCap s = (if length s \<noteq> capX_Bits then None else cap_loop 0 s 0)"

definition CapLvlX_Num :: nat where "CapLvlX_Num = 1"

definition caplvlx_mask :: "CapType list" where "caplvlx_mask = [Cap_DelBoard]"

definition CapLvl_MaxVal :: nat where "CapLvl_MaxVal = 0x7FFF"

record ModCap =
  Cap :: CapType
  CapLevel :: "TCapLvl list"

definition NoneModCap :: ModCap where
  "NoneModCap = \<lparr>Cap = 0, CapLevel = [-1]\<rparr>"

text \<open>The zero value of the structure.\<close>

definition zeroModCap :: ModCap where
  "zeroModCap = \<lparr>Cap = 0, CapLevel = replicate CapLvlX_Num 0\<rparr>"

definition MorePriv :: "ModCap \<Rightarrow> ModCap \<Rightarrow> CapType \<Rightarrow> bool" where
  "MorePriv c p mk =
     (let cc = Cap c AND mk; oc = Cap p AND mk
      in (cc OR oc) \<noteq> cc \<or>
         list_ex (\<lambda>i. mk AND caplvlx_mask ! i \<noteq> 0 \<and> CapLevel p ! i < CapLevel c ! i) [0..<CapLvlX_Num])"

definition Merge :: "ModCap \<Rightarrow> ModCap \<Rightarrow> ModCap" where
  "Merge c p =
     \<lparr>Cap = Cap c OR Cap p,
      CapLevel = map (\<lambda>i. if CapLevel c ! i \<le> CapLevel p ! i then CapLevel c ! i else CapLevel p ! i) [0..<CapLvlX_Num]\<rparr>"

fun level_loop :: "nat \<Rightarrow> nat \<Rightarrow> NullInt32 list \<Rightarrow> TCapLvl list option" where
  "level_loop 0 i arr = Some []"
| "level_loop (Suc n) i arr =
     (case (if i < length arr then arr ! i else None) of
        None \<Rightarrow> map_option ((#) (-1)) (level_loop n (i + 1) arr)
      | Some v \<Rightarrow>
          if unat v > CapLvl_MaxVal then None
          else map_option ((#) (ucast v)) (level_loop n (i + 1) arr))"

definition ProcessCapLevel :: "ModCap \<Rightarrow> NullInt32 list \<Rightarrow> ModCap option" where
  "ProcessCapLevel mc arr = map_option (\<lambda>ls. mc\<lparr>CapLevel := ls\<rparr>) (level_loop CapLvlX_Num 0 arr)"

text \<open>
  \<open>TakeIn\<close>: the capabilities and levels of the boards, as stored. The keys of the maps are distinct, so the order
  in which the loop meets them does not matter. Scanning an array of PostgreSQL is a parameter.
\<close>

type_synonym ModBoardCap = "bytes \<Rightarrow> ModCap option"

definition take_board ::
  "(bytes \<Rightarrow> NullInt32 list option) \<Rightarrow> (bytes \<Rightarrow> bytes option) \<Rightarrow> bytes \<Rightarrow> bytes \<Rightarrow> ModCap option" where
  "take_board scan caplvls k scap =
     (case StrToCap scap of
        None \<Rightarrow> None
      | Some c \<Rightarrow>
          let mc = zeroModCap\<lparr>Cap := c\<rparr>; scaplvl = (case caplvls k of None \<Rightarrow> [] | Some s \<Rightarrow> s)
          in if scaplvl \<noteq> [] then
               (case scan scaplvl of
                  None \<Rightarrow> None
                | Some arr \<Rightarrow> if length arr \<noteq> CapLvlX_Num then None else ProcessCapLevel mc arr)
             else ProcessCapLevel mc [])"

fun TakeIn :: "(bytes \<Rightarrow> NullInt32 list option) \<Rightarrow> (bytes \<times> bytes) list \<Rightarrow> (bytes \<Rightarrow> bytes option) \<Rightarrow> ModBoardCap \<Rightarrow> ModBoardCap option" where
  "TakeIn scan [] caplvls c = Some c"
| "TakeIn scan ((k, scap) # caps) caplvls c =
     (case take_board scan caplvls k scap of None \<Rightarrow> None | Some mc \<Rightarrow> TakeIn scan caps caplvls (c(k \<mapsto> mc)))"

text \<open>What \<open>ModPrivFetch.parse\<close> makes of one capability set and its levels, either of which may be NULL.\<close>

definition parse_cap :: "bytes option \<Rightarrow> NullInt32 list option \<Rightarrow> ModCap option" where
  "parse_cap s lvl =
     (case (case s of None \<Rightarrow> Some zeroModCap | Some s \<Rightarrow> map_option (\<lambda>c. zeroModCap\<lparr>Cap := c\<rparr>) (StrToCap s)) of
        None \<Rightarrow> None
      | Some mc \<Rightarrow> (case lvl of None \<Rightarrow> Some mc | Some arr \<Rightarrow> ProcessCapLevel mc arr))"

definition makeCapLvlArray :: "ModCap \<Rightarrow> NullInt32 list" where
  "makeCapLvlArray mc = map (\<lambda>i. if 0 \<le>s CapLevel mc ! i then Some (scast (CapLevel mc ! i)) else None) [0..<CapLvlX_Num]"

subsection \<open>More and less\<close>

definition wf_cap :: "ModCap \<Rightarrow> bool" where
  "wf_cap c \<longleftrightarrow> length (CapLevel c) = CapLvlX_Num"

text \<open>\<open>within mk p c\<close>: \<open>p\<close> has nothing that matters to \<open>mk\<close> beyond \<open>c\<close>.\<close>

definition within :: "CapType \<Rightarrow> ModCap \<Rightarrow> ModCap \<Rightarrow> bool" where
  "within mk p c \<longleftrightarrow> \<not> MorePriv c p mk"

lemma within_bits:
  "within mk p c \<longleftrightarrow> (\<forall>n<16. bit (Cap p) n \<longrightarrow> bit mk n \<longrightarrow> bit (Cap c) n) \<and>
     (mk AND Cap_DelBoard \<noteq> 0 \<longrightarrow> CapLevel c ! 0 \<le> CapLevel p ! 0)"
proof -
  have "(Cap c AND mk) OR (Cap p AND mk) = Cap c AND mk \<longleftrightarrow> (\<forall>n<16. bit (Cap p) n \<longrightarrow> bit mk n \<longrightarrow> bit (Cap c) n)"
    by (auto simp: bit_eq_iff bit_simps)
  then show ?thesis by (auto simp: within_def MorePriv_def Let_def CapLvlX_Num_def caplvlx_mask_def not_less)
qed

text \<open>An order in which two sets of privileges have a least common upper bound.\<close>

locale privileges =
  fixes below :: "'a \<Rightarrow> 'a \<Rightarrow> bool" and join :: "'a \<Rightarrow> 'a \<Rightarrow> 'a" and least :: 'a
  assumes refl: "below a a" and trans: "below a b \<Longrightarrow> below b c \<Longrightarrow> below a c"
    and upper1: "below a (join a b)" and upper2: "below b (join a b)"
    and lub: "below a c \<Longrightarrow> below b c \<Longrightarrow> below (join a b) c" and least: "below least a"
begin

lemma join_mono: "below a a' \<Longrightarrow> below b b' \<Longrightarrow> below (join a b) (join a' b')"
  by (blast intro: lub trans upper1 upper2)

lemma fold_upper: "a \<in> set xs \<Longrightarrow> below a (foldr join xs z)"
  by (induction xs) (auto intro: trans upper1 upper2)

lemma fold_lub: "(\<And>a. a \<in> set xs \<Longrightarrow> below a c) \<Longrightarrow> below (foldr join xs least) c"
  by (induction xs) (auto intro: lub least)

lemma below_join: "below a b \<longleftrightarrow> below (join a b) b"
  by (blast intro: lub refl trans upper1)

end

interpretation caps: privileges "within mk" Merge NoneModCap
proof unfold_locales
  fix a b c
  show "within mk a (Merge a b)" "within mk b (Merge a b)"
    by (auto simp: within_bits Merge_def CapLvlX_Num_def bit_simps)
  show "within mk a c \<Longrightarrow> within mk b c \<Longrightarrow> within mk (Merge a b) c"
    by (auto simp: within_bits Merge_def CapLvlX_Num_def bit_simps)
  show "within mk NoneModCap a"
    by (auto simp: within_bits NoneModCap_def word_order.extremum)
qed (auto simp: within_bits)

text \<open>
  C28: merging moderators' privileges gives exactly what they have together, for every mask: nobody merged has
  more, and whoever has at least what each of them has has at least the merged privileges.
\<close>

theorem merged_privileges:
  "MorePriv r (foldr Merge ms NoneModCap) mk = list_ex (\<lambda>c. MorePriv r c mk) ms \<and>
   list_all (\<lambda>c. \<not> MorePriv (foldr Merge ms NoneModCap) c mk) ms"
proof
  have "within mk (foldr Merge ms NoneModCap) r \<longleftrightarrow> (\<forall>c\<in>set ms. within mk c r)"
    using caps.fold_lub [of ms mk r] caps.fold_upper [of _ ms mk NoneModCap] caps.trans [of mk] by blast
  then show "MorePriv r (foldr Merge ms NoneModCap) mk = list_ex (\<lambda>c. MorePriv r c mk) ms"
    by (auto simp: within_def list_ex_iff)
  show "list_all (\<lambda>c. \<not> MorePriv (foldr Merge ms NoneModCap) c mk) ms"
    using caps.fold_upper [of _ ms mk NoneModCap] by (simp add: within_def list_all_iff)
qed

subsection \<open>Storing and loading\<close>

lemma bit_field: "bit (push_bit i (mask n) :: CapType) k \<longleftrightarrow> i \<le> k \<and> k < 16 \<and> k < i + n"
  by (auto simp: bit_push_bit_iff bit_mask_iff)

lemma bit_mask_step: "bit (c AND push_bit i (mask (Suc n))) k \<longleftrightarrow> bit (c AND push_bit i 1) k \<or> bit (c AND push_bit (Suc i) (mask n)) k"
  for c :: CapType
proof -
  have o: "bit (push_bit i 1 :: CapType) k \<longleftrightarrow> k = i \<and> k < 16"
    using bit_field [of i 1 k] by auto
  show ?thesis unfolding bit_and_iff bit_field o by (auto simp: le_eq_less_or_eq)
qed

lemma digit_zero: "drop_bit i c AND 1 = 0 \<longleftrightarrow> \<not> bit c i" for c :: CapType
  by (simp add: and_one_eq bit_iff_odd_drop_bit odd_iff_mod_2_eq_one)

lemma cap_loop_String:
  "cap_loop i (map (\<lambda>k. if drop_bit k c AND 1 = 0 then 48 else 49) [i..<i + n]) d =
     Some (d OR (c AND push_bit i (mask n)))"
proof (induction n arbitrary: i d)
  case (Suc n)
  have u: "[i..<i + Suc n] = i # [Suc i..<Suc i + n]" by (simp add: upt_conv_Cons)
  have m: "c AND push_bit i (mask (Suc n)) = (c AND push_bit i 1) OR (c AND push_bit (Suc i) (mask n))"
    by (rule bit_eqI) (simp add: bit_mask_step bit_or_iff)
  have "c AND push_bit i 1 = (if bit c i then push_bit i 1 else 0)"
    by (rule bit_word_eqI) (auto simp: bit_simps)
  then show ?case unfolding u m using Suc.IH [of "Suc i"] by (auto simp: digit_zero or.assoc)
qed simp

lemma StrToCap_String: "StrToCap (cap_String c) = Some (take_bit capX_Bits c)"
proof -
  have "length (cap_String c) = capX_Bits" by (simp add: cap_String_def)
  moreover have "cap_loop 0 (cap_String c) 0 = Some (take_bit capX_Bits c)"
    using cap_loop_String [of 0 c capX_Bits 0] by (simp add: cap_String_def take_bit_eq_mask)
  ultimately show ?thesis by (simp add: StrToCap_def)
qed

lemma narrow_widen: "ucast (scast l :: 32 word) = l" for l :: TCapLvl
proof (rule bit_word_eqI)
  fix n assume "n < LENGTH(16)"
  then have "min 15 n = n" and "n < 16" by auto
  then show "bit (ucast (scast l :: 32 word) :: TCapLvl) n \<longleftrightarrow> bit l n" by (simp add: bit_simps)
qed

lemma nonneg_level: "unat (scast l :: 32 word) \<le> CapLvl_MaxVal" if "0 \<le>s l" for l :: TCapLvl
proof -
  have s: "0 \<le> sint l" using that by (simp add: word_sle_eq)
  have b: "sint l < 32768" using sint_lt [of l] by simp
  have "uint (word_of_int (sint l) :: 32 word) = take_bit 32 (sint l)" by (simp only: uint_word_of_int_eq) simp
  also have "\<dots> = sint l" using s b by (intro take_bit_int_eq_self) auto
  finally have "uint (scast l :: 32 word) = sint l" by (simp only: scast_eq)
  then show ?thesis using b by (simp add: CapLvl_MaxVal_def unat_eq_nat_uint)
qed

lemma level_loop_stored:
  "level_loop (Suc 0) 0 [if 0 \<le>s l then Some (scast l) else None] = Some [if 0 \<le>s l then l else -1]"
  using nonneg_level [of l] narrow_widen [of l] by (auto simp: not_less [symmetric])

text \<open>
  C29: what is stored of a set of privileges is what loading it gives back: the twelve capability bits, and every
  level that is set, while every level that is not set comes back as \<open>-1\<close>. Nothing \<open>setModCap\<close> stores makes the
  loader panic.
\<close>

theorem modcap_roundtrip:
  assumes "wf_cap c"
  shows "parse_cap (Some (cap_String (Cap c))) (Some (makeCapLvlArray c)) =
    Some \<lparr>Cap = take_bit capX_Bits (Cap c), CapLevel = map (\<lambda>l. if 0 \<le>s l then l else -1) (CapLevel c)\<rparr>"
proof -
  obtain l where l: "CapLevel c = [l]" using assms by (auto simp: wf_cap_def CapLvlX_Num_def length_Suc_conv)
  show ?thesis using level_loop_stored [of l]
    by (cases "0 \<le>s l") (simp_all del: level_loop.simps add: parse_cap_def StrToCap_String ProcessCapLevel_def makeCapLvlArray_def CapLvlX_Num_def l zeroModCap_def)
qed

theorem modcap_roundtrip_witness:
  "wf_cap \<lparr>Cap = 6, CapLevel = [7]\<rparr> \<and>
   parse_cap (Some (cap_String 6)) (Some (makeCapLvlArray \<lparr>Cap = 6, CapLevel = [7]\<rparr>)) = Some \<lparr>Cap = 6, CapLevel = [7]\<rparr>"
proof
  show w: "wf_cap \<lparr>Cap = 6, CapLevel = [7]\<rparr>" by (simp add: wf_cap_def CapLvlX_Num_def)
  have "0 \<le>s (7 :: TCapLvl)" "take_bit capX_Bits 6 = (6 :: CapType)" by (simp_all add: capX_Bits_def word_sle_eq)
  then show "parse_cap (Some (cap_String 6)) (Some (makeCapLvlArray \<lparr>Cap = 6, CapLevel = [7]\<rparr>)) =
      Some \<lparr>Cap = 6, CapLevel = [7]\<rparr>"
    using modcap_roundtrip [OF w] by simp
qed

text \<open>
  A moderator of which the database keeps no level is given level 0, the one that allows most, where a level that
  is not set reads as \<open>-1\<close>: so he has more privileges than a moderator who has none, and so does whatever is
  merged with his.
\<close>

lemma null_level_is_best:
  "\<exists>p. parse_cap None None = Some p \<and> MorePriv NoneModCap p Cap_DelBoard \<and>
     parse_cap None (Some []) = Some NoneModCap"
proof (intro exI [of _ zeroModCap] conjI)
  show "MorePriv NoneModCap zeroModCap Cap_DelBoard" by code_simp
qed (simp_all add: parse_cap_def ProcessCapLevel_def zeroModCap_def NoneModCap_def CapLvlX_Num_def)

end
