(* ===== verification/Spec2Isabelle.thy ===== *)
theory Spec2Isabelle
  imports Pcg Yenc NntpProps MailProps NntpFederation RefFixup CaptchaStore ModPriv
begin

text \<open>
  A verification library for nksrv, a news and image-board server in Go. All source names below are
  relative to \<open>src/src/nksrv/lib\<close>.

  \<^bold>\<open>The program.\<close> A connection of the NNTP server (\<open>nntp/server.go\<close>) reads lines through a buffered reader
  (\<open>utils/text/bufreader\<close>), cuts them into a command and its arguments and runs a handler
  (\<open>nntp/scmd_*.go\<close>). Handlers check syntax and privileges, answer with the responses of
  \<open>nntp/responses.go\<close> and call the provider of articles (\<open>nntp/nntpprovider.go\<close>), of which the repository's
  test server (\<open>nntp/testsrv\<close>) is one. An article is transferred as a dot-stuffed block
  (\<open>bufreader/dotreader.go\<close>), its head is parsed by \<open>mail\<close>. Group patterns are \<open>nntp/wildmat.go\<close>,
  attachments may be yEnc (\<open>utils/yenc\<close>), random numbers are PCG (\<open>utils/pcg\<close>). The puller
  (\<open>nntp/client_puller.go\<close>) is a client of other servers: it lists their groups, keeps what it has seen in
  tables (\<open>app/psqlib/piold/nntppullerdb.go\<close>) and fetches new articles; which groups it may add is the
  group policy (\<open>app/psqlib/internal/pigpolicy\<close>). A post of the board may refer to others in its text: the
  references are found (\<open>app/ibref/ibrefsrnd\<close>), looked up and stored as links
  (\<open>app/psqlib/internal/pirefs\<close>) and rendered (\<open>app/renderer/tmplrenderer/fmtmsg.go\<close>). Who posts solves a
  captcha (\<open>app/captchastore/memstore\<close>); moderators have privileges (\<open>app/psqlib/internal/pibasemod\<close>).

  \<^bold>\<open>Common ground.\<close> \<open>Prelude\<close>: bytes, words, byte strings (\<open>bs\<close>), lists and iteration. \<open>Streams\<close>: an
  \<open>io.Reader\<close> as the list of what its reads deliver, the sequence of bytes and errors it stands for,
  writers with a bound. \<open>Utf8\<close>: validity and widths of Go's \<open>unicode/utf8\<close>.

  \<^bold>\<open>Texts.\<close> \<open>AsciiUtils\<close> (\<open>utils/text/asciiutils\<close>): folding comparison, fields, trimming, splitting of long
  lines, the text reader that unifies line ends. \<open>BufReader\<close>: all methods of the buffered reader with
  their positions and the queued error; each is refined by an operation on the sequence of bytes and
  errors, so the results do not depend on how the network cuts the input. \<open>DotReader\<close>: the state machine
  that undoes dot-stuffing, over an interface of byte sources (locale \<open>byte_source\<close>) that the buffered
  reader implements; it is the inverse of the wire format. \<open>Yenc\<close>: encoder and decoder, their round trip
  and the corrupt inputs. \<open>Pcg\<close>: the five generators as words, bounded draws without bias, exact skipping
  (locale of linear congruential generators), the periods (of \<open>PCG32x2\<close>, whose halves step together, only \<open>2 ^ 64\<close>).

  \<^bold>\<open>Patterns and arguments.\<close> \<open>Wildmat\<close>: validation and compilation to regular expressions, with the
  matching of the expressions the compiler writes, against the definition of RFC 3977. \<open>NntpUtil\<close>
  (\<open>nntp/servutil.go\<close>): keywords, message ids, ranges, dates.

  \<^bold>\<open>The NNTP server.\<close> \<open>NntpConn\<close>: the record \<open>conn\<close> is \<open>ConnState\<close> (reader, dot reader, responses sent,
  how many responses the client will still take, group, privileges, authentication, pending login, TLS,
  and the provider's own state \<open>pst\<close>). A handler returns an \<open>outcome\<close>: a value and the new state, a panic
  with the state it leaves, or that it never ends. \<open>AbortOnErr\<close> is a panic, which \<open>serveClient\<close> recovers.
  \<open>NntpCmds\<close>: the command tables, the argument parser, all handlers. \<open>NntpServer\<close>: one round of the
  command loop (\<open>serve_round\<close>), the loop, the set-up of a connection. What a command finds around it
  (\<open>env\<close>: configuration, clock, outcome of a TLS handshake) may change from round to round. \<open>NntpLaws\<close>:
  the contract a provider must keep (locale \<open>provider_laws\<close>) and, for every handler, that it ends, answers,
  only reads forward and changes the login as the abstract machine \<open>auth_step\<close> allows. \<open>NntpLoop\<close>: the
  same for rounds and connections, and isolation of clients without privileges. \<open>NntpTestsrv\<close>: data and
  methods of the test provider and the proof that it keeps the contract. \<open>NntpProps\<close>: the properties, and
  where a panic of a handler can come from: missing output, a certificate provider that is not set, after the
  response to \<open>STARTTLS\<close>, or the provider (\<open>hushed\<close> replaces its panics).

  \<^bold>\<open>Message heads.\<close> \<open>MailHeaders\<close>: canonical names, header maps (association lists without double keys),
  and the head reader: \<open>hdr_chunk\<close> eats one chunk of buffered input, \<open>readHeaderIntoFunc\<close> fetches chunks,
  \<open>limited_read\<close> is the limit. \<open>MailHeadLaws\<close>: an interface of sources (locales \<open>io_reader\<close>, \<open>io_source\<close>)
  and independence of the chunks. \<open>MailHead\<close>: the dot reader as such a source, \<open>SkipHeaders\<close>, and the
  interface \<open>head_reader\<close> the test provider uses. \<open>MailWrite\<close>: the writer, the invariant of what is read
  (\<open>good_entry\<close>), the round trip. \<open>MailProps\<close>: the properties.

  \<^bold>\<open>The puller.\<close> \<open>NntpClient\<close> (\<open>client_common.go\<close>, \<open>client_puller_utils.go\<close>, \<open>mail/tools.go\<close>): the record
  \<open>NNTPClient\<close> (reader, dot reader, lines sent, how many more the server takes, \<open>clientState\<close>), responses, and
  the parsers that read a block byte by byte. \<open>NntpPuller\<close>: the interface \<open>PullerDatabase\<close> as a record of
  functions on a state of its own, the lists of groups, capabilities, \<open>GROUP\<close>, one article. A call that is
  given an \<open>io.Reader\<close> is a tree of reads (\<open>reading\<close>). \<open>NntpPipe\<close>: \<open>processTODOList\<close> with its two
  goroutines: the record \<open>pipe\<close> holds the queue, both program counters and what was asked and answered;
  which goroutine goes on is decided by coins in the state, so a statement for all states is one for all
  schedules. \<open>NntpScan\<close>: lists of articles, slices, groups, the scan, a session. \<open>NntpClientLaws\<close>,
  \<open>NntpPullLaws\<close>, \<open>NntpPipeLaws\<close>, \<open>NntpScanLaws\<close>: every function returns and only reads forward, for every
  database with the contract of the locale \<open>puller_db\<close> (the rows it still has to load run out); the invariant
  \<open>pipe_ok\<close> of the pipeline and its measure, and with \<open>pipe_base\<close> (well-formed reader, ids that can be cut) that
  a next step exists. \<open>GroupPolicy\<close>: compilation and checking of policies.
  \<open>NntpPullerDB\<close>: the tables, the SQL statements as functions on them that may fail, the methods of
  \<open>PullerDB\<close>, and the interpretation of \<open>puller_db\<close>. \<open>NntpTracks\<close>: the tables as a map (\<open>tracked\<close>), what a
  list leaves for the scan (\<open>listed\<close>, \<open>loads\<close>). \<open>NntpPullProps\<close>, \<open>NntpListing\<close>, \<open>NntpFederation\<close>: the
  properties, the last two from the bytes on the wire to the rows of the scan, and from the test provider's
  groups to the puller's.

  \<^bold>\<open>Posts.\<close> \<open>Regexp\<close>: the leftmost-first matching of Go's \<open>regexp\<close> for the constructs the patterns of posts
  use, as the list of all matches in the order of preference; \<open>FindAll\<close> as Go iterates it. \<open>PostRefs\<close>: the
  patterns and \<open>ParseReferences\<close>. \<open>RefQuery\<close>: the SQL text built for the references and the reading of its
  rows; the database is a parameter, an answer for each text. \<open>RefFixup\<close>: what storing a post does to the
  references of others, over a transaction as a state with operations. \<open>FmtMsg\<close>: \<open>formatmsg\<close>, its closures as
  functions on the record \<open>fmtvars\<close> of its local variables. \<open>PostRefsLaws\<close>, \<open>RefQueryLaws\<close> (a lexer of SQL
  literals, locale \<open>selector\<close> for the two queries), \<open>RefRows\<close> (which rows of an answer take effect, in whatever
  order they come: PostgreSQL promises none for \<open>UNION ALL\<close>), \<open>FmtMsgLaws\<close> (what a page consists of), \<open>PostProps\<close>: bounds
  and order of references, no injection into SQL or HTML, no panic from the text to the page.

  \<^bold>\<open>Captchas and moderators.\<close> \<open>CaptchaStore\<close>: the linked list of solved captchas on an explicit store of
  nodes, so that pointers and aliasing are those of the code; a captcha is accepted once, and the list is
  refined to a table while some object is left; calls that never return. \<open>ModPriv\<close>: capabilities and levels
  as words; merging is a least upper bound (locale \<open>privileges\<close>); what is stored is loaded back.

  \<^bold>\<open>Termination and bounds.\<close> No fuel is used: recursion is structural or by a measure, and loops that
  might not end are partial functions with the value \<open>None\<close>, proved to end where they do. Lengths and
  positions are natural numbers; words keep their width where the code computes with them. The invariant
  of the heads read assumes less than \<open>2^32\<close> bytes, since split points are stored as \<open>uint32\<close>.

  In the puller's tables a number above \<open>2^63 - 1\<close>, which the puller never stores, is accepted where the driver would
  refuse it, and the temporary list is ordered by the board's name, which is the newsgroup's name for the boards
  the puller makes.

  A step of a goroutine is the code between two channel operations; the calls of the database and the
  reads of one goroutine are not interleaved with those of the other inside a step.

  \<^bold>\<open>Not modelled.\<close> The log; TLS itself, password hashes, regular expressions and \<open>time.Date\<close> beyond the
  forms used (parameters or documented behaviour); JSON; the accept loops and shutdown of the server; dialing
  and waiting of the puller, and its pushing counterpart; of the puller's database the registration of
  pullers and the times of \<open>NEWNEWS\<close> and \<open>NEWGROUPS\<close>; MIME parts, whose work is done by \<open>mime\<close> and
  \<open>mime/multipart\<close>; the rest of the database provider (\<open>app/psqlib\<close>), whose logic is in SQL; the templates
  of the renderers; the drawing and the keys of captchas; thumbnailers, which run programs; \<open>modctl.go\<close> and
  \<open>fmtCtx.format\<close>, which do not compile; the programs under \<open>cmd\<close>.
\<close>

end
